(* ===== verification/Prelude.thy ===== *)
theory Prelude
  imports Main "HOL-Library.Word"
begin

unbundle bit_operations_syntax

text \<open>
  Shared vocabulary of the development: the machine integers of the on-disk structures,
  the result codes of src/src/include/obmafs.h, byte buffers with the C idioms the code
  uses on them (field access in a packed struct, memcpy into a buffer), little-endian
  encoding of machine integers, and packed arrays of fixed-size records, which are the
  payload of every B+Tree node.
\<close>

section \<open>Machine integers, buffers and result codes\<close>

type_synonym u8 = "8 word"
type_synonym u16 = "16 word"
type_synonym u32 = "32 word"
type_synonym u64 = "64 word"
type_synonym bytes = "8 word list"

text \<open>The return codes of the library (obmafs.h, lines 80-90).\<close>

datatype rc =
    OBMAFS3_OK
  | OBMAFS3_ERR_IO
  | OBMAFS3_ERR_NOMEM
  | OBMAFS3_ERR_BADMAGIC
  | OBMAFS3_ERR_CHECKSUM
  | OBMAFS3_ERR_NOTFOUND
  | OBMAFS3_ERR_INVAL
  | OBMAFS3_ERR_EXISTS
  | OBMAFS3_ERR_NOSPC
  | OBMAFS3_ERR_REVISION
  | OBMAFS3_ERR_INCOMPAT

named_theorems codec_simps \<open>encoding and decoding of packed structures\<close>
named_theorems dev_simps \<open>reads after writes on the block device\<close>
named_theorems pack_simps \<open>packed arrays of fixed-size records\<close>

lemma unat_less_not_bit: "unat w < 2 ^ n \<Longrightarrow> \<not> bit (w :: 'a::len word) n"
proof
  assume "unat w < 2 ^ n" "bit w n"
  then have "bit (unat w) n" by (simp add: bit_unsigned_iff)
  with \<open>unat w < 2 ^ n\<close> show False by (simp add: bit_iff_odd)
qed

lemma unat_u64: "unat (w :: u64) < 2 ^ 64"
  using unsigned_less [of w, where ?'a = nat] by simp

lemma of_nat_unat_id [simp]: "of_nat (unat w) = (w :: 'a::len word)"
  by simp

section \<open>Fields of a packed structure\<close>

text \<open>
  \<open>fld off n buf\<close> is the field of \<open>n\<close> bytes at offset \<open>off\<close>; \<open>put off xs buf\<close> is
  \<open>memcpy(buf + off, xs, length xs)\<close>.
\<close>

definition fld :: "nat \<Rightarrow> nat \<Rightarrow> 'a list \<Rightarrow> 'a list" where
  "fld off n buf = take n (drop off buf)"

definition put :: "nat \<Rightarrow> 'a list \<Rightarrow> 'a list \<Rightarrow> 'a list" where
  "put off xs buf = take off buf @ xs @ drop (off + length xs) buf"

lemma fld_append [codec_simps]:
  "fld off n (xs @ ys) =
     (if length xs \<le> off then fld (off - length xs) n ys
      else if off + n \<le> length xs then fld off n xs
      else fld off n xs @ take (off + n - length xs) ys)"
  by (auto simp: fld_def add.commute)

lemma fld_0_all [codec_simps]: "length xs = n \<Longrightarrow> fld 0 n xs = xs"
  by (simp add: fld_def)

lemma length_fld [simp]: "length (fld off n buf) = min n (length buf - off)"
  by (simp add: fld_def)

lemma length_put [simp]: "off + length xs \<le> length buf \<Longrightarrow> length (put off xs buf) = length buf"
  by (simp add: put_def)

lemma nth_fld: "i < n \<Longrightarrow> off + i < length buf \<Longrightarrow> fld off n buf ! i = buf ! (off + i)"
  by (simp add: fld_def)

lemma nth_put:
  "off + length xs \<le> length buf \<Longrightarrow> i < length buf \<Longrightarrow>
   put off xs buf ! i = (if off \<le> i \<and> i < off + length xs then xs ! (i - off) else buf ! i)"
  by (auto simp: put_def nth_append)

lemma fld_put_same:
  "off + length xs \<le> length buf \<Longrightarrow> n = length xs \<Longrightarrow> fld off n (put off xs buf) = xs"
  by (simp add: fld_def put_def)

lemma fld_put_other:
  assumes "off + length xs \<le> length buf" "p + n \<le> off \<or> off + length xs \<le> p" "p + n \<le> length buf"
  shows "fld p n (put off xs buf) = fld p n buf"
proof (rule nth_equalityI)
  show "length (fld p n (put off xs buf)) = length (fld p n buf)"
    using assms by simp
next
  fix i assume "i < length (fld p n (put off xs buf))"
  then have "i < n" "p + i < length buf" using assms by simp_all
  then show "fld p n (put off xs buf) ! i = fld p n buf ! i"
    using assms by (auto simp: nth_fld nth_put)
qed

section \<open>Little-endian encoding\<close>

primrec le_enc :: "nat \<Rightarrow> 'a::len word \<Rightarrow> bytes" where
  "le_enc 0 w = []"
| "le_enc (Suc n) w = ucast w # le_enc n (drop_bit 8 w)"

primrec le_dec :: "bytes \<Rightarrow> 'a::len word" where
  "le_dec [] = 0"
| "le_dec (b # bs) = ucast b OR push_bit 8 (le_dec bs)"

lemma length_le_enc [simp]: "length (le_enc n w) = n"
  by (induction n arbitrary: w) simp_all

lemma le_dec_enc_take_bit: "le_dec (le_enc n w) = take_bit (8 * n) (w :: 'a::len word)"
proof (induction n arbitrary: w)
  case 0
  show ?case by simp
next
  case (Suc n)
  have "le_dec (le_enc (Suc n) w) = ucast (ucast w :: u8) OR push_bit 8 (take_bit (8 * n) (drop_bit 8 w))"
    by (simp add: Suc)
  also have "\<dots> = take_bit (8 * Suc n) w"
    by (rule bit_word_eqI) (auto simp: bit_simps)
  finally show ?case .
qed

lemma le_dec_enc [simp]: "LENGTH('a) \<le> 8 * n \<Longrightarrow> le_dec (le_enc n w) = (w :: 'a::len word)"
  by (simp add: le_dec_enc_take_bit take_bit_word_eq_self)

lemma le_enc_dec: "8 * length bs \<le> LENGTH('a) \<Longrightarrow> le_enc (length bs) (le_dec bs :: 'a::len word) = bs"
proof (induction bs)
  case Nil
  show ?case by simp
next
  case (Cons b bs)
  let ?d = "le_dec bs :: 'a word"
  have lo: "ucast (ucast b OR push_bit 8 ?d) = b"
    using Cons.prems by (intro bit_word_eqI) (auto simp: bit_simps)
  have hi: "drop_bit 8 (ucast b OR push_bit 8 ?d) = take_bit (LENGTH('a) - 8) ?d"
    by (rule bit_word_eqI) (auto simp: bit_simps not_le dest: bit_imp_le_length)
  have "bit ?d k \<Longrightarrow> k < 8 * length bs" for k
  proof (induction bs arbitrary: k)
    case (Cons c cs)
    then show ?case
      using bit_imp_le_length[of c k] by (fastforce simp: bit_simps)
  qed simp
  then have "take_bit (LENGTH('a) - 8) ?d = ?d"
    using Cons.prems by (intro bit_word_eqI) (force simp: bit_simps)
  with Cons lo hi show ?case by simp
qed

lemma bit_le_dec:
  "8 * length bs \<le> LENGTH('a) \<Longrightarrow>
   bit (le_dec bs :: 'a::len word) j \<longleftrightarrow> j div 8 < length bs \<and> bit (bs ! (j div 8)) (j mod 8)"
proof (induction bs arbitrary: j)
  case Nil
  show ?case by simp
next
  case (Cons b bs)
  show ?case
  proof (cases "j < 8")
    case True
    with Cons.prems show ?thesis by (simp add: bit_simps)
  next
    case False
    then obtain i where i: "j = i + 8" by (metis add.commute le_Suc_ex not_less)
    have "bit (b :: u8) (i + 8) = False" by (simp add: bit_word.abs_eq impossible_bit)
    moreover have "bit (le_dec bs :: 'a word) i \<Longrightarrow> i + 8 < LENGTH('a)"
      using Cons by auto
    ultimately have "bit (le_dec (b # bs) :: 'a word) (i + 8) \<longleftrightarrow> bit (le_dec bs :: 'a word) i"
      by (auto simp: bit_or_iff bit_unsigned_iff bit_push_bit_iff)
    moreover have "(i + 8) div 8 = Suc (i div 8)" by arith
    ultimately show ?thesis using Cons i by simp
  qed
qed

lemma le_dec_zeros [simp]: "le_dec (replicate n 0) = 0"
  by (induction n) simp_all

abbreviation u64at :: "nat \<Rightarrow> bytes \<Rightarrow> u64" where "u64at off buf \<equiv> le_dec (fld off 8 buf)"
abbreviation u32at :: "nat \<Rightarrow> bytes \<Rightarrow> u32" where "u32at off buf \<equiv> le_dec (fld off 4 buf)"
abbreviation u16at :: "nat \<Rightarrow> bytes \<Rightarrow> u16" where "u16at off buf \<equiv> le_dec (fld off 2 buf)"
abbreviation u8at :: "nat \<Rightarrow> bytes \<Rightarrow> u8" where "u8at off buf \<equiv> le_dec (fld off 1 buf)"

lemma le_enc_inj:
  "LENGTH('a) \<le> 8 * n \<Longrightarrow> le_enc n v = le_enc n w \<Longrightarrow> v = (w :: 'a::len word)"
  by (metis le_dec_enc)

section \<open>Packed arrays\<close>

text \<open>
  A node holds its records back to back. \<open>slot sz i d\<close> is record \<open>i\<close> of the array \<open>d\<close>
  of \<open>sz\<close>-byte records, \<open>slots sz n d\<close> the list of the first \<open>n\<close>. The insertion and the
  removal below are the memmove / memcpy pairs of the code, on bytes.
\<close>

definition slot :: "nat \<Rightarrow> nat \<Rightarrow> 'a list \<Rightarrow> 'a list" where
  "slot sz i d = fld (i * sz) sz d"

definition slots :: "nat \<Rightarrow> nat \<Rightarrow> 'a list \<Rightarrow> 'a list list" where
  "slots sz n d = map (\<lambda>i. slot sz i d) [0..<n]"

lemma length_slots [simp]: "length (slots sz n d) = n"
  by (simp add: slots_def)

lemma nth_slots [simp]: "i < n \<Longrightarrow> slots sz n d ! i = slot sz i d"
  by (simp add: slots_def)

lemma slot_fits: "i < n \<Longrightarrow> n * sz \<le> length d \<Longrightarrow> i * sz + sz \<le> length (d :: 'a list)"
  by (metis Suc_leI add.commute le_trans mult_Suc mult_le_mono1)

lemma length_slot [simp]: "i * sz + sz \<le> length d \<Longrightarrow> length (slot sz i d) = sz"
  by (simp add: slot_def)

lemma slots_length_elem: "n * sz \<le> length d \<Longrightarrow> r \<in> set (slots sz n d) \<Longrightarrow> length r = sz"
  using slot_fits by (fastforce simp: slots_def)

lemma slots_append_concat:
  "(\<And>r. r \<in> set rs \<Longrightarrow> length r = sz) \<Longrightarrow> slots sz (length rs) (concat rs @ d) = rs"
proof (induction rs)
  case Nil
  show ?case by (simp add: slots_def)
next
  case (Cons r rs)
  have "slots sz (length (r # rs)) (concat (r # rs) @ d)
      = slot sz 0 (r @ concat rs @ d) # map (\<lambda>i. slot sz (Suc i) (r @ concat rs @ d)) [0..<length rs]"
    by (simp add: slots_def upt_conv_Cons map_Suc_upt [symmetric] del: upt_Suc)
  also have "slot sz 0 (r @ concat rs @ d) = r"
    using Cons.prems by (simp add: slot_def fld_def)
  also have "map (\<lambda>i. slot sz (Suc i) (r @ concat rs @ d)) [0..<length rs]
      = slots sz (length rs) (concat rs @ d)"
    using Cons.prems by (simp add: slots_def slot_def fld_def)
  also have "\<dots> = rs" using Cons by simp
  finally show ?case .
qed

lemma take_slots: "m \<le> n \<Longrightarrow> take m (slots sz n d) = slots sz m d"
  by (simp add: slots_def take_map)

lemma concat_slots: "n * sz \<le> length d \<Longrightarrow> concat (slots sz n d) = take (n * sz) d"
proof (induction n)
  case 0
  show ?case by (simp add: slots_def)
next
  case (Suc n)
  then have "concat (slots sz (Suc n) d) = take (n * sz) d @ fld (n * sz) sz d"
    by (simp add: slots_def slot_def)
  also have "\<dots> = take (Suc n * sz) d"
    by (simp add: fld_def take_add [symmetric] add.commute)
  finally show ?case .
qed

lemma slots_put_prefix:
  "(\<And>r. r \<in> set rs \<Longrightarrow> length r = sz) \<Longrightarrow> length rs = n \<Longrightarrow> n * sz \<le> length d \<Longrightarrow>
   slots sz n (put 0 (concat rs) d) = rs"
  using slots_append_concat [of rs sz "drop (length (concat rs)) d"] by (simp add: put_def)

end
