(* ===== verification/Context.thy ===== *)
theory Context
  imports Prelude
begin

text \<open>
  The filesystem context of src/src/include/obmafs.h with the on-disk structures it caches
  (superblock.h, btree.h), and the block I/O of src/src/lib/io.c on which every other
  component rests. The image file is a size and a byte function; a read past the end is
  short, a write past the end extends the file, and \<open>rd_fail\<close> / \<open>wr_fail\<close> say at which
  offsets the device reports an error. \<open>heap_ok\<close> says whether the heap still hands out
  memory, so that the out-of-memory branches are branches of the model; \<open>heap_past\<close> is what the
  heap holds behind the bitmap buffer, which the word-wise bitmap scan can read. XXH64 is a library
  outside the repository: the context carries an arbitrary function for it. Locks are left
  out: one operation runs at a time.
\<close>

section \<open>On-disk structures\<close>

text \<open>struct obmafs3\_sb, superblock.h.\<close>

record obmafs3_sb =
  sb_magic :: u64
  guid :: bytes
  block_size :: u64
  dedup_block_size :: u64
  total_bytes :: u64
  catalog_lba :: u64
  inode_lba :: u64
  overflow_lba :: u64
  dedup_lba :: u64
  metadata_lba :: u64
  media_tag_lba :: u64
  cd_prefix_lba :: u64
  cd_suffix_lba :: u64
  cd_subchannel_lba :: u64
  metadata_idx_lba :: u64
  refcount_lba :: u64
  checksum_type :: u16
  sb_creation_time :: u64
  next_inode_id :: u64
  bitmap_lba :: u64
  bitmap_blocks :: u64
  keyset_lba :: u64
  keyset_blocks :: u64
  pending_lba :: u64
  pending_blocks :: u64
  btree_clump_size :: u32
  dedup_clump_size :: u32
  revision :: u32
  compatible_flags :: u64
  rocompat_flags :: u64
  incompatible_flags :: u64
  volume_label :: bytes
  sb_checksum :: bytes
  sector_tag_data_lba :: u64
  sector_tag_ref_lba :: u64
  junk_map_lba :: u64
  metadata_numeric_idx_lba :: u64
  user_index_registry_lba :: u64
  sb_reserved :: bytes
  sb_checksum2 :: bytes

text \<open>struct btree\_header, btree.h.\<close>

record btree_header =
  bh_magic :: u64
  data_type :: u32
  root_node_lba :: u64
  free_node_lba :: u64
  node_size :: u16
  total_nodes :: u32
  free_nodes :: u32
  tree_type :: u32
  last_block_lba :: u64
  last_block_offset :: u64
  bh_checksum :: bytes

section \<open>The context\<close>

record dev =
  fdata :: "nat \<Rightarrow> u8"
  fsize :: nat
  rd_fail :: "nat \<Rightarrow> bool"
  wr_fail :: "nat \<Rightarrow> bool"

text \<open>
  struct obmafs3\_ctx, obmafs.h: the fields the modelled operations use. The refcount leaf
  cache is the group of \<open>rc_leaf_\<close> fields. \<open>bitmap\<close> is None for a NULL pointer.
\<close>

record ctx =
  dev :: dev
  sb :: obmafs3_sb
  catalog_hdr :: btree_header
  inode_hdr :: btree_header
  overflow_hdr :: btree_header
  media_tag_hdr :: btree_header
  cd_prefix_hdr :: btree_header
  cd_suffix_hdr :: btree_header
  cd_subchannel_hdr :: btree_header
  metadata_hdr :: btree_header
  metadata_idx_hdr :: btree_header
  refcount_hdr :: btree_header
  sector_tag_data_hdr :: btree_header
  sector_tag_ref_hdr :: btree_header
  junk_map_hdr :: btree_header
  metadata_numeric_idx_hdr :: btree_header
  bitmap :: "bytes option"
  bitmap_size :: u64
  next_free_lba :: u64
  rc_leaf_buf :: bytes
  rc_leaf_lba :: u64
  rc_leaf_min :: u64
  rc_leaf_max :: u64
  rc_leaf_count :: u16
  rc_leaf_valid :: bool
  heap_ok :: bool
  heap_past :: "nat \<Rightarrow> u8"
  xxh64 :: "bytes \<Rightarrow> u64"

abbreviation bsz :: "ctx \<Rightarrow> nat" where
  "bsz c \<equiv> unat (block_size (sb c))"

text \<open>\<open>ctx->sb.total_bytes / ctx->sb.block_size\<close>: every bound check of the code uses it.\<close>

abbreviation max_lba :: "ctx \<Rightarrow> u64" where
  "max_lba c \<equiv> total_bytes (sb c) div block_size (sb c)"

section \<open>Positioned reads and writes\<close>

text \<open>
  A byte offset is an \<open>off_t\<close>: an offset with bit 63 set is negative and the call fails.
\<close>

definition pread :: "dev \<Rightarrow> u64 \<Rightarrow> nat \<Rightarrow> bytes option" where
  "pread d off n =
     (if bit off 63 \<or> rd_fail d (unat off) then None
      else Some (map (fdata d) [unat off ..< min (unat off + n) (fsize d)]))"

definition pwrite :: "dev \<Rightarrow> u64 \<Rightarrow> bytes \<Rightarrow> dev option" where
  "pwrite d off buf =
     (if bit off 63 \<or> wr_fail d (unat off) then None
      else Some (d\<lparr>
        fdata := (\<lambda>i. if unat off \<le> i \<and> i < unat off + length buf then buf ! (i - unat off)
                      else if i < fsize d then fdata d i else 0),
        fsize := max (fsize d) (unat off + length buf)\<rparr>))"

definition obmafs3_block_read :: "ctx \<Rightarrow> u64 \<Rightarrow> nat \<Rightarrow> rc + bytes" where
  "obmafs3_block_read c lba n =
     (case pread (dev c) (lba * block_size (sb c)) n of
        None \<Rightarrow> Inl OBMAFS3_ERR_IO
      | Some bs \<Rightarrow> if length bs \<noteq> n then Inl OBMAFS3_ERR_IO else Inr bs)"

definition obmafs3_block_write :: "ctx \<Rightarrow> u64 \<Rightarrow> bytes \<Rightarrow> rc \<times> ctx" where
  "obmafs3_block_write c lba buf =
     (case pwrite (dev c) (lba * block_size (sb c)) buf of
        None \<Rightarrow> (OBMAFS3_ERR_IO, c)
      | Some d \<Rightarrow> (OBMAFS3_OK, c\<lparr>dev := d\<rparr>))"

section \<open>The block store interface\<close>

text \<open>
  What the B+Tree code relies on: inside the volume a block write succeeds, reads back what
  was written, and leaves every other block alone. Clients work from these laws only.
\<close>

locale block_store =
  fixes rd :: "'s \<Rightarrow> u64 \<Rightarrow> nat \<Rightarrow> rc + bytes"
    and wr :: "'s \<Rightarrow> u64 \<Rightarrow> bytes \<Rightarrow> rc \<times> 's"
    and ok :: "'s \<Rightarrow> bool"
    and inside :: "'s \<Rightarrow> u64 \<Rightarrow> bool"
    and bs :: "'s \<Rightarrow> nat"
  assumes rd_inside: "ok s \<Longrightarrow> inside s l \<Longrightarrow> \<exists>b. rd s l (bs s) = Inr b \<and> length b = bs s"
    and wr_inside: "ok s \<Longrightarrow> inside s l \<Longrightarrow> length b = bs s \<Longrightarrow> \<exists>s'. wr s l b = (OBMAFS3_OK, s')"
    and rd_wr_same: "ok s \<Longrightarrow> inside s l \<Longrightarrow> length b = bs s \<Longrightarrow> wr s l b = (r, s') \<Longrightarrow>
          rd s' l (bs s) = Inr b"
    and rd_wr_other: "ok s \<Longrightarrow> inside s l \<Longrightarrow> inside s k \<Longrightarrow> length b = bs s \<Longrightarrow> k \<noteq> l \<Longrightarrow>
          wr s l b = (r, s') \<Longrightarrow> rd s' k (bs s) = rd s k (bs s)"
    and wr_ok: "ok s \<Longrightarrow> inside s l \<Longrightarrow> length b = bs s \<Longrightarrow> wr s l b = (r, s') \<Longrightarrow> ok s'"
    and wr_frame: "wr s l b = (r, s') \<Longrightarrow> bs s' = bs s \<and> inside s' = inside s"
begin

text \<open>Two writes to different blocks commute as far as reads can tell.\<close>

lemma rd_wr_wr:
  assumes "ok s" "inside s k" "inside s l" "length b = bs s" "length b' = bs s" "k \<noteq> l"
    and "wr s k b = (r, s1)" "wr s1 l b' = (r', s2)"
  shows "rd s2 k (bs s) = Inr b \<and> rd s2 l (bs s) = Inr b'"
proof
  have ok1: "ok s1" and fr: "bs s1 = bs s" "inside s1 = inside s"
    using assms wr_ok wr_frame by blast+
  have "rd s2 k (bs s1) = rd s1 k (bs s1)"
    using rd_wr_other [OF ok1, of l k b' r' s2] assms fr by simp
  also have "\<dots> = Inr b" using rd_wr_same assms fr by simp
  finally show "rd s2 k (bs s) = Inr b" using fr by simp
  show "rd s2 l (bs s) = Inr b'"
    using rd_wr_same [OF ok1, of l b' r' s2] assms fr by simp
qed

end

text \<open>
  The volume is healthy when its geometry is sane (no offset reaches \<open>2^63\<close>), the file is as
  large as the superblock says and the device reports no error.
\<close>

definition dev_ok :: "ctx \<Rightarrow> bool" where
  "dev_ok c \<longleftrightarrow> 0 < bsz c \<and> unat (total_bytes (sb c)) < 2 ^ 63 \<and>
     unat (total_bytes (sb c)) \<le> fsize (dev c) \<and>
     (\<forall>i. \<not> rd_fail (dev c) i) \<and> (\<forall>i. \<not> wr_fail (dev c) i)"

definition in_vol :: "ctx \<Rightarrow> u64 \<Rightarrow> bool" where
  "in_vol c lba \<longleftrightarrow> lba < max_lba c"

lemma unat_max_lba: "unat (max_lba c) = unat (total_bytes (sb c)) div bsz c"
  by (simp add: unat_div_distrib)

lemma in_vol_offset:
  assumes "dev_ok c" "in_vol c lba"
  shows "unat (lba * block_size (sb c)) = unat lba * bsz c"
    and "unat lba * bsz c + bsz c \<le> unat (total_bytes (sb c))"
    and "\<not> bit (lba * block_size (sb c)) 63"
proof -
  have "unat lba < unat (total_bytes (sb c)) div bsz c"
    using assms by (simp add: in_vol_def word_less_nat_alt unat_max_lba)
  then have "Suc (unat lba) * bsz c \<le> unat (total_bytes (sb c)) div bsz c * bsz c"
    by (intro mult_le_mono1) simp
  also have "\<dots> \<le> unat (total_bytes (sb c))" by simp
  finally show le: "unat lba * bsz c + bsz c \<le> unat (total_bytes (sb c))" by simp
  moreover have lt: "unat (total_bytes (sb c)) < 2 ^ 63" "0 < bsz c"
    using assms by (simp_all add: dev_ok_def)
  ultimately have small: "unat lba * bsz c < 2 ^ 63" by linarith
  then show eq: "unat (lba * block_size (sb c)) = unat lba * bsz c"
    by (simp add: unat_word_ariths)
  show "\<not> bit (lba * block_size (sb c)) 63"
    using small eq by (intro unat_less_not_bit) simp
qed

lemma block_read_eq:
  assumes "dev_ok c" "in_vol c lba"
  shows "obmafs3_block_read c lba (bsz c)
       = Inr (map (fdata (dev c)) [unat lba * bsz c ..< unat lba * bsz c + bsz c])"
proof -
  have "unat lba * bsz c + bsz c \<le> fsize (dev c)"
    using in_vol_offset(2) [OF assms] assms by (auto simp: dev_ok_def)
  with in_vol_offset(1,3) [OF assms] assms(1) show ?thesis
    by (simp add: obmafs3_block_read_def pread_def dev_ok_def min_def)
qed

text \<open>A healthy block write, as an explicit update of the image.\<close>

definition wrote :: "ctx \<Rightarrow> u64 \<Rightarrow> bytes \<Rightarrow> ctx" where
  "wrote c lba buf = c\<lparr>dev := (dev c)\<lparr>
     fdata := (\<lambda>i. if unat lba * bsz c \<le> i \<and> i < unat lba * bsz c + length buf
                   then buf ! (i - unat lba * bsz c)
                   else if i < fsize (dev c) then fdata (dev c) i else 0)\<rparr>\<rparr>"

lemma block_write_eq:
  assumes "dev_ok c" "in_vol c lba" "length buf = bsz c"
  shows "obmafs3_block_write c lba buf = (OBMAFS3_OK, wrote c lba buf)"
proof -
  have "max (fsize (dev c)) (unat lba * bsz c + bsz c) = fsize (dev c)"
    using in_vol_offset(2) [OF assms(1,2)] assms by (auto simp: dev_ok_def)
  with in_vol_offset(1,3) [OF assms(1,2)] assms show ?thesis
    by (simp add: obmafs3_block_write_def pwrite_def dev_ok_def wrote_def cong: if_cong)
qed

lemma wrote_frame [simp]:
  "sb (wrote c l b) = sb c" "bitmap (wrote c l b) = bitmap c"
  "bitmap_size (wrote c l b) = bitmap_size c" "next_free_lba (wrote c l b) = next_free_lba c"
  "heap_ok (wrote c l b) = heap_ok c" "heap_past (wrote c l b) = heap_past c" "xxh64 (wrote c l b) = xxh64 c"
  "fsize (dev (wrote c l b)) = fsize (dev c)"
  by (simp_all add: wrote_def)

lemma dev_ok_wrote [simp]: "dev_ok (wrote c l b) = dev_ok c"
  by (simp add: dev_ok_def wrote_def)

lemma in_vol_wrote [simp]: "in_vol (wrote c l b) k = in_vol c k"
  by (simp add: in_vol_def)

lemma block_read_wrote_same:
  assumes "dev_ok c" "in_vol c l" "length b = bsz c"
  shows "obmafs3_block_read (wrote c l b) l (bsz c) = Inr b"
proof -
  have "map (fdata (dev (wrote c l b))) [unat l * bsz c ..< unat l * bsz c + bsz c] = b"
    using assms by (intro nth_equalityI) (auto simp: wrote_def)
  then show ?thesis
    using block_read_eq [of "wrote c l b" l] assms by simp
qed

lemma blocks_disjoint:
  "(k :: nat) \<noteq> l \<Longrightarrow> k * n \<le> i \<Longrightarrow> i < k * n + n \<Longrightarrow> \<not> (l * n \<le> i \<and> i < l * n + n)"
  by (metis add.commute div_nat_eqI mult.commute mult_Suc_right not_less)

lemma block_read_wrote_other:
  assumes "dev_ok c" "in_vol c l" "in_vol c k" "length b = bsz c" "k \<noteq> l"
  shows "obmafs3_block_read (wrote c l b) k (bsz c) = obmafs3_block_read c k (bsz c)"
proof -
  have lim: "unat k * bsz c + bsz c \<le> fsize (dev c)"
    using in_vol_offset(2) [OF assms(1,3)] assms by (auto simp: dev_ok_def)
  have "fdata (dev (wrote c l b)) i = fdata (dev c) i"
    if "unat k * bsz c \<le> i" "i < unat k * bsz c + bsz c" for i
  proof -
    have "unat k \<noteq> unat l" using assms(5) by (simp add: word_unat_eq_iff)
    from blocks_disjoint [OF this that] assms lim that show ?thesis
      by (auto simp: wrote_def)
  qed
  then show ?thesis
    using block_read_eq [of "wrote c l b" k] block_read_eq [of c k] assms by simp
qed

lemmas block_dev_simps [dev_simps] =
  block_write_eq block_read_wrote_same block_read_wrote_other

interpretation blk: block_store obmafs3_block_read obmafs3_block_write dev_ok in_vol bsz
proof unfold_locales
  fix s :: ctx and l :: u64
  assume "dev_ok s" "in_vol s l"
  then show "\<exists>b. obmafs3_block_read s l (bsz s) = Inr b \<and> length b = bsz s"
    by (simp add: block_read_eq)
next
  fix s s' :: ctx and l :: u64 and b r
  assume "obmafs3_block_write s l b = (r, s')"
  then show "bsz s' = bsz s \<and> in_vol s' = in_vol s"
    by (auto simp: obmafs3_block_write_def in_vol_def fun_eq_iff split: option.splits)
qed (auto simp: dev_simps)

section \<open>A blank context\<close>

text \<open>An empty volume of \<open>n\<close> blocks of \<open>b\<close> bytes with bitmap \<open>bm\<close>, for concrete instances.\<close>

definition zero_sb :: obmafs3_sb where
  "zero_sb = \<lparr>sb_magic = 0, guid = replicate 16 0, block_size = 0, dedup_block_size = 0, total_bytes = 0,
     catalog_lba = 0, inode_lba = 0, overflow_lba = 0, dedup_lba = 0, metadata_lba = 0, media_tag_lba = 0,
     cd_prefix_lba = 0, cd_suffix_lba = 0, cd_subchannel_lba = 0, metadata_idx_lba = 0, refcount_lba = 0,
     checksum_type = 0, sb_creation_time = 0, next_inode_id = 0, bitmap_lba = 0, bitmap_blocks = 0,
     keyset_lba = 0, keyset_blocks = 0, pending_lba = 0, pending_blocks = 0, btree_clump_size = 0,
     dedup_clump_size = 0, revision = 0, compatible_flags = 0, rocompat_flags = 0, incompatible_flags = 0,
     volume_label = replicate 256 0, sb_checksum = replicate 32 0, sector_tag_data_lba = 0,
     sector_tag_ref_lba = 0, junk_map_lba = 0, metadata_numeric_idx_lba = 0, user_index_registry_lba = 0,
     sb_reserved = replicate 3482 0, sb_checksum2 = replicate 32 0\<rparr>"

definition zero_hdr :: btree_header where
  "zero_hdr = \<lparr>bh_magic = 0, data_type = 0, root_node_lba = 0, free_node_lba = 0, node_size = 0,
     total_nodes = 0, free_nodes = 0, tree_type = 0, last_block_lba = 0, last_block_offset = 0,
     bh_checksum = replicate 32 0\<rparr>"

definition blank_ctx :: "u64 \<Rightarrow> u64 \<Rightarrow> bytes \<Rightarrow> ctx" where
  "blank_ctx b n bm = \<lparr>
     dev = \<lparr>fdata = (\<lambda>_. 0), fsize = unat n * unat b, rd_fail = (\<lambda>_. False), wr_fail = (\<lambda>_. False)\<rparr>,
     sb = zero_sb\<lparr>block_size := b, total_bytes := n * b\<rparr>,
     catalog_hdr = zero_hdr, inode_hdr = zero_hdr, overflow_hdr = zero_hdr, media_tag_hdr = zero_hdr,
     cd_prefix_hdr = zero_hdr, cd_suffix_hdr = zero_hdr, cd_subchannel_hdr = zero_hdr,
     metadata_hdr = zero_hdr, metadata_idx_hdr = zero_hdr, refcount_hdr = zero_hdr,
     sector_tag_data_hdr = zero_hdr, sector_tag_ref_hdr = zero_hdr, junk_map_hdr = zero_hdr,
     metadata_numeric_idx_hdr = zero_hdr,
     bitmap = Some bm, bitmap_size = of_nat (length bm), next_free_lba = 0,
     rc_leaf_buf = [], rc_leaf_lba = 0, rc_leaf_min = 0, rc_leaf_max = 0, rc_leaf_count = 0,
     rc_leaf_valid = False, heap_ok = True, heap_past = (\<lambda>_. 0), xxh64 = (\<lambda>_. 0)\<rparr>"

end
