(* ===== verification/Checksum.thy ===== *)
theory Checksum
  imports Context
begin

text \<open>
  src/src/lib/checksum.c: a 32-byte checksum field holds the 8 bytes of an XXH64 hash and
  24 zero bytes. The hash function itself is a parameter.
\<close>

definition obmafs3_checksum_xxh64 :: "(bytes \<Rightarrow> u64) \<Rightarrow> bytes \<Rightarrow> u64" where
  "obmafs3_checksum_xxh64 h data = h data"

definition obmafs3_checksum_block :: "(bytes \<Rightarrow> u64) \<Rightarrow> bytes \<Rightarrow> bytes" where
  "obmafs3_checksum_block h data = put 0 (le_enc 8 (h data)) (replicate 32 0)"

lemma length_checksum_block [simp]: "length (obmafs3_checksum_block h data) = 32"
  by (simp add: obmafs3_checksum_block_def)

lemma checksum_block_eq_iff:
  "obmafs3_checksum_block h xs = obmafs3_checksum_block h ys \<longleftrightarrow> h xs = h ys"
  using le_enc_inj [of 8 "h xs" "h ys"]
  by (auto simp: obmafs3_checksum_block_def put_def)

end
