(* ===== verification/Superblock.thy ===== *)
theory Superblock
  imports Checksum
begin

text \<open>
  src/src/lib/superblock.c: the superblock at offset 0 and its backup in the last block,
  each protected by two checksums (bytes 0-525 and the extension from byte 526 on, with the
  checksum field itself zeroed while hashing). The packed structure is 4080 bytes long.
\<close>

section \<open>Layout\<close>

definition OBMAFS3_SB_MAGIC :: u64 where "OBMAFS3_SB_MAGIC = 0x335F5346414D424F"
definition OBMAFS3_SB_V1_SIZE :: nat where "OBMAFS3_SB_V1_SIZE = 526"
definition sb_size :: nat where "sb_size = 4080"

definition OBMAFS3_BACKUP_SB_LBA :: "u64 \<Rightarrow> u64 \<Rightarrow> u64" where
  "OBMAFS3_BACKUP_SB_LBA tot bs = tot div bs - 1"

definition sb_enc_v1 :: "obmafs3_sb \<Rightarrow> bytes" where
  "sb_enc_v1 s =
     le_enc 8 (sb_magic s) @ guid s @ le_enc 8 (block_size s) @ le_enc 8 (dedup_block_size s) @
     le_enc 8 (total_bytes s) @ le_enc 8 (catalog_lba s) @ le_enc 8 (inode_lba s) @
     le_enc 8 (overflow_lba s) @ le_enc 8 (dedup_lba s) @ le_enc 8 (metadata_lba s) @
     le_enc 8 (media_tag_lba s) @ le_enc 8 (cd_prefix_lba s) @ le_enc 8 (cd_suffix_lba s) @
     le_enc 8 (cd_subchannel_lba s) @ le_enc 8 (metadata_idx_lba s) @ le_enc 8 (refcount_lba s) @
     le_enc 2 (checksum_type s) @ le_enc 8 (sb_creation_time s) @ le_enc 8 (next_inode_id s) @
     le_enc 8 (bitmap_lba s) @ le_enc 8 (bitmap_blocks s) @ le_enc 8 (keyset_lba s) @
     le_enc 8 (keyset_blocks s) @ le_enc 8 (pending_lba s) @ le_enc 8 (pending_blocks s) @
     le_enc 4 (btree_clump_size s) @ le_enc 4 (dedup_clump_size s) @ le_enc 4 (revision s) @
     le_enc 8 (compatible_flags s) @ le_enc 8 (rocompat_flags s) @ le_enc 8 (incompatible_flags s) @
     volume_label s @ sb_checksum s"

definition sb_enc_ext :: "obmafs3_sb \<Rightarrow> bytes" where
  "sb_enc_ext s =
     le_enc 8 (sector_tag_data_lba s) @ le_enc 8 (sector_tag_ref_lba s) @ le_enc 8 (junk_map_lba s) @
     le_enc 8 (metadata_numeric_idx_lba s) @ le_enc 8 (user_index_registry_lba s) @
     sb_reserved s @ sb_checksum2 s"

definition sb_enc :: "obmafs3_sb \<Rightarrow> bytes" where
  "sb_enc s = sb_enc_v1 s @ sb_enc_ext s"

definition sb_dec :: "bytes \<Rightarrow> obmafs3_sb" where
  "sb_dec b = \<lparr>
     sb_magic = u64at 0 b, guid = fld 8 16 b, block_size = u64at 24 b, dedup_block_size = u64at 32 b,
     total_bytes = u64at 40 b, catalog_lba = u64at 48 b, inode_lba = u64at 56 b,
     overflow_lba = u64at 64 b, dedup_lba = u64at 72 b, metadata_lba = u64at 80 b,
     media_tag_lba = u64at 88 b, cd_prefix_lba = u64at 96 b, cd_suffix_lba = u64at 104 b,
     cd_subchannel_lba = u64at 112 b, metadata_idx_lba = u64at 120 b, refcount_lba = u64at 128 b,
     checksum_type = u16at 136 b, sb_creation_time = u64at 138 b, next_inode_id = u64at 146 b,
     bitmap_lba = u64at 154 b, bitmap_blocks = u64at 162 b, keyset_lba = u64at 170 b,
     keyset_blocks = u64at 178 b, pending_lba = u64at 186 b, pending_blocks = u64at 194 b,
     btree_clump_size = u32at 202 b, dedup_clump_size = u32at 206 b, revision = u32at 210 b,
     compatible_flags = u64at 214 b, rocompat_flags = u64at 222 b, incompatible_flags = u64at 230 b,
     volume_label = fld 238 256 b, sb_checksum = fld 494 32 b,
     sector_tag_data_lba = u64at 526 b, sector_tag_ref_lba = u64at 534 b, junk_map_lba = u64at 542 b,
     metadata_numeric_idx_lba = u64at 550 b, user_index_registry_lba = u64at 558 b,
     sb_reserved = fld 566 3482 b, sb_checksum2 = fld 4048 32 b\<rparr>"

definition sb_shape :: "obmafs3_sb \<Rightarrow> bool" where
  "sb_shape s \<longleftrightarrow> length (guid s) = 16 \<and> length (volume_label s) = 256 \<and>
     length (sb_checksum s) = 32 \<and> length (sb_reserved s) = 3482 \<and> length (sb_checksum2 s) = 32"

section \<open>Operations\<close>

definition obmafs3_sb_read :: "dev \<Rightarrow> rc + obmafs3_sb" where
  "obmafs3_sb_read d =
     (case pread d 0 sb_size of
        None \<Rightarrow> Inl OBMAFS3_ERR_IO
      | Some b \<Rightarrow> if length b \<noteq> sb_size then Inl OBMAFS3_ERR_IO else Inr (sb_dec b))"

text \<open>The copy that reaches the disk: both checksums are fresh.\<close>

definition sb_seal :: "(bytes \<Rightarrow> u64) \<Rightarrow> obmafs3_sb \<Rightarrow> obmafs3_sb" where
  "sb_seal h s =
     (let t = s\<lparr>sb_checksum := replicate 32 0\<rparr>;
          t = t\<lparr>sb_checksum := obmafs3_checksum_block h (take OBMAFS3_SB_V1_SIZE (sb_enc t))\<rparr>;
          t = t\<lparr>sb_checksum2 := replicate 32 0\<rparr>
      in t\<lparr>sb_checksum2 := obmafs3_checksum_block h (drop OBMAFS3_SB_V1_SIZE (sb_enc t))\<rparr>)"

definition obmafs3_sb_write :: "(bytes \<Rightarrow> u64) \<Rightarrow> dev \<Rightarrow> obmafs3_sb \<Rightarrow> rc \<times> dev" where
  "obmafs3_sb_write h d s =
     (let t = sb_seal h s in
      case pwrite d 0 (sb_enc t) of
        None \<Rightarrow> (OBMAFS3_ERR_IO, d)
      | Some d1 \<Rightarrow>
          if 0 < total_bytes t \<and> 0 < block_size t then
            let backup_lba = OBMAFS3_BACKUP_SB_LBA (total_bytes t) (block_size t) in
            if 0 < backup_lba then
              (case pwrite d1 (backup_lba * block_size t) (sb_enc t) of
                 None \<Rightarrow> (OBMAFS3_ERR_IO, d1)
               | Some d2 \<Rightarrow> (OBMAFS3_OK, d2))
            else (OBMAFS3_OK, d1)
          else (OBMAFS3_OK, d1))"

text \<open>
  The checksum test both lenient readers share: the extension checksum counts only when the
  first one matches and the stored extension checksum is not all zero.
\<close>

definition sb_checksum_ok :: "(bytes \<Rightarrow> u64) \<Rightarrow> obmafs3_sb \<Rightarrow> bool" where
  "sb_checksum_ok h s =
     (let computed = obmafs3_checksum_block h
            (take OBMAFS3_SB_V1_SIZE (sb_enc (s\<lparr>sb_checksum := replicate 32 0\<rparr>)));
          computed2 = obmafs3_checksum_block h
            (drop OBMAFS3_SB_V1_SIZE (sb_enc (s\<lparr>sb_checksum2 := replicate 32 0\<rparr>)))
      in if sb_checksum s = computed
         then (if sb_checksum2 s \<noteq> replicate 32 0 then sb_checksum2 s = computed2 else True)
         else False)"

definition obmafs3_sb_read_lenient :: "(bytes \<Rightarrow> u64) \<Rightarrow> dev \<Rightarrow> rc + obmafs3_sb \<times> bool" where
  "obmafs3_sb_read_lenient h d =
     (case obmafs3_sb_read d of
        Inl e \<Rightarrow> Inl e
      | Inr s \<Rightarrow> Inr (s, sb_checksum_ok h s))"

definition obmafs3_sb_validate :: "obmafs3_sb \<Rightarrow> rc" where
  "obmafs3_sb_validate s =
     (if sb_magic s \<noteq> OBMAFS3_SB_MAGIC then OBMAFS3_ERR_BADMAGIC
      else if block_size s = 0 \<or> dedup_block_size s = 0 then OBMAFS3_ERR_INVAL
      else if total_bytes s = 0 then OBMAFS3_ERR_INVAL
      else if catalog_lba s = 0 \<or> inode_lba s = 0 then OBMAFS3_ERR_INVAL
      else OBMAFS3_OK)"

definition obmafs3_sb_read_backup :: "dev \<Rightarrow> u64 \<Rightarrow> u64 \<Rightarrow> rc + obmafs3_sb" where
  "obmafs3_sb_read_backup d bs tot =
     (if bs = 0 \<or> tot = 0 then Inl OBMAFS3_ERR_INVAL
      else let backup_lba = OBMAFS3_BACKUP_SB_LBA tot bs in
        if backup_lba = 0 then Inl OBMAFS3_ERR_INVAL
        else (case pread d (backup_lba * bs) sb_size of
                None \<Rightarrow> Inl OBMAFS3_ERR_IO
              | Some b \<Rightarrow> if length b \<noteq> sb_size then Inl OBMAFS3_ERR_IO else Inr (sb_dec b)))"

definition obmafs3_sb_read_backup_lenient ::
    "(bytes \<Rightarrow> u64) \<Rightarrow> dev \<Rightarrow> u64 \<Rightarrow> u64 \<Rightarrow> rc + obmafs3_sb \<times> bool" where
  "obmafs3_sb_read_backup_lenient h d bs tot =
     (case obmafs3_sb_read_backup d bs tot of
        Inl e \<Rightarrow> Inl e
      | Inr s \<Rightarrow> Inr (s, sb_checksum_ok h s))"

section \<open>Layout lemmas\<close>

lemma length_sb_enc_v1: "sb_shape s \<Longrightarrow> length (sb_enc_v1 s) = OBMAFS3_SB_V1_SIZE"
  by (simp add: sb_enc_v1_def sb_shape_def OBMAFS3_SB_V1_SIZE_def)

lemma length_sb_enc_ext: "sb_shape s \<Longrightarrow> length (sb_enc_ext s) = 3554"
  by (simp add: sb_enc_ext_def sb_shape_def)

lemma length_sb_enc: "sb_shape s \<Longrightarrow> length (sb_enc s) = sb_size"
  by (simp add: sb_enc_def length_sb_enc_v1 length_sb_enc_ext OBMAFS3_SB_V1_SIZE_def sb_size_def)

lemma sb_dec_enc: "sb_shape s \<Longrightarrow> sb_dec (sb_enc s) = s"
  unfolding sb_enc_def sb_enc_v1_def sb_enc_ext_def sb_dec_def sb_shape_def
  by (simp add: codec_simps)

lemma sb_enc_split:
  assumes "sb_shape s"
  shows "take OBMAFS3_SB_V1_SIZE (sb_enc s) = sb_enc_v1 s"
    and "drop OBMAFS3_SB_V1_SIZE (sb_enc s) = sb_enc_ext s"
  using length_sb_enc_v1 [OF assms] by (simp_all add: sb_enc_def)

section \<open>Choosing a superblock at open\<close>

text \<open>
  The superblock part of obmafs3\_open\_flags (io.c): the primary if it can be read and
  validates, else the first backup that does for one of the block sizes tried, then the
  revision and feature-flag gates. \<open>lenient\<close> is the flag OBMAFS3\_OPEN\_LENIENT; the second
  result is \<open>ctx->read_only\<close>. The file size is what \<open>lseek(fd, 0, SEEK_END)\<close> returns.
\<close>

definition OBMAFS3_REVISION :: u32 where "OBMAFS3_REVISION = 20260224"
definition OBMAFS3_INCOMPAT_FLAGS_KNOWN :: u64 where "OBMAFS3_INCOMPAT_FLAGS_KNOWN = 1"
definition OBMAFS3_ROCOMPAT_FLAGS_KNOWN :: u64 where "OBMAFS3_ROCOMPAT_FLAGS_KNOWN = 31"

definition try_bs :: "u64 list" where
  "try_bs = [4096, 512, 1024, 2048, 8192, 16384, 32768, 65536]"

definition backup_candidate :: "dev \<Rightarrow> u64 \<Rightarrow> obmafs3_sb option" where
  "backup_candidate d bs =
     (let file_size = of_nat (fsize d) :: u64 in
      if file_size < 2 * bs then None
      else case obmafs3_sb_read_backup d bs file_size of
             Inl e \<Rightarrow> None
           | Inr b \<Rightarrow> if obmafs3_sb_validate b = OBMAFS3_OK \<and> block_size b = bs \<and> total_bytes b = file_size
                     then Some b else None)"

fun sb_recover :: "dev \<Rightarrow> u64 list \<Rightarrow> obmafs3_sb option" where
  "sb_recover d [] = None"
| "sb_recover d (bs # rest) =
     (case backup_candidate d bs of Some b \<Rightarrow> Some b | None \<Rightarrow> sb_recover d rest)"

definition open_superblock :: "dev \<Rightarrow> bool \<Rightarrow> rc + obmafs3_sb \<times> bool" where
  "open_superblock d lenient =
     (let primary = obmafs3_sb_read d;
          usable = (case primary of Inl e \<Rightarrow> False | Inr s \<Rightarrow> obmafs3_sb_validate s = OBMAFS3_OK);
          chosen = (case primary of
                      Inr s \<Rightarrow> if usable then Inr s
                               else (case (if 0 < fsize d then sb_recover d try_bs else None) of
                                       Some b \<Rightarrow> Inr b | None \<Rightarrow> Inl OBMAFS3_ERR_BADMAGIC)
                    | Inl e \<Rightarrow> (case (if 0 < fsize d then sb_recover d try_bs else None) of
                                  Some b \<Rightarrow> Inr b | None \<Rightarrow> Inl e))
      in case chosen of
           Inl e \<Rightarrow> Inl e
         | Inr s \<Rightarrow>
             if \<not> lenient \<and> OBMAFS3_REVISION < revision s then Inl OBMAFS3_ERR_REVISION
             else if \<not> lenient \<and> incompatible_flags s AND NOT OBMAFS3_INCOMPAT_FLAGS_KNOWN \<noteq> 0
                  then Inl OBMAFS3_ERR_INCOMPAT
             else Inr (s, \<not> lenient \<and> rocompat_flags s AND NOT OBMAFS3_ROCOMPAT_FLAGS_KNOWN \<noteq> 0))"

section \<open>Round trips\<close>

definition io_healthy :: "dev \<Rightarrow> bool" where
  "io_healthy d \<longleftrightarrow> (\<forall>i. \<not> rd_fail d i) \<and> (\<forall>i. \<not> wr_fail d i)"

lemma sb_seal_fields [simp]:
  "total_bytes (sb_seal h s) = total_bytes s" "block_size (sb_seal h s) = block_size s"
  "sb_magic (sb_seal h s) = sb_magic s" "dedup_block_size (sb_seal h s) = dedup_block_size s"
  "catalog_lba (sb_seal h s) = catalog_lba s" "inode_lba (sb_seal h s) = inode_lba s"
  "revision (sb_seal h s) = revision s" "incompatible_flags (sb_seal h s) = incompatible_flags s"
  "rocompat_flags (sb_seal h s) = rocompat_flags s"
  by (simp_all add: sb_seal_def Let_def)

lemma sb_validate_seal [simp]: "obmafs3_sb_validate (sb_seal h s) = obmafs3_sb_validate s"
  by (simp add: obmafs3_sb_validate_def)

lemma sb_shape_seal [simp]: "sb_shape s \<Longrightarrow> sb_shape (sb_seal h s)"
  by (simp add: sb_shape_def sb_seal_def Let_def)

lemma sb_enc_updates:
  "sb_enc_v1 (s\<lparr>sb_checksum2 := x\<rparr>) = sb_enc_v1 s"
  "sb_enc_ext (s\<lparr>sb_checksum := x\<rparr>) = sb_enc_ext s"
  "sb_enc_v1 (s\<lparr>sb_checksum2 := x, sb_checksum := y\<rparr>) = sb_enc_v1 (s\<lparr>sb_checksum := y\<rparr>)"
  "sb_enc_ext (s\<lparr>sb_checksum := y, sb_checksum2 := x\<rparr>) = sb_enc_ext (s\<lparr>sb_checksum2 := x\<rparr>)"
  by (simp_all add: sb_enc_v1_def sb_enc_ext_def)

lemma sb_shape_updates:
  "sb_shape s \<Longrightarrow> length x = 32 \<Longrightarrow> sb_shape (s\<lparr>sb_checksum := x\<rparr>)"
  "sb_shape s \<Longrightarrow> length x = 32 \<Longrightarrow> sb_shape (s\<lparr>sb_checksum2 := x\<rparr>)"
  by (simp_all add: sb_shape_def)

lemma sb_checksum_ok_seal: "sb_shape s \<Longrightarrow> sb_checksum_ok h (sb_seal h s)"
  by (simp add: sb_checksum_ok_def sb_seal_def Let_def sb_enc_split sb_shape_updates sb_enc_updates)

text \<open>A read of what was just written, and a read that misses a later write.\<close>

lemma pread_pwrite_same:
  assumes "io_healthy d" "\<not> bit off 63" "pwrite d off buf = Some d'"
  shows "pread d' off (length buf) = Some buf"
proof -
  have "pread d' off (length buf) = Some (map (fdata d') [unat off..<unat off + length buf])"
    using assms by (auto simp: pread_def pwrite_def io_healthy_def min_def split: if_splits)
  also have "map (fdata d') [unat off..<unat off + length buf] = buf"
    using assms by (intro nth_equalityI) (auto simp: pwrite_def split: if_splits)
  finally show ?thesis .
qed

lemma pread_pwrite_other:
  assumes "pwrite d off buf = Some d'" "p + n \<le> unat off" "p + n \<le> fsize d" "unat w = p"
  shows "pread d' w n = pread d w n"
  using assms by (auto simp: pread_def pwrite_def min_def split: if_splits)

lemma pwrite_healthy:
  "io_healthy d \<Longrightarrow> \<not> bit off 63 \<Longrightarrow>
   \<exists>d'. pwrite d off buf = Some d' \<and> io_healthy d' \<and> fsize d' = max (fsize d) (unat off + length buf)"
  by (simp add: pwrite_def io_healthy_def)

definition backup_off :: "obmafs3_sb \<Rightarrow> u64" where
  "backup_off s = OBMAFS3_BACKUP_SB_LBA (total_bytes s) (block_size s) * block_size s"

text \<open>The geometry under which primary and backup do not overlap.\<close>

definition backup_apart :: "obmafs3_sb \<Rightarrow> bool" where
  "backup_apart s \<longleftrightarrow> 0 < total_bytes s \<and> 0 < block_size s \<and>
     0 < OBMAFS3_BACKUP_SB_LBA (total_bytes s) (block_size s) \<and>
     sb_size \<le> unat (backup_off s) \<and> \<not> bit (backup_off s) 63"

lemma sb_write_both:
  assumes "io_healthy d" "sb_shape s" "backup_apart s"
  shows "\<exists>d'. obmafs3_sb_write h d s = (OBMAFS3_OK, d') \<and> io_healthy d' \<and>
     fsize d' = max (fsize d) (unat (backup_off s) + sb_size) \<and>
     pread d' 0 sb_size = Some (sb_enc (sb_seal h s)) \<and>
     pread d' (backup_off s) sb_size = Some (sb_enc (sb_seal h s))"
proof -
  let ?b = "sb_enc (sb_seal h s)"
  have len: "length ?b = sb_size" using assms by (simp add: length_sb_enc)
  obtain d1 where d1: "pwrite d 0 ?b = Some d1" "io_healthy d1" "fsize d1 = max (fsize d) sb_size"
    using pwrite_healthy [OF assms(1), of 0 ?b] len by auto
  obtain d2 where d2: "pwrite d1 (backup_off s) ?b = Some d2" "io_healthy d2"
      "fsize d2 = max (fsize d1) (unat (backup_off s) + sb_size)"
    using pwrite_healthy [OF d1(2), of "backup_off s" ?b] assms(3) len by (auto simp: backup_apart_def)
  have "pread d2 0 sb_size = pread d1 0 sb_size"
    using d2 d1 assms(3) by (intro pread_pwrite_other [of d1 "backup_off s" ?b d2 0]) (auto simp: backup_apart_def)
  also have "\<dots> = Some ?b"
    using pread_pwrite_same [OF assms(1) _ d1(1)] len by simp
  finally have p: "pread d2 0 sb_size = Some ?b" .
  moreover have "pread d2 (backup_off s) sb_size = Some ?b"
    using pread_pwrite_same [OF d1(2) _ d2(1)] assms(3) len by (simp add: backup_apart_def)
  moreover have "obmafs3_sb_write h d s = (OBMAFS3_OK, d2)"
    using d1(1) d2(1) assms(3)
    by (simp add: obmafs3_sb_write_def Let_def backup_apart_def backup_off_def)
  moreover have "fsize d2 = max (fsize d) (unat (backup_off s) + sb_size)"
    using d1(3) d2(3) by simp
  ultimately show ?thesis using d2(2) by blast
qed

text \<open>
  C1: writing a superblock to a healthy device whose backup block does not overlap the
  primary succeeds, and afterwards both the lenient read of the primary and the lenient read
  of the backup return exactly the sealed superblock with a passing checksum test.
\<close>

theorem sb_write_then_read:
  assumes "io_healthy d" "sb_shape s" "backup_apart s"
  shows "\<exists>d'. obmafs3_sb_write h d s = (OBMAFS3_OK, d') \<and>
     obmafs3_sb_read_lenient h d' = Inr (sb_seal h s, True) \<and>
     obmafs3_sb_read_backup_lenient h d' (block_size s) (total_bytes s) = Inr (sb_seal h s, True)"
proof -
  obtain d' where d': "obmafs3_sb_write h d s = (OBMAFS3_OK, d')"
      "pread d' 0 sb_size = Some (sb_enc (sb_seal h s))"
      "pread d' (backup_off s) sb_size = Some (sb_enc (sb_seal h s))"
    using sb_write_both [OF assms] by blast
  have "length (sb_enc (sb_seal h s)) = sb_size" "sb_dec (sb_enc (sb_seal h s)) = sb_seal h s"
       "sb_checksum_ok h (sb_seal h s)"
    using assms(2) by (simp_all add: length_sb_enc sb_dec_enc sb_checksum_ok_seal)
  then show ?thesis
    using d' assms(3)
    by (auto simp: obmafs3_sb_read_lenient_def obmafs3_sb_read_def obmafs3_sb_read_backup_lenient_def
        obmafs3_sb_read_backup_def backup_apart_def backup_off_def Let_def)
qed

definition demo_sb :: obmafs3_sb where
  "demo_sb = sb_dec (replicate sb_size 0)
     \<lparr>sb_magic := OBMAFS3_SB_MAGIC, block_size := 4096, dedup_block_size := 4194304,
      total_bytes := 32768, catalog_lba := 2, inode_lba := 3\<rparr>"

definition demo_dev :: dev where
  "demo_dev = \<lparr>fdata = (\<lambda>_. 0), fsize = 32768, rd_fail = (\<lambda>_. False), wr_fail = (\<lambda>_. False)\<rparr>"

lemma demo_sb_facts:
  "sb_shape demo_sb" "backup_apart demo_sb" "obmafs3_sb_validate demo_sb = OBMAFS3_OK"
  "block_size demo_sb = 4096" "total_bytes demo_sb = 32768" "backup_off demo_sb = 28672"
  by (simp_all add: demo_sb_def sb_shape_def sb_dec_def sb_size_def backup_apart_def backup_off_def
      OBMAFS3_BACKUP_SB_LBA_def obmafs3_sb_validate_def)

lemma demo_dev_facts: "io_healthy demo_dev" "fsize demo_dev = 32768"
  by (simp_all add: demo_dev_def io_healthy_def)

theorem sb_write_then_read_witness:
  "io_healthy demo_dev \<and> sb_shape demo_sb \<and> backup_apart demo_sb \<and>
   (\<exists>d'. obmafs3_sb_write (\<lambda>_. 7) demo_dev demo_sb = (OBMAFS3_OK, d') \<and>
     obmafs3_sb_read_lenient (\<lambda>_. 7) d' = Inr (sb_seal (\<lambda>_. 7) demo_sb, True))"
  using sb_write_then_read [OF demo_dev_facts(1) demo_sb_facts(1,2), of "\<lambda>_. 7"] demo_dev_facts demo_sb_facts
  by blast

text \<open>
  C2: on a volume with the default block size, if the superblock was written and later the
  primary copy no longer validates (whatever bytes it now holds), open still succeeds and
  works with the superblock that was written, taken from the backup, provided the rest of
  the image is untouched and the format gates accept it.
\<close>

theorem open_recovers_backup:
  assumes "io_healthy d" "sb_shape s" "backup_apart s"
    and "block_size s = 4096" "unat (total_bytes s) = fsize d" "obmafs3_sb_validate s = OBMAFS3_OK"
    and "revision s \<le> OBMAFS3_REVISION" "incompatible_flags s AND NOT OBMAFS3_INCOMPAT_FLAGS_KNOWN = 0"
    and w: "obmafs3_sb_write h d s = (OBMAFS3_OK, d1)"
    and same: "io_healthy d2" "fsize d2 = fsize d1" "\<And>i. sb_size \<le> i \<Longrightarrow> fdata d2 i = fdata d1 i"
    and bad: "\<And>t. obmafs3_sb_read d2 = Inr t \<Longrightarrow> obmafs3_sb_validate t \<noteq> OBMAFS3_OK"
  shows "\<exists>ro. open_superblock d2 False = Inr (sb_seal h s, ro)"
proof -
  let ?b = "sb_enc (sb_seal h s)"
  from sb_write_both [OF assms(1-3), of h] w
  have d1: "fsize d1 = max (fsize d) (unat (backup_off s) + sb_size)"
      "pread d1 (backup_off s) sb_size = Some ?b" by auto
  have nb: "unat (total_bytes s div 4096) = fsize d div 4096"
    using assms(5) by (simp add: unat_div_distrib)
  have two: "2 \<le> fsize d div 4096"
  proof (rule ccontr)
    assume "\<not> 2 \<le> fsize d div 4096"
    then have "total_bytes s div 4096 = 0 \<or> total_bytes s div 4096 = 1"
      using nb by (auto simp: word_unat_eq_iff)
    then show False
      using assms(3,4) by (auto simp: backup_apart_def backup_off_def OBMAFS3_BACKUP_SB_LBA_def sb_size_def)
  qed
  have "fsize d < 2 ^ 64" using assms(5) unat_u64 [of "total_bytes s"] by simp
  have bo: "unat (backup_off s) = (fsize d div 4096 - 1) * 4096"
    using two nb assms(4) \<open>fsize d < 2 ^ 64\<close>
    by (simp add: backup_off_def OBMAFS3_BACKUP_SB_LBA_def unat_word_ariths unat_sub word_le_nat_alt)
  have "(fsize d div 4096 - 1) * 4096 + 4080 \<le> fsize d"
    using two by (simp add: diff_mult_distrib)
  then have fs: "fsize d2 = fsize d" using d1(1) same(2) bo by (simp add: sb_size_def)
  have tot: "of_nat (fsize d2) = total_bytes s" using fs assms(5) by (metis of_nat_unat ucast_id)
  have m: "map (fdata d2) [unat (backup_off s)..<n] = map (fdata d1) [unat (backup_off s)..<n]" for n
    using same(3) assms(3) by (intro map_cong) (auto simp: backup_apart_def)
  have "\<not> rd_fail d1 (unat (backup_off s))" using d1(2) by (auto simp: pread_def split: if_splits)
  then have "pread d2 (backup_off s) sb_size = pread d1 (backup_off s) sb_size"
    unfolding pread_def m same(2) using same(1) by (simp add: io_healthy_def)
  then have "obmafs3_sb_read_backup d2 4096 (total_bytes s) = Inr (sb_seal h s)"
    using d1(2) assms(2,3,4)
    by (auto simp: obmafs3_sb_read_backup_def backup_apart_def backup_off_def length_sb_enc sb_dec_enc Let_def)
  moreover have "\<not> total_bytes s < 2 * 4096" using two assms(5) by (simp add: word_less_nat_alt)
  ultimately have "backup_candidate d2 4096 = Some (sb_seal h s)"
    using tot assms(4,6) by (simp add: backup_candidate_def)
  then have "sb_recover d2 try_bs = Some (sb_seal h s)" by (simp add: try_bs_def)
  moreover have "0 < fsize d2" using fs two by simp
  ultimately show ?thesis
    using bad assms(7,8) by (auto simp: open_superblock_def Let_def split: sum.splits)
qed

theorem open_recovers_backup_witness:
  "\<exists>d1. obmafs3_sb_write (\<lambda>_. 7) demo_dev demo_sb = (OBMAFS3_OK, d1) \<and>
     (\<exists>ro. open_superblock (d1\<lparr>fdata := \<lambda>i. if i < sb_size then 0 else fdata d1 i\<rparr>) False
           = Inr (sb_seal (\<lambda>_. 7) demo_sb, ro))"
proof -
  obtain d1 where d1: "obmafs3_sb_write (\<lambda>_. 7) demo_dev demo_sb = (OBMAFS3_OK, d1)" "io_healthy d1"
      "fsize d1 = max 32768 (unat (28672 :: u64) + sb_size)"
    using sb_write_both [OF demo_dev_facts(1) demo_sb_facts(1,2), of "\<lambda>_. 7"] demo_dev_facts(2) demo_sb_facts(6)
    by auto
  let ?d2 = "d1\<lparr>fdata := \<lambda>i. if i < sb_size then 0 else fdata d1 i\<rparr>"
  have z: "map (fdata ?d2) [0..<sb_size] = map (\<lambda>_. 0) [0..<sb_size]" by simp
  have "obmafs3_sb_read ?d2 = Inr (sb_dec (map (fdata ?d2) [0..<sb_size]))"
    using d1(2,3) by (simp add: obmafs3_sb_read_def pread_def io_healthy_def sb_size_def min_def
        del: upt_rec_numeral)
  then have "obmafs3_sb_read ?d2 = Inr (sb_dec (map (\<lambda>_. 0) [0..<sb_size]))"
    unfolding z .
  moreover have "obmafs3_sb_validate (sb_dec (map (\<lambda>_. 0) [0..<sb_size])) = OBMAFS3_ERR_BADMAGIC"
    by (simp add: obmafs3_sb_validate_def sb_dec_def fld_def OBMAFS3_SB_MAGIC_def map_replicate_const)
  ultimately have "\<exists>ro. open_superblock ?d2 False = Inr (sb_seal (\<lambda>_. 7) demo_sb, ro)"
    using open_recovers_backup [OF demo_dev_facts(1) demo_sb_facts(1,2,4) _ demo_sb_facts(3) _ _ d1(1), of ?d2]
      d1(2) demo_dev_facts(2) demo_sb_facts(5)
    by (simp add: io_healthy_def demo_sb_def sb_dec_def OBMAFS3_REVISION_def sb_size_def fld_def)
  with d1(1) show ?thesis by blast
qed

end
