(* ===== verification/Bitmap.thy ===== *)
theory Bitmap
  imports Checksum
begin

text \<open>
  src/src/lib/bitmap.c: the allocation bitmap, one bit per block, set for an allocated block.
  The free-space search reads the bitmap as 64-bit little-endian words; the last word may
  reach past the buffer, into \<open>heap_past\<close>. Bit positions are natural numbers: they stay
  below the number of blocks of the volume plus 64.
\<close>

section \<open>Bit manipulation\<close>

definition set_one :: "u64 \<Rightarrow> u64 \<Rightarrow> bytes \<Rightarrow> bytes" where
  "set_one nbytes b bm =
     (if b div 8 < nbytes
      then bm[unat (b div 8) := bm ! unat (b div 8) OR push_bit (unat (b mod 8)) 1] else bm)"

definition clear_one :: "u64 \<Rightarrow> u64 \<Rightarrow> bytes \<Rightarrow> bytes" where
  "clear_one nbytes b bm =
     (if b div 8 < nbytes
      then bm[unat (b div 8) := bm ! unat (b div 8) AND NOT (push_bit (unat (b mod 8)) 1)] else bm)"

definition obmafs3_bitmap_set :: "ctx \<Rightarrow> u64 \<Rightarrow> u64 \<Rightarrow> ctx" where
  "obmafs3_bitmap_set c lba count =
     (case bitmap c of
        None \<Rightarrow> c
      | Some bm \<Rightarrow> c\<lparr>bitmap := Some
          (fold (\<lambda>i. set_one (bitmap_size c) (lba + of_nat i)) [0..<unat count] bm)\<rparr>)"

definition obmafs3_bitmap_clear :: "ctx \<Rightarrow> u64 \<Rightarrow> u64 \<Rightarrow> ctx" where
  "obmafs3_bitmap_clear c lba count =
     (case bitmap c of
        None \<Rightarrow> c
      | Some bm \<Rightarrow> c\<lparr>bitmap := Some
          (fold (\<lambda>i. clear_one (bitmap_size c) (lba + of_nat i)) [0..<unat count] bm)\<rparr>)"

definition obmafs3_bitmap_is_set :: "ctx \<Rightarrow> u64 \<Rightarrow> bool" where
  "obmafs3_bitmap_is_set c lba =
     (case bitmap c of
        None \<Rightarrow> False
      | Some bm \<Rightarrow>
          if bitmap_size c \<le> lba div 8 then False
          else drop_bit (unat (lba mod 8)) (bm ! unat (lba div 8)) AND 1 = 1)"

definition obmafs3_free_blocks :: "ctx \<Rightarrow> u64 \<Rightarrow> u64 \<Rightarrow> rc \<times> ctx" where
  "obmafs3_free_blocks c lba count = (OBMAFS3_OK, obmafs3_bitmap_clear c lba count)"

definition obmafs3_free_block :: "ctx \<Rightarrow> u64 \<Rightarrow> rc \<times> ctx" where
  "obmafs3_free_block c lba = obmafs3_free_blocks c lba 1"

section \<open>Free block search\<close>

text \<open>\<open>__builtin_ctzll\<close>: the index of the lowest set bit (the code calls it on nonzero words only).\<close>

definition ctz :: "u64 \<Rightarrow> nat" where
  "ctz w = (case find (bit w) [0..<64] of Some i \<Rightarrow> i | None \<Rightarrow> 64)"

text \<open>
  The inner loop over the free bits of one word. \<open>Inl s\<close> is the return with start \<open>s\<close>,
  \<open>Inr (run_start, run_len)\<close> the state in which the loop ends.
\<close>

function scan_mask :: "nat \<Rightarrow> nat \<Rightarrow> nat \<Rightarrow> u64 \<Rightarrow> nat \<Rightarrow> nat \<Rightarrow> nat + nat \<times> nat" where
  "scan_mask word_idx scan_end count free_mask run_start run_len =
     (if free_mask = 0 then Inr (run_start, run_len)
      else
        let abs_bit = word_idx * 64 + ctz free_mask in
        if scan_end \<le> abs_bit then Inr (run_start, run_len)
        else
          let (rs, rl) = (if run_len = 0 \<or> abs_bit \<noteq> run_start + run_len
                          then (abs_bit, 1) else (run_start, run_len + 1)) in
          if count \<le> rl then Inl rs
          else scan_mask word_idx scan_end count (free_mask AND (free_mask - 1)) rs rl)"
  by pat_completeness auto
termination
proof (relation "measure (\<lambda>(_, _, _, m, _, _). unat m)", goal_cases)
  case 1
  show ?case by simp
next
  case (2 w e n m rs rl)
  have "m AND (m - 1) \<le> m - 1" by (rule word_and_le1)
  also have "m - 1 < m" using 2(1) by (simp add: word_less_nat_alt unat_minus_one unat_gt_0)
  finally show ?case by (simp add: word_less_nat_alt)
qed

text \<open>One 64-bit word of the bitmap, as the cast to \<open>uint64_t*\<close> reads it.\<close>

definition bitmap_word :: "bytes \<Rightarrow> (nat \<Rightarrow> u8) \<Rightarrow> nat \<Rightarrow> u64" where
  "bitmap_word bm past w =
     le_dec (map (\<lambda>i. if i < length bm then bm ! i else past (i - length bm)) [8 * w..<8 * w + 8])"

text \<open>
  The word with the positions below \<open>b\<close> and from \<open>scan_end\<close> on marked as allocated.
\<close>

definition masked_word :: "bytes \<Rightarrow> (nat \<Rightarrow> u8) \<Rightarrow> nat \<Rightarrow> nat \<Rightarrow> u64" where
  "masked_word bm past scan_end b =
     (let word_idx = b div 64;
          bit_in_word = b mod 64;
          word = bitmap_word bm past word_idx;
          word = (if bit_in_word \<noteq> 0 then word OR (push_bit bit_in_word 1 - 1) else word);
          word_end = (word_idx + 1) * 64
      in if scan_end < word_end
         then (let excess = word_end - scan_end in word OR NOT (push_bit (64 - excess) 1 - 1))
         else word)"

text \<open>One pass over \<open>[b, scan_end)\<close>.\<close>

function scan_pass ::
    "bytes \<Rightarrow> (nat \<Rightarrow> u8) \<Rightarrow> nat \<Rightarrow> nat \<Rightarrow> nat \<Rightarrow> nat \<Rightarrow> nat \<Rightarrow> nat option" where
  "scan_pass bm past scan_end count b run_start run_len =
     (if scan_end \<le> b then None
      else if masked_word bm past scan_end b = NOT 0
      then scan_pass bm past scan_end count ((b div 64 + 1) * 64) run_start 0
      else (case scan_mask (b div 64) scan_end count (NOT (masked_word bm past scan_end b)) run_start run_len of
              Inl s \<Rightarrow> Some s
            | Inr (rs, rl) \<Rightarrow> scan_pass bm past scan_end count ((b div 64 + 1) * 64) rs rl))"
  by pat_completeness auto

lemma next_word_gt: "(b :: nat) < (b div 64 + 1) * 64"
  by presburger

termination scan_pass
  by (relation "measure (\<lambda>(_, _, e, _, b, _, _). e - b)")
     (use next_word_gt in \<open>simp_all add: diff_less_mono2\<close>)

declare scan_mask.simps [simp del] scan_pass.simps [simp del]

definition obmafs3_bitmap_find_free :: "ctx \<Rightarrow> u64 \<Rightarrow> rc + u64" where
  "obmafs3_bitmap_find_free c count =
     (case bitmap c of
        None \<Rightarrow> Inl OBMAFS3_ERR_INVAL
      | Some bm \<Rightarrow>
          let total_blocks = unat (max_lba c) in
          if total_blocks = 0 then Inl OBMAFS3_ERR_NOSPC
          else
            let hint = unat (next_free_lba c);
                hint = (if total_blocks \<le> hint then 0 else hint)
            in case scan_pass bm (heap_past c) total_blocks (unat count) hint 0 0 of
                 Some s \<Rightarrow> Inr (of_nat s)
               | None \<Rightarrow>
                   if 0 < hint
                   then (case scan_pass bm (heap_past c) hint (unat count) 0 0 0 of
                           Some s \<Rightarrow> Inr (of_nat s)
                         | None \<Rightarrow> Inl OBMAFS3_ERR_NOSPC)
                   else Inl OBMAFS3_ERR_NOSPC)"

section \<open>The search, specified\<close>

text \<open>Block \<open>p\<close> is allocated in the bitmap.\<close>

definition allocated :: "bytes \<Rightarrow> nat \<Rightarrow> bool" where
  "allocated bm p \<longleftrightarrow> p < 8 * length bm \<and> bit (bm ! (p div 8)) (p mod 8)"

text \<open>The reference: the first start in \<open>[lo, hi)\<close> of \<open>n\<close> consecutive free positions below \<open>hi\<close>.\<close>

definition first_run :: "(nat \<Rightarrow> bool) \<Rightarrow> nat \<Rightarrow> nat \<Rightarrow> nat \<Rightarrow> nat option" where
  "first_run free n lo hi = find (\<lambda>s. s + n \<le> hi \<and> (\<forall>i \<in> set [s..<s + n]. free i)) [lo..<hi]"

text \<open>The run bookkeeping of the inner loop over any ascending list of free positions.\<close>

fun scan_list :: "nat \<Rightarrow> nat list \<Rightarrow> nat \<Rightarrow> nat \<Rightarrow> nat + nat \<times> nat" where
  "scan_list n [] rs rl = Inr (rs, rl)"
| "scan_list n (b # bs) rs rl =
     (if rl = 0 \<or> b \<noteq> rs + rl
      then (if n \<le> 1 then Inl b else scan_list n bs b 1)
      else (if n \<le> rl + 1 then Inl rs else scan_list n bs rs (rl + 1)))"

definition found :: "nat + nat \<times> nat \<Rightarrow> nat option" where
  "found r = (case r of Inl s \<Rightarrow> Some s | Inr _ \<Rightarrow> None)"

lemma scan_list_append:
  "scan_list n (xs @ ys) rs rl =
     (case scan_list n xs rs rl of Inl s \<Rightarrow> Inl s | Inr (rs', rl') \<Rightarrow> scan_list n ys rs' rl')"
  by (induction xs arbitrary: rs rl) auto

lemma found_scan_list_reset:
  "(\<And>b. b \<in> set bs \<Longrightarrow> b \<noteq> rs + rl) \<Longrightarrow> found (scan_list n bs rs 0) = found (scan_list n bs rs rl)"
  by (cases bs) (auto simp: found_def)

lemma scan_list_state:
  "scan_list n bs rs rl = Inr (rs', rl') \<Longrightarrow> (\<And>b. b \<in> set bs \<Longrightarrow> b < p) \<Longrightarrow>
   (rl \<noteq> 0 \<Longrightarrow> rs + rl \<le> p) \<Longrightarrow> rl' \<noteq> 0 \<Longrightarrow> rs' + rl' \<le> p"
  by (induction bs arbitrary: rs rl) (auto simp: Suc_le_eq split: if_splits)

lemma first_run_step:
  "lo < hi \<Longrightarrow> first_run free n lo hi =
     (if lo + n \<le> hi \<and> (\<forall>i \<in> set [lo..<lo + n]. free i) then Some lo else first_run free n (Suc lo) hi)"
  by (simp add: first_run_def upt_conv_Cons)

text \<open>
  Scanning the free positions from \<open>p\<close> on, with a pending run \<open>[rs, rs + rl)\<close>: the pending
  run wins if it touches \<open>p\<close> and can be completed, otherwise the first run from \<open>p\<close> on does.
\<close>

lemma scan_list_first_run:
  assumes "1 \<le> n" "rl < n" "rl \<noteq> 0 \<Longrightarrow> rs + rl \<le> p"
  shows "found (scan_list n (filter free [p..<e]) rs rl) =
     (if 0 < rl \<and> rs + rl = p \<and> rs + n \<le> e \<and> (\<forall>i \<in> set [p..<rs + n]. free i) then Some rs
      else first_run free n p e)"
  using assms
proof (induction "e - p" arbitrary: p rs rl)
  case 0
  then show ?case by (auto simp: found_def first_run_def)
next
  case (Suc k)
  then have p: "p < e" and k: "k = e - Suc p" by simp_all
  have split: "[p..<e] = p # [Suc p..<e]" using p by (simp add: upt_conv_Cons)
  note IH = Suc.hyps(1) [OF k]
  show ?case
  proof (cases "free p")
    case False
    have "found (scan_list n (filter free [p..<e]) rs rl) = first_run free n (Suc p) e"
      using IH [of rl rs] Suc.prems False by (cases "rl = 0") (auto simp: split)
    also have "\<dots> = first_run free n p e"
      using first_run_step [OF p, of free n] False Suc.prems(1) by force
    moreover have "\<not> (0 < rl \<and> rs + rl = p \<and> rs + n \<le> e \<and> (\<forall>i \<in> set [p..<rs + n]. free i))"
      using False Suc.prems by auto
    ultimately show ?thesis by presburger
  next
    case True
    show ?thesis
    proof (cases "rl = 0 \<or> p \<noteq> rs + rl")
      case fresh: True
      have one: "n \<le> 1 \<Longrightarrow> first_run free n p e = Some p"
        using first_run_step [OF p, of free n] True p Suc.prems(1) by (auto simp: le_antisym)
      have more: "\<not> n \<le> 1 \<Longrightarrow> found (scan_list n (filter free [Suc p..<e]) p 1) = first_run free n p e"
        using IH [of 1 p] first_run_step [OF p, of free n] True
        by (auto simp: upt_conv_Cons)
      show ?thesis using fresh True one more by (auto simp: split found_def)
    next
      case cont: False
      have fin: "rs + n \<le> e \<and> (\<forall>i \<in> set [p..<rs + n]. free i)"
        if "n \<le> rl + 1"
      proof -
        have "rs + n = Suc p" using that cont Suc.prems(2) by simp
        then show ?thesis using True p by simp
      qed
      have "first_run free n p e = first_run free n (Suc p) e"
        if "\<not> (rs + n \<le> e \<and> (\<forall>i \<in> set [Suc p..<rs + n]. free i))"
      proof -
        have ne: "\<not> (p + n \<le> e \<and> (\<forall>i \<in> set [p..<p + n]. free i))" using that cont by auto
        show ?thesis unfolding first_run_step [OF p, of free n] using ne by (rule if_not_P)
      qed
      moreover have "found (scan_list n (filter free [Suc p..<e]) rs (rl + 1)) =
          (if rs + n \<le> e \<and> (\<forall>i \<in> set [Suc p..<rs + n]. free i) then Some rs
           else first_run free n (Suc p) e)" if "\<not> n \<le> rl + 1"
        using IH [of "rl + 1" rs] that cont Suc.prems(1) by simp
      moreover have "(\<forall>i \<in> set [p..<rs + n]. free i) \<longleftrightarrow> (\<forall>i \<in> set [Suc p..<rs + n]. free i)"
        if "\<not> n \<le> rl + 1"
        using that cont True by (simp add: upt_conv_Cons del: set_upt)
      ultimately have "found (scan_list n (filter free [Suc p..<e]) rs (rl + 1)) =
          (if rs + n \<le> e \<and> (\<forall>i \<in> set [p..<rs + n]. free i) then Some rs else first_run free n p e)"
        if "\<not> n \<le> rl + 1"
        using that by presburger
      moreover have "filter free [p..<e] = p # filter free [Suc p..<e]" using split True by simp
      then have "scan_list n (filter free [p..<e]) rs rl =
          (if n \<le> rl + 1 then Inl rs else scan_list n (filter free [Suc p..<e]) rs (rl + 1))"
        using if_not_P [OF cont] by (simp only: scan_list.simps)
      moreover have "found (Inl rs) = Some rs" by (simp add: found_def)
      ultimately show ?thesis using fin cont by (cases "n \<le> rl + 1") (auto simp del: set_upt)
    qed
  qed
qed

section \<open>The word-wise scan meets the specification\<close>

abbreviation bits_of :: "u64 \<Rightarrow> nat list" where
  "bits_of m \<equiv> filter (bit m) [0..<64]"

lemma ctz_props:
  assumes "m \<noteq> 0"
  shows "ctz m < 64" "bit m (ctz m)" "\<And>i. i < ctz m \<Longrightarrow> \<not> bit m i"
proof -
  obtain i where "bit m i" using assms by (auto simp: bit_eq_iff)
  moreover from this have "i < 64" using bit_imp_le_length by fastforce
  ultimately have "find (bit m) [0..<64] \<noteq> None" by (auto simp: find_None_iff)
  then obtain k where k: "find (bit m) [0..<64] = Some k" by blast
  then have "ctz m = k" by (simp add: ctz_def)
  with k show "ctz m < 64" "bit m (ctz m)" "\<And>i. i < ctz m \<Longrightarrow> \<not> bit m i"
    by (auto simp: find_Some_iff)
qed

text \<open>\<open>m & (m - 1)\<close> clears the lowest set bit and nothing else.\<close>

lemma bit_clear_lowest:
  assumes "m \<noteq> 0"
  shows "bit (m AND (m - 1)) i \<longleftrightarrow> bit m i \<and> i \<noteq> ctz m"
proof -
  let ?k = "ctz m" and ?h = "m AND NOT (mask (Suc (ctz m)))"
  have m: "m = ?h OR push_bit ?k 1"
    using ctz_props [OF assms] by (intro bit_word_eqI) (auto simp: bit_simps less_Suc_eq not_le)
  also have "\<dots> = ?h + push_bit ?k 1"
    by (rule disjunctive_add [symmetric]) (auto simp: bit_simps)
  finally have "m - 1 = ?h + (push_bit ?k 1 - 1)" by simp
  also have "push_bit ?k 1 - 1 = (mask ?k :: u64)" by (simp add: mask_eq_decr_exp push_bit_of_1)
  also have "?h + mask ?k = ?h OR mask ?k"
    by (rule disjunctive_add) (auto simp: bit_simps)
  finally have m1: "m - 1 = ?h OR mask ?k" .
  show ?thesis
    unfolding m1 using ctz_props [OF assms] bit_imp_le_length [of m i] by (auto simp: bit_simps less_Suc_eq not_le)
qed

lemma bits_of_Cons:
  assumes "m \<noteq> 0"
  shows "bits_of m = ctz m # bits_of (m AND (m - 1))"
proof -
  note c = ctz_props [OF assms]
  have s: "[0..<64] = [0..<ctz m] @ ctz m # [Suc (ctz m)..<64]"
    using upt_add_eq_append [of 0 "ctz m" "64 - ctz m"] c(1) by (simp add: upt_conv_Cons del: upt_rec_numeral)
  have lo: "filter (bit m) [0..<ctz m] = []" "filter (bit (m AND (m - 1))) [0..<ctz m] = []"
    using c(3) by (auto simp: filter_empty_conv bit_clear_lowest [OF assms])
  have hi: "filter (bit (m AND (m - 1))) [Suc (ctz m)..<64] = filter (bit m) [Suc (ctz m)..<64]"
    by (rule filter_cong) (auto simp: bit_clear_lowest [OF assms])
  show ?thesis unfolding s using lo hi c(2) by (simp add: bit_clear_lowest [OF assms])
qed

lemma scan_mask_eq:
  assumes "\<And>j. bit m j \<Longrightarrow> w * 64 + j < e"
  shows "scan_mask w e n m rs rl = scan_list n (map (\<lambda>j. w * 64 + j) (bits_of m)) rs rl"
  using assms
proof (induction w e n m rs rl rule: scan_mask.induct)
  case (1 w e n m rs rl)
  show ?case
  proof (cases "m = 0")
    case True
    then show ?thesis by (simp add: scan_mask.simps)
  next
    case False
    have in_e: "\<not> e \<le> w * 64 + ctz m" using 1(2) ctz_props(2) [OF False] by (simp add: not_le)
    have nxt: "bit (m AND (m - 1)) j \<Longrightarrow> w * 64 + j < e" for j
      using 1(2) by (simp add: bit_clear_lowest [OF False])
    show ?thesis
    proof (cases "rl = 0 \<or> w * 64 + ctz m \<noteq> rs + rl")
      case fresh: True
      have "\<not> n \<le> 1 \<Longrightarrow> scan_mask w e n (m AND (m - 1)) (w * 64 + ctz m) 1
          = scan_list n (map (\<lambda>j. w * 64 + j) (bits_of (m AND (m - 1)))) (w * 64 + ctz m) 1"
        using 1(1) [OF False refl in_e, of "(w * 64 + ctz m, 1)"] nxt fresh by auto
      with fresh False in_e show ?thesis
        unfolding bits_of_Cons [OF False] scan_mask.simps [of w e n m] by (auto simp: Let_def)
    next
      case cont: False
      have "\<not> n \<le> rl + 1 \<Longrightarrow> scan_mask w e n (m AND (m - 1)) rs (rl + 1)
          = scan_list n (map (\<lambda>j. w * 64 + j) (bits_of (m AND (m - 1)))) rs (rl + 1)"
        using 1(1) [OF False refl in_e, of "(rs, rl + 1)"] nxt cont by auto
      with cont False in_e show ?thesis
        unfolding bits_of_Cons [OF False] scan_mask.simps [of w e n m] by (auto simp: Let_def)
    qed
  qed
qed

lemma bit_bitmap_word:
  "j < 64 \<Longrightarrow> 64 * w + j < 8 * length bm \<Longrightarrow>
   bit (bitmap_word bm past w) j \<longleftrightarrow> allocated bm (64 * w + j)"
proof -
  assume a: "j < 64" "64 * w + j < 8 * length bm"
  have d: "(64 * w + j) div 8 = 8 * w + j div 8" "(64 * w + j) mod 8 = j mod 8" by presburger+
  from a have "j div 8 < 8" "8 * w + j div 8 < length bm" by presburger+
  with a show ?thesis
    by (simp add: bitmap_word_def bit_le_dec allocated_def d del: upt_rec_numeral)
qed

lemma bit_low_mask: "j < 64 \<Longrightarrow> bit (push_bit k 1 - 1 :: u64) j \<longleftrightarrow> j < k"
  by (simp add: push_bit_of_1 flip: mask_eq_decr_exp) (simp add: bit_simps)

lemma bit_not_iff_u64: "j < 64 \<Longrightarrow> bit (NOT w :: u64) j \<longleftrightarrow> \<not> bit w j"
  by (simp add: bit_not_iff)

text \<open>Heap contents behind the buffer are masked away: only real, in-range bits survive.\<close>

lemma bit_masked_word:
  assumes "b < e" "e \<le> 8 * length bm"
  shows "bit (NOT (masked_word bm past e b)) j \<longleftrightarrow>
     j < 64 \<and> b mod 64 \<le> j \<and> 64 * (b div 64) + j < e \<and> \<not> allocated bm (64 * (b div 64) + j)"
proof (cases "j < 64")
  case False
  then show ?thesis using bit_imp_le_length [of "NOT (masked_word bm past e b)" j] by auto
next
  case True
  let ?w = "b div 64" let ?ex = "(b div 64 + 1) * 64 - e"
  have "bit (masked_word bm past e b) j \<longleftrightarrow> bit (bitmap_word bm past ?w) j \<or>
      (b mod 64 \<noteq> 0 \<and> j < b mod 64) \<or> (e < (?w + 1) * 64 \<and> \<not> j < 64 - ?ex)"
    unfolding masked_word_def Let_def
    by (cases "b mod 64 = 0"; cases "e < (?w + 1) * 64")
       (simp_all only: if_True if_False simp_thms disj_assoc bit_or_iff bit_not_iff_u64 [OF True] bit_low_mask [OF True])
  also have "(e < (?w + 1) * 64 \<and> \<not> j < 64 - ?ex) \<longleftrightarrow> e \<le> 64 * ?w + j"
    using assms(1) True by presburger
  finally have "bit (masked_word bm past e b) j \<longleftrightarrow>
      bit (bitmap_word bm past ?w) j \<or> j < b mod 64 \<or> e \<le> 64 * ?w + j" by auto
  then show ?thesis
    using True bit_bitmap_word [OF True, of ?w bm past] assms(2) by (auto simp: bit_not_iff_u64)
qed

lemma map_add_upt2: "map (\<lambda>j. j + k) [a..<b] = [a + k..<b + k]"
  by (induction b) auto

lemma masked_word_bits:
  assumes "b < e" "e \<le> 8 * length bm"
  shows "map (\<lambda>j. b div 64 * 64 + j) (bits_of (NOT (masked_word bm past e b)))
       = filter (\<lambda>p. \<not> allocated bm p) [b..<min e ((b div 64 + 1) * 64)]"
proof -
  let ?w = "b div 64" and ?u = "min e ((b div 64 + 1) * 64)"
  have bd: "64 * ?w \<le> b" "b - 64 * ?w = b mod 64" by (simp_all add: minus_mult_div_eq_mod)
  have "bits_of (NOT (masked_word bm past e b))
      = filter (\<lambda>j. \<not> allocated bm (64 * ?w + j)) [b mod 64..<?u - 64 * ?w]"
  proof (rule sorted_distinct_set_unique)
    show "set (bits_of (NOT (masked_word bm past e b)))
        = set (filter (\<lambda>j. \<not> allocated bm (64 * ?w + j)) [b mod 64..<?u - 64 * ?w])"
      using bit_masked_word [OF assms] by auto
  qed (simp_all add: sorted_wrt_filter)
  also have "map (\<lambda>j. ?w * 64 + j) \<dots>
      = filter (\<lambda>p. \<not> allocated bm p) (map (\<lambda>j. 64 * ?w + j) [b mod 64..<?u - 64 * ?w])"
    by (simp add: filter_map comp_def mult.commute)
  also have "map (\<lambda>j. 64 * ?w + j) [b mod 64..<?u - 64 * ?w] = [b..<?u]"
  proof -
    have "map (\<lambda>j. 64 * ?w + j) [b mod 64..<?u - 64 * ?w]
        = map (\<lambda>j. j + 64 * ?w) [b mod 64..<?u - 64 * ?w]" by (simp add: add.commute)
    also have "\<dots> = [b mod 64 + 64 * ?w..<?u - 64 * ?w + 64 * ?w]" by (rule map_add_upt2)
    also have "\<dots> = [b..<?u]" using assms(1) bd by simp
    finally show ?thesis .
  qed
  finally show ?thesis .
qed

lemma scan_pass_scan_list:
  assumes "e \<le> 8 * length bm" "rl \<noteq> 0 \<Longrightarrow> rs + rl \<le> b"
  shows "scan_pass bm past e n b rs rl
       = found (scan_list n (filter (\<lambda>p. \<not> allocated bm p) [b..<e]) rs rl)"
  using assms
proof (induction bm past e n b rs rl rule: scan_pass.induct)
  case (1 bm past e n b rs rl)
  let ?free = "\<lambda>p. \<not> allocated bm p" and ?nb = "(b div 64 + 1) * 64"
  note nb = next_word_gt [of b]
  show ?case
  proof (cases "e \<le> b")
    case True
    then show ?thesis by (simp add: scan_pass.simps [of bm past e n b] found_def)
  next
    case False
    then have be: "b < e" by simp
    let ?m = "NOT (masked_word bm past e b)"
    have bits: "map (\<lambda>j. b div 64 * 64 + j) (bits_of ?m) = filter ?free [b..<min e ?nb]"
      using masked_word_bits [OF be 1(3)] .
    have cut: "filter ?free [b..<e] = filter ?free [b..<min e ?nb] @ filter ?free [?nb..<e]"
    proof (cases "?nb \<le> e")
      case True
      then have "[b..<e] = [b..<?nb] @ [?nb..<e]"
        using nb by (metis le_add_diff_inverse less_imp_le upt_add_eq_append)
      then show ?thesis using True by simp
    qed simp
    show ?thesis
    proof (cases "masked_word bm past e b = NOT 0")
      case full: True
      then have "filter ?free [b..<min e ?nb] = []" using bits by simp
      moreover have "scan_pass bm past e n ?nb rs 0 = found (scan_list n (filter ?free [?nb..<e]) rs 0)"
        using 1(1) [OF False full 1(3)] by simp
      moreover have "found (scan_list n (filter ?free [?nb..<e]) rs 0)
          = found (scan_list n (filter ?free [?nb..<e]) rs rl)"
        using 1(4) nb by (cases "rl = 0") (auto intro!: found_scan_list_reset)
      ultimately show ?thesis
        using full False cut by (simp add: scan_pass.simps [of bm past e n b])
    next
      case part: False
      have inm: "bit ?m j \<Longrightarrow> b div 64 * 64 + j < e" for j
        using bit_masked_word [OF be 1(3)] by (simp add: mult.commute)
      have sm: "scan_mask (b div 64) e n ?m rs rl = scan_list n (filter ?free [b..<min e ?nb]) rs rl"
        using scan_mask_eq [of ?m "b div 64" e n rs rl] inm bits by simp
      show ?thesis
      proof (cases "scan_list n (filter ?free [b..<min e ?nb]) rs rl")
        case (Inl s)
        then show ?thesis
          using part False sm cut by (simp add: scan_pass.simps [of bm past e n b] scan_list_append found_def)
      next
        case (Inr st)
        obtain rs' rl' where st: "st = (rs', rl')" by (cases st)
        have bound: "rs' + rl' \<le> ?nb" if "rl' \<noteq> 0"
        proof (rule scan_list_state [OF Inr [unfolded st] _ _ that])
          show "x < ?nb" if "x \<in> set (filter ?free [b..<min e ?nb])" for x using that by auto
          show "rl \<noteq> 0 \<Longrightarrow> rs + rl \<le> ?nb" using 1(4) nb by linarith
        qed
        have "scan_pass bm past e n ?nb rs' rl' = found (scan_list n (filter ?free [?nb..<e]) rs' rl')"
          by (rule 1(2) [OF False part trans [OF sm Inr] _ 1(3)]) (simp only: st, rule bound)
        then show ?thesis
          using part False sm cut Inr st by (simp add: scan_pass.simps [of bm past e n b] scan_list_append)
      qed
    qed
  qed
qed

lemma scan_pass_first_run:
  "e \<le> 8 * length bm \<Longrightarrow> 1 \<le> n \<Longrightarrow>
   scan_pass bm past e n b 0 0 = first_run (\<lambda>p. \<not> allocated bm p) n b e"
  using scan_pass_scan_list [of e bm 0 0 b past n] scan_list_first_run [of n 0 0 b "\<lambda>p. \<not> allocated bm p" e]
  by simp

section \<open>Bits of the bitmap\<close>

definition bm_ok :: "ctx \<Rightarrow> bool" where
  "bm_ok c \<longleftrightarrow> (\<exists>bm. bitmap c = Some bm \<and> length bm = unat (bitmap_size c) \<and>
     unat (max_lba c) \<le> 8 * length bm)"

text \<open>Block \<open>p\<close> is marked as allocated in the context.\<close>

definition used :: "ctx \<Rightarrow> nat \<Rightarrow> bool" where
  "used c p = (case bitmap c of None \<Rightarrow> False | Some bm \<Rightarrow> allocated bm p)"

lemma unat_div8_mod8: "unat (b div 8) = unat b div 8" "unat (b mod 8) = unat (b :: u64) mod 8"
  by (simp_all add: unat_div_distrib unat_mod_distrib)

lemma bit_u8_one: "j < 8 \<Longrightarrow> bit ((2 :: u8) ^ k) j \<longleftrightarrow> j = k"
  by (auto simp: bit_simps)

lemma length_set_clear_one [simp]:
  "length (set_one n b bm) = length bm" "length (clear_one n b bm) = length bm"
  by (simp_all add: set_one_def clear_one_def)

lemma same_bit_iff: "p div 8 = (q :: nat) div 8 \<Longrightarrow> p mod 8 = q mod 8 \<longleftrightarrow> p = q"
  by (metis mod_div_decomp)

lemma allocated_set_one:
  assumes "length bm = unat n"
  shows "allocated (set_one n b bm) p \<longleftrightarrow> allocated bm p \<or> (p = unat b \<and> p < 8 * length bm)"
proof (cases "b div 8 < n")
  case True
  then have in_b: "unat b div 8 < length bm"
    using assms by (simp add: word_less_nat_alt unat_div8_mod8)
  have "bit (bm[unat b div 8 := bm ! (unat b div 8) OR push_bit (unat b mod 8) 1] ! (p div 8)) (p mod 8)
      \<longleftrightarrow> bit (bm ! (p div 8)) (p mod 8) \<or> p = unat b" if "p < 8 * length bm"
    using in_b that same_bit_iff [of p "unat b"]
    by (auto simp: nth_list_update bit_or_iff bit_u8_one)
  then show ?thesis
    using True by (auto simp: set_one_def allocated_def unat_div8_mod8)
next
  case False
  then have "\<not> unat b div 8 < length bm"
    using assms by (simp add: word_less_nat_alt unat_div8_mod8)
  with False show ?thesis by (auto simp: set_one_def)
qed

lemma allocated_clear_one:
  assumes "length bm = unat n"
  shows "allocated (clear_one n b bm) p \<longleftrightarrow> allocated bm p \<and> p \<noteq> unat b"
proof (cases "b div 8 < n")
  case True
  then have in_b: "unat b div 8 < length bm"
    using assms by (simp add: word_less_nat_alt unat_div8_mod8)
  have "bit (bm[unat b div 8 := bm ! (unat b div 8) AND NOT (push_bit (unat b mod 8) 1)] ! (p div 8)) (p mod 8)
      \<longleftrightarrow> bit (bm ! (p div 8)) (p mod 8) \<and> p \<noteq> unat b" if "p < 8 * length bm"
    using in_b that same_bit_iff [of p "unat b"] bit_u8_one [of "p mod 8" "unat b mod 8"]
    by (auto simp: nth_list_update bit_and_iff bit_not_iff)
  then show ?thesis
    using True by (auto simp: clear_one_def allocated_def unat_div8_mod8)
next
  case False
  then have "\<not> unat b div 8 < length bm"
    using assms by (simp add: word_less_nat_alt unat_div8_mod8)
  with False show ?thesis by (auto simp: clear_one_def allocated_def)
qed

text \<open>A whole range; the code computes \<open>lba + i\<close> modulo \<open>2^64\<close>, so the range must not wrap.\<close>

lemma unat_add_of_nat: "unat (a :: u64) + i < 2 ^ 64 \<Longrightarrow> unat (a + of_nat i) = unat a + i"
  by (simp add: unat_word_ariths unat_of_nat)

lemma length_fold_ones [simp]:
  "length (fold (\<lambda>i. set_one n (f i)) xs bm) = length bm"
  "length (fold (\<lambda>i. clear_one n (f i)) xs bm) = length bm"
  by (induction xs arbitrary: bm) simp_all

lemma allocated_fold_set:
  "length bm = unat n \<Longrightarrow> unat lba + k \<le> 2 ^ 64 \<Longrightarrow>
   allocated (fold (\<lambda>i. set_one n (lba + of_nat i)) [0..<k] bm) p \<longleftrightarrow>
   allocated bm p \<or> (unat lba \<le> p \<and> p < unat lba + k \<and> p < 8 * length bm)"
  by (induction k) (auto simp: allocated_set_one unat_add_of_nat less_Suc_eq)

lemma allocated_fold_clear:
  "length bm = unat n \<Longrightarrow> unat lba + k \<le> 2 ^ 64 \<Longrightarrow>
   allocated (fold (\<lambda>i. clear_one n (lba + of_nat i)) [0..<k] bm) p \<longleftrightarrow>
   allocated bm p \<and> \<not> (unat lba \<le> p \<and> p < unat lba + k)"
  by (induction k) (auto simp: allocated_clear_one unat_add_of_nat less_Suc_eq)

lemma used_Some: "bitmap c = Some bm \<Longrightarrow> used c p = allocated bm p"
  by (simp add: used_def)

lemma used_set_fold:
  "bitmap c = Some bm \<Longrightarrow> used (obmafs3_bitmap_set c lba n) p =
     allocated (fold (\<lambda>i. set_one (bitmap_size c) (lba + of_nat i)) [0..<unat n] bm) p"
  by (simp add: used_def obmafs3_bitmap_set_def)

lemma used_clear_fold:
  "bitmap c = Some bm \<Longrightarrow> used (obmafs3_bitmap_clear c lba n) p =
     allocated (fold (\<lambda>i. clear_one (bitmap_size c) (lba + of_nat i)) [0..<unat n] bm) p"
  by (simp add: used_def obmafs3_bitmap_clear_def)

lemma used_set:
  assumes "bm_ok c" "unat lba + unat n \<le> unat (max_lba c)"
  shows "used (obmafs3_bitmap_set c lba n) p \<longleftrightarrow> used c p \<or> (unat lba \<le> p \<and> p < unat lba + unat n)"
proof -
  obtain bm where bm: "bitmap c = Some bm" "length bm = unat (bitmap_size c)" "unat (max_lba c) \<le> 8 * length bm"
    using assms by (auto simp: bm_ok_def)
  have "unat lba + unat n \<le> 2 ^ 64" using assms(2) unat_u64 [of "max_lba c"] by simp
  note fold = allocated_fold_set [OF bm(2) this, of p]
  have "p < unat lba + unat n \<Longrightarrow> p < 8 * length bm" using assms(2) bm(3) by linarith
  with fold show ?thesis
    unfolding used_set_fold [OF bm(1)] used_Some [OF bm(1)] by blast
qed

lemma used_clear:
  assumes "bm_ok c" "unat lba + unat n \<le> 2 ^ 64"
  shows "used (obmafs3_bitmap_clear c lba n) p \<longleftrightarrow> used c p \<and> \<not> (unat lba \<le> p \<and> p < unat lba + unat n)"
proof -
  obtain bm where bm: "bitmap c = Some bm" "length bm = unat (bitmap_size c)"
    using assms by (auto simp: bm_ok_def)
  from allocated_fold_clear [OF bm(2) assms(2), of p] show ?thesis
    unfolding used_clear_fold [OF bm(1)] used_Some [OF bm(1)] .
qed

lemma bitmap_set_frame [simp]:
  "sb (obmafs3_bitmap_set c l n) = sb c" "dev (obmafs3_bitmap_set c l n) = dev c"
  "bitmap_size (obmafs3_bitmap_set c l n) = bitmap_size c" "bm_ok (obmafs3_bitmap_set c l n) = bm_ok c"
  "next_free_lba (obmafs3_bitmap_set c l n) = next_free_lba c" "heap_ok (obmafs3_bitmap_set c l n) = heap_ok c"
  "xxh64 (obmafs3_bitmap_set c l n) = xxh64 c" "heap_past (obmafs3_bitmap_set c l n) = heap_past c"
  by (auto simp: obmafs3_bitmap_set_def bm_ok_def split: option.splits)

lemma bitmap_clear_frame [simp]:
  "sb (obmafs3_bitmap_clear c l n) = sb c" "dev (obmafs3_bitmap_clear c l n) = dev c"
  "bitmap_size (obmafs3_bitmap_clear c l n) = bitmap_size c" "bm_ok (obmafs3_bitmap_clear c l n) = bm_ok c"
  by (auto simp: obmafs3_bitmap_clear_def bm_ok_def split: option.splits)

lemma is_set_used:
  assumes "bm_ok c"
  shows "obmafs3_bitmap_is_set c lba \<longleftrightarrow> used c (unat lba)"
proof -
  obtain bm where bm: "bitmap c = Some bm" "length bm = unat (bitmap_size c)"
    using assms by (auto simp: bm_ok_def)
  have "(drop_bit k (x :: u8) AND 1 = 1) = bit x k" for k x
    by (simp add: bit_iff_odd_drop_bit and_one_eq odd_iff_mod_2_eq_one)
  moreover have "bitmap_size c \<le> lba div 8 \<longleftrightarrow> \<not> unat lba < 8 * length bm"
    using bm(2) by (auto simp: word_le_nat_alt unat_div8_mod8)
  ultimately show ?thesis
    using bm by (auto simp: obmafs3_bitmap_is_set_def used_def allocated_def unat_div8_mod8)
qed

text \<open>
  C3: marking a range of blocks and then testing any block answers exactly: allocated if it
  was allocated before or lies in the range; clearing the range makes every block of it free
  and leaves every other block as it was.
\<close>

theorem bitmap_set_clear_exact:
  assumes "bm_ok c" "unat lba + unat count \<le> unat (max_lba c)"
  shows "(obmafs3_bitmap_is_set (obmafs3_bitmap_set c lba count) b \<longleftrightarrow>
           obmafs3_bitmap_is_set c b \<or> (unat lba \<le> unat b \<and> unat b < unat lba + unat count)) \<and>
         (obmafs3_bitmap_is_set (obmafs3_bitmap_clear c lba count) b \<longleftrightarrow>
           obmafs3_bitmap_is_set c b \<and> \<not> (unat lba \<le> unat b \<and> unat b < unat lba + unat count))"
proof -
  have "unat lba + unat count \<le> 2 ^ 64" using assms(2) unat_u64 [of "max_lba c"] by simp
  then show ?thesis using assms by (simp add: is_set_used used_set used_clear)
qed

lemma find_free_first_run:
  assumes "bm_ok c" "1 \<le> unat count" "0 < unat (max_lba c)"
    and "hint = (if unat (max_lba c) \<le> unat (next_free_lba c) then 0 else unat (next_free_lba c))"
  shows "obmafs3_bitmap_find_free c count =
     (case first_run (\<lambda>p. \<not> used c p) (unat count) hint (unat (max_lba c)) of
        Some s \<Rightarrow> Inr (of_nat s)
      | None \<Rightarrow> (case first_run (\<lambda>p. \<not> used c p) (unat count) 0 hint of
                  Some s \<Rightarrow> Inr (of_nat s) | None \<Rightarrow> Inl OBMAFS3_ERR_NOSPC))"
proof -
  obtain bm where bm: "bitmap c = Some bm" "unat (max_lba c) \<le> 8 * length bm"
    using assms by (auto simp: bm_ok_def)
  have h: "hint \<le> unat (max_lba c)" using assms(4) by auto
  have u: "(\<lambda>p. \<not> used c p) = (\<lambda>p. \<not> allocated bm p)" using bm by (simp add: used_def)
  have "hint = 0 \<Longrightarrow> first_run (\<lambda>p. \<not> allocated bm p) (unat count) 0 hint = None"
    by (simp add: first_run_def)
  then show ?thesis
    unfolding obmafs3_bitmap_find_free_def Let_def u assms(4) [symmetric]
    using bm h assms(2,3)
    by (simp add: scan_pass_first_run split: option.splits)
qed

text \<open>
  C4: the word-wise search is equivalent to its reference: it returns the first run of
  \<open>count\<close> free blocks inside \<open>[hint, total_blocks)\<close>, failing that the first one inside
  \<open>[0, hint)\<close>, and ERR\_NOSPC if neither exists, whatever the heap holds behind the bitmap.
\<close>

theorem find_free_equiv_first_run:
  assumes "bm_ok c" "1 \<le> unat count" "0 < unat (max_lba c)"
    and "hint = (if unat (max_lba c) \<le> unat (next_free_lba c) then 0 else unat (next_free_lba c))"
  shows "obmafs3_bitmap_find_free c count =
     (case first_run (\<lambda>p. \<not> used c p) (unat count) hint (unat (max_lba c)) of
        Some s \<Rightarrow> Inr (of_nat s)
      | None \<Rightarrow> (case first_run (\<lambda>p. \<not> used c p) (unat count) 0 hint of
                  Some s \<Rightarrow> Inr (of_nat s) | None \<Rightarrow> Inl OBMAFS3_ERR_NOSPC))"
  using assms by (rule find_free_first_run)

definition demo_bm :: ctx where
  "demo_bm = (blank_ctx 128 16 [0x3F, 0xFC])\<lparr>next_free_lba := 8\<rparr>"

lemma demo_bm_facts:
  "bm_ok demo_bm" "max_lba demo_bm = 16" "next_free_lba demo_bm = 8" "bitmap demo_bm = Some [0x3F, 0xFC]"
  by (simp_all add: demo_bm_def blank_ctx_def bm_ok_def)

theorem bitmap_set_clear_exact_witness:
  "bm_ok demo_bm \<and> obmafs3_bitmap_is_set (obmafs3_bitmap_set demo_bm 6 3) 7 \<and>
   \<not> obmafs3_bitmap_is_set (obmafs3_bitmap_clear demo_bm 2 3) 4"
  using bitmap_set_clear_exact [OF demo_bm_facts(1), of 6 3 7] bitmap_set_clear_exact [OF demo_bm_facts(1), of 2 3 4]
    demo_bm_facts by simp

lemma demo_bm_runs:
  "first_run (\<lambda>p. \<not> used demo_bm p) 2 8 16 = Some 8"
  "first_run (\<lambda>p. \<not> used demo_bm p) 4 8 16 = None" "first_run (\<lambda>p. \<not> used demo_bm p) 4 0 8 = None"
  "list_all (\<lambda>p. \<not> used demo_bm p) [6..<10]"
  by code_simp+

theorem find_free_equiv_first_run_witness:
  "bm_ok demo_bm \<and> obmafs3_bitmap_find_free demo_bm 2 = Inr 8"
proof -
  have m: "unat (max_lba demo_bm) = 16" unfolding demo_bm_facts(2) by simp
  have h: "8 = (if unat (max_lba demo_bm) \<le> unat (next_free_lba demo_bm) then 0 else unat (next_free_lba demo_bm))"
    unfolding m demo_bm_facts(3) by simp
  have "1 \<le> unat (2 :: u64)" "0 < unat (max_lba demo_bm)" unfolding m by simp_all
  from find_free_equiv_first_run [OF demo_bm_facts(1) this h] demo_bm_facts(1) demo_bm_runs(1) show ?thesis
    unfolding m by simp
qed


lemma first_run_Some:
  "first_run free n lo hi = Some s \<Longrightarrow> lo \<le> s \<and> s + n \<le> hi \<and> (\<forall>i. s \<le> i \<and> i < s + n \<longrightarrow> free i)"
  by (auto simp: first_run_def find_Some_iff)

lemma find_free_sound:
  assumes "bm_ok c" "1 \<le> unat count" "obmafs3_bitmap_find_free c count = Inr s"
  shows "unat s + unat count \<le> unat (max_lba c)"
    and "\<And>i. unat s \<le> i \<Longrightarrow> i < unat s + unat count \<Longrightarrow> \<not> used c i"
proof -
  have pos: "0 < unat (max_lba c)"
    using assms(1,3) by (cases "unat (max_lba c) = 0") (auto simp: obmafs3_bitmap_find_free_def bm_ok_def)
  define h where "h = (if unat (max_lba c) \<le> unat (next_free_lba c) then 0 else unat (next_free_lba c))"
  have hM: "h \<le> unat (max_lba c)" by (simp add: h_def)
  let ?f = "\<lambda>p. \<not> used c p" and ?n = "unat count" and ?M = "unat (max_lba c)"
  have eq: "(case first_run ?f ?n h ?M of Some s \<Rightarrow> Inr (of_nat s)
      | None \<Rightarrow> (case first_run ?f ?n 0 h of Some s \<Rightarrow> Inr (of_nat s) | None \<Rightarrow> Inl OBMAFS3_ERR_NOSPC)) = Inr s"
    using assms(3) find_free_first_run [OF assms(1,2) pos h_def] by simp
  have "\<exists>s0. (first_run ?f ?n h ?M = Some s0 \<or> first_run ?f ?n 0 h = Some s0) \<and> s = of_nat s0"
    using eq by (auto split: option.splits)
  then obtain s0 where s0: "s = of_nat s0" "s0 + unat count \<le> unat (max_lba c)"
      "\<And>i. s0 \<le> i \<and> i < s0 + unat count \<Longrightarrow> \<not> used c i"
    using first_run_Some [of ?f ?n h ?M] first_run_Some [of ?f ?n 0 h] hM that
    by (elim exE conjE disjE) (blast dest: le_trans)+
  then have "unat s = s0" using unat_u64 [of "max_lba c"] by (simp add: unat_of_nat)
  with s0 show "unat s + unat count \<le> unat (max_lba c)"
    and "\<And>i. unat s \<le> i \<Longrightarrow> i < unat s + unat count \<Longrightarrow> \<not> used c i" by auto
qed

section \<open>The bitmap on disk\<close>

text \<open>
  The first bitmap block starts with a bitmap\_header (56 bytes: magic, total\_blocks,
  next\_free\_lba, checksum), the data follows and runs on through the other blocks.
\<close>

definition OBMAFS3_BITMAP_MAGIC :: u64 where "OBMAFS3_BITMAP_MAGIC = 0x50414D42414D424F"

definition bitmap_hdr_size :: nat where "bitmap_hdr_size = 56"

definition bitmap_hdr_enc :: "u64 \<Rightarrow> u64 \<Rightarrow> u64 \<Rightarrow> bytes \<Rightarrow> bytes" where
  "bitmap_hdr_enc magic total_blocks next_free cksum =
     le_enc 8 magic @ le_enc 8 total_blocks @ le_enc 8 next_free @ cksum"

text \<open>The loop of obmafs3\_bitmap\_write: \<open>k\<close> blocks are left, the next one is block \<open>i\<close>.\<close>

fun bitmap_write_blocks :: "bytes \<Rightarrow> bytes \<Rightarrow> nat \<Rightarrow> nat \<Rightarrow> nat \<Rightarrow> nat \<Rightarrow> ctx \<Rightarrow> rc \<times> ctx" where
  "bitmap_write_blocks hdr bm 0 i offset bytes_remaining c = (OBMAFS3_OK, c)"
| "bitmap_write_blocks hdr bm (Suc k) i offset bytes_remaining c =
     (let zero = replicate (bsz c) 0;
          copy_size = (if i = 0 then min bytes_remaining (bsz c - bitmap_hdr_size)
                       else min bytes_remaining (bsz c));
          block_buf = (if i = 0
                       then put bitmap_hdr_size (fld offset copy_size bm) (put 0 hdr zero)
                       else put 0 (fld offset copy_size bm) zero)
      in case obmafs3_block_write c (bitmap_lba (sb c) + of_nat i) block_buf of
           (OBMAFS3_OK, c') \<Rightarrow>
             bitmap_write_blocks hdr bm k (Suc i) (offset + copy_size) (bytes_remaining - copy_size) c'
         | (e, c') \<Rightarrow> (e, c'))"

definition obmafs3_bitmap_write :: "ctx \<Rightarrow> rc \<times> ctx" where
  "obmafs3_bitmap_write c =
     (case bitmap c of
        None \<Rightarrow> (OBMAFS3_ERR_INVAL, c)
      | Some bm \<Rightarrow>
          if \<not> heap_ok c then (OBMAFS3_ERR_NOMEM, c)
          else
            let hdr = bitmap_hdr_enc OBMAFS3_BITMAP_MAGIC (max_lba c) (next_free_lba c)
                        (obmafs3_checksum_block (xxh64 c) (take (unat (bitmap_size c)) bm))
            in bitmap_write_blocks hdr bm (unat (bitmap_blocks (sb c))) 0 0 (unat (bitmap_size c)) c)"

text \<open>The loop of obmafs3\_bitmap\_read; every error frees the buffer.\<close>

fun bitmap_read_blocks :: "nat \<Rightarrow> nat \<Rightarrow> nat \<Rightarrow> nat \<Rightarrow> ctx \<Rightarrow> rc \<times> ctx" where
  "bitmap_read_blocks 0 i offset bytes_remaining c = (OBMAFS3_OK, c)"
| "bitmap_read_blocks (Suc k) i offset bytes_remaining c =
     (case obmafs3_block_read c (bitmap_lba (sb c) + of_nat i) (bsz c) of
        Inl e \<Rightarrow> (e, c\<lparr>bitmap := None\<rparr>)
      | Inr block_buf \<Rightarrow>
          if i = 0 then
            if u64at 0 block_buf \<noteq> OBMAFS3_BITMAP_MAGIC then (OBMAFS3_ERR_BADMAGIC, c\<lparr>bitmap := None\<rparr>)
            else
              let copy_size = min bytes_remaining (bsz c - bitmap_hdr_size);
                  c1 = c\<lparr>next_free_lba := u64at 16 block_buf,
                         bitmap := map_option (put offset (fld bitmap_hdr_size copy_size block_buf)) (bitmap c)\<rparr>
              in bitmap_read_blocks k (Suc i) (offset + copy_size) (bytes_remaining - copy_size) c1
          else
            let copy_size = min bytes_remaining (bsz c);
                c1 = c\<lparr>bitmap := map_option (put offset (fld 0 copy_size block_buf)) (bitmap c)\<rparr>
            in bitmap_read_blocks k (Suc i) (offset + copy_size) (bytes_remaining - copy_size) c1)"

definition obmafs3_bitmap_read :: "ctx \<Rightarrow> rc \<times> ctx" where
  "obmafs3_bitmap_read c =
     (let bitmap_bytes = (max_lba c + 7) div 8 in
      if \<not> heap_ok c then (OBMAFS3_ERR_NOMEM, c\<lparr>bitmap := None\<rparr>)
      else
        let c0 = c\<lparr>bitmap := Some (replicate (unat bitmap_bytes) 0), bitmap_size := bitmap_bytes\<rparr> in
        case bitmap_read_blocks (unat (bitmap_blocks (sb c))) 0 0 (unat bitmap_bytes) c0 of
          (OBMAFS3_OK, c1) \<Rightarrow>
            (case obmafs3_block_read c1 (bitmap_lba (sb c)) (bsz c) of
               Inl e \<Rightarrow> (OBMAFS3_OK, c1)
             | Inr block_buf \<Rightarrow>
                 (case bitmap c1 of
                    None \<Rightarrow> (OBMAFS3_OK, c1)
                  | Some bm \<Rightarrow>
                      if fld 24 32 block_buf \<noteq> obmafs3_checksum_block (xxh64 c) bm
                      then (OBMAFS3_ERR_CHECKSUM, c1\<lparr>bitmap := None\<rparr>)
                      else (OBMAFS3_OK, c1)))
        | (e, c1) \<Rightarrow> (e, c1))"

text \<open>Block \<open>j\<close> of the header followed by the bitmap, padded with zeros.\<close>

definition bm_block :: "nat \<Rightarrow> bytes \<Rightarrow> bytes \<Rightarrow> nat \<Rightarrow> bytes" where
  "bm_block bs hdr bm j = fld (j * bs) bs (hdr @ bm @ replicate (Suc j * bs) 0)"

lemma length_bm_block [simp]: "length (bm_block bs hdr bm j) = bs"
  by (simp add: bm_block_def)

lemma length_bitmap_hdr_enc [simp]: "length ck = 32 \<Longrightarrow> length (bitmap_hdr_enc m t n ck) = bitmap_hdr_size"
  by (simp add: bitmap_hdr_enc_def bitmap_hdr_size_def)

text \<open>What the write loop puts into block \<open>i\<close>.\<close>

lemma padded_chunk:
  assumes "bs + (q - length bm) \<le> z"
  shows "take bs (drop q (bm @ replicate z x)) =
     put 0 (fld (min (length bm) q) (min (length bm - min (length bm) q) bs) bm) (replicate bs x)"
proof (cases "q \<le> length bm")
  case True
  have "take (bs - (length bm - q)) (replicate z x) = replicate (bs - (length bm - q)) x"
    using assms True by (simp add: min_def) arith
  then show ?thesis using True by (auto simp: put_def fld_def min_def)
next
  case False
  then have "take bs (replicate (z - (q - length bm)) x) = replicate bs x"
    using assms by (simp add: min_def)
  then show ?thesis using False by (simp add: put_def fld_def)
qed

definition bm_off :: "nat \<Rightarrow> nat \<Rightarrow> nat \<Rightarrow> nat" where
  "bm_off bs len i = (if i = 0 then 0 else min len (i * bs - bitmap_hdr_size))"

definition bm_cnt :: "nat \<Rightarrow> nat \<Rightarrow> nat \<Rightarrow> nat" where
  "bm_cnt bs len i = (if i = 0 then min (len - bm_off bs len i) (bs - bitmap_hdr_size)
                      else min (len - bm_off bs len i) bs)"

lemma bm_block_written:
  assumes "length hdr = bitmap_hdr_size" "bitmap_hdr_size \<le> bs"
    and "off = bm_off bs (length bm) i" "n = bm_cnt bs (length bm) i"
  shows "(if i = 0 then put bitmap_hdr_size (fld off n bm) (put 0 hdr (replicate bs 0))
          else put 0 (fld off n bm) (replicate bs 0)) = bm_block bs hdr bm i"
proof (cases "i = 0")
  case True
  then show ?thesis using assms
    by (auto simp: bm_block_def put_def fld_def min_def bm_off_def bm_cnt_def)
next
  case False
  define q where "q = i * bs - bitmap_hdr_size"
  have "bs \<le> i * bs" using False by simp
  then have "bitmap_hdr_size \<le> i * bs" using assms(2) by linarith
  then have "bm_block bs hdr bm i = take bs (drop q (bm @ replicate (Suc i * bs) 0))"
    using assms(1) by (simp add: bm_block_def fld_def q_def)
  also have "\<dots> = put 0 (fld (min (length bm) q) (min (length bm - min (length bm) q) bs) bm) (replicate bs 0)"
    by (rule padded_chunk) (simp add: q_def)
  finally show ?thesis
    using False assms(3,4) by (simp add: bm_off_def bm_cnt_def q_def [symmetric])
qed

lemma bm_cnt_fits: "bm_off bs len i + bm_cnt bs len i \<le> len"
  by (auto simp: bm_off_def bm_cnt_def min_def)

lemma bm_off_Suc: "bitmap_hdr_size \<le> bs \<Longrightarrow> bm_off bs len (Suc i) = bm_off bs len i + bm_cnt bs len i"
proof (cases "i = 0")
  case False
  assume "bitmap_hdr_size \<le> bs"
  moreover have "bs \<le> i * bs" using False by simp
  ultimately have "Suc i * bs - bitmap_hdr_size = (i * bs - bitmap_hdr_size) + bs"
    by (simp only: mult_Suc)
  moreover have "min len (q + bs) = min len q + min (len - min len q) bs" for q by linarith
  ultimately show ?thesis using False by (simp only: bm_off_def bm_cnt_def if_False nat.distinct)
qed (simp add: bm_off_def bm_cnt_def)

text \<open>What the read loop takes out of block \<open>i\<close>.\<close>

lemma bm_block_read:
  assumes "length hdr = bitmap_hdr_size" "bitmap_hdr_size \<le> bs"
    and "off = bm_off bs (length bm) i" "n = bm_cnt bs (length bm) i"
  shows "fld (if i = 0 then bitmap_hdr_size else 0) n (bm_block bs hdr bm i) = fld off n bm"
proof -
  have len: "length (fld off n bm) = n" using bm_cnt_fits [of bs "length bm" i] assms(3,4) by simp
  have "n \<le> (if i = 0 then bs - bitmap_hdr_size else bs)" using assms(4) by (auto simp: bm_cnt_def)
  then show ?thesis
    unfolding bm_block_written [OF assms, symmetric]
    using len assms(1,2) by (auto intro!: fld_put_same)
qed

lemma bm_block_hdr:
  assumes "length hdr = bitmap_hdr_size" "bitmap_hdr_size \<le> bs" "p + n \<le> bitmap_hdr_size"
  shows "fld p n (bm_block bs hdr bm 0) = fld p n hdr"
  using assms by (simp add: bm_block_def fld_def)

section \<open>The bitmap survives a write and a read\<close>

text \<open>The bitmap blocks lie in the volume and can hold the header and the bits.\<close>

definition bm_area :: "ctx \<Rightarrow> nat \<Rightarrow> bool" where
  "bm_area c len \<longleftrightarrow> unat (bitmap_lba (sb c)) + unat (bitmap_blocks (sb c)) \<le> unat (max_lba c) \<and>
     0 < unat (bitmap_blocks (sb c)) \<and> bitmap_hdr_size \<le> bsz c \<and>
     bitmap_hdr_size + len \<le> unat (bitmap_blocks (sb c)) * bsz c"

lemma bm_lba:
  assumes "bm_area c len" "i < unat (bitmap_blocks (sb c))"
  shows "unat (bitmap_lba (sb c) + of_nat i) = unat (bitmap_lba (sb c)) + i"
    and "in_vol c (bitmap_lba (sb c) + of_nat i)"
proof -
  show eq: "unat (bitmap_lba (sb c) + of_nat i) = unat (bitmap_lba (sb c)) + i"
    using assms unat_u64 [of "max_lba c"] by (intro unat_add_of_nat) (auto simp: bm_area_def)
  show "in_vol c (bitmap_lba (sb c) + of_nat i)"
    using assms eq unfolding in_vol_def word_less_nat_alt by (simp add: bm_area_def)
qed

lemma bitmap_write_blocks_stores:
  assumes "dev_ok c" "bm_area c (length bm)" "length hdr = bitmap_hdr_size"
    and "i + k = unat (bitmap_blocks (sb c))"
    and "off = bm_off (bsz c) (length bm) i" "rem = length bm - off"
  shows "\<exists>d. bitmap_write_blocks hdr bm k i off rem c = (OBMAFS3_OK, c\<lparr>dev := d\<rparr>) \<and>
     dev_ok (c\<lparr>dev := d\<rparr>) \<and>
     (\<forall>j. i \<le> j \<and> j < i + k \<longrightarrow>
        obmafs3_block_read (c\<lparr>dev := d\<rparr>) (bitmap_lba (sb c) + of_nat j) (bsz c) = Inr (bm_block (bsz c) hdr bm j)) \<and>
     (\<forall>l. in_vol c l \<longrightarrow> unat l < unat (bitmap_lba (sb c)) + i \<longrightarrow>
        obmafs3_block_read (c\<lparr>dev := d\<rparr>) l (bsz c) = obmafs3_block_read c l (bsz c))"
  using assms
proof (induction k arbitrary: i off rem c)
  case 0
  then show ?case by (intro exI [of _ "dev c"]) auto
next
  case (Suc k)
  let ?bs = "bsz c" and ?lba = "bitmap_lba (sb c) + of_nat i"
  define n where "n = bm_cnt ?bs (length bm) i"
  have hs: "bitmap_hdr_size \<le> ?bs" using Suc.prems(2) by (simp add: bm_area_def)
  have cs: "(if i = 0 then min rem (?bs - bitmap_hdr_size) else min rem ?bs) = n"
    using Suc.prems(5,6) by (simp add: n_def bm_cnt_def)
  note blk = bm_block_written [OF Suc.prems(3) hs Suc.prems(5) n_def]
  have iv: "in_vol c ?lba" and ul: "unat ?lba = unat (bitmap_lba (sb c)) + i"
    using bm_lba [OF Suc.prems(2), of i] Suc.prems(4) by simp_all
  let ?c1 = "wrote c ?lba (bm_block ?bs hdr bm i)"
  obtain d1 where d1: "?c1 = c\<lparr>dev := d1\<rparr>" by (simp add: wrote_def)
  have w: "obmafs3_block_write c ?lba (bm_block ?bs hdr bm i) = (OBMAFS3_OK, ?c1)"
    using Suc.prems(1) iv by (simp add: block_write_eq)
  have step: "bitmap_write_blocks hdr bm (Suc k) i off rem c
      = bitmap_write_blocks hdr bm k (Suc i) (off + n) (rem - n) ?c1"
    by (simp only: bitmap_write_blocks.simps Let_def cs blk w prod.case rc.case)
  have off': "off + n = bm_off ?bs (length bm) (Suc i)" "rem - n = length bm - (off + n)"
    using bm_off_Suc [OF hs] Suc.prems(5,6) by (simp_all add: n_def)
  obtain d where d: "bitmap_write_blocks hdr bm k (Suc i) (off + n) (rem - n) ?c1 = (OBMAFS3_OK, ?c1\<lparr>dev := d\<rparr>)"
      "dev_ok (?c1\<lparr>dev := d\<rparr>)"
      "\<And>j. Suc i \<le> j \<Longrightarrow> j < Suc i + k \<Longrightarrow>
        obmafs3_block_read (?c1\<lparr>dev := d\<rparr>) (bitmap_lba (sb c) + of_nat j) ?bs = Inr (bm_block ?bs hdr bm j)"
      "\<And>l. in_vol c l \<Longrightarrow> unat l < unat (bitmap_lba (sb c)) + Suc i \<Longrightarrow>
        obmafs3_block_read (?c1\<lparr>dev := d\<rparr>) l ?bs = obmafs3_block_read ?c1 l ?bs"
    using Suc.IH [of ?c1 "Suc i" "off + n" "rem - n"] Suc.prems off' by (auto simp: bm_area_def)
  have c1d: "?c1\<lparr>dev := d\<rparr> = c\<lparr>dev := d\<rparr>" using d1 by simp
  have same: "obmafs3_block_read (c\<lparr>dev := d\<rparr>) ?lba ?bs = Inr (bm_block ?bs hdr bm i)"
    using d(4) [OF iv] ul Suc.prems(1) iv by (simp add: c1d block_read_wrote_same)
  have other: "obmafs3_block_read (c\<lparr>dev := d\<rparr>) l ?bs = obmafs3_block_read c l ?bs"
    if "in_vol c l" "unat l < unat (bitmap_lba (sb c)) + i" for l
  proof -
    have "l \<noteq> ?lba" using that(2) ul by auto
    then show ?thesis
      using d(4) [OF that(1)] that Suc.prems(1) iv by (simp add: c1d block_read_wrote_other)
  qed
  have all: "obmafs3_block_read (c\<lparr>dev := d\<rparr>) (bitmap_lba (sb c) + of_nat j) ?bs = Inr (bm_block ?bs hdr bm j)"
    if "i \<le> j" "j < i + Suc k" for j
    using same d(3) [of j] that by (cases "j = i") (simp_all add: c1d)
  have "bitmap_write_blocks hdr bm (Suc k) i off rem c = (OBMAFS3_OK, c\<lparr>dev := d\<rparr>)"
    unfolding step d(1) c1d ..
  moreover have "dev_ok (c\<lparr>dev := d\<rparr>)" using d(2) by (simp only: c1d)
  ultimately show ?case using all other by blast
qed

lemma block_read_cong: "dev c = dev c' \<Longrightarrow> sb c = sb c' \<Longrightarrow> obmafs3_block_read c = obmafs3_block_read c'"
  by (simp add: obmafs3_block_read_def fun_eq_iff)

lemma bm_partial:
  assumes "off + n \<le> length bm"
  shows "put off (fld off n bm) (take off bm @ replicate (length bm - off) x)
       = take (off + n) bm @ replicate (length bm - (off + n)) x"
  using assms by (simp add: put_def fld_def take_add)

lemma bitmap_read_blocks_loads:
  assumes "\<And>j. j < unat (bitmap_blocks (sb c)) \<Longrightarrow>
      obmafs3_block_read c (bitmap_lba (sb c) + of_nat j) (bsz c) = Inr (bm_block (bsz c) hdr bm j)"
    and "hdr = bitmap_hdr_enc OBMAFS3_BITMAP_MAGIC t nf ck" "length ck = 32" "bitmap_hdr_size \<le> bsz c"
    and "i + k = unat (bitmap_blocks (sb c))" "off = bm_off (bsz c) (length bm) i" "rem = length bm - off"
    and "bitmap c = Some (take off bm @ replicate (length bm - off) 0)"
  shows "bitmap_read_blocks k i off rem c = (OBMAFS3_OK, c\<lparr>
     next_free_lba := (if i = 0 \<and> 0 < k then nf else next_free_lba c),
     bitmap := Some (take (bm_off (bsz c) (length bm) (i + k)) bm @
                     replicate (length bm - bm_off (bsz c) (length bm) (i + k)) 0)\<rparr>)"
  using assms
proof (induction k arbitrary: i off rem c)
  case 0
  then show ?case by simp
next
  case (Suc k)
  let ?bs = "bsz c"
  define n where "n = bm_cnt ?bs (length bm) i"
  have lh: "length hdr = bitmap_hdr_size" using Suc.prems(2,3) by simp
  have cs: "(if i = 0 then min rem (?bs - bitmap_hdr_size) else min rem ?bs) = n"
    using Suc.prems(6,7) by (simp add: n_def bm_cnt_def)
  note get = bm_block_read [OF lh Suc.prems(4) Suc.prems(6) n_def]
  have fits: "off + n \<le> length bm" using bm_cnt_fits [of ?bs "length bm" i] Suc.prems(6) by (simp add: n_def)
  have h0: "fld p m (bm_block ?bs hdr bm 0) = fld p m hdr" if "p + m \<le> 56" for p m
    using bm_block_hdr [OF lh Suc.prems(4)] that by (simp add: bitmap_hdr_size_def)
  have magic: "u64at 0 (bm_block ?bs hdr bm 0) = OBMAFS3_BITMAP_MAGIC" "u64at 16 (bm_block ?bs hdr bm 0) = nf"
    using h0 [of 0 8] h0 [of 16 8] Suc.prems(2,3) by (simp_all add: bitmap_hdr_enc_def codec_simps)
  let ?c1 = "c\<lparr>next_free_lba := (if i = 0 then nf else next_free_lba c),
               bitmap := Some (take (off + n) bm @ replicate (length bm - (off + n)) 0)\<rparr>"
  have rd: "obmafs3_block_read c (bitmap_lba (sb c) + of_nat i) ?bs = Inr (bm_block ?bs hdr bm i)"
    using Suc.prems(1) [of i] Suc.prems(5) by simp
  have step: "bitmap_read_blocks (Suc k) i off rem c = bitmap_read_blocks k (Suc i) (off + n) (rem - n) ?c1"
  proof (cases "i = 0")
    case True
    then show ?thesis using rd magic cs get Suc.prems(8) bm_partial [OF fits, of 0] by simp
  next
    case False
    then show ?thesis using rd cs get Suc.prems(8) bm_partial [OF fits, of 0] by simp
  qed
  have rdc: "obmafs3_block_read ?c1 = obmafs3_block_read c" by (rule block_read_cong) simp_all
  have off': "off + n = bm_off ?bs (length bm) (Suc i)" "rem - n = length bm - (off + n)"
    using bm_off_Suc [OF Suc.prems(4)] Suc.prems(6,7) by (simp_all add: n_def)
  show ?case
    unfolding step
    using Suc.IH [of ?c1 "Suc i" "off + n" "rem - n"] Suc.prems off' rdc by simp
qed

lemma bm_off_end: "bitmap_hdr_size + len \<le> k * bs \<Longrightarrow> 0 < k \<Longrightarrow> bm_off bs len k = len"
  by (simp add: bm_off_def min_def)

definition rt_bm :: ctx where
  "rt_bm = (blank_ctx 64 16 [0xA5, 3])\<lparr>sb := (sb (blank_ctx 64 16 []))\<lparr>bitmap_lba := 2, bitmap_blocks := 1\<rparr>,
     next_free_lba := 7\<rparr>"

text \<open>
  C6: writing the bitmap to a healthy volume and reading it back, in any context opened on
  the same image, restores every bit and the allocation hint, and the checksum test passes.
\<close>

theorem bitmap_write_read_roundtrip:
  assumes "dev_ok c" "bitmap c = Some bm" "heap_ok c" "length bm = unat (bitmap_size c)"
    and "bitmap_size c = (max_lba c + 7) div 8" "bm_area c (length bm)"
  shows "\<exists>d. obmafs3_bitmap_write c = (OBMAFS3_OK, c\<lparr>dev := d\<rparr>) \<and>
     (\<forall>c2. dev c2 = d \<and> sb c2 = sb c \<and> xxh64 c2 = xxh64 c \<and> heap_ok c2 \<longrightarrow>
        (\<exists>c3. obmafs3_bitmap_read c2 = (OBMAFS3_OK, c3) \<and> bitmap c3 = Some bm \<and>
              bitmap_size c3 = bitmap_size c \<and> next_free_lba c3 = next_free_lba c))"
proof -
  let ?ck = "obmafs3_checksum_block (xxh64 c) bm"
  let ?hdr = "bitmap_hdr_enc OBMAFS3_BITMAP_MAGIC (max_lba c) (next_free_lba c) ?ck"
  obtain d where d: "bitmap_write_blocks ?hdr bm (unat (bitmap_blocks (sb c))) 0 0 (length bm) c = (OBMAFS3_OK, c\<lparr>dev := d\<rparr>)"
      "\<And>j. j < unat (bitmap_blocks (sb c)) \<Longrightarrow>
        obmafs3_block_read (c\<lparr>dev := d\<rparr>) (bitmap_lba (sb c) + of_nat j) (bsz c) = Inr (bm_block (bsz c) ?hdr bm j)"
    using bitmap_write_blocks_stores [OF assms(1,6), of ?hdr 0 _ 0 "length bm"] by (auto simp: bm_off_def)
  have wr: "obmafs3_bitmap_write c = (OBMAFS3_OK, c\<lparr>dev := d\<rparr>)"
    using d(1) assms(2-4) by (simp add: obmafs3_bitmap_write_def)
  have "\<exists>c3. obmafs3_bitmap_read c2 = (OBMAFS3_OK, c3) \<and> bitmap c3 = Some bm \<and>
              bitmap_size c3 = bitmap_size c \<and> next_free_lba c3 = next_free_lba c"
    if c2: "dev c2 = d \<and> sb c2 = sb c \<and> xxh64 c2 = xxh64 c \<and> heap_ok c2" for c2
  proof -
    let ?k = "unat (bitmap_blocks (sb c))" and ?n = "unat ((max_lba c + 7) div 8)"
    let ?c0 = "c2\<lparr>bitmap := Some (replicate ?n 0), bitmap_size := (max_lba c + 7) div 8\<rparr>"
    let ?c1 = "?c0\<lparr>next_free_lba := next_free_lba c, bitmap := Some bm\<rparr>"
    have k: "0 < ?k" "bitmap_hdr_size \<le> bsz c" "bm_off (bsz c) (length bm) ?k = length bm"
      using assms(6) bm_off_end by (simp_all add: bm_area_def)
    have n: "?n = length bm" using assms(4,5) by simp
    have rd: "obmafs3_block_read x = obmafs3_block_read (c\<lparr>dev := d\<rparr>)" if "dev x = d" "sb x = sb c" for x
      using that by (intro block_read_cong) simp_all
    have loop: "bitmap_read_blocks ?k 0 0 ?n ?c0 = (OBMAFS3_OK, ?c1)"
      using bitmap_read_blocks_loads [of ?c0 ?hdr bm "max_lba c" "next_free_lba c" ?ck 0 ?k 0 ?n] d(2) c2 k n rd [of ?c0]
      by (simp add: bm_off_def)
    have r0: "obmafs3_block_read ?c1 (bitmap_lba (sb c)) (bsz c) = Inr (bm_block (bsz c) ?hdr bm 0)"
      using d(2) [OF k(1)] c2 rd [of ?c1] by simp
    have "fld 24 32 (bm_block (bsz c) ?hdr bm 0) = ?ck"
      using bm_block_hdr [of ?hdr "bsz c" 24 32] k(2)
      by (simp add: bitmap_hdr_size_def) (simp add: bitmap_hdr_enc_def codec_simps)
    then have "obmafs3_bitmap_read c2 = (OBMAFS3_OK, ?c1)"
      using loop r0 c2 by (simp add: obmafs3_bitmap_read_def Let_def)
    then show ?thesis using assms(5) by auto
  qed
  with wr show ?thesis by blast
qed

theorem bitmap_write_read_roundtrip_witness:
  "\<exists>d c3. obmafs3_bitmap_write rt_bm = (OBMAFS3_OK, rt_bm\<lparr>dev := d\<rparr>) \<and>
     obmafs3_bitmap_read (rt_bm\<lparr>dev := d, bitmap := None, next_free_lba := 0\<rparr>) = (OBMAFS3_OK, c3) \<and>
     bitmap c3 = Some [0xA5, 3] \<and> next_free_lba c3 = 7"
proof -
  have h: "dev_ok rt_bm" "bitmap rt_bm = Some [0xA5, 3]" "heap_ok rt_bm"
    "length [0xA5, 3 :: u8] = unat (bitmap_size rt_bm)" "bitmap_size rt_bm = (max_lba rt_bm + 7) div 8"
    "bm_area rt_bm (length [0xA5, 3 :: u8])" "next_free_lba rt_bm = 7"
    by (simp_all add: rt_bm_def blank_ctx_def dev_ok_def bm_area_def bitmap_hdr_size_def zero_sb_def)
  from bitmap_write_read_roundtrip [OF h(1-6)] obtain d where
    "obmafs3_bitmap_write rt_bm = (OBMAFS3_OK, rt_bm\<lparr>dev := d\<rparr>)"
    "\<And>c2. dev c2 = d \<and> sb c2 = sb rt_bm \<and> xxh64 c2 = xxh64 rt_bm \<and> heap_ok c2 \<Longrightarrow>
       \<exists>c3. obmafs3_bitmap_read c2 = (OBMAFS3_OK, c3) \<and> bitmap c3 = Some [0xA5, 3] \<and>
            next_free_lba c3 = next_free_lba rt_bm" by blast
  from this(1) this(2) [of "rt_bm\<lparr>dev := d, bitmap := None, next_free_lba := 0\<rparr>"] h(3,7)
  show ?thesis by auto
qed

end
