(* ===== verification/Btree.thy ===== *)
theory Btree
  imports Superblock Bitmap
begin

text \<open>
  src/src/lib/btree.c: what every B+Tree of the volume shares. The header block of a tree is
  read and written with its checksum; blocks come from the bitmap; nodes come from the
  tree's own free list, which is grown a clump at a time. The free list is a chain through
  the first eight bytes of the free nodes.
\<close>

section \<open>Header blocks\<close>

definition OBMAFS3_BTREE_HDR_MAGIC :: u64 where "OBMAFS3_BTREE_HDR_MAGIC = 0x5244484545525442"
definition OBMAFS3_BTREE_NODE_MAGIC :: u64 where "OBMAFS3_BTREE_NODE_MAGIC = 0x45444E4545525442"
definition kBtreeTypeDeduplication :: u32 where "kBtreeTypeDeduplication = 3"
definition OBMAFS3_DEDUP_CLUMP_SIZE :: u32 where "OBMAFS3_DEDUP_CLUMP_SIZE = 1024"
definition OBMAFS3_DEFAULT_CLUMP_SIZE :: u32 where "OBMAFS3_DEFAULT_CLUMP_SIZE = 64"

definition btree_hdr_size :: nat where "btree_hdr_size = 90"

definition btree_hdr_enc :: "btree_header \<Rightarrow> bytes" where
  "btree_hdr_enc h =
     le_enc 8 (bh_magic h) @ le_enc 4 (data_type h) @ le_enc 8 (root_node_lba h) @
     le_enc 8 (free_node_lba h) @ le_enc 2 (node_size h) @ le_enc 4 (total_nodes h) @
     le_enc 4 (free_nodes h) @ le_enc 4 (tree_type h) @ le_enc 8 (last_block_lba h) @
     le_enc 8 (last_block_offset h) @ bh_checksum h"

definition btree_hdr_dec :: "bytes \<Rightarrow> btree_header" where
  "btree_hdr_dec b = \<lparr>bh_magic = u64at 0 b, data_type = u32at 8 b, root_node_lba = u64at 12 b,
     free_node_lba = u64at 20 b, node_size = u16at 28 b, total_nodes = u32at 30 b,
     free_nodes = u32at 34 b, tree_type = u32at 38 b, last_block_lba = u64at 42 b,
     last_block_offset = u64at 50 b, bh_checksum = fld 58 32 b\<rparr>"


definition obmafs3_btree_header_read_lenient :: "ctx \<Rightarrow> u64 \<Rightarrow> rc + btree_header \<times> bool" where
  "obmafs3_btree_header_read_lenient c lba =
     (case obmafs3_block_read c lba (bsz c) of
        Inl e \<Rightarrow> Inl e
      | Inr buf \<Rightarrow>
          let hdr = btree_hdr_dec buf in
          if bh_magic hdr \<noteq> OBMAFS3_BTREE_HDR_MAGIC then Inl OBMAFS3_ERR_BADMAGIC
          else
            let computed = obmafs3_checksum_block (xxh64 c) (btree_hdr_enc (hdr\<lparr>bh_checksum := replicate 32 0\<rparr>))
            in Inr (hdr, bh_checksum hdr = computed))"

definition obmafs3_btree_header_read :: "ctx \<Rightarrow> u64 \<Rightarrow> rc + btree_header" where
  "obmafs3_btree_header_read c lba =
     (case obmafs3_btree_header_read_lenient c lba of
        Inl e \<Rightarrow> Inl e
      | Inr (hdr, cs_ok) \<Rightarrow> if cs_ok then Inr hdr else Inl OBMAFS3_ERR_CHECKSUM)"

text \<open>
  The writer first drops a free list whose head lies outside the volume; a root outside the
  volume is only reported. The caller's header gets the new checksum.
\<close>

definition btree_hdr_sanitize :: "u64 \<Rightarrow> btree_header \<Rightarrow> btree_header" where
  "btree_hdr_sanitize mlba h =
     (if free_node_lba h \<noteq> 0 \<and> mlba \<le> free_node_lba h
      then h\<lparr>free_node_lba := 0, free_nodes := 0\<rparr> else h)"

definition obmafs3_btree_header_write :: "ctx \<Rightarrow> u64 \<Rightarrow> btree_header \<Rightarrow> rc \<times> btree_header \<times> ctx" where
  "obmafs3_btree_header_write c lba h =
     (let h1 = btree_hdr_sanitize (max_lba c) h;
          buf = put 0 (btree_hdr_enc (h1\<lparr>bh_checksum := replicate 32 0\<rparr>)) (replicate (bsz c) 0);
          ck = obmafs3_checksum_block (xxh64 c) (fld 0 btree_hdr_size buf);
          buf2 = put 58 ck buf;
          h2 = h1\<lparr>bh_checksum := ck\<rparr>
      in case obmafs3_block_write c lba buf2 of (rc, c') \<Rightarrow> (rc, h2, c'))"

section \<open>Blocks\<close>

definition obmafs3_alloc_blocks :: "ctx \<Rightarrow> u64 \<Rightarrow> (rc + u64) \<times> ctx" where
  "obmafs3_alloc_blocks c count =
     (case obmafs3_bitmap_find_free c count of
        Inl e \<Rightarrow> (Inl e, c)
      | Inr start_lba \<Rightarrow>
          let c1 = obmafs3_bitmap_set c start_lba count in
          (Inr start_lba,
           if next_free_lba c1 < start_lba + count then c1\<lparr>next_free_lba := start_lba + count\<rparr> else c1))"

definition obmafs3_alloc_block :: "ctx \<Rightarrow> (rc + u64) \<times> ctx" where
  "obmafs3_alloc_block c = obmafs3_alloc_blocks c 1"

section \<open>Nodes\<close>

definition blocks_per_node :: "ctx \<Rightarrow> btree_header \<Rightarrow> u64" where
  "blocks_per_node c h =
     (let n = ucast (node_size h) div block_size (sb c) in if n = 0 then 1 else n)"

definition clump_size :: "ctx \<Rightarrow> btree_header \<Rightarrow> u32" where
  "clump_size c h =
     (let clump = (if tree_type h = kBtreeTypeDeduplication then dedup_clump_size (sb c)
                   else btree_clump_size (sb c))
      in if clump = 0
         then (if tree_type h = kBtreeTypeDeduplication then OBMAFS3_DEDUP_CLUMP_SIZE
               else OBMAFS3_DEFAULT_CLUMP_SIZE)
         else clump)"

text \<open>The full clump, then halves of it, then a single node.\<close>

function clump_alloc :: "ctx \<Rightarrow> u64 \<Rightarrow> u64 \<Rightarrow> (rc + u64 \<times> u64) \<times> ctx" where
  "clump_alloc c bpn alloc_blocks =
     (if bpn < alloc_blocks then
        (case obmafs3_alloc_blocks c alloc_blocks of
           (Inr start, c') \<Rightarrow> (Inr (start, alloc_blocks), c')
         | (Inl e, c') \<Rightarrow>
             let half = ((alloc_blocks div 2) div bpn) * bpn
             in clump_alloc c' bpn (if half < bpn then bpn else half))
      else
        (case obmafs3_alloc_blocks c bpn of
           (Inr start, c') \<Rightarrow> (Inr (start, alloc_blocks), c')
         | (Inl e, c') \<Rightarrow> (Inl e, c')))"
  by pat_completeness auto
termination
proof (relation "measure (\<lambda>(_, _, a). unat a)", goal_cases)
  case 1
  show ?case by simp
next
  case (2 c bpn a r c' e half)
  have lt: "unat bpn < unat a" using 2 by (simp add: word_less_nat_alt)
  have "unat (a div 2 div bpn) * unat bpn \<le> unat a div 2"
    by (simp add: unat_div_distrib)
  moreover have "unat (a div 2 div bpn * bpn) \<le> unat (a div 2 div bpn) * unat bpn"
    by (simp add: unat_word_ariths)
  ultimately show ?case using lt 2 by auto
qed

text \<open>The loop that chains the nodes \<open>i, \<dots>, 1\<close> of a clump of \<open>n\<close>; False when a write fails.\<close>

fun link_clump :: "ctx \<Rightarrow> u64 \<Rightarrow> u64 \<Rightarrow> u64 \<Rightarrow> nat \<Rightarrow> nat \<Rightarrow> bool \<times> ctx" where
  "link_clump c start bpn old_head n 0 = (True, c)"
| "link_clump c start bpn old_head n (Suc i) =
     (let this_lba = start + of_nat (Suc i) * bpn;
          next_ptr = (if Suc i = n - 1 then old_head else start + of_nat (Suc (Suc i)) * bpn);
          buf = put 0 (le_enc 8 next_ptr) (replicate (bsz c) 0)
      in case obmafs3_block_write c this_lba buf of
           (OBMAFS3_OK, c') \<Rightarrow> link_clump c' start bpn old_head n i
         | (e, c') \<Rightarrow> (False, c'))"

definition alloc_clump :: "ctx \<Rightarrow> btree_header \<Rightarrow> (rc + u64) \<times> btree_header \<times> ctx" where
  "alloc_clump c h =
     (let bpn = blocks_per_node c h in
      case clump_alloc c bpn (ucast (clump_size c h) * bpn) of
        (Inl e, c1) \<Rightarrow> (Inl e, h, c1)
      | (Inr (start, alloc_blocks), c1) \<Rightarrow>
          let nodes = alloc_blocks div bpn in
          if nodes \<le> 1 then (Inr start, h, c1)
          else if \<not> heap_ok c1 then (Inr start, h, c1)
          else
            (case link_clump c1 start bpn (free_node_lba h) (unat nodes) (unat nodes - 1) of
               (True, c2) \<Rightarrow>
                 (Inr start, h\<lparr>free_node_lba := start + bpn, free_nodes := free_nodes h + ucast (nodes - 1)\<rparr>, c2)
             | (False, c2) \<Rightarrow> (Inr start, h, c2)))"

definition obmafs3_btree_alloc_node :: "ctx \<Rightarrow> btree_header \<Rightarrow> (rc + u64) \<times> btree_header \<times> ctx" where
  "obmafs3_btree_alloc_node c h =
     (if free_node_lba h \<noteq> 0 \<and> 0 < free_nodes h then
        if max_lba c \<le> free_node_lba h then alloc_clump c (h\<lparr>free_node_lba := 0, free_nodes := 0\<rparr>)
        else
          let node_lba = free_node_lba h in
          (case obmafs3_block_read c node_lba (bsz c) of
             Inl e \<Rightarrow> (Inr node_lba, h\<lparr>free_node_lba := 0, free_nodes := 0\<rparr>, c)
           | Inr buf \<Rightarrow>
               let next_free = u64at 0 buf;
                   bad = (next_free \<noteq> 0 \<and> max_lba c \<le> next_free);
                   h1 = (if bad then h\<lparr>free_nodes := 1\<rparr> else h);
                   next_free = (if bad then 0 else next_free)
               in (Inr node_lba, h1\<lparr>free_node_lba := next_free, free_nodes := free_nodes h1 - 1\<rparr>, c))
      else alloc_clump c h)"

definition obmafs3_btree_free_node :: "ctx \<Rightarrow> btree_header \<Rightarrow> u64 \<Rightarrow> rc \<times> btree_header \<times> ctx" where
  "obmafs3_btree_free_node c h node_lba =
     (if node_lba = 0 \<or> max_lba c \<le> node_lba then (OBMAFS3_OK, h, c)
      else if \<not> heap_ok c then (OBMAFS3_ERR_NOMEM, h, c)
      else
        let buf = put 0 (le_enc 8 (free_node_lba h)) (replicate (bsz c) 0) in
        case obmafs3_block_write c node_lba buf of
          (OBMAFS3_OK, c') \<Rightarrow> (OBMAFS3_OK, h\<lparr>free_node_lba := node_lba, free_nodes := free_nodes h + 1\<rparr>, c')
        | (e, c') \<Rightarrow> (e, h, c'))"

definition obmafs3_alloc_inode_id :: "ctx \<Rightarrow> u64 \<times> ctx" where
  "obmafs3_alloc_inode_id c =
     (next_inode_id (sb c), c\<lparr>sb := (sb c)\<lparr>next_inode_id := next_inode_id (sb c) + 1\<rparr>\<rparr>)"

section \<open>Header round trip\<close>

lemma length_btree_hdr_enc [simp]: "length (bh_checksum h) = 32 \<Longrightarrow> length (btree_hdr_enc h) = btree_hdr_size"
  by (simp add: btree_hdr_enc_def btree_hdr_size_def)

lemma btree_hdr_dec_enc:
  "length (bh_checksum h) = 32 \<Longrightarrow> btree_hdr_dec (btree_hdr_enc h @ rest) = h"
  unfolding btree_hdr_enc_def btree_hdr_dec_def by (simp add: codec_simps)

lemma btree_hdr_enc_set_checksum:
  assumes "length ck = 32"
  shows "put 58 ck (btree_hdr_enc (h\<lparr>bh_checksum := replicate 32 0\<rparr>) @ rest) = btree_hdr_enc (h\<lparr>bh_checksum := ck\<rparr>) @ rest"
  using assms by (simp add: btree_hdr_enc_def put_def)

lemma sanitize_magic [simp]: "bh_magic (btree_hdr_sanitize m h) = bh_magic h"
  by (simp add: btree_hdr_sanitize_def)

text \<open>
  C7: a tree header written to a block of the volume reads back as the header the writer
  handed to its caller, with a checksum that passes the strict test.
\<close>

theorem btree_header_write_read:
  assumes "dev_ok c" "in_vol c lba" "btree_hdr_size \<le> bsz c" "bh_magic h = OBMAFS3_BTREE_HDR_MAGIC"
  shows "\<exists>ck c'. obmafs3_btree_header_write c lba h
             = (OBMAFS3_OK, (btree_hdr_sanitize (max_lba c) h)\<lparr>bh_checksum := ck\<rparr>, c') \<and>
           obmafs3_btree_header_read c' lba = Inr ((btree_hdr_sanitize (max_lba c) h)\<lparr>bh_checksum := ck\<rparr>)"
proof -
  let ?h = "btree_hdr_sanitize (max_lba c) h"
  let ?hz = "?h\<lparr>bh_checksum := replicate 32 0\<rparr>" and ?z = "replicate (bsz c - btree_hdr_size) (0::u8)"
  let ?ck = "obmafs3_checksum_block (xxh64 c) (btree_hdr_enc ?hz)"
  let ?b = "btree_hdr_enc (?h\<lparr>bh_checksum := ?ck\<rparr>) @ ?z"
  have buf: "put 0 (btree_hdr_enc ?hz) (replicate (bsz c) 0) = btree_hdr_enc ?hz @ ?z"
    by (simp add: put_def)
  have all: "fld 0 btree_hdr_size (btree_hdr_enc ?hz @ ?z) = btree_hdr_enc ?hz"
    by (simp add: fld_def)
  have wr: "obmafs3_btree_header_write c lba h = (OBMAFS3_OK, ?h\<lparr>bh_checksum := ?ck\<rparr>, wrote c lba ?b)"
    unfolding obmafs3_btree_header_write_def Let_def buf all
    using assms by (simp add: btree_hdr_enc_set_checksum block_write_eq)
  have "obmafs3_block_read (wrote c lba ?b) lba (bsz c) = Inr ?b"
    using assms by (intro block_read_wrote_same) simp_all
  then have "obmafs3_btree_header_read (wrote c lba ?b) lba = Inr (?h\<lparr>bh_checksum := ?ck\<rparr>)"
    using assms(4) by (simp add: obmafs3_btree_header_read_def obmafs3_btree_header_read_lenient_def Let_def btree_hdr_dec_enc)
  with wr show ?thesis by blast
qed

definition demo_hdr :: btree_header where
  "demo_hdr = zero_hdr\<lparr>bh_magic := OBMAFS3_BTREE_HDR_MAGIC, root_node_lba := 3, free_node_lba := 99, free_nodes := 2\<rparr>"

theorem btree_header_write_read_witness:
  "\<exists>ck c'. obmafs3_btree_header_read c' 5 = Inr (demo_hdr\<lparr>free_node_lba := 0, free_nodes := 0, bh_checksum := ck\<rparr>)"
proof -
  have h: "dev_ok (blank_ctx 128 16 [])" "in_vol (blank_ctx 128 16 []) 5" "btree_hdr_size \<le> bsz (blank_ctx 128 16 [])"
    "bh_magic demo_hdr = OBMAFS3_BTREE_HDR_MAGIC"
    "btree_hdr_sanitize (max_lba (blank_ctx 128 16 [])) demo_hdr = demo_hdr\<lparr>free_node_lba := 0, free_nodes := 0\<rparr>"
    by (simp_all add: dev_ok_def in_vol_def blank_ctx_def btree_hdr_size_def demo_hdr_def btree_hdr_sanitize_def zero_hdr_def)
  from btree_header_write_read [OF h(1-4)] show ?thesis unfolding h(5) by blast
qed

section \<open>The block allocator\<close>

text \<open>
  What the clients of the allocator rely on. \<open>occ\<close> tells which blocks are taken.
\<close>

locale block_allocator =
  fixes alloc :: "'s \<Rightarrow> u64 \<Rightarrow> (rc + u64) \<times> 's"
    and free :: "'s \<Rightarrow> u64 \<Rightarrow> u64 \<Rightarrow> rc \<times> 's"
    and occ :: "'s \<Rightarrow> nat \<Rightarrow> bool"
    and ok :: "'s \<Rightarrow> bool"
    and lim :: "'s \<Rightarrow> nat"
  assumes alloc_in: "ok s \<Longrightarrow> 0 < n \<Longrightarrow> alloc s n = (Inr l, s') \<Longrightarrow> unat l + unat n \<le> lim s"
    and alloc_fresh: "ok s \<Longrightarrow> 0 < n \<Longrightarrow> alloc s n = (Inr l, s') \<Longrightarrow>
          unat l \<le> p \<Longrightarrow> p < unat l + unat n \<Longrightarrow> \<not> occ s p"
    and alloc_occ: "ok s \<Longrightarrow> 0 < n \<Longrightarrow> alloc s n = (Inr l, s') \<Longrightarrow>
          occ s' p \<longleftrightarrow> occ s p \<or> (unat l \<le> p \<and> p < unat l + unat n)"
    and alloc_fail: "alloc s n = (Inl e, s') \<Longrightarrow> s' = s"
    and alloc_ok: "ok s \<Longrightarrow> alloc s n = (r, s') \<Longrightarrow> ok s' \<and> lim s' = lim s"
    and free_occ: "ok s \<Longrightarrow> unat l + unat n \<le> lim s \<Longrightarrow> free s l n = (q, s') \<Longrightarrow>
          occ s' p \<longleftrightarrow> occ s p \<and> \<not> (unat l \<le> p \<and> p < unat l + unat n)"
    and free_ok: "ok s \<Longrightarrow> free s l n = (q, s') \<Longrightarrow> ok s' \<and> lim s' = lim s"
begin

lemma alloc_twice_disjoint:
  assumes "ok s" "0 < n" "0 < m" "alloc s n = (Inr l, s1)" "alloc s1 m = (Inr k, s2)"
  shows "{unat l ..< unat l + unat n} \<inter> {unat k ..< unat k + unat m} = {}"
proof -
  have "ok s1" using alloc_ok assms by blast
  then have "\<not> occ s1 p" if "unat k \<le> p" "p < unat k + unat m" for p
    using alloc_fresh assms that by blast
  then show ?thesis using alloc_occ [OF assms(1,2,4)] by (auto simp only: disjoint_iff atLeastLessThan_iff)
qed

lemma free_undoes_alloc:
  assumes "ok s" "0 < n" "alloc s n = (Inr l, s1)" "free s1 l n = (r, s2)"
  shows "occ s2 = occ s"
proof
  fix p
  have "ok s1" "lim s1 = lim s" using alloc_ok assms by blast+
  moreover have "unat l + unat n \<le> lim s" using alloc_in assms by blast
  ultimately have "occ s2 p \<longleftrightarrow> occ s1 p \<and> \<not> (unat l \<le> p \<and> p < unat l + unat n)"
    using free_occ assms by metis
  then show "occ s2 p = occ s p" using alloc_occ [OF assms(1-3)] alloc_fresh [OF assms(1-3)] by blast
qed

end

lemma alloc_blocks_cases:
  assumes "obmafs3_alloc_blocks c n = (r, c')"
  obtains (fail) e where "r = Inl e" "c' = c"
  | (ok) l where "r = Inr l" "obmafs3_bitmap_find_free c n = Inr l"
      "\<exists>h. c' = (obmafs3_bitmap_set c l n)\<lparr>next_free_lba := h\<rparr>"
proof (cases "obmafs3_bitmap_find_free c n")
  case (Inl e)
  then have "r = Inl e" "c' = c" using assms by (simp_all add: obmafs3_alloc_blocks_def)
  then show ?thesis by (rule fail)
next
  case (Inr l)
  have "\<exists>h. c' = (obmafs3_bitmap_set c l n)\<lparr>next_free_lba := h\<rparr>"
  proof (cases "next_free_lba c < l + n")
    case False
    then have "c' = (obmafs3_bitmap_set c l n)\<lparr>next_free_lba := next_free_lba (obmafs3_bitmap_set c l n)\<rparr>"
      using assms Inr by (auto simp: obmafs3_alloc_blocks_def Let_def)
    then show ?thesis by blast
  qed (use assms Inr in \<open>auto simp: obmafs3_alloc_blocks_def Let_def\<close>)
  moreover have "r = Inr l" using assms Inr by (simp add: obmafs3_alloc_blocks_def Let_def)
  ultimately show ?thesis using Inr ok by blast
qed

lemma bm_ok_hint [simp]: "bm_ok (c\<lparr>next_free_lba := h\<rparr>) = bm_ok c" "used (c\<lparr>next_free_lba := h\<rparr>) = used c"
  by (simp_all add: bm_ok_def used_def fun_eq_iff)

lemma unat_pos: "0 < (w :: u64) \<Longrightarrow> 1 \<le> unat w"
  by (simp add: word_less_nat_alt)

interpretation ba: block_allocator obmafs3_alloc_blocks obmafs3_free_blocks used bm_ok "\<lambda>c. unat (max_lba c)"
proof unfold_locales
  fix c c' :: ctx and n l :: u64 and p :: nat
  assume c: "bm_ok c" "0 < n" "obmafs3_alloc_blocks c n = (Inr l, c')"
  then have f: "obmafs3_bitmap_find_free c n = Inr l" and c': "\<exists>h. c' = (obmafs3_bitmap_set c l n)\<lparr>next_free_lba := h\<rparr>"
    by (auto elim: alloc_blocks_cases)
  note s = find_free_sound [OF c(1) unat_pos [OF c(2)] f]
  show "unat l + unat n \<le> unat (max_lba c)" by (rule s(1))
  show "unat l \<le> p \<Longrightarrow> p < unat l + unat n \<Longrightarrow> \<not> used c p" by (rule s(2))
  show "used c' p \<longleftrightarrow> used c p \<or> (unat l \<le> p \<and> p < unat l + unat n)"
  proof -
    from c' obtain h where "c' = (obmafs3_bitmap_set c l n)\<lparr>next_free_lba := h\<rparr>" ..
    then show ?thesis by (simp only: used_set [OF c(1) s(1)] bm_ok_hint)
  qed
next
  fix c c' :: ctx and l n :: u64 and p and r
  assume "bm_ok c" "unat l + unat n \<le> unat (max_lba c)" "obmafs3_free_blocks c l n = (r, c')"
  then show "used c' p \<longleftrightarrow> used c p \<and> \<not> (unat l \<le> p \<and> p < unat l + unat n)"
    using used_clear [of c l n] unat_u64 [of "max_lba c"] by (auto simp: obmafs3_free_blocks_def)
qed (auto simp: obmafs3_free_blocks_def elim: alloc_blocks_cases)




section \<open>The free list\<close>

definition node_blocks :: "u64 \<Rightarrow> u64 \<Rightarrow> nat set" where
  "node_blocks bpn l = {unat l ..< unat l + unat bpn}"

text \<open>The chain of free nodes that starts at \<open>x\<close>.\<close>

fun chain :: "ctx \<Rightarrow> u64 \<Rightarrow> u64 list \<Rightarrow> bool" where
  "chain c x [] \<longleftrightarrow> x = 0"
| "chain c x (l # ls) \<longleftrightarrow> x = l \<and> l \<noteq> 0 \<and> in_vol c l \<and>
     (case obmafs3_block_read c l (bsz c) of Inl e \<Rightarrow> False | Inr b \<Rightarrow> chain c (u64at 0 b) ls)"

definition pool :: "ctx \<Rightarrow> btree_header \<Rightarrow> u64 list \<Rightarrow> bool" where
  "pool c h fl \<longleftrightarrow> chain c (free_node_lba h) fl \<and> unat (free_nodes h) = length fl \<and>
     sorted_wrt (\<lambda>a b. node_blocks (blocks_per_node c h) a \<inter> node_blocks (blocks_per_node c h) b = {}) fl \<and>
     (\<forall>l \<in> set fl. \<forall>p \<in> node_blocks (blocks_per_node c h) l. p < unat (max_lba c) \<and> used c p)"

text \<open>Allocation changes the image, the bitmap and the hint, nothing else of the context.\<close>

definition alloc_frame :: "ctx \<Rightarrow> ctx \<Rightarrow> bool" where
  "alloc_frame c c' \<longleftrightarrow> c' = c\<lparr>dev := dev c', bitmap := bitmap c', next_free_lba := next_free_lba c'\<rparr>"

lemma alloc_frame_refl [simp]: "alloc_frame c c"
  by (simp add: alloc_frame_def)

lemma alloc_frame_trans: "alloc_frame a b \<Longrightarrow> alloc_frame b c \<Longrightarrow> alloc_frame a c"
  by (cases a; cases b; cases c) (simp add: alloc_frame_def)

lemma alloc_frame_wrote [simp]: "alloc_frame c (wrote c l b)"
  by (simp add: alloc_frame_def wrote_def)

lemma alloc_frame_fields:
  "alloc_frame c c' \<Longrightarrow> sb c' = sb c \<and> heap_ok c' = heap_ok c \<and> xxh64 c' = xxh64 c \<and> bitmap_size c' = bitmap_size c"
  by (cases c; cases c') (simp add: alloc_frame_def)

lemma bitmap_dev [simp]: "bm_ok (c\<lparr>dev := d\<rparr>) = bm_ok c" "used (c\<lparr>dev := d\<rparr>) = used c"
  by (simp_all add: bm_ok_def used_def fun_eq_iff)

lemma blocks_per_node_cong: "sb c' = sb c \<Longrightarrow> node_size h' = node_size h \<Longrightarrow> blocks_per_node c' h' = blocks_per_node c h"
  by (simp add: blocks_per_node_def)

lemma blocks_per_node_pos: "0 < unat (blocks_per_node c h)"
  by (simp add: blocks_per_node_def Let_def unat_gt_0)

lemma chain_cong:
  assumes "sb c' = sb c"
    and "\<And>l. l \<in> set ls \<Longrightarrow> obmafs3_block_read c' l (bsz c) = obmafs3_block_read c l (bsz c)"
  shows "chain c' x ls = chain c x ls"
  using assms
proof (induction ls arbitrary: x)
  case (Cons l ls)
  then show ?case by (simp add: in_vol_def split: sum.splits)
qed simp

lemma chain_in_vol: "chain c x ls \<Longrightarrow> l \<in> set ls \<Longrightarrow> in_vol c l \<and> l \<noteq> 0"
  by (induction ls arbitrary: x) (auto split: sum.splits)

subsection \<open>Growing it\<close>

lemma clump_alloc_shape:
  assumes "clump_alloc c bpn a = (Inr (s, a'), c')" "0 < bpn" "0 < a" "unat bpn dvd unat a"
  shows "obmafs3_alloc_blocks c a' = (Inr s, c') \<and> 0 < a' \<and> unat bpn dvd unat a' \<and> unat a' \<le> unat a"
  using assms
proof (induction c bpn a rule: clump_alloc.induct)
  case (1 c bpn a)
  obtain r c1 where al: "obmafs3_alloc_blocks c a = (r, c1)" by fastforce
  show ?case
  proof (cases "bpn < a")
    case True
    show ?thesis
    proof (cases r)
      case (Inr l)
      then show ?thesis using 1(2-) True al by simp
    next
      case (Inl e)
      have c1: "c1 = c" using al Inl ba.alloc_fail by blast
      let ?h = "a div 2 div bpn * bpn"
      let ?n = "if ?h < bpn then bpn else ?h"
      have le: "unat (a div 2 div bpn) * unat bpn \<le> unat a div 2" by (simp add: unat_div_distrib)
      then have uh: "unat ?h = unat (a div 2 div bpn) * unat bpn"
        using unat_u64 [of a] by (simp add: unat_word_ariths)
      have "clump_alloc c bpn ?n = (Inr (s, a'), c')"
        using 1(2) True al Inl c1 by (simp add: Let_def)
      moreover have "0 < ?n" using 1(3) by (auto simp: word_less_nat_alt)
      moreover have "unat bpn dvd unat ?n" using uh by simp
      moreover have "unat ?n \<le> unat a" using True le uh by (auto simp: word_less_nat_alt)
      ultimately show ?thesis using 1(1) [OF True al [symmetric] Inl refl] 1(3) c1 by simp
    qed
  next
    case False
    have "unat bpn \<le> unat a" using 1(4,5) by (auto simp: word_less_nat_alt dest: dvd_imp_le)
    then have "a = bpn" using False by (simp add: word_less_nat_alt word_unat_eq_iff)
    then show ?thesis using 1(2-) False by (auto split: prod.splits sum.splits)
  qed
qed

declare clump_alloc.simps [simp del]

text \<open>Node \<open>j\<close> of the clump.\<close>

definition clump_node :: "u64 \<Rightarrow> u64 \<Rightarrow> nat \<Rightarrow> u64" where
  "clump_node start bpn j = start + of_nat j * bpn"

lemma unat_clump_node:
  assumes "unat start + n * unat bpn < 2 ^ 64" "j \<le> n"
  shows "unat (clump_node start bpn j) = unat start + j * unat bpn"
proof -
  have "j * unat bpn \<le> n * unat bpn" using assms(2) by simp
  with assms(1) have lt: "unat start + j * unat bpn < 2 ^ 64" by linarith
  then have "unat (of_nat j * bpn) = j * unat bpn"
    by (simp add: unat_word_ariths unat_of_nat mod_mult_left_eq)
  with lt show ?thesis by (simp add: clump_node_def unat_word_ariths)
qed

lemma link_clump_chain:
  assumes "dev_ok c" "8 \<le> bsz c" "unat start + n * unat bpn \<le> unat (max_lba c)" "0 < unat bpn" "i < n"
    and "0 < unat start"
    and "chain c (if Suc i = n then 0 else clump_node start bpn (Suc i)) (map (clump_node start bpn) [Suc i..<n])"
  shows "\<exists>d. link_clump c start bpn 0 n i = (True, c\<lparr>dev := d\<rparr>) \<and> dev_ok (c\<lparr>dev := d\<rparr>) \<and>
     chain (c\<lparr>dev := d\<rparr>) (if 1 = n then 0 else clump_node start bpn 1) (map (clump_node start bpn) [1..<n]) \<and>
     (\<forall>k. in_vol c k \<longrightarrow> k \<notin> clump_node start bpn ` {1..i} \<longrightarrow>
        obmafs3_block_read (c\<lparr>dev := d\<rparr>) k (bsz c) = obmafs3_block_read c k (bsz c))"
  using assms
proof (induction i arbitrary: c)
  case 0
  have "c\<lparr>dev := dev c\<rparr> = c" by simp
  with 0 show ?case by (intro exI [of _ "dev c"]) (auto simp: eq_commute)
next
  case (Suc i)
  let ?nd = "clump_node start bpn"
  let ?nx = "if Suc (Suc i) = n then 0 else ?nd (Suc (Suc i))"
  let ?b = "put 0 (le_enc 8 ?nx) (replicate (bsz c) 0)"
  let ?c1 = "wrote c (?nd (Suc i)) ?b"
  have len: "length ?b = bsz c" using Suc.prems(2) by simp
  have lt: "unat start + n * unat bpn < 2 ^ 64" using Suc.prems(3) unat_u64 [of "max_lba c"] by linarith
  note un = unat_clump_node [OF lt]
  have iv: "in_vol c (?nd j)" if "j < n" for j
  proof -
    have "Suc j * unat bpn \<le> n * unat bpn" using that by (intro mult_le_mono1) simp
    then have "unat start + j * unat bpn < unat (max_lba c)" using Suc.prems(3,4) by simp
    then show ?thesis using un [of j] that unfolding in_vol_def word_less_nat_alt by simp
  qed
  have nz: "?nd (Suc i) \<noteq> 0" using un [of "Suc i"] Suc.prems(5,6) by (auto simp: word_unat_eq_iff)
  have dist: "?nd j \<noteq> ?nd (Suc i)" if "j \<noteq> Suc i" "j < n" for j
  proof -
    have "j * unat bpn \<noteq> Suc i * unat bpn" using that(1) Suc.prems(4) mult_cancel2 by (metis less_numeral_extra(3))
    then show ?thesis using un [of j] un [of "Suc i"] that Suc.prems(5) by (auto simp only: word_unat_eq_iff)
  qed
  have rd: "obmafs3_block_read ?c1 (?nd (Suc i)) (bsz c) = Inr ?b"
    using block_read_wrote_same [OF Suc.prems(1) iv len] Suc.prems(5) by simp
  have ro: "obmafs3_block_read ?c1 k (bsz c) = obmafs3_block_read c k (bsz c)" if "in_vol c k" "k \<noteq> ?nd (Suc i)" for k
    using block_read_wrote_other [OF Suc.prems(1) iv that(1) len that(2)] Suc.prems(5) by simp
  have ptr: "u64at 0 ?b = ?nx" using Suc.prems(2) by (simp add: fld_put_same)
  have "chain ?c1 ?nx (map ?nd [Suc (Suc i)..<n]) = chain c ?nx (map ?nd [Suc (Suc i)..<n])"
    by (rule chain_cong) (use ro iv dist in auto)
  then have ch: "chain ?c1 (?nd (Suc i)) (map ?nd [Suc i..<n])"
    using Suc.prems(5,7) nz iv rd ptr by (simp add: upt_conv_Cons)
  have st: "link_clump c start bpn 0 n (Suc i) = link_clump ?c1 start bpn 0 n i"
    using Suc.prems(1,5) iv len
    by (simp add: Let_def clump_node_def [symmetric] block_write_eq del: of_nat_Suc) (auto simp: block_write_eq)
  have c1d: "?c1\<lparr>dev := d\<rparr> = c\<lparr>dev := d\<rparr>" for d by (simp add: wrote_def)
  have "\<exists>d. link_clump ?c1 start bpn 0 n i = (True, ?c1\<lparr>dev := d\<rparr>) \<and> dev_ok (?c1\<lparr>dev := d\<rparr>) \<and>
     chain (?c1\<lparr>dev := d\<rparr>) (if 1 = n then 0 else ?nd 1) (map ?nd [1..<n]) \<and>
     (\<forall>k. in_vol ?c1 k \<longrightarrow> k \<notin> ?nd ` {1..i} \<longrightarrow>
        obmafs3_block_read (?c1\<lparr>dev := d\<rparr>) k (bsz ?c1) = obmafs3_block_read ?c1 k (bsz ?c1))"
    by (rule Suc.IH) (use Suc.prems ch in auto)
  then obtain d where d: "link_clump ?c1 start bpn 0 n i = (True, c\<lparr>dev := d\<rparr>)" "dev_ok (c\<lparr>dev := d\<rparr>)"
     "chain (c\<lparr>dev := d\<rparr>) (if 1 = n then 0 else ?nd 1) (map ?nd [1..<n])"
     "\<And>k. in_vol c k \<Longrightarrow> k \<notin> ?nd ` {1..i} \<Longrightarrow>
        obmafs3_block_read (c\<lparr>dev := d\<rparr>) k (bsz c) = obmafs3_block_read ?c1 k (bsz c)"
    unfolding c1d in_vol_wrote wrote_frame by blast
  have "obmafs3_block_read (c\<lparr>dev := d\<rparr>) k (bsz c) = obmafs3_block_read c k (bsz c)"
    if k: "in_vol c k" "k \<notin> ?nd ` {1..Suc i}" for k
  proof -
    have "k \<notin> ?nd ` {1..i}" "k \<noteq> ?nd (Suc i)" using k(2) by auto
    then show ?thesis using d(4) [OF k(1)] ro [OF k(1)] by simp
  qed
  with d st show ?case by auto
qed


lemma clump_blocks_disjoint:
  assumes "unat start + n * unat bpn < 2 ^ 64" "i < j" "j \<le> n"
  shows "node_blocks bpn (clump_node start bpn i) \<inter> node_blocks bpn (clump_node start bpn j) = {}"
proof -
  have "Suc i * unat bpn \<le> j * unat bpn" using assms(2) by (intro mult_le_mono1) simp
  then have "unat (clump_node start bpn i) + unat bpn \<le> unat (clump_node start bpn j)"
    using unat_clump_node [OF assms(1)] assms(2,3) by simp
  then show ?thesis by (auto simp: node_blocks_def)
qed

lemma clump_blocks_range:
  assumes "unat start + n * unat bpn < 2 ^ 64" "j < n" "p \<in> node_blocks bpn (clump_node start bpn j)"
  shows "unat start \<le> p \<and> p < unat start + n * unat bpn"
proof -
  have "Suc j * unat bpn \<le> n * unat bpn" using assms(2) by (intro mult_le_mono1) simp
  then show ?thesis using unat_clump_node [OF assms(1), of j] assms(2,3) by (auto simp: node_blocks_def)
qed

text \<open>What every allocation promises to the trees, \<open>fl\<close> and \<open>fl'\<close> being the free lists.\<close>

definition fresh_node :: "ctx \<Rightarrow> btree_header \<Rightarrow> u64 list \<Rightarrow> u64 \<Rightarrow> ctx \<Rightarrow> btree_header \<Rightarrow> u64 list \<Rightarrow> bool" where
  "fresh_node c h fl n c' h' fl' \<longleftrightarrow>
     pool c' h' fl' \<and> n \<noteq> 0 \<and>
     (\<forall>l \<in> set fl'. node_blocks (blocks_per_node c h) n \<inter> node_blocks (blocks_per_node c h) l = {}) \<and>
     (\<forall>p \<in> node_blocks (blocks_per_node c h) n. p < unat (max_lba c) \<and> used c' p) \<and>
     (\<forall>l \<in> set (n # fl'). l \<in> set fl \<or> (\<forall>p \<in> node_blocks (blocks_per_node c h) l. \<not> used c p)) \<and>
     (\<forall>p. used c p \<longrightarrow> used c' p) \<and>
     (\<forall>k. in_vol c k \<longrightarrow> used c (unat k) \<longrightarrow> obmafs3_block_read c' k (bsz c) = obmafs3_block_read c k (bsz c)) \<and>
     h' = h\<lparr>free_node_lba := free_node_lba h', free_nodes := free_nodes h'\<rparr> \<and>
     alloc_frame c c' \<and> dev_ok c' \<and> bm_ok c'"

lemma alloc_pop:
  assumes "dev_ok c" "bm_ok c" "pool c h (l # fl)"
  shows "\<exists>h'. obmafs3_btree_alloc_node c h = (Inr l, h', c) \<and> fresh_node c h (l # fl) l c h' fl"
proof -
  let ?B = "node_blocks (blocks_per_node c h)"
  obtain b where b: "obmafs3_block_read c l (bsz c) = Inr b" "chain c (u64at 0 b) fl"
    using assms(3) by (auto simp: pool_def split: sum.splits)
  have l: "free_node_lba h = l" "l \<noteq> 0" "l < max_lba c" "unat (free_nodes h) = Suc (length fl)"
    using assms(3) by (auto simp: pool_def in_vol_def)
  have n: "0 < free_nodes h" "unat (free_nodes h - 1) = length fl"
    using l(4) by (simp_all add: word_less_nat_alt unat_sub_if')
  have nx: "u64at 0 b = 0 \<or> u64at 0 b < max_lba c"
    using b(2) by (cases fl) (auto simp: in_vol_def)
  let ?h = "h\<lparr>free_node_lba := u64at 0 b, free_nodes := free_nodes h - 1\<rparr>"
  have "obmafs3_btree_alloc_node c h = (Inr l, ?h, c)"
    using l n(1) b nx by (auto simp: obmafs3_btree_alloc_node_def Let_def)
  moreover have "fresh_node c h (l # fl) l c ?h fl"
    using assms b(2) l(2) n(2)
    by (simp add: fresh_node_def pool_def blocks_per_node_cong [of c c ?h h])
  ultimately show ?thesis by blast
qed


lemma pool_empty: "pool c h [] \<longleftrightarrow> free_node_lba h = 0 \<and> free_nodes h = 0"
  by (auto simp: pool_def unat_eq_0)

lemma grow_linked:
  assumes "dev_ok c1" "bm_ok c1" "8 \<le> bsz c1" "unat start + n * unat bpn \<le> unat (max_lba c1)"
    and "bpn = blocks_per_node c1 h" "1 < n" "n < 2 ^ 32" "0 < unat start"
    and "\<And>p. unat start \<le> p \<Longrightarrow> p < unat start + n * unat bpn \<Longrightarrow> used c1 p"
  shows "\<exists>d. link_clump c1 start bpn 0 n (n - 1) = (True, c1\<lparr>dev := d\<rparr>) \<and> dev_ok (c1\<lparr>dev := d\<rparr>) \<and>
     pool (c1\<lparr>dev := d\<rparr>) (h\<lparr>free_node_lba := start + bpn, free_nodes := of_nat (n - 1)\<rparr>)
       (map (clump_node start bpn) [1..<n]) \<and>
     (\<forall>k. in_vol c1 k \<longrightarrow> \<not> (unat start \<le> unat k \<and> unat k < unat start + n * unat bpn) \<longrightarrow>
        obmafs3_block_read (c1\<lparr>dev := d\<rparr>) k (bsz c1) = obmafs3_block_read c1 k (bsz c1))"
proof -
  let ?nd = "clump_node start bpn" and ?M = "unat (max_lba c1)"
  have lt: "unat start + n * unat bpn < 2 ^ 64" using assms(4) unat_u64 [of "max_lba c1"] by linarith
  have bp: "0 < unat bpn" using assms(5) blocks_per_node_pos by simp
  obtain d where d: "link_clump c1 start bpn 0 n (n - 1) = (True, c1\<lparr>dev := d\<rparr>)" "dev_ok (c1\<lparr>dev := d\<rparr>)"
     "chain (c1\<lparr>dev := d\<rparr>) (?nd 1) (map ?nd [1..<n])"
     "\<And>k. in_vol c1 k \<Longrightarrow> k \<notin> ?nd ` {1..n - 1} \<Longrightarrow>
        obmafs3_block_read (c1\<lparr>dev := d\<rparr>) k (bsz c1) = obmafs3_block_read c1 k (bsz c1)"
    using link_clump_chain [OF assms(1,3,4) bp, of "n - 1"] assms(6,8) by auto
  have own: "unat (?nd j) \<in> node_blocks bpn (?nd j)" for j using bp by (simp add: node_blocks_def)
  let ?h = "h\<lparr>free_node_lba := start + bpn, free_nodes := of_nat (n - 1)\<rparr>"
  have "blocks_per_node (c1\<lparr>dev := d\<rparr>) ?h = bpn"
    using assms(5) by (simp add: blocks_per_node_def)
  moreover have "sorted_wrt (\<lambda>a b. node_blocks bpn a \<inter> node_blocks bpn b = {}) (map ?nd [1..<n])"
    unfolding sorted_wrt_map
    by (rule sorted_wrt_mono_rel [OF _ sorted_wrt_upt]) (use clump_blocks_disjoint [OF lt] in simp)
  moreover have "p < ?M \<and> used c1 p" if "p \<in> node_blocks bpn (?nd j)" "j < n" for p j
    using clump_blocks_range [OF lt that(2,1)] assms(4,9) by auto
  moreover have "unat (of_nat (n - 1) :: u32) = n - 1" using assms(7) by (simp add: unat_of_nat)
  ultimately have "pool (c1\<lparr>dev := d\<rparr>) ?h (map ?nd [1..<n])"
    using d(3) by (auto simp: pool_def clump_node_def used_def)
  moreover have "obmafs3_block_read (c1\<lparr>dev := d\<rparr>) k (bsz c1) = obmafs3_block_read c1 k (bsz c1)"
    if "in_vol c1 k" "\<not> (unat start \<le> unat k \<and> unat k < unat start + n * unat bpn)" for k
  proof -
    have "k \<notin> ?nd ` {1..n - 1}"
      using clump_blocks_range [OF lt _ own] that(2) assms(6) by (auto simp: Suc_le_eq le_diff_conv2)
    then show ?thesis using d(4) that(1) by blast
  qed
  ultimately show ?thesis using d(1,2) by blast
qed


lemma clump_size_blocks:
  "unat (ucast (clump_size c h) * blocks_per_node c h) = unat (clump_size c h) * unat (blocks_per_node c h)"
  "0 < unat (clump_size c h)" "unat (clump_size c h) < 2 ^ 32"
proof -
  have c: "unat (clump_size c h) < 2 ^ 32" using unsigned_less [of "clump_size c h", where ?'a = nat] by simp
  then show "unat (clump_size c h) < 2 ^ 32" .
  have "unat (ucast (node_size h) div block_size (sb c) :: u64) \<le> unat (ucast (node_size h) :: u64)"
    by (simp only: unat_div_distrib) simp
  moreover have "unat (ucast (node_size h) :: u64) < 2 ^ 16"
    using unsigned_less [of "node_size h", where ?'a = nat] by (simp add: unsigned_ucast_eq take_bit_nat_eq_self)
  ultimately have "unat (blocks_per_node c h) < 2 ^ 16"
    by (auto simp: blocks_per_node_def Let_def)
  with c have "unat (clump_size c h) * unat (blocks_per_node c h) < 2 ^ 32 * 2 ^ 16"
    by (intro mult_strict_mono) auto
  then show "unat (ucast (clump_size c h) * blocks_per_node c h) = unat (clump_size c h) * unat (blocks_per_node c h)"
    using c by (simp add: unat_word_ariths unsigned_ucast_eq take_bit_nat_eq_self)
  show "0 < unat (clump_size c h)"
    by (simp add: clump_size_def Let_def OBMAFS3_DEDUP_CLUMP_SIZE_def OBMAFS3_DEFAULT_CLUMP_SIZE_def unat_gt_0)
qed

lemma alloc_grow:
  assumes "dev_ok c" "bm_ok c" "heap_ok c" "8 \<le> bsz c" "used c 0" "pool c h []"
    and al: "obmafs3_btree_alloc_node c h = (Inr n, h', c')"
  shows "\<exists>fl'. fresh_node c h [] n c' h' fl'"
proof -
  let ?b = "blocks_per_node c h" and ?M = "unat (max_lba c)"
  have h: "free_node_lba h = 0" "free_nodes h = 0" using assms(6) by (simp_all add: pool_empty)
  have bp: "0 < unat ?b" "0 < ?b" using blocks_per_node_pos [of c h] by (simp_all add: word_less_nat_alt)
  have cl: "alloc_clump c h = (Inr n, h', c')" using al h by (simp add: obmafs3_btree_alloc_node_def)
  let ?a = "ucast (clump_size c h) * ?b"
  have a: "unat ?a = unat (clump_size c h) * unat ?b" "0 < unat (clump_size c h)" "unat (clump_size c h) < 2 ^ 32"
    by (fact clump_size_blocks)+
  obtain s a' c1 where ca: "clump_alloc c ?b ?a = (Inr (s, a'), c1)"
    using cl unfolding alloc_clump_def Let_def
    by (auto split: prod.splits sum.splits)
  have "0 < ?a" using a bp by (simp add: word_less_nat_alt)
  from clump_alloc_shape [OF ca bp(2) this] a(1) have sh: "obmafs3_alloc_blocks c a' = (Inr s, c1)" "0 < a'"
      "unat ?b dvd unat a'" "unat a' \<le> unat ?a" by simp_all
  define k where "k = unat (a' div ?b)"
  have k: "unat a' = k * unat ?b" using sh(3) by (simp only: k_def unat_div_distrib dvd_div_mult_self)
  have k0: "0 < k" using k sh(2) by (cases k) (simp_all add: word_less_nat_alt)
  have "k \<le> unat (clump_size c h)" using k sh(4) a(1) bp(1) by simp
  then have k32: "k < 2 ^ 32" using a(3) by linarith
  note in_v = ba.alloc_in [OF assms(2) sh(2,1)] and fresh = ba.alloc_fresh [OF assms(2) sh(2,1)]
    and occ = ba.alloc_occ [OF assms(2) sh(2,1)] and ok1 = ba.alloc_ok [OF assms(2) sh(1)]
  have "\<exists>u. c1 = (obmafs3_bitmap_set c s a')\<lparr>next_free_lba := u\<rparr>"
    using sh(1) by (auto elim: alloc_blocks_cases)
  then have fr: "alloc_frame c c1" "dev c1 = dev c" "sb c1 = sb c"
    by (auto simp: alloc_frame_def obmafs3_bitmap_set_def split: option.splits)
  have same: "obmafs3_block_read c1 = obmafs3_block_read c" by (rule block_read_cong) (simp_all add: fr)
  have nk: "(a' div ?b \<le> 1) = (k = 1)" using k0 by (auto simp: k_def word_le_nat_alt)
  have s0: "0 < unat s" using fresh [of 0] assms(5) sh(2) by (cases "unat s") (simp_all add: word_less_nat_alt)
  have sb: "p < ?M \<and> used c1 p \<and> \<not> used c p" if "p \<in> node_blocks ?b s" for p
  proof -
    have "unat ?b \<le> unat a'" using k k0 by simp
    then have "unat s \<le> p" "p < unat s + unat a'" using that by (simp_all add: node_blocks_def)
    then show ?thesis using in_v fresh occ by auto
  qed
  have d1: "dev_ok c1" using assms(1) fr by (simp add: dev_ok_def)
  show ?thesis
  proof (cases "k = 1")
    case True
    then have r: "n = s" "h' = h" "c' = c1" using cl ca nk by (simp_all add: alloc_clump_def Let_def)
    have "pool c1 h []" using assms(6) by (simp add: pool_empty)
    then have "fresh_node c h [] n c' h' []"
      using r sb s0 occ same fr ok1 d1 by (auto simp: fresh_node_def)
    then show ?thesis ..
  next
    case False
    let ?nd = "clump_node s ?b"
    have b1: "?b = blocks_per_node c1 h" by (simp add: blocks_per_node_def fr)
    have us: "used c1 p" if "unat s \<le> p" "p < unat s + k * unat ?b" for p
      using occ [of p] that k by simp
    have iv1: "unat s + k * unat ?b \<le> unat (max_lba c1)" using in_v k fr by simp
    from grow_linked [OF d1 _ _ iv1 b1 _ k32 s0 us]
    obtain d where d: "link_clump c1 s ?b 0 k (k - 1) = (True, c1\<lparr>dev := d\<rparr>)" "dev_ok (c1\<lparr>dev := d\<rparr>)"
       "pool (c1\<lparr>dev := d\<rparr>) (h\<lparr>free_node_lba := s + ?b, free_nodes := of_nat (k - 1)\<rparr>) (map ?nd [1..<k])"
       "\<And>l. in_vol c1 l \<Longrightarrow> \<not> (unat s \<le> unat l \<and> unat l < unat s + k * unat ?b) \<Longrightarrow>
          obmafs3_block_read (c1\<lparr>dev := d\<rparr>) l (bsz c1) = obmafs3_block_read c1 l (bsz c1)"
      using ok1 assms(4) fr False k0 by auto
    have lt: "unat s + k * unat ?b < 2 ^ 64" using in_v k unat_u64 [of "max_lba c"] by linarith
    have "ucast (a' div ?b - 1) = (of_nat (k - 1) :: u32)"
    proof -
      have "unat (a' div ?b - 1) = k - 1" using k0 by (simp add: k_def unat_sub_if' word_le_nat_alt)
      then show ?thesis by (simp add: word_unat_eq_iff unsigned_ucast_eq unsigned_of_nat)
    qed
    then have r: "n = s" "h' = h\<lparr>free_node_lba := s + ?b, free_nodes := of_nat (k - 1)\<rparr>" "c' = c1\<lparr>dev := d\<rparr>"
      using cl ca nk False d(1) h assms(3) alloc_frame_fields [OF fr(1)]
      by (auto simp: alloc_clump_def Let_def k_def [symmetric])
    have nd0: "?nd 0 = s" by (simp add: clump_node_def)
    have nb: "p < ?M \<and> \<not> used c p" if "j < k" "p \<in> node_blocks ?b (?nd j)" for j p
      using clump_blocks_range [OF lt that] fresh in_v k by auto
    have af: "alloc_frame c c'" using alloc_frame_trans [OF fr(1), of c'] r(3) by (simp add: alloc_frame_def)
    have "fresh_node c h [] n c' h' (map ?nd [1..<k])"
      unfolding fresh_node_def
    proof (intro conjI ballI allI impI)
      show "node_blocks ?b n \<inter> node_blocks ?b l = {}" if lm: "l \<in> set (map ?nd [1..<k])" for l
      proof -
        obtain j where "l = ?nd j" "0 < j" "j \<le> k" using lm by auto
        then show ?thesis using clump_blocks_disjoint [OF lt, of 0 j] r(1) nd0 by simp
      qed
    next
      fix l assume "l \<in> set (n # map ?nd [1..<k])"
      then show "l \<in> set [] \<or> (\<forall>p \<in> node_blocks ?b l. \<not> used c p)"
        using nb r(1) sb by auto
    next
      fix l assume "in_vol c l" "used c (unat l)"
      then show "obmafs3_block_read c' l (bsz c) = obmafs3_block_read c l (bsz c)"
        using d(4) [of l] fresh [of "unat l"] k r(3) fr same by (auto simp: in_vol_def)
    qed (use r d sb s0 occ ok1 af in auto)
    then show ?thesis ..
  qed
qed


lemma alloc_node_contract:
  assumes "dev_ok c" "bm_ok c" "heap_ok c" "8 \<le> bsz c" "used c 0" "pool c h fl"
    and "obmafs3_btree_alloc_node c h = (Inr n, h', c')"
  shows "\<exists>fl'. fresh_node c h fl n c' h' fl'"
proof (cases fl)
  case Nil
  then show ?thesis using alloc_grow assms by blast
next
  case (Cons l ls)
  then show ?thesis using alloc_pop [OF assms(1,2), of h l ls] assms(6,7) by auto
qed

text \<open>
  C9: handing out a node keeps the free list of the tree a well-formed chain. The node was in
  the free list or its blocks were free in the bitmap, its blocks are marked and overlap no
  node still in the list, and no block that was in use before has changed.
\<close>

theorem alloc_node_keeps_pool:
  assumes "dev_ok c" "bm_ok c" "heap_ok c" "8 \<le> bsz c" "used c 0" "pool c h fl"
    and "obmafs3_btree_alloc_node c h = (Inr n, h', c')"
  shows "\<exists>fl'. pool c' h' fl' \<and> n \<noteq> 0 \<and> n \<notin> set fl' \<and>
     (\<forall>l \<in> set (n # fl'). l \<in> set fl \<or> (\<forall>p \<in> node_blocks (blocks_per_node c h) l. \<not> used c p)) \<and>
     (\<forall>p \<in> node_blocks (blocks_per_node c h) n. p < unat (max_lba c) \<and> used c' p) \<and>
     (\<forall>l \<in> set fl'. node_blocks (blocks_per_node c h) n \<inter> node_blocks (blocks_per_node c h) l = {}) \<and>
     (\<forall>k. in_vol c k \<longrightarrow> used c (unat k) \<longrightarrow> obmafs3_block_read c' k (bsz c) = obmafs3_block_read c k (bsz c))"
proof -
  obtain fl' where fl': "fresh_node c h fl n c' h' fl'" using alloc_node_contract [OF assms] ..
  have "n \<notin> set fl'"
  proof
    assume "n \<in> set fl'"
    then have "node_blocks (blocks_per_node c h) n = {}" using fl' by (auto simp: fresh_node_def)
    then show False using blocks_per_node_pos [of c h] by (simp add: node_blocks_def)
  qed
  then show ?thesis using fl' by (auto simp: fresh_node_def)
qed

definition pool_ctx :: ctx where
  "pool_ctx = (blank_ctx 128 16 [1, 0])\<lparr>sb := (sb (blank_ctx 128 16 []))\<lparr>btree_clump_size := 4\<rparr>\<rparr>"

lemma pool_ctx_facts:
  "dev_ok pool_ctx" "bm_ok pool_ctx" "heap_ok pool_ctx" "8 \<le> bsz pool_ctx" "used pool_ctx 0" "pool pool_ctx zero_hdr []"
  by (simp_all add: pool_ctx_def blank_ctx_def dev_ok_def bm_ok_def used_def allocated_def pool_empty zero_hdr_def)

theorem alloc_node_keeps_pool_witness:
  "\<exists>n h' c' fl'. obmafs3_btree_alloc_node pool_ctx zero_hdr = (Inr n, h', c') \<and> pool c' h' fl' \<and> length fl' = 3 \<and> n \<notin> set fl'"
proof -
  have al: "fst (obmafs3_btree_alloc_node pool_ctx zero_hdr) = Inr 1"
    "free_nodes (fst (snd (obmafs3_btree_alloc_node pool_ctx zero_hdr))) = 3"
    by code_simp+
  then obtain h' c' where r: "obmafs3_btree_alloc_node pool_ctx zero_hdr = (Inr 1, h', c')" "free_nodes h' = 3"
    by (cases "obmafs3_btree_alloc_node pool_ctx zero_hdr") auto
  from alloc_node_keeps_pool [OF pool_ctx_facts r(1)] obtain fl' where fl': "pool c' h' fl'" "1 \<notin> set fl'" by blast
  then have "length fl' = 3" using r(2) by (simp add: pool_def)
  with fl' r(1) show ?thesis by blast
qed

lemma free_node_pushes:
  assumes "dev_ok c" "heap_ok c" "8 \<le> bsz c" "pool c h fl" "in_vol c n" "n \<noteq> 0" "n \<notin> set fl"
    and "\<And>l. l \<in> set fl \<Longrightarrow> node_blocks (blocks_per_node c h) n \<inter> node_blocks (blocks_per_node c h) l = {}"
    and "\<And>p. p \<in> node_blocks (blocks_per_node c h) n \<Longrightarrow> p < unat (max_lba c) \<and> used c p"
    and "length fl < 2 ^ 32 - 1"
  shows "\<exists>h' b. obmafs3_btree_free_node c h n = (OBMAFS3_OK, h', wrote c n b) \<and> length b = bsz c \<and>
     h' = h\<lparr>free_node_lba := n, free_nodes := free_nodes h + 1\<rparr> \<and> pool (wrote c n b) h' (n # fl)"
proof -
  let ?b = "put 0 (le_enc 8 (free_node_lba h)) (replicate (bsz c) 0)"
  let ?h = "h\<lparr>free_node_lba := n, free_nodes := free_nodes h + 1\<rparr>" and ?c = "wrote c n ?b"
  have len: "length ?b = bsz c" using assms(3) by simp
  have "obmafs3_btree_free_node c h n = (OBMAFS3_OK, ?h, ?c)"
    using assms(1,2,5,6) len by (simp add: obmafs3_btree_free_node_def in_vol_def Let_def block_write_eq)
  moreover have "chain ?c n (n # fl)"
  proof -
    have "obmafs3_block_read ?c n (bsz c) = Inr ?b" by (rule block_read_wrote_same [OF assms(1,5) len])
    moreover have "u64at 0 ?b = free_node_lba h" using assms(3) by (simp add: fld_put_same)
    moreover have "chain ?c (free_node_lba h) fl = chain c (free_node_lba h) fl"
    proof (rule chain_cong)
      fix l assume "l \<in> set fl"
      then have "in_vol c l" "l \<noteq> n" using assms(4,7) chain_in_vol by (auto simp: pool_def)
      then show "obmafs3_block_read ?c l (bsz c) = obmafs3_block_read c l (bsz c)"
        by (rule block_read_wrote_other [OF assms(1,5) _ len])
    qed simp
    ultimately show ?thesis using assms(4-6) by (simp add: pool_def)
  qed
  moreover have "unat (free_nodes h + 1) = Suc (length fl)"
    using assms(4,10) by (simp add: pool_def unat_word_ariths)
  ultimately have "pool ?c ?h (n # fl)"
    using assms(4,8,9) blocks_per_node_cong [of ?c c ?h h] by (auto simp: pool_def used_def)
  then show ?thesis using \<open>obmafs3_btree_free_node c h n = (OBMAFS3_OK, ?h, ?c)\<close> len by blast
qed

text \<open>
  A node given back to the tree is the next one handed out, and after that the free list
  and the header count are what they were.
\<close>

lemma free_then_alloc_node:
  assumes "dev_ok c" "bm_ok c" "heap_ok c" "8 \<le> bsz c" "pool c h fl" "in_vol c n" "n \<noteq> 0" "n \<notin> set fl"
    and "\<forall>l \<in> set fl. node_blocks (blocks_per_node c h) n \<inter> node_blocks (blocks_per_node c h) l = {}"
    and "\<forall>p \<in> node_blocks (blocks_per_node c h) n. p < unat (max_lba c) \<and> used c p"
    and "length fl < 2 ^ 32 - 1"
  shows "\<exists>h1 c1. obmafs3_btree_free_node c h n = (OBMAFS3_OK, h1, c1) \<and> pool c1 h1 (n # fl) \<and>
           obmafs3_btree_alloc_node c1 h1 = (Inr n, h, c1) \<and> pool c1 h fl"
proof -
  obtain b where b: "obmafs3_btree_free_node c h n = (OBMAFS3_OK, h\<lparr>free_node_lba := n, free_nodes := free_nodes h + 1\<rparr>, wrote c n b)"
      "pool (wrote c n b) (h\<lparr>free_node_lba := n, free_nodes := free_nodes h + 1\<rparr>) (n # fl)"
    using free_node_pushes [OF assms(1,3-8)] assms(9-11) by blast
  let ?h1 = "h\<lparr>free_node_lba := n, free_nodes := free_nodes h + 1\<rparr>" and ?c1 = "wrote c n b"
  have "dev_ok ?c1" "bm_ok ?c1" using assms(1,2) by (simp_all add: bm_ok_def)
  from alloc_pop [OF this b(2)] obtain h2 where
    h2: "obmafs3_btree_alloc_node ?c1 ?h1 = (Inr n, h2, ?c1)" "fresh_node ?c1 ?h1 (n # fl) n ?c1 h2 fl" by blast
  have p2: "pool ?c1 h2 fl" using h2(2) by (simp add: fresh_node_def)
  have "free_nodes h2 = free_nodes h"
    using p2 assms(5) by (simp add: pool_def word_unat_eq_iff)
  moreover have "free_node_lba h2 = free_node_lba h"
    using p2 assms(5) by (cases fl) (simp_all add: pool_def)
  moreover have "h2 = ?h1\<lparr>free_node_lba := free_node_lba h2, free_nodes := free_nodes h2\<rparr>"
    using h2(2) by (simp add: fresh_node_def)
  ultimately have "h2 = h" by simp
  then show ?thesis using b h2 p2 by blast
qed

end
