(* ===== verification/BPlusTree.thy ===== *)
theory BPlusTree
  imports Btree
begin

text \<open>
  The B+Tree algorithm that the trees of the volume share. src/src/lib/cd\_btree.c implements
  it once for any record size; inode.c, refcount.c, catalog.c and media\_tag.c hold copies of
  it with their own record and key types. The model has one version with the record layout as
  an argument, and the theories of those files instantiate it. Nodes are byte buffers: a
  header of 70 bytes, then the records back to back.
\<close>

section \<open>Nodes\<close>

text \<open>struct btree\_node\_header, btree.h.\<close>

record btree_node_header =
  nh_magic :: u64
  record_type :: u8
  level :: u8
  left_link :: u64
  right_link :: u64
  overflow_link :: u64
  node_keys :: u16
  keys_length :: u16
  nh_checksum :: bytes

definition nh_size :: nat where "nh_size = 70"

definition nh_enc :: "btree_node_header \<Rightarrow> bytes" where
  "nh_enc n = le_enc 8 (nh_magic n) @ le_enc 1 (record_type n) @ le_enc 1 (level n) @
     le_enc 8 (left_link n) @ le_enc 8 (right_link n) @ le_enc 8 (overflow_link n) @
     le_enc 2 (node_keys n) @ le_enc 2 (keys_length n) @ nh_checksum n"

definition nh_dec :: "bytes \<Rightarrow> btree_node_header" where
  "nh_dec b = \<lparr>nh_magic = u64at 0 b, record_type = u8at 8 b, level = u8at 9 b, left_link = u64at 10 b,
     right_link = u64at 18 b, overflow_link = u64at 26 b, node_keys = u16at 34 b, keys_length = u16at 36 b,
     nh_checksum = fld 38 32 b\<rparr>"

definition zero_nh :: btree_node_header where
  "zero_nh = \<lparr>nh_magic = 0, record_type = 0, level = 0, left_link = 0, right_link = 0, overflow_link = 0,
     node_keys = 0, keys_length = 0, nh_checksum = replicate 32 0\<rparr>"

text \<open>compute\_node\_checksum, btree\_internal.h: the hash covers the header and the keys.\<close>

definition compute_node_checksum :: "(bytes \<Rightarrow> u64) \<Rightarrow> bytes \<Rightarrow> bytes" where
  "compute_node_checksum h buf =
     (let data_size = nh_size + unat (keys_length (nh_dec buf));
          zeroed = put 38 (replicate 32 0) buf
      in put 38 (obmafs3_checksum_block h (take data_size zeroed)) zeroed)"

text \<open>
  What distinguishes one tree from another: the sizes of a leaf record and of an index entry,
  how keys and child pointers sit in them, and the type tag of the nodes. \<open>set_ie_key\<close> is the
  assignment \<open>upd.key = k\<close> on an index entry.
\<close>

record 'k tree_cfg =
  rec_sz :: nat
  ie_sz :: nat
  rec_key :: "bytes \<Rightarrow> 'k"
  ie_key :: "bytes \<Rightarrow> 'k"
  ie_child :: "bytes \<Rightarrow> u64"
  mk_ie :: "'k \<Rightarrow> u64 \<Rightarrow> bytes"
  set_ie_key :: "'k \<Rightarrow> bytes \<Rightarrow> bytes"
  cfg_type :: u8

abbreviation ndata :: "bytes \<Rightarrow> bytes" where "ndata buf \<equiv> drop nh_size buf"

definition leaf_max :: "'k tree_cfg \<Rightarrow> ctx \<Rightarrow> u16" where
  "leaf_max g c = ucast ((block_size (sb c) - of_nat nh_size) div of_nat (rec_sz g))"

definition index_max :: "'k tree_cfg \<Rightarrow> ctx \<Rightarrow> u16" where
  "index_max g c = ucast ((block_size (sb c) - of_nat nh_size) div of_nat (ie_sz g))"

section \<open>Searching a node\<close>

function leaf_loop :: "('k :: linorder) tree_cfg \<Rightarrow> bytes \<Rightarrow> 'k \<Rightarrow> int \<Rightarrow> int \<Rightarrow> int" where
  "leaf_loop g dat key lo hi =
     (if lo \<le> hi then
        let mid = lo + (hi - lo) div 2;
            mid_key = rec_key g (slot (rec_sz g) (nat mid) dat)
        in if mid_key = key then mid
           else if mid_key < key then leaf_loop g dat key (mid + 1) hi
           else leaf_loop g dat key lo (mid - 1)
      else - (lo + 1))"
  by pat_completeness auto
termination
  by (relation "measure (\<lambda>(_, _, _, lo, hi). nat (hi + 1 - lo))") (auto simp: Let_def)

function index_loop :: "('k :: linorder) tree_cfg \<Rightarrow> bytes \<Rightarrow> 'k \<Rightarrow> nat \<Rightarrow> int \<Rightarrow> int \<Rightarrow> nat" where
  "index_loop g dat key result lo hi =
     (if lo \<le> hi then
        let mid = lo + (hi - lo) div 2;
            mid_key = ie_key g (slot (ie_sz g) (nat mid) dat)
        in if mid_key \<le> key then index_loop g dat key (nat mid) (mid + 1) hi
           else index_loop g dat key result lo (mid - 1)
      else result)"
  by pat_completeness auto
termination
  by (relation "measure (\<lambda>(_, _, _, _, lo, hi). nat (hi + 1 - lo))") (auto simp: Let_def)

declare leaf_loop.simps [simp del] index_loop.simps [simp del]

definition leaf_find :: "('k :: linorder) tree_cfg \<Rightarrow> bytes \<Rightarrow> u16 \<Rightarrow> 'k \<Rightarrow> int" where
  "leaf_find g buf nk key = leaf_loop g (ndata buf) key 0 (int (unat nk) - 1)"

definition index_find :: "('k :: linorder) tree_cfg \<Rightarrow> bytes \<Rightarrow> u16 \<Rightarrow> 'k \<Rightarrow> nat" where
  "index_find g buf nk key = index_loop g (ndata buf) key 0 0 (int (unat nk) - 1)"

section \<open>Lookup\<close>

text \<open>
  The descent has no depth limit, so a corrupted volume can send it round a cycle for ever:
  that is the result None. A hit is the leaf, the byte offset in it and the record.
\<close>

partial_function (option) tree_descend ::
    "('k :: linorder) tree_cfg \<Rightarrow> ctx \<Rightarrow> u64 \<Rightarrow> 'k \<Rightarrow> (rc + u64 \<times> bytes) option" where
  [code]: "tree_descend g c lba key =
     (case obmafs3_block_read c lba (bsz c) of
        Inl e \<Rightarrow> Some (Inl e)
      | Inr buf \<Rightarrow>
          if nh_magic (nh_dec buf) \<noteq> OBMAFS3_BTREE_NODE_MAGIC then Some (Inl OBMAFS3_ERR_BADMAGIC)
          else if 0 < level (nh_dec buf) then
            tree_descend g c (ie_child g (slot (ie_sz g) (index_find g buf (node_keys (nh_dec buf)) key) (ndata buf))) key
          else Some (Inr (lba, buf)))"

definition tree_lookup ::
    "('k :: linorder) tree_cfg \<Rightarrow> ctx \<Rightarrow> btree_header \<Rightarrow> 'k \<Rightarrow> (rc + u64 \<times> nat \<times> bytes) option" where
  "tree_lookup g c h key =
     (if root_node_lba h = 0 then Some (Inl OBMAFS3_ERR_NOTFOUND)
      else case tree_descend g c (root_node_lba h) key of
        None \<Rightarrow> None
      | Some (Inl e) \<Rightarrow> Some (Inl e)
      | Some (Inr (lba, buf)) \<Rightarrow>
          let idx = leaf_find g buf (node_keys (nh_dec buf)) key in
          if 0 \<le> idx
          then Some (Inr (lba, nh_size + nat idx * rec_sz g, slot (rec_sz g) (nat idx) (ndata buf)))
          else Some (Inl OBMAFS3_ERR_NOTFOUND))"

section \<open>Insertion\<close>

definition BTREE_MAX_DEPTH :: nat where "BTREE_MAX_DEPTH = 8"

text \<open>The descent that records its path, innermost entry first; \<open>n\<close> levels are still allowed.\<close>

fun tree_path ::
    "('k :: linorder) tree_cfg \<Rightarrow> ctx \<Rightarrow> 'k \<Rightarrow> nat \<Rightarrow> u64 \<Rightarrow> (u64 \<times> nat) list \<Rightarrow> rc + u64 \<times> bytes \<times> (u64 \<times> nat) list" where
  "tree_path g c key n lba path =
     (case obmafs3_block_read c lba (bsz c) of
        Inl e \<Rightarrow> Inl e
      | Inr buf \<Rightarrow>
          if nh_magic (nh_dec buf) \<noteq> OBMAFS3_BTREE_NODE_MAGIC then Inl OBMAFS3_ERR_BADMAGIC
          else if level (nh_dec buf) = 0 then Inr (lba, buf, path)
          else (case n of
                  0 \<Rightarrow> Inl OBMAFS3_ERR_INVAL
                | Suc m \<Rightarrow>
                    let sl = index_find g buf (node_keys (nh_dec buf)) key
                    in tree_path g c key m (ie_child g (slot (ie_sz g) sl (ndata buf))) ((lba, sl) # path)))"

declare tree_path.simps [simp del]

text \<open>memmove up by one record and memcpy of the new one; the array is at \<open>nh_size\<close>.\<close>

definition insert_slot :: "nat \<Rightarrow> nat \<Rightarrow> nat \<Rightarrow> bytes \<Rightarrow> bytes \<Rightarrow> bytes" where
  "insert_slot sz nk i r buf =
     (let moved = (if i < nk then put (nh_size + (i + 1) * sz) (fld (nh_size + i * sz) ((nk - i) * sz) buf) buf else buf)
      in put (nh_size + i * sz) r moved)"

text \<open>The merged array of a split: the first \<open>mx\<close> records with \<open>r\<close> inserted at \<open>i\<close>.\<close>

definition merged :: "nat \<Rightarrow> nat \<Rightarrow> nat \<Rightarrow> bytes \<Rightarrow> bytes \<Rightarrow> bytes" where
  "merged sz mx i r dat = take (i * sz) dat @ r @ fld (i * sz) ((mx - i) * sz) dat"

text \<open>A node built in a zeroed buffer, and a node whose payload is replaced.\<close>

definition fresh_image :: "'k tree_cfg \<Rightarrow> ctx \<Rightarrow> u8 \<Rightarrow> nat \<Rightarrow> nat \<Rightarrow> u64 \<Rightarrow> u64 \<Rightarrow> bytes \<Rightarrow> bytes" where
  "fresh_image g c lv nk sz ll rl payload =
     compute_node_checksum (xxh64 c)
       (put nh_size payload
         (put 0 (nh_enc (zero_nh\<lparr>nh_magic := OBMAFS3_BTREE_NODE_MAGIC, record_type := cfg_type g, level := lv,
                    node_keys := of_nat nk, keys_length := of_nat (nk * sz), left_link := ll, right_link := rl\<rparr>))
           (replicate (bsz c) 0)))"

definition rewrite_image :: "ctx \<Rightarrow> bytes \<Rightarrow> nat \<Rightarrow> nat \<Rightarrow> u64 \<Rightarrow> bytes \<Rightarrow> bytes" where
  "rewrite_image c buf nk sz rl payload =
     compute_node_checksum (xxh64 c)
       (put 0 (nh_enc ((nh_dec buf)\<lparr>node_keys := of_nat nk, keys_length := of_nat (nk * sz), right_link := rl\<rparr>))
         (take nh_size buf @ put 0 payload (replicate (bsz c - nh_size) 0)))"

text \<open>A node with one more record in place.\<close>

definition grown_image :: "ctx \<Rightarrow> bytes \<Rightarrow> nat \<Rightarrow> bytes \<Rightarrow> bytes" where
  "grown_image c buf sz buf1 =
     (let nk = node_keys (nh_dec buf) + 1 in
      compute_node_checksum (xxh64 c)
        (put 0 (nh_enc ((nh_dec buf)\<lparr>node_keys := nk, keys_length := of_nat (unat nk * sz)\<rparr>)) buf1))"

text \<open>The left link of the right neighbour; errors are ignored.\<close>

definition fix_left_link :: "ctx \<Rightarrow> u64 \<Rightarrow> u64 \<Rightarrow> ctx" where
  "fix_left_link c nb new_lba =
     (if nb = 0 then c
      else case obmafs3_block_read c nb (bsz c) of
        Inl e \<Rightarrow> c
      | Inr buf \<Rightarrow>
          snd (obmafs3_block_write c nb (compute_node_checksum (xxh64 c) (put 0 (nh_enc ((nh_dec buf)\<lparr>left_link := new_lba\<rparr>)) buf))))"

definition new_root :: "'k tree_cfg \<Rightarrow> ctx \<Rightarrow> btree_header \<Rightarrow> u64 \<Rightarrow> bytes \<Rightarrow> 'k \<Rightarrow> u64 \<Rightarrow> rc \<times> btree_header \<times> ctx" where
  "new_root g c h hdr_lba push_ie left_key left_lba =
     (case obmafs3_btree_alloc_node c h of
        (Inl e, h1, c1) \<Rightarrow> (e, h1, c1)
      | (Inr new_root_lba, h1, c1) \<Rightarrow>
          (case obmafs3_block_read c1 left_lba (bsz c1) of
             Inl e \<Rightarrow> (e, h1, c1)
           | Inr buf \<Rightarrow>
               (case obmafs3_block_write c1 new_root_lba
                       (fresh_image g c1 (level (nh_dec buf) + 1) 2 (ie_sz g) 0 0 (mk_ie g left_key left_lba @ push_ie)) of
                  (OBMAFS3_OK, c2) \<Rightarrow>
                    obmafs3_btree_header_write c2 hdr_lba
                      (h1\<lparr>root_node_lba := new_root_lba, total_nodes := total_nodes h1 + 1\<rparr>)
                | (e, c2) \<Rightarrow> (e, h1, c2))))"

text \<open>
  The loop that carries a split upwards: \<open>push_ie\<close> is the entry for the new right node,
  \<open>left_key\<close> and \<open>left_lba\<close> describe the left one.
\<close>

fun propagate ::
    "'k tree_cfg \<Rightarrow> ctx \<Rightarrow> btree_header \<Rightarrow> u64 \<Rightarrow> (u64 \<times> nat) list \<Rightarrow> bytes \<Rightarrow> 'k \<Rightarrow> u64 \<Rightarrow> rc \<times> btree_header \<times> ctx" where
  "propagate g c h hdr_lba [] push_ie left_key left_lba = new_root g c h hdr_lba push_ie left_key left_lba"
| "propagate g c h hdr_lba ((parent_lba, parent_slot) # path) push_ie left_key left_lba =
     (case obmafs3_block_read c parent_lba (bsz c) of
        Inl e \<Rightarrow> (e, h, c)
      | Inr buf0 \<Rightarrow>
          let phdr = nh_dec buf0;
              max_idx = index_max g c;
              idx_insert = parent_slot + 1;
              upd = set_ie_key g left_key (slot (ie_sz g) parent_slot (ndata buf0));
              buf = put (nh_size + parent_slot * ie_sz g) upd buf0
          in if node_keys phdr < max_idx then
               (case obmafs3_block_write c parent_lba
                       (grown_image c buf0 (ie_sz g) (insert_slot (ie_sz g) (unat (node_keys phdr)) idx_insert push_ie buf)) of
                  (OBMAFS3_OK, c1) \<Rightarrow> obmafs3_btree_header_write c1 hdr_lba h
                | (e, c1) \<Rightarrow> (e, h, c1))
             else if \<not> heap_ok c then (OBMAFS3_ERR_NOMEM, h, c)
             else
               let aie = merged (ie_sz g) (unat max_idx) idx_insert push_ie (ndata buf);
                   idx_total = unat (max_idx + 1);
                   il = idx_total div 2;
                   ir = idx_total - il
               in (case obmafs3_btree_alloc_node c h of
                     (Inl e, h1, c1) \<Rightarrow> (e, h1, c1)
                   | (Inr new_idx_lba, h1, c1) \<Rightarrow>
                       (case obmafs3_block_write c1 parent_lba
                               (rewrite_image c1 buf0 il (ie_sz g) new_idx_lba (take (il * ie_sz g) aie)) of
                          (OBMAFS3_OK, c2) \<Rightarrow>
                            (case obmafs3_block_write c2 new_idx_lba
                                    (fresh_image g c2 (level phdr) ir (ie_sz g) parent_lba (right_link phdr)
                                       (fld (il * ie_sz g) (ir * ie_sz g) aie)) of
                               (OBMAFS3_OK, c3) \<Rightarrow>
                                 propagate g (fix_left_link c3 (right_link phdr) new_idx_lba)
                                   (h1\<lparr>total_nodes := total_nodes h1 + 1\<rparr>) hdr_lba path
                                   (mk_ie g (ie_key g (slot (ie_sz g) il aie)) new_idx_lba)
                                   (ie_key g (slot (ie_sz g) 0 aie)) parent_lba
                             | (e, c3) \<Rightarrow> (e, h1, c3))
                        | (e, c2) \<Rightarrow> (e, h1, c2))))"

declare propagate.simps [simp del]

definition leaf_split ::
    "'k tree_cfg \<Rightarrow> ctx \<Rightarrow> btree_header \<Rightarrow> u64 \<Rightarrow> bytes \<Rightarrow> u64 \<Rightarrow> bytes \<Rightarrow> nat \<Rightarrow> (u64 \<times> nat) list \<Rightarrow> rc \<times> btree_header \<times> ctx" where
  "leaf_split g c h hdr_lba rec lba buf insert_pos path =
     (if \<not> heap_ok c then (OBMAFS3_ERR_NOMEM, h, c)
      else
        let mx = unat (leaf_max g c);
            all = merged (rec_sz g) mx insert_pos rec (ndata buf);
            total = unat (leaf_max g c + 1);
            left_count = total div 2;
            right_count = total - left_count;
            old_right = right_link (nh_dec buf)
        in (case obmafs3_btree_alloc_node c h of
              (Inl e, h1, c1) \<Rightarrow> (e, h1, c1)
            | (Inr new_leaf_lba, h1, c1) \<Rightarrow>
                (case obmafs3_block_write c1 lba
                        (rewrite_image c1 buf left_count (rec_sz g) new_leaf_lba (take (left_count * rec_sz g) all)) of
                   (OBMAFS3_OK, c2) \<Rightarrow>
                     (case obmafs3_block_write c2 new_leaf_lba
                             (fresh_image g c2 0 right_count (rec_sz g) lba old_right
                                (fld (left_count * rec_sz g) (right_count * rec_sz g) all)) of
                        (OBMAFS3_OK, c3) \<Rightarrow>
                          propagate g (fix_left_link c3 old_right new_leaf_lba)
                            (h1\<lparr>total_nodes := total_nodes h1 + 1\<rparr>) hdr_lba path
                            (mk_ie g (rec_key g (slot (rec_sz g) left_count all)) new_leaf_lba)
                            (rec_key g (slot (rec_sz g) 0 all)) lba
                      | (e, c3) \<Rightarrow> (e, h1, c3))
                 | (e, c2) \<Rightarrow> (e, h1, c2))))"

definition put_empty :: "'k tree_cfg \<Rightarrow> ctx \<Rightarrow> btree_header \<Rightarrow> u64 \<Rightarrow> bytes \<Rightarrow> rc \<times> btree_header \<times> ctx" where
  "put_empty g c h hdr_lba rec =
     (case obmafs3_btree_alloc_node c h of
        (Inl e, h1, c1) \<Rightarrow> (e, h1, c1)
      | (Inr new_lba, h1, c1) \<Rightarrow>
          (case obmafs3_block_write c1 new_lba (fresh_image g c1 0 1 (rec_sz g) 0 0 rec) of
             (OBMAFS3_OK, c2) \<Rightarrow>
               obmafs3_btree_header_write c2 hdr_lba (h1\<lparr>root_node_lba := new_lba, total_nodes := 1\<rparr>)
           | (e, c2) \<Rightarrow> (e, h1, c2)))"

definition tree_put ::
    "('k :: linorder) tree_cfg \<Rightarrow> ctx \<Rightarrow> btree_header \<Rightarrow> u64 \<Rightarrow> bytes \<Rightarrow> rc \<times> btree_header \<times> ctx" where
  "tree_put g c h hdr_lba rec =
     (if root_node_lba h = 0 then put_empty g c h hdr_lba rec
      else case tree_path g c (rec_key g rec) BTREE_MAX_DEPTH (root_node_lba h) [] of
        Inl e \<Rightarrow> (e, h, c)
      | Inr (lba, buf, path) \<Rightarrow>
          let nk = node_keys (nh_dec buf);
              idx = leaf_find g buf nk (rec_key g rec)
          in if 0 \<le> idx then
               (case obmafs3_block_write c lba
                       (compute_node_checksum (xxh64 c) (put (nh_size + nat idx * rec_sz g) rec buf)) of
                  (e, c1) \<Rightarrow> (e, h, c1))
             else
               let insert_pos = nat (- (idx + 1)) in
               if nk < leaf_max g c then
                 (case obmafs3_block_write c lba
                         (grown_image c buf (rec_sz g) (insert_slot (rec_sz g) (unat nk) insert_pos rec buf)) of
                    (e, c1) \<Rightarrow> (e, h, c1))
               else leaf_split g c h hdr_lba rec lba buf insert_pos path)"

end
