(* ===== verification/BPlusNode.thy ===== *)
theory BPlusNode
  imports BPlusTree
begin

text \<open>
  How the node images of the B+Tree code decode: every buffer the insertion writes, read back
  as a header and a list of records.
\<close>

section \<open>Headers\<close>

lemma nh_dec_enc: "length (nh_checksum n) = 32 \<Longrightarrow> nh_dec (nh_enc n @ rest) = n"
  unfolding nh_enc_def nh_dec_def by (simp add: codec_simps del: le_enc.simps One_nat_def)

lemma length_nh_enc [simp]: "length (nh_checksum n) = 32 \<Longrightarrow> length (nh_enc n) = nh_size"
  by (simp add: nh_enc_def nh_size_def)

lemma length_nh_checksum_dec [simp]: "nh_size \<le> length b \<Longrightarrow> length (nh_checksum (nh_dec b)) = 32"
  by (simp add: nh_dec_def nh_size_def)

lemma fld_take: "off + n \<le> m \<Longrightarrow> fld off n (take m b) = fld off n b"
  by (simp add: fld_def drop_take min_def)

lemma nh_dec_take: "nh_size \<le> m \<Longrightarrow> nh_dec (take m b) = nh_dec b"
  by (simp add: nh_dec_def fld_take nh_size_def)

lemma nh_dec_put_header:
  assumes "length (nh_checksum n) = 32"
  shows "nh_dec (put 0 (nh_enc n) b) = n" "drop nh_size (put 0 (nh_enc n) b) = drop nh_size b"
  using assms by (simp_all add: put_def nh_dec_enc)

lemma nh_dec_put_data: "nh_size \<le> off \<Longrightarrow> off \<le> length b \<Longrightarrow> nh_dec (put off xs b) = nh_dec b"
  using nh_dec_take [of off "put off xs b"] nh_dec_take [of off b] by (simp add: put_def)

lemma drop_put: "n + k \<le> length b \<Longrightarrow> drop n (put (n + k) xs b) = put k xs (drop n b)"
  by (simp add: put_def drop_take add.commute add.left_commute)

lemma node_checksum_view:
  assumes "nh_size \<le> length b"
  shows "length (compute_node_checksum h b) = length b"
    and "drop nh_size (compute_node_checksum h b) = drop nh_size b"
    and "\<exists>ck. length ck = 32 \<and> nh_dec (compute_node_checksum h b) = (nh_dec b)\<lparr>nh_checksum := ck\<rparr>"
proof -
  let ?z = "put 38 (replicate 32 0) b"
  have lz: "length ?z = length b" using assms by (simp add: nh_size_def)
  obtain ck where ck: "compute_node_checksum h b = put 38 ck ?z" "length ck = 32"
    by (simp add: compute_node_checksum_def Let_def)
  show "length (compute_node_checksum h b) = length b" using ck lz assms by (simp add: nh_size_def)
  show "drop nh_size (compute_node_checksum h b) = drop nh_size b"
    using ck assms by (simp add: put_def nh_size_def)
  have eq: "compute_node_checksum h b = put 38 ck b" using ck assms by (simp add: put_def nh_size_def)
  have "nh_dec (put 38 ck b) = (nh_dec b)\<lparr>nh_checksum := ck\<rparr>"
    using ck(2) assms unfolding nh_dec_def by (simp add: fld_put_other fld_put_same nh_size_def)
  with ck(2) eq show "\<exists>ck. length ck = 32 \<and> nh_dec (compute_node_checksum h b) = (nh_dec b)\<lparr>nh_checksum := ck\<rparr>" by auto
qed

section \<open>A node as a list of records\<close>

definition node_is :: "nat \<Rightarrow> bytes \<Rightarrow> nat \<Rightarrow> u64 \<Rightarrow> nat \<Rightarrow> bytes list \<Rightarrow> bool" where
  "node_is bs buf lv rl sz es \<longleftrightarrow> length buf = bs \<and> nh_size \<le> bs \<and>
     nh_magic (nh_dec buf) = OBMAFS3_BTREE_NODE_MAGIC \<and>
     unat (level (nh_dec buf)) = lv \<and> right_link (nh_dec buf) = rl \<and>
     unat (node_keys (nh_dec buf)) = length es \<and> nh_size + length es * sz \<le> bs \<and>
     slots sz (length es) (ndata buf) = es"

lemma node_is_checksum:
  "nh_size \<le> length b \<Longrightarrow> node_is bs (compute_node_checksum h b) lv rl sz es = node_is bs b lv rl sz es"
  using node_checksum_view [of b h] by (auto simp: node_is_def)

lemma node_is_elem: "node_is bs buf lv rl sz es \<Longrightarrow> e \<in> set es \<Longrightarrow> length e = sz"
  using slots_length_elem [of "length es" sz "ndata buf" e] by (auto simp: node_is_def)

lemma slots_concat_pad:
  "(\<And>r. r \<in> set rs \<Longrightarrow> length r = sz) \<Longrightarrow> slots sz (length rs) (put 0 (concat rs) z) = rs"
  using slots_append_concat [of rs sz "drop (length (concat rs)) z"] by (simp add: put_def)

lemma length_concat_eq: "(\<And>r. r \<in> set rs \<Longrightarrow> length r = sz) \<Longrightarrow> length (concat rs) = length rs * sz"
  by (induction rs) auto

lemma unat_of_nat_u16: "n < 65536 \<Longrightarrow> unat (of_nat n :: u16) = n"
  by (simp add: unat_of_nat)

lemma fresh_image_is:
  assumes "\<And>r. r \<in> set es \<Longrightarrow> length r = sz" "nh_size + length es * sz \<le> bsz c" "length es < 65536"
  shows "node_is (bsz c) (fresh_image g c lv (length es) sz ll rl (concat es)) (unat lv) rl sz es"
proof -
  let ?n = "zero_nh\<lparr>nh_magic := OBMAFS3_BTREE_NODE_MAGIC, record_type := cfg_type g, level := lv,
                node_keys := of_nat (length es), keys_length := of_nat (length es * sz), left_link := ll, right_link := rl\<rparr>"
  let ?b = "put 0 (nh_enc ?n) (replicate (bsz c) 0)"
  have ck: "length (nh_checksum ?n) = 32" by (simp add: zero_nh_def)
  have lb: "length ?b = bsz c" using assms(2) ck by simp
  have lc: "length (concat es) = length es * sz" using assms(1) by (rule length_concat_eq)
  have d: "ndata (put nh_size (concat es) ?b) = put 0 (concat es) (ndata ?b)"
    using drop_put [of nh_size 0 ?b] lb assms(2) by simp
  have "nh_dec (put nh_size (concat es) ?b) = ?n"
    using lb assms(2) nh_dec_put_header(1) [OF ck] by (simp add: nh_dec_put_data)
  then show ?thesis
    unfolding fresh_image_def
    using lb lc assms d by (simp add: node_is_checksum) (simp add: node_is_def slots_concat_pad unat_of_nat_u16)
qed

lemma rewrite_image_is:
  assumes "node_is (bsz c) buf lv rl0 sz0 es0"
    and "\<And>r. r \<in> set es \<Longrightarrow> length r = sz" "nh_size + length es * sz \<le> bsz c" "length es < 65536"
  shows "node_is (bsz c) (rewrite_image c buf (length es) sz rl (concat es)) lv rl sz es"
proof -
  let ?n = "(nh_dec buf)\<lparr>node_keys := of_nat (length es), keys_length := of_nat (length es * sz), right_link := rl\<rparr>"
  let ?b = "take nh_size buf @ put 0 (concat es) (replicate (bsz c - nh_size) 0)"
  have buf: "length buf = bsz c" "nh_size \<le> bsz c" using assms(1) by (simp_all add: node_is_def)
  have ck: "length (nh_checksum ?n) = 32" using buf by simp
  have lc: "length (concat es) = length es * sz" using assms(2) by (rule length_concat_eq)
  have lb: "length ?b = bsz c" using buf lc assms(3) by simp
  have "ndata ?b = put 0 (concat es) (replicate (bsz c - nh_size) 0)" using buf by simp
  then show ?thesis
    unfolding rewrite_image_def
    using lb buf assms nh_dec_put_header [OF ck] ck
    by (simp add: node_is_checksum) (simp add: node_is_def slots_concat_pad unat_of_nat_u16)
qed


lemma grown_image_is:
  assumes "node_is (bsz c) buf lv rl sz es" "length buf1 = bsz c" "slots sz (Suc (length es)) (ndata buf1) = es'"
    and "nh_size + Suc (length es) * sz \<le> bsz c" "Suc (length es) < 65536"
  shows "node_is (bsz c) (grown_image c buf sz buf1) lv rl sz es'"
proof -
  let ?nk = "node_keys (nh_dec buf) + 1"
  let ?n = "(nh_dec buf)\<lparr>node_keys := ?nk, keys_length := of_nat (unat ?nk * sz)\<rparr>"
  have buf: "length buf = bsz c" "nh_size \<le> bsz c" using assms(1) by (simp_all add: node_is_def)
  have ck: "length (nh_checksum ?n) = 32" using buf by simp
  have nk: "unat ?nk = Suc (length es)" using assms(1,5) by (simp add: node_is_def unat_word_ariths)
  have le: "length es' = Suc (length es)" using assms(3) by auto
  then show ?thesis
    unfolding grown_image_def Let_def
    using buf assms nh_dec_put_header [OF ck] ck nk
    by (simp add: node_is_checksum) (simp add: node_is_def)
qed

lemma slot_take: "i < n \<Longrightarrow> n * sz \<le> m \<Longrightarrow> slot sz i (take m d) = slot sz i d"
  using mult_le_mono1 [of "Suc i" n sz] by (simp add: slot_def fld_take)

lemma slots_cong: "take (n * sz) d = take (n * sz) d' \<Longrightarrow> slots sz n d = slots sz n d'"
  unfolding slots_def by (metis (no_types, lifting) atLeastLessThan_iff le_refl map_cong set_upt slot_take)

text \<open>Inserting a record: the byte moves of the code on the list of records.\<close>

lemma merged_concat:
  assumes "length es = n" "slots sz n d = es" "n * sz \<le> length d" "i \<le> n"
  shows "merged sz n i r d = concat (take i es @ r # drop i es)"
proof -
  have "take (i * sz) d = concat (take i es)"
    using assms concat_slots [of i sz d] mult_le_mono1 [OF assms(4), of sz] by (simp add: take_slots [symmetric])
  moreover have "fld (i * sz) ((n - i) * sz) d = concat (drop i es)"
  proof -
    have "concat (take i es) @ concat (drop i es) = take (n * sz) d"
      using assms concat_slots [of n sz d] by (metis append_take_drop_id concat_append)
    then have "concat (drop i es) = drop (i * sz) (take (n * sz) d)"
      using \<open>take (i * sz) d = concat (take i es)\<close> assms mult_le_mono1 [OF assms(4), of sz]
      by (metis append_eq_conv_conj le_trans length_take min.absorb2)
    then show ?thesis by (simp add: fld_def drop_take diff_mult_distrib)
  qed
  ultimately show ?thesis by (simp add: merged_def)
qed

lemma insert_slot_data:
  assumes "length r = sz" "i \<le> nk" "nh_size + Suc nk * sz \<le> length b"
  shows "take (Suc nk * sz) (ndata (insert_slot sz nk i r b)) = merged sz nk i r (ndata b)"
    and "length (insert_slot sz nk i r b) = length b"
proof -
  define d where "d = ndata b"
  have i: "i * sz \<le> nk * sz" using assms(2) by (rule mult_le_mono1)
  have b: "b = take nh_size b @ d" by (simp add: d_def)
  have ld: "length d = length b - nh_size" "Suc nk * sz \<le> length d" using assms(3) by (simp_all add: d_def)
  let ?m = "fld (i * sz) ((nk - i) * sz) d"
  have lm: "length ?m = (nk - i) * sz" using ld i by (simp add: diff_mult_distrib)
  have tot: "i * sz + sz + (nk - i) * sz = Suc nk * sz" using i by (simp add: diff_mult_distrib)
  have fl: "fld (nh_size + i * sz) ((nk - i) * sz) b = ?m"
    by (simp add: fld_def d_def add.commute)
  have sh: "ndata (insert_slot sz nk i r b) = take (i * sz) d @ r @ ?m @ drop (Suc nk * sz) d
     \<and> length (insert_slot sz nk i r b) = length b"
  proof (cases "i < nk")
    case True
    have "put (nh_size + (i + 1) * sz) ?m b = take nh_size b @ put ((i + 1) * sz) ?m d"
      using assms(3) by (subst b) (simp add: put_def add.assoc)
    moreover have "put ((i + 1) * sz) ?m d = take ((i + 1) * sz) d @ ?m @ drop (Suc nk * sz) d"
    proof -
      have "(i + 1) * sz + (nk - i) * sz = Suc nk * sz" using tot by simp
      then show ?thesis by (simp only: put_def lm)
    qed
    ultimately have mv: "put (nh_size + (i + 1) * sz) ?m b = take nh_size b @ take ((i + 1) * sz) d @ ?m @ drop (Suc nk * sz) d"
      by simp
    let ?D = "take ((i + 1) * sz) d @ ?m @ drop (Suc nk * sz) d"
    have "Suc i * sz \<le> nk * sz" using True by (intro mult_le_mono1) simp
    then have la: "length (take ((i + 1) * sz) d) = (i + 1) * sz" using ld by simp
    have "length (take nh_size b) = nh_size" using assms(3) by simp
    then have "insert_slot sz nk i r b = take nh_size b @ put (i * sz) r ?D"
      using True fl mv by (simp add: insert_slot_def put_def)
    moreover have "put (i * sz) r ?D = take (i * sz) d @ r @ ?m @ drop (Suc nk * sz) d"
      unfolding put_def assms(1) using la by (simp add: min_def add.commute)
    ultimately show ?thesis using assms(1,3) lm ld tot i by simp
  next
    case False
    then have "i = nk" using assms(2) by simp
    then show ?thesis
      using assms(1,3) ld by (simp add: insert_slot_def put_def d_def fld_def drop_take ac_simps)
  qed
  have "i * sz \<le> length d" using ld(2) i unfolding mult_Suc by linarith
  then have "length (take (i * sz) d) = i * sz" by simp
  then have "length (take (i * sz) d @ r @ ?m) = Suc nk * sz" unfolding length_append lm assms(1) using tot by linarith
  then have "take (Suc nk * sz) ((take (i * sz) d @ r @ ?m) @ drop (Suc nk * sz) d) = take (i * sz) d @ r @ ?m"
    by (metis append_eq_conv_conj)
  with sh show "take (Suc nk * sz) (ndata (insert_slot sz nk i r b)) = merged sz nk i r (ndata b)"
    by (simp only: merged_def d_def [symmetric] append_assoc)
  from sh show "length (insert_slot sz nk i r b) = length b" ..
qed

lemma insert_slot_slots:
  assumes "node_is bs b lv rl sz es" "length r = sz" "i \<le> length es" "nh_size + Suc (length es) * sz \<le> bs"
  shows "slots sz (Suc (length es)) (ndata (insert_slot sz (length es) i r b)) = take i es @ r # drop i es"
    and "length (insert_slot sz (length es) i r b) = bs"
proof -
  let ?n = "length es" and ?es = "take i es @ r # drop i es"
  have b: "length b = bs" "slots sz ?n (ndata b) = es" "nh_size + ?n * sz \<le> bs" using assms(1) by (simp_all add: node_is_def)
  have m: "merged sz ?n i r (ndata b) = concat ?es" using b assms(3) by (intro merged_concat) auto
  have el: "e \<in> set ?es \<Longrightarrow> length e = sz" for e
    using node_is_elem [OF assms(1)] assms(2) by (auto dest: in_set_takeD in_set_dropD)
  have le: "length ?es = Suc ?n" using assms(3) by simp
  have "take (Suc ?n * sz) (ndata (insert_slot sz ?n i r b)) = concat ?es"
    using insert_slot_data(1) [OF assms(2,3)] assms(4) b m by simp
  moreover have "take (Suc ?n * sz) (concat ?es @ []) = concat ?es"
    using length_concat_eq [of ?es sz, OF el] le by (simp only: append_Nil2 take_all_iff)
  ultimately have "slots sz (Suc ?n) (ndata (insert_slot sz ?n i r b)) = slots sz (Suc ?n) (concat ?es @ [])"
    by (intro slots_cong) simp
  also have "\<dots> = ?es" using slots_append_concat [of ?es sz "[]", OF el] unfolding le .
  finally show "slots sz (Suc ?n) (ndata (insert_slot sz ?n i r b)) = ?es" .
  show "length (insert_slot sz (length es) i r b) = bs"
    using insert_slot_data(2) [OF assms(2,3)] assms(4) b by simp
qed

text \<open>Replacing a record in place.\<close>

lemma put_slot_is:
  assumes "node_is bs b lv rl sz es" "length r = sz" "i < length es"
  shows "node_is bs (put (nh_size + i * sz) r b) lv rl sz (es[i := r])"
proof -
  have b: "length b = bs" "slots sz (length es) (ndata b) = es" "nh_size + length es * sz \<le> bs"
    using assms(1) by (simp_all add: node_is_def)
  have i: "Suc i * sz \<le> length es * sz" using assms(3) by (intro mult_le_mono1) simp
  have ds: "ndata (put (nh_size + i * sz) r b) = put (i * sz) r (ndata b)"
    using b i by (intro drop_put) simp
  have "slot sz j (put (i * sz) r (ndata b)) = (es[i := r]) ! j" if "j < length es" for j
  proof (cases "j = i")
    case True
    then show ?thesis using assms(2,3) b i by (simp add: slot_def fld_put_same)
  next
    case False
    have "Suc j * sz \<le> length es * sz" using that by (intro mult_le_mono1) simp
    moreover have "Suc j * sz \<le> i * sz \<or> Suc i * sz \<le> j * sz"
      using False by (cases "j < i") (auto intro!: mult_le_mono1 simp del: mult_Suc)
    ultimately have "slot sz j (put (i * sz) r (ndata b)) = slot sz j (ndata b)"
      unfolding slot_def using assms(2) b i by (intro fld_put_other) auto
    also have "\<dots> = es ! j" using b(2) that nth_slots by metis
    finally show ?thesis using False by simp
  qed
  then have "slots sz (length es) (put (i * sz) r (ndata b)) = es[i := r]"
    by (intro nth_equalityI) simp_all
  moreover have "nh_dec (put (nh_size + i * sz) r b) = nh_dec b" using b i by (intro nh_dec_put_data) simp_all
  ultimately show ?thesis
    using assms(1,2) b i ds by (simp add: node_is_def)
qed

section \<open>The searches\<close>

lemma sorted_lt_nth: "sorted_wrt (<) ks \<Longrightarrow> i < j \<Longrightarrow> j < length ks \<Longrightarrow> ks ! i < (ks ! j :: 'k :: linorder)"
  by (simp add: sorted_wrt_iff_nth_less)

lemma leaf_loop_correct:
  fixes g :: "('k :: linorder) tree_cfg"
  assumes "\<And>i. i < n \<Longrightarrow> rec_key g (slot (rec_sz g) i dat) = ks ! i" "length ks = n" "sorted_wrt (<) ks"
    and "0 \<le> lo" "lo \<le> hi + 1" "hi < int n"
    and "\<And>j. j < nat lo \<Longrightarrow> ks ! j < key" "\<And>j. hi < int j \<Longrightarrow> j < n \<Longrightarrow> key < ks ! j"
    and "r = leaf_loop g dat key lo hi"
  shows "(0 \<le> r \<longrightarrow> nat r < n \<and> ks ! nat r = key) \<and>
     (r < 0 \<longrightarrow> nat (- (r + 1)) \<le> n \<and> (\<forall>j < nat (- (r + 1)). ks ! j < key) \<and>
        (\<forall>j. nat (- (r + 1)) \<le> j \<longrightarrow> j < n \<longrightarrow> key < ks ! j))"
  using assms
proof (induction g dat key lo hi rule: leaf_loop.induct)
  case (1 g dat key lo hi)
  note P = 1(3-11)
  define mid where "mid = lo + (hi - lo) div 2"
  note eq = leaf_loop.simps [of g dat key lo hi]
  show ?case
  proof (cases "lo \<le> hi")
    case False
    then have "r = - (lo + 1)" using 1(11) eq by simp
    moreover have "int j > hi" if "nat lo \<le> j" for j using that False by linarith
    ultimately show ?thesis using 1(6-10) False by auto
  next
    case True
    have m: "lo \<le> mid" "mid \<le> hi" "nat mid < n" using True 1(6,8) by (auto simp: mid_def)
    have k: "rec_key g (slot (rec_sz g) (nat mid) dat) = ks ! nat mid" using 1(3) m by simp
    consider "ks ! nat mid = key" | "ks ! nat mid < key" | "key < ks ! nat mid" by fastforce
    then show ?thesis
    proof cases
      case hit: 1
      then have "r = mid" using P(9) eq True k by (simp add: mid_def Let_def)
      then show ?thesis using hit m P(4) by simp
    next
      case 2
      then have r: "r = leaf_loop g dat key (mid + 1) hi" using P(9) eq True k by (auto simp: mid_def Let_def)
      have lt: "ks ! j < key" if "j < nat (mid + 1)" for j
      proof (cases "j = nat mid")
        case False
        then have "j < nat mid" using that by simp
        then show ?thesis using sorted_lt_nth [OF 1(5), of j "nat mid"] m 1(4) 2 by simp
      qed (use 2 in simp)
      show ?thesis
        by (rule 1(1) [OF True mid_def refl]) (use P(1-3) in \<open>simp_all add: 2 k less_imp_neq [OF 2]\<close>, use P(4-8) m r lt in auto)
    next
      case 3
      then have r: "r = leaf_loop g dat key lo (mid - 1)" using P(9) eq True k by (auto simp: mid_def Let_def)
      have gt: "key < ks ! j" if "mid - 1 < int j" "j < n" for j
      proof (cases "j = nat mid")
        case False
        then have "nat mid < j" using that(1) by simp
        then show ?thesis using sorted_lt_nth [OF 1(5), of "nat mid" j] 1(4) 3 that(2) by simp
      qed (use 3 in simp)
      show ?thesis
        by (rule 1(2) [OF True mid_def refl]) (use P(1-3) 3 in \<open>simp_all add: k less_imp_neq [OF 3, symmetric]\<close>, use P(4-8) m r gt in auto)
    qed
  qed
qed

lemma index_loop_correct:
  fixes g :: "('k :: linorder) tree_cfg"
  assumes "\<And>i. i < n \<Longrightarrow> ie_key g (slot (ie_sz g) i dat) = ks ! i" "length ks = n" "sorted_wrt (<) ks"
    and "0 \<le> lo" "lo \<le> hi + 1" "hi < int n"
    and "\<And>j. j < nat lo \<Longrightarrow> ks ! j \<le> key" "\<And>j. hi < int j \<Longrightarrow> j < n \<Longrightarrow> key < ks ! j"
    and "res = nat lo - 1" "0 < n"
    and "r = index_loop g dat key res lo hi"
  shows "r < n \<and> (0 < r \<longrightarrow> ks ! r \<le> key) \<and> (\<forall>j. r < j \<longrightarrow> j < n \<longrightarrow> key < ks ! j)"
  using assms
proof (induction g dat key res lo hi rule: index_loop.induct)
  case (1 g dat key res lo hi)
  note P = 1(3-13)
  define mid where "mid = lo + (hi - lo) div 2"
  note eq = index_loop.simps [of g dat key res lo hi]
  show ?case
  proof (cases "lo \<le> hi")
    case False
    then have "r = nat lo - 1" using 1(11,13) eq by simp
    moreover have "int j > hi" if "nat lo - 1 < j" for j using that False 1(7) by linarith
    ultimately show ?thesis using 1(6-12) False by auto
  next
    case True
    have m: "lo \<le> mid" "mid \<le> hi" "nat mid < n" using True 1(6,8) by (auto simp: mid_def)
    have k: "ie_key g (slot (ie_sz g) (nat mid) dat) = ks ! nat mid" using 1(3) m by simp
    show ?thesis
    proof (cases "ks ! nat mid \<le> key")
      case t: True
      then have r: "r = index_loop g dat key (nat mid) (mid + 1) hi" using 1(13) eq True k by (simp add: mid_def Let_def)
      have le: "ks ! j \<le> key" if "j < nat (mid + 1)" for j
      proof (cases "j = nat mid")
        case False
        then have "j < nat mid" using that by simp
        then have "ks ! j < ks ! nat mid" using sorted_lt_nth [OF 1(5), of j "nat mid"] m 1(4) by simp
        then show ?thesis using t by simp
      qed (use t in simp)
      show ?thesis
        by (rule 1(1) [OF True mid_def refl]) (use P(1-3) in \<open>simp_all add: t k\<close>, use P(4-10) m r le in auto)
    next
      case f: False
      then have r: "r = index_loop g dat key res lo (mid - 1)" using 1(13) eq True k by (simp add: mid_def Let_def)
      have gt: "key < ks ! j" if "mid - 1 < int j" "j < n" for j
      proof (cases "j = nat mid")
        case False
        then have "nat mid < j" using that(1) by simp
        then have "ks ! nat mid < ks ! j" using sorted_lt_nth [OF 1(5), of "nat mid" j] 1(4) that(2) by simp
        then show ?thesis using f by simp
      qed (use f in simp)
      show ?thesis
        by (rule 1(2) [OF True mid_def refl]) (use P(1-3) in \<open>simp_all add: f k\<close>, use P(4-10) m r gt in auto)
    qed
  qed
qed

lemma node_is_slot: "node_is bs buf lv rl sz es \<Longrightarrow> i < length es \<Longrightarrow> slot sz i (ndata buf) = es ! i"
  by (metis node_is_def nth_slots)

lemma leaf_find_spec:
  fixes g :: "('k :: linorder) tree_cfg"
  assumes "node_is bs buf lv rl (rec_sz g) rs" "sorted_wrt (<) (map (rec_key g) rs)"
    and "r = leaf_find g buf (node_keys (nh_dec buf)) key"
  shows "0 \<le> r \<Longrightarrow> nat r < length rs \<and> rec_key g (rs ! nat r) = key"
    and "r < 0 \<Longrightarrow> nat (- (r + 1)) \<le> length rs \<and> (\<forall>j < nat (- (r + 1)). rec_key g (rs ! j) < key) \<and>
        (\<forall>j. nat (- (r + 1)) \<le> j \<longrightarrow> j < length rs \<longrightarrow> key < rec_key g (rs ! j))"
proof -
  let ?ks = "map (rec_key g) rs"
  have n: "unat (node_keys (nh_dec buf)) = length rs" using assms(1) by (simp add: node_is_def)
  have "(0 \<le> r \<longrightarrow> nat r < length rs \<and> ?ks ! nat r = key) \<and>
     (r < 0 \<longrightarrow> nat (- (r + 1)) \<le> length rs \<and> (\<forall>j < nat (- (r + 1)). ?ks ! j < key) \<and>
        (\<forall>j. nat (- (r + 1)) \<le> j \<longrightarrow> j < length rs \<longrightarrow> key < ?ks ! j))"
    by (rule leaf_loop_correct [OF _ _ assms(2), of _ _ _ 0 "int (length rs) - 1"])
       (use assms(3) n node_is_slot [OF assms(1)] in \<open>simp_all add: leaf_find_def\<close>)
  then show "0 \<le> r \<Longrightarrow> nat r < length rs \<and> rec_key g (rs ! nat r) = key"
    and "r < 0 \<Longrightarrow> nat (- (r + 1)) \<le> length rs \<and> (\<forall>j < nat (- (r + 1)). rec_key g (rs ! j) < key) \<and>
        (\<forall>j. nat (- (r + 1)) \<le> j \<longrightarrow> j < length rs \<longrightarrow> key < rec_key g (rs ! j))"
    by auto
qed

lemma index_find_spec:
  fixes g :: "('k :: linorder) tree_cfg"
  assumes "node_is bs buf lv rl (ie_sz g) es" "sorted_wrt (<) (map (ie_key g) es)" "es \<noteq> []"
    and "r = index_find g buf (node_keys (nh_dec buf)) key"
  shows "r < length es" "0 < r \<Longrightarrow> ie_key g (es ! r) \<le> key" "r < j \<Longrightarrow> j < length es \<Longrightarrow> key < ie_key g (es ! j)"
proof -
  let ?ks = "map (ie_key g) es"
  have n: "unat (node_keys (nh_dec buf)) = length es" using assms(1) by (simp add: node_is_def)
  have "r < length es \<and> (0 < r \<longrightarrow> ?ks ! r \<le> key) \<and> (\<forall>j. r < j \<longrightarrow> j < length es \<longrightarrow> key < ?ks ! j)"
    by (rule index_loop_correct [OF _ _ assms(2), of _ _ _ 0 "int (length es) - 1" _ 0])
       (use assms(3,4) n node_is_slot [OF assms(1)] in \<open>simp_all add: index_find_def\<close>)
  then show "r < length es" "0 < r \<Longrightarrow> ie_key g (es ! r) \<le> key" "r < j \<Longrightarrow> j < length es \<Longrightarrow> key < ie_key g (es ! j)"
    by auto
qed

end
