(* ===== verification/BPlusShape.thy ===== *)
theory BPlusShape
  imports BPlusNode "HOL-Library.Multiset"
begin

text \<open>
  The abstract view of a B+Tree: the tree of its nodes with their block addresses, when an
  image holds such a tree, and the order invariant of its keys. A tree with a hole (a list of
  frames, innermost first) describes the path of a descent.
\<close>

section \<open>Trees of nodes\<close>

datatype tree =
    LeafN (tlba: u64) (trl: u64) "bytes list"
  | IndexN (tlba: u64) (trl: u64) "(bytes \<times> tree) list"

type_synonym ents = "(bytes \<times> tree) list"

fun recs :: "tree \<Rightarrow> bytes list" and recs_es :: "ents \<Rightarrow> bytes list" where
  "recs (LeafN l r rs) = rs"
| "recs (IndexN l r es) = recs_es es"
| "recs_es [] = []"
| "recs_es ((e, t) # es) = recs t @ recs_es es"

fun lbas :: "tree \<Rightarrow> u64 list" and lbas_es :: "ents \<Rightarrow> u64 list" where
  "lbas (LeafN l r rs) = [l]"
| "lbas (IndexN l r es) = l # lbas_es es"
| "lbas_es [] = []"
| "lbas_es ((e, t) # es) = lbas t @ lbas_es es"


text \<open>The right links, and the leaves from left to right with theirs.\<close>

fun rlinks :: "tree \<Rightarrow> u64 list" and rlinks_es :: "ents \<Rightarrow> u64 list" where
  "rlinks (LeafN l r rs) = [r]"
| "rlinks (IndexN l r es) = r # rlinks_es es"
| "rlinks_es [] = []"
| "rlinks_es ((e, t) # es) = rlinks t @ rlinks_es es"

fun leaves :: "tree \<Rightarrow> (u64 \<times> u64) list" and leaves_es :: "ents \<Rightarrow> (u64 \<times> u64) list" where
  "leaves (LeafN l r rs) = [(l, r)]"
| "leaves (IndexN l r es) = leaves_es es"
| "leaves_es [] = []"
| "leaves_es ((e, t) # es) = leaves t @ leaves_es es"

text \<open>Block map \<open>B\<close> holds tree \<open>t\<close> with its root at level \<open>lv\<close>.\<close>

fun rep :: "'k tree_cfg \<Rightarrow> nat \<Rightarrow> (u64 \<Rightarrow> bytes) \<Rightarrow> nat \<Rightarrow> tree \<Rightarrow> bool"
  and rep_es :: "'k tree_cfg \<Rightarrow> nat \<Rightarrow> (u64 \<Rightarrow> bytes) \<Rightarrow> nat \<Rightarrow> ents \<Rightarrow> bool" where
  "rep g bs B lv (LeafN l r rs) \<longleftrightarrow> lv = 0 \<and> node_is bs (B l) 0 r (rec_sz g) rs"
| "rep g bs B lv (IndexN l r es) \<longleftrightarrow> 0 < lv \<and> node_is bs (B l) lv r (ie_sz g) (map fst es) \<and> rep_es g bs B (lv - 1) es"
| "rep_es g bs B lv [] \<longleftrightarrow> True"
| "rep_es g bs B lv ((e, t) # es) \<longleftrightarrow> ie_child g e = tlba t \<and> rep g bs B lv t \<and> rep_es g bs B lv es"

text \<open>The fill limits of the nodes.\<close>

fun caps :: "nat \<Rightarrow> nat \<Rightarrow> tree \<Rightarrow> bool" and caps_es :: "nat \<Rightarrow> nat \<Rightarrow> ents \<Rightarrow> bool" where
  "caps ml mi (LeafN l r rs) \<longleftrightarrow> length rs \<le> ml"
| "caps ml mi (IndexN l r es) \<longleftrightarrow> length es \<le> mi \<and> caps_es ml mi es"
| "caps_es ml mi [] \<longleftrightarrow> True"
| "caps_es ml mi ((e, t) # es) \<longleftrightarrow> caps ml mi t \<and> caps_es ml mi es"

section \<open>The order invariant\<close>

text \<open>
  Subtree \<open>t\<close> holds the keys from \<open>lo\<close> (None on the left edge of the tree) up to \<open>hi\<close>
  exclusive. The key of the first entry of an index node on the left edge is free, every
  other separator bounds its subtree from below. In a tight tree (\<open>b\<close>) the separator of a
  subtree is its smallest key, which insertions keep and deletions do not.
\<close>

definition lt_hi :: "'k :: linorder \<Rightarrow> 'k option \<Rightarrow> bool" where
  "lt_hi k hi = (case hi of None \<Rightarrow> True | Some h \<Rightarrow> k < h)"

definition ge_lo :: "'k :: linorder option \<Rightarrow> 'k \<Rightarrow> bool" where
  "ge_lo lo k = (case lo of None \<Rightarrow> True | Some l \<Rightarrow> l \<le> k)"

definition first_ok :: "bool \<Rightarrow> 'k option \<Rightarrow> 'k list \<Rightarrow> bool" where
  "first_ok b lo ks = (case lo of None \<Rightarrow> True | Some l \<Rightarrow> b \<longrightarrow> ks \<noteq> [] \<and> hd ks = l)"

fun next_key :: "('k, 'm) tree_cfg_scheme \<Rightarrow> 'k option \<Rightarrow> ents \<Rightarrow> 'k option" where
  "next_key g hi [] = hi"
| "next_key g hi ((e, t) # es) = Some (ie_key g e)"

fun kinv :: "('k :: linorder) tree_cfg \<Rightarrow> ('k \<Rightarrow> bool) \<Rightarrow> bool \<Rightarrow> 'k option \<Rightarrow> 'k option \<Rightarrow> tree \<Rightarrow> bool"
  and kinv_es :: "'k tree_cfg \<Rightarrow> ('k \<Rightarrow> bool) \<Rightarrow> bool \<Rightarrow> 'k option \<Rightarrow> 'k option \<Rightarrow> ents \<Rightarrow> bool" where
  "kinv g vk b lo hi (LeafN l r rs) \<longleftrightarrow> sorted_wrt (<) (map (rec_key g) rs) \<and>
     (\<forall>x \<in> set rs. vk (rec_key g x) \<and> ge_lo lo (rec_key g x) \<and> lt_hi (rec_key g x) hi) \<and>
     first_ok b lo (map (rec_key g) rs)"
| "kinv g vk b lo hi (IndexN l r es) \<longleftrightarrow> es \<noteq> [] \<and> kinv_es g vk b lo hi es"
| "kinv_es g vk b lo hi [] \<longleftrightarrow> True"
| "kinv_es g vk b lo hi ((e, t) # es) \<longleftrightarrow> vk (ie_key g e) \<and> ge_lo lo (ie_key g e) \<and> first_ok b lo [ie_key g e] \<and>
     lt_hi (ie_key g e) (next_key g hi es) \<and> kinv g vk b lo (next_key g hi es) t \<and>
     kinv_es g vk b (next_key g None es) hi es"

lemma first_ok_Some [simp]: "first_ok b (Some k) [k]"
  by (simp add: first_ok_def)

lemma first_ok_None [simp]: "first_ok b None ks"
  by (simp add: first_ok_def)

lemma lt_hi_None [simp]: "lt_hi k None" and lt_hi_Some [simp]: "lt_hi k (Some h) \<longleftrightarrow> k < h"
  by (simp_all add: lt_hi_def)

lemma ge_lo_None [simp]: "ge_lo None k" and ge_lo_Some [simp]: "ge_lo (Some l) k \<longleftrightarrow> l \<le> k"
  by (simp_all add: ge_lo_def)

lemma next_key_append: "next_key g hi (xs @ ys) = (if xs = [] then next_key g hi ys else next_key g hi xs)"
  by (cases xs) auto

lemma next_key_ne: "es \<noteq> [] \<Longrightarrow> next_key g hi es = Some (ie_key g (fst (hd es)))"
  by (cases es) auto

text \<open>A list of entries can be cut anywhere: the separator at the cut bounds both parts.\<close>

lemma kinv_es_append:
  assumes "ys \<noteq> []"
  shows "kinv_es g vk b lo hi (xs @ ys) \<longleftrightarrow>
     kinv_es g vk b lo (next_key g hi ys) xs \<and> kinv_es g vk b (if xs = [] then lo else next_key g None ys) hi ys"
proof (induction xs arbitrary: lo)
  case Nil
  show ?case by simp
next
  case (Cons p xs)
  obtain e t where p: "p = (e, t)" by fastforce
  have nk: "next_key g hi (xs @ ys) = next_key g (next_key g hi ys) xs"
    "next_key g None (xs @ ys) = (if xs = [] then next_key g None ys else next_key g None xs)"
    using assms by (cases xs; cases ys; auto)+
  show ?case using Cons.IH by (auto simp: p nk)
qed

lemma lbas_es_append [simp]: "lbas_es (xs @ ys) = lbas_es xs @ lbas_es ys"
  by (induction xs) auto

lemma recs_es_append [simp]: "recs_es (xs @ ys) = recs_es xs @ recs_es ys"
  by (induction xs) auto

lemma rlinks_es_append [simp]: "rlinks_es (xs @ ys) = rlinks_es xs @ rlinks_es ys"
  by (induction xs) auto

lemma leaves_es_append [simp]: "leaves_es (xs @ ys) = leaves_es xs @ leaves_es ys"
  by (induction xs) auto

lemma rep_es_append [simp]: "rep_es g bs B lv (xs @ ys) \<longleftrightarrow> rep_es g bs B lv xs \<and> rep_es g bs B lv ys"
  by (induction xs) auto

lemma caps_es_append [simp]: "caps_es ml mi (xs @ ys) \<longleftrightarrow> caps_es ml mi xs \<and> caps_es ml mi ys"
  by (induction xs) auto

text \<open>The block at \<open>l\<close> still holds the node it held; its left link and checksum may differ.\<close>

definition keeps :: "nat \<Rightarrow> (u64 \<Rightarrow> bytes) \<Rightarrow> (u64 \<Rightarrow> bytes) \<Rightarrow> u64 \<Rightarrow> bool" where
  "keeps bs B B' l \<longleftrightarrow> (\<forall>lv rl sz es. node_is bs (B l) lv rl sz es \<longrightarrow> node_is bs (B' l) lv rl sz es)"

lemma keeps_eq: "B' l = B l \<Longrightarrow> keeps bs B B' l"
  by (simp add: keeps_def)

lemma rep_frame:
  "(\<And>l. l \<in> set (lbas t) \<Longrightarrow> keeps bs B B' l) \<Longrightarrow> rep g bs B lv t \<Longrightarrow> rep g bs B' lv t"
  "(\<And>l. l \<in> set (lbas_es es) \<Longrightarrow> keeps bs B B' l) \<Longrightarrow> rep_es g bs B lv es \<Longrightarrow> rep_es g bs B' lv es"
  by (induction g bs B lv t and g bs B lv es rule: rep_rep_es.induct) (auto simp: keeps_def)

text \<open>The index keys and the records of a subtree are sorted and inside its bounds.\<close>

lemma kinv_es_keys_sorted:
  "kinv_es g vk b lo hi es \<Longrightarrow> sorted_wrt (<) (map (\<lambda>p. ie_key g (fst p)) es) \<and> (\<forall>e \<in> set es. lt_hi (ie_key g (fst e)) hi)"
proof (induction es arbitrary: lo)
  case (Cons p es)
  obtain e t where p: "p = (e, t)" by fastforce
  have IH: "sorted_wrt (<) (map (\<lambda>p. ie_key g (fst p)) es)" "\<forall>e \<in> set es. lt_hi (ie_key g (fst e)) hi"
    using Cons.IH Cons.prems by (auto simp: p)
  show ?case
  proof (cases es)
    case Nil
    then show ?thesis using Cons.prems by (auto simp: p)
  next
    case (Cons q es')
    have lt: "ie_key g e < ie_key g (fst q)" using \<open>kinv_es g vk b lo hi (p # es)\<close> by (cases q) (auto simp: p Cons)
    then have "ie_key g e < ie_key g (fst x)" if "x \<in> set es" for x
      using IH(1) that by (auto simp: Cons)
    moreover have "lt_hi (ie_key g e) hi" using lt IH(2) by (cases hi) (auto simp: Cons)
    ultimately show ?thesis using IH by (auto simp: p)
  qed
qed simp


lemma lt_hi_trans: "x < y \<Longrightarrow> lt_hi y hi \<Longrightarrow> lt_hi x hi"
  by (cases hi) auto

lemma ge_lo_trans: "ge_lo lo x \<Longrightarrow> x \<le> y \<Longrightarrow> ge_lo lo y"
  by (cases lo) auto

lemma kinv_recs:
  "kinv g vk b lo hi t \<Longrightarrow> sorted_wrt (<) (map (rec_key g) (recs t)) \<and>
     (\<forall>x \<in> set (recs t). vk (rec_key g x) \<and> ge_lo lo (rec_key g x) \<and> lt_hi (rec_key g x) hi)"
  "kinv_es g vk b lo hi es \<Longrightarrow> sorted_wrt (<) (map (rec_key g) (recs_es es)) \<and>
     (\<forall>x \<in> set (recs_es es). vk (rec_key g x) \<and> ge_lo lo (rec_key g x) \<and> lt_hi (rec_key g x) hi)"
proof (induction g vk b lo hi t and g vk b lo hi es rule: kinv_kinv_es.induct)
  case (4 g vk b lo hi e t es)
  note IH = 4(1) 4(2)
  show ?case
  proof (cases es)
    case Nil
    then show ?thesis using IH(1) 4(3) by auto
  next
    case (Cons q es')
    obtain k u where q: "q = (k, u)" by fastforce
    have t: "sorted_wrt (<) (map (rec_key g) (recs t))"
      "\<And>x. x \<in> set (recs t) \<Longrightarrow> vk (rec_key g x) \<and> ge_lo lo (rec_key g x) \<and> rec_key g x < ie_key g k"
      using IH(1) 4(3) by (auto simp: Cons q)
    have es: "sorted_wrt (<) (map (rec_key g) (recs_es es))"
      "\<And>x. x \<in> set (recs_es es) \<Longrightarrow> vk (rec_key g x) \<and> ie_key g k \<le> rec_key g x \<and> lt_hi (rec_key g x) hi"
      using IH(2) 4(3) by (auto simp: Cons q)
    have lk: "ge_lo lo (ie_key g e)" "ie_key g e < ie_key g k" using 4(3) by (auto simp: Cons q)
    have khi: "lt_hi (ie_key g k) hi"
      using kinv_es_keys_sorted [of g vk b "next_key g None es" hi es] 4(3) by (auto simp: Cons q)
    have "ge_lo lo (rec_key g x)" if "x \<in> set (recs_es es)" for x
      using ge_lo_trans [OF lk(1)] es(2) [OF that] lk(2) by fastforce
    moreover have "lt_hi (rec_key g x) hi" if "x \<in> set (recs t)" for x
      using lt_hi_trans khi t(2) [OF that] by blast
    moreover have "rec_key g x < rec_key g y" if "x \<in> set (recs t)" "y \<in> set (recs_es es)" for x y
      using t(2) [OF that(1)] es(2) [OF that(2)] by fastforce
    ultimately show ?thesis using t es by (auto simp: sorted_wrt_append)
  qed
qed auto

section \<open>Trees with a hole\<close>

type_synonym frame = "u64 \<times> u64 \<times> ents \<times> bytes \<times> ents"

fun plug :: "frame list \<Rightarrow> tree \<Rightarrow> tree" where
  "plug [] t = t"
| "plug ((l, r, xs, e, ys) # fs) t = plug fs (IndexN l r (xs @ (e, t) # ys))"

fun hole_lo :: "('k, 'm) tree_cfg_scheme \<Rightarrow> frame list \<Rightarrow> 'k option" where
  "hole_lo g [] = None"
| "hole_lo g ((l, r, xs, e, ys) # fs) = (if xs = [] then hole_lo g fs else Some (ie_key g e))"

fun hole_hi :: "('k, 'm) tree_cfg_scheme \<Rightarrow> frame list \<Rightarrow> 'k option" where
  "hole_hi g [] = None"
| "hole_hi g ((l, r, xs, e, ys) # fs) = next_key g (hole_hi g fs) ys"

fun frecs_l :: "frame list \<Rightarrow> bytes list" where
  "frecs_l [] = []"
| "frecs_l ((l, r, xs, e, ys) # fs) = frecs_l fs @ recs_es xs"

fun frecs_r :: "frame list \<Rightarrow> bytes list" where
  "frecs_r [] = []"
| "frecs_r ((l, r, xs, e, ys) # fs) = recs_es ys @ frecs_r fs"

fun fleaves_l :: "frame list \<Rightarrow> (u64 \<times> u64) list" where
  "fleaves_l [] = []"
| "fleaves_l ((l, r, xs, e, ys) # fs) = fleaves_l fs @ leaves_es xs"

fun fleaves_r :: "frame list \<Rightarrow> (u64 \<times> u64) list" where
  "fleaves_r [] = []"
| "fleaves_r ((l, r, xs, e, ys) # fs) = leaves_es ys @ fleaves_r fs"

fun flbas :: "frame list \<Rightarrow> u64 list" where
  "flbas [] = []"
| "flbas ((l, r, xs, e, ys) # fs) = l # lbas_es xs @ lbas_es ys @ flbas fs"

fun frlinks :: "frame list \<Rightarrow> u64 list" where
  "frlinks [] = []"
| "frlinks ((l, r, xs, e, ys) # fs) = r # rlinks_es xs @ rlinks_es ys @ frlinks fs"

text \<open>The frames are held by the image; the hole is at level \<open>lv\<close> and block \<open>x\<close>.\<close>

fun frep :: "'k tree_cfg \<Rightarrow> nat \<Rightarrow> (u64 \<Rightarrow> bytes) \<Rightarrow> nat \<Rightarrow> u64 \<Rightarrow> frame list \<Rightarrow> bool" where
  "frep g bs B lv x [] \<longleftrightarrow> True"
| "frep g bs B lv x ((l, r, xs, e, ys) # fs) \<longleftrightarrow>
     node_is bs (B l) (Suc lv) r (ie_sz g) (map fst xs @ e # map fst ys) \<and> ie_child g e = x \<and>
     rep_es g bs B lv xs \<and> rep_es g bs B lv ys \<and> frep g bs B (Suc lv) l fs"

fun finv :: "('k :: linorder) tree_cfg \<Rightarrow> ('k \<Rightarrow> bool) \<Rightarrow> bool \<Rightarrow> frame list \<Rightarrow> bool" where
  "finv g vk b [] \<longleftrightarrow> True"
| "finv g vk b ((l, r, xs, e, ys) # fs) \<longleftrightarrow>
     kinv_es g vk b (hole_lo g fs) (Some (ie_key g e)) xs \<and> vk (ie_key g e) \<and>
     ge_lo (hole_lo g ((l, r, xs, e, ys) # fs)) (ie_key g e) \<and> first_ok b (hole_lo g ((l, r, xs, e, ys) # fs)) [ie_key g e] \<and>
     lt_hi (ie_key g e) (next_key g (hole_hi g fs) ys) \<and>
     kinv_es g vk b (next_key g None ys) (hole_hi g fs) ys \<and> finv g vk b fs"

fun fcaps :: "nat \<Rightarrow> nat \<Rightarrow> frame list \<Rightarrow> bool" where
  "fcaps ml mi [] \<longleftrightarrow> True"
| "fcaps ml mi ((l, r, xs, e, ys) # fs) \<longleftrightarrow>
     Suc (length xs + length ys) \<le> mi \<and> caps_es ml mi xs \<and> caps_es ml mi ys \<and> fcaps ml mi fs"

lemma recs_plug: "recs (plug fs t) = frecs_l fs @ recs t @ frecs_r fs"
  by (induction fs t rule: plug.induct) auto

lemma leaves_plug: "leaves (plug fs t) = fleaves_l fs @ leaves t @ fleaves_r fs"
  by (induction fs t rule: plug.induct) auto

lemma mset_lbas_plug: "mset (lbas (plug fs t)) = mset (lbas t) + mset (flbas fs)"
  by (induction fs t rule: plug.induct) auto

lemma set_lbas_plug: "set (lbas (plug fs t)) = set (lbas t) \<union> set (flbas fs)"
  using mset_lbas_plug by (metis set_mset_mset set_mset_union)

lemma distinct_lbas_plug: "distinct (lbas (plug fs t)) \<longleftrightarrow> distinct (lbas t @ flbas fs)"
  by (intro mset_eq_imp_distinct_iff) (simp add: mset_lbas_plug)

lemma set_rlinks_plug: "set (rlinks (plug fs t)) = set (rlinks t) \<union> set (frlinks fs)"
  by (induction fs t rule: plug.induct) auto

lemma caps_plug: "caps ml mi (plug fs t) \<longleftrightarrow> fcaps ml mi fs \<and> caps ml mi t"
  by (induction fs t rule: plug.induct) auto

lemma rep_plug: "rep g bs B (lv + length fs) (plug fs t) \<longleftrightarrow> rep g bs B lv t \<and> frep g bs B lv (tlba t) fs"
proof (induction fs t arbitrary: lv rule: plug.induct)
  case (2 l r xs e ys fs t)
  then show ?case using 2 [of "Suc lv"] by auto
qed simp

lemma kinv_plug:
  "kinv g vk b None None (plug fs t) \<longleftrightarrow> finv g vk b fs \<and> kinv g vk b (hole_lo g fs) (hole_hi g fs) t"
proof (induction fs t rule: plug.induct)
  case (2 l r xs e ys fs t)
  then show ?case by (auto simp: kinv_es_append)
qed simp

lemma tlba_plug: "fs \<noteq> [] \<Longrightarrow> tlba (plug fs t) = (case last fs of (l, _) \<Rightarrow> l)"
  by (induction fs t rule: plug.induct) auto

lemma frep_frame:
  "(\<And>l. l \<in> set (flbas fs) \<Longrightarrow> keeps bs B B' l) \<Longrightarrow> frep g bs B lv x fs \<Longrightarrow> frep g bs B' lv x fs"
proof (induction fs arbitrary: lv x)
  case (Cons f fs)
  obtain l r xs e ys where f: "f = (l, r, xs, e, ys)" by (cases f) auto
  have "rep_es g bs B' lv xs" "rep_es g bs B' lv ys"
    using Cons.prems rep_frame(2) [of xs bs B B' g lv] rep_frame(2) [of ys bs B B' g lv] by (auto simp: f)
  moreover have "node_is bs (B' l) (Suc lv) r (ie_sz g) (map fst xs @ e # map fst ys)"
    using Cons.prems by (auto simp: f keeps_def)
  ultimately show ?case using Cons by (auto simp: f)
qed simp

text \<open>The records left and right of the hole are on the right side of its bounds.\<close>

lemma finv_sides:
  assumes "finv g vk b fs"
  shows "x \<in> set (frecs_l fs) \<Longrightarrow> \<exists>k. hole_lo g fs = Some k \<and> rec_key g x < k"
    and "x \<in> set (frecs_r fs) \<Longrightarrow> \<exists>k. hole_hi g fs = Some k \<and> k \<le> rec_key g x"
proof -
  show "x \<in> set (frecs_l fs) \<Longrightarrow> \<exists>k. hole_lo g fs = Some k \<and> rec_key g x < k"
    using assms
  proof (induction fs)
    case (Cons f fs)
    obtain l r xs e ys where f: "f = (l, r, xs, e, ys)" by (cases f) auto
    show ?case
    proof (cases xs)
      case Nil
      then show ?thesis using Cons by (auto simp: f)
    next
      case (Cons q xs')
      have xs: "kinv_es g vk b (hole_lo g fs) (Some (ie_key g e)) xs" using Cons.prems \<open>finv g vk b (f # fs)\<close> by (simp add: f)
      have "ge_lo (hole_lo g fs) (ie_key g (fst q))" "ie_key g (fst q) < ie_key g e"
        using xs kinv_es_keys_sorted [OF xs] by (cases q; auto simp: Cons)+
      then have "rec_key g x < ie_key g e" if "x \<in> set (frecs_l fs)"
        using Cons.IH \<open>finv g vk b (f # fs)\<close> that by (fastforce simp: f)
      moreover have "rec_key g x < ie_key g e" if "x \<in> set (recs_es xs)"
        using kinv_recs(2) [OF xs] that by auto
      ultimately show ?thesis using \<open>x \<in> set (frecs_l (f # fs))\<close> by (auto simp: f Cons)
    qed
  qed simp
  show "x \<in> set (frecs_r fs) \<Longrightarrow> \<exists>k. hole_hi g fs = Some k \<and> k \<le> rec_key g x"
    using assms
  proof (induction fs)
    case (Cons f fs)
    obtain l r xs e ys where f: "f = (l, r, xs, e, ys)" by (cases f) auto
    show ?case
    proof (cases ys)
      case Nil
      then show ?thesis using Cons by (auto simp: f)
    next
      case (Cons q ys')
      have ys: "kinv_es g vk b (next_key g None ys) (hole_hi g fs) ys" using \<open>finv g vk b (f # fs)\<close> by (simp add: f)
      have nk: "next_key g h ys = Some (ie_key g (fst q))" for h by (cases q) (simp add: Cons)
      have "lt_hi (ie_key g (fst q)) (hole_hi g fs)" using kinv_es_keys_sorted [OF ys] by (simp add: Cons)
      then have "ie_key g (fst q) \<le> rec_key g x" if "x \<in> set (frecs_r fs)"
        using Cons.IH \<open>finv g vk b (f # fs)\<close> that by (fastforce simp: f)
      moreover have "ie_key g (fst q) \<le> rec_key g x" if "x \<in> set (recs_es ys)"
        using kinv_recs(2) [OF ys] that by (auto simp: nk)
      ultimately show ?thesis using \<open>x \<in> set (frecs_r (f # fs))\<close> by (auto simp: f nk)
    qed
  qed simp
qed

section \<open>Descents on a healthy volume\<close>

text \<open>The block map of a context.\<close>

definition blk :: "ctx \<Rightarrow> u64 \<Rightarrow> bytes" where
  "blk c l = (case obmafs3_block_read c l (bsz c) of Inl e \<Rightarrow> [] | Inr b \<Rightarrow> b)"

lemma block_read_blk: "dev_ok c \<Longrightarrow> in_vol c l \<Longrightarrow> obmafs3_block_read c l (bsz c) = Inr (blk c l)"
  by (simp add: blk_def block_read_eq)

lemma length_blk: "dev_ok c \<Longrightarrow> in_vol c l \<Longrightarrow> length (blk c l) = bsz c"
  by (simp add: blk_def block_read_eq)

lemma blk_wrote:
  "dev_ok c \<Longrightarrow> in_vol c l \<Longrightarrow> in_vol c k \<Longrightarrow> length b = bsz c \<Longrightarrow> blk (wrote c l b) k = (if k = l then b else blk c k)"
  using block_read_wrote_same [of c l b] block_read_wrote_other [of c l k b] by (auto simp: blk_def)

definition frame_path :: "frame list \<Rightarrow> (u64 \<times> nat) list" where
  "frame_path fs = map (\<lambda>(l, r, xs, e, ys). (l, length xs)) fs"

lemma descent_step:
  fixes g :: "('k :: linorder) tree_cfg"
  assumes "dev_ok c" "in_vol c l" "rep g (bsz c) (blk c) (Suc lv) (IndexN l r es)"
    and "kinv g vk b (hole_lo g fs) (hole_hi g fs) (IndexN l r es)"
    and "ge_lo (hole_lo g fs) key" "lt_hi key (hole_hi g fs)"
  obtains xs e u ys where "es = xs @ (e, u) # ys" "rep g (bsz c) (blk c) lv u" "ie_child g e = tlba u"
    and "index_find g (blk c l) (node_keys (nh_dec (blk c l))) key = length xs"
    and "slot (ie_sz g) (length xs) (ndata (blk c l)) = e"
    and "kinv g vk b (hole_lo g ((l, r, xs, e, ys) # fs)) (hole_hi g ((l, r, xs, e, ys) # fs)) u"
    and "ge_lo (hole_lo g ((l, r, xs, e, ys) # fs)) key" "lt_hi key (hole_hi g ((l, r, xs, e, ys) # fs))"
proof -
  have nd: "node_is (bsz c) (blk c l) (Suc lv) r (ie_sz g) (map fst es)" and res: "rep_es g (bsz c) (blk c) lv es"
    using assms(3) by simp_all
  have ks: "es \<noteq> []" "kinv_es g vk b (hole_lo g fs) (hole_hi g fs) es" using assms(4) by simp_all
  have srt: "sorted_wrt (<) (map (ie_key g) (map fst es))" using kinv_es_keys_sorted [OF ks(2)] by (simp add: comp_def)
  define s where "s = index_find g (blk c l) (node_keys (nh_dec (blk c l))) key"
  note sp = index_find_spec [OF nd srt _ s_def]
  have s: "s < length es" using sp(1) ks(1) by simp
  obtain e u where eu: "es ! s = (e, u)" by fastforce
  define xs where "xs = take s es"
  define ys where "ys = drop (Suc s) es"
  have es: "es = xs @ (e, u) # ys" unfolding xs_def ys_def eu [symmetric] by (rule id_take_nth_drop [OF s])
  have lx: "length xs = s" using s by (simp add: xs_def)
  have k: "kinv_es g vk b (hole_lo g fs) (next_key g (hole_hi g fs) ((e, u) # ys)) xs"
    "kinv_es g vk b (if xs = [] then hole_lo g fs else next_key g None ((e, u) # ys)) (hole_hi g fs) ((e, u) # ys)"
    using ks(2) kinv_es_append [of "(e, u) # ys" g vk b "hole_lo g fs" "hole_hi g fs" xs] by (simp_all add: es)
  have lo: "ge_lo (hole_lo g ((l, r, xs, e, ys) # fs)) key"
    using assms(5) sp(2) ks(1) lx s eu by (auto simp: es nth_append)
  have hi: "lt_hi key (hole_hi g ((l, r, xs, e, ys) # fs))"
  proof (cases ys)
    case Nil
    then show ?thesis using assms(6) by simp
  next
    case (Cons q ys')
    have "key < ie_key g (map fst es ! Suc s)" using sp(3) [of "Suc s"] ks(1) lx by (simp add: es Cons)
    then show ?thesis using lx by (cases q) (simp add: es Cons nth_append)
  qed
  have sl: "slot (ie_sz g) (length xs) (ndata (blk c l)) = e"
    using node_is_slot [OF nd, of s] s eu lx by simp
  show ?thesis
    by (rule that [OF es _ _ _ sl _ lo hi]) (use res k(2) s_def lx in \<open>auto simp: es\<close>)
qed

lemma descent:
  fixes g :: "('k :: linorder) tree_cfg"
  assumes "dev_ok c" "\<And>l. l \<in> set (lbas t) \<Longrightarrow> in_vol c l" "rep g (bsz c) (blk c) lv t"
    and "kinv g vk b (hole_lo g fs0) (hole_hi g fs0) t"
    and "ge_lo (hole_lo g fs0) key" "lt_hi key (hole_hi g fs0)" "lv \<le> n"
  shows "\<exists>fs l r rs. plug fs0 t = plug (fs @ fs0) (LeafN l r rs) \<and> length fs = lv \<and>
     tree_descend g c (tlba t) key = Some (Inr (l, blk c l)) \<and>
     tree_path g c key n (tlba t) path = Inr (l, blk c l, frame_path fs @ path) \<and>
     in_vol c l \<and> rep g (bsz c) (blk c) 0 (LeafN l r rs) \<and>
     kinv g vk b (hole_lo g (fs @ fs0)) (hole_hi g (fs @ fs0)) (LeafN l r rs) \<and>
     ge_lo (hole_lo g (fs @ fs0)) key \<and> lt_hi key (hole_hi g (fs @ fs0))"
  using assms
proof (induction lv arbitrary: t fs0 n path)
  case 0
  then obtain l r rs where t: "t = LeafN l r rs" by (cases t) auto
  have "in_vol c l" using 0(2) by (simp add: t)
  then have rd: "obmafs3_block_read c l (bsz c) = Inr (blk c l)" using 0(1) by (rule block_read_blk [rotated])
  have nd: "nh_magic (nh_dec (blk c l)) = OBMAFS3_BTREE_NODE_MAGIC" "level (nh_dec (blk c l)) = 0"
    using 0(3) by (simp_all add: t node_is_def unat_eq_0)
  show ?case
    using 0 rd nd \<open>in_vol c l\<close>
    by (intro exI [of _ "[]"] exI [of _ l] exI [of _ r] exI [of _ rs])
       (simp add: t frame_path_def tree_path.simps tree_descend.simps)
next
  case (Suc lv)
  then obtain l r es where t: "t = IndexN l r es" by (cases t) auto
  have iv: "in_vol c l" using Suc.prems(2) by (simp add: t)
  then have rd: "obmafs3_block_read c l (bsz c) = Inr (blk c l)" using Suc.prems(1) by (rule block_read_blk [rotated])
  have nd: "nh_magic (nh_dec (blk c l)) = OBMAFS3_BTREE_NODE_MAGIC" "level (nh_dec (blk c l)) \<noteq> 0"
    using Suc.prems(3) by (auto simp: t node_is_def)
  obtain m where m: "n = Suc m" using Suc.prems(7) by (cases n) auto
  obtain xs e u ys where st: "es = xs @ (e, u) # ys" "rep g (bsz c) (blk c) lv u" "ie_child g e = tlba u"
    "index_find g (blk c l) (node_keys (nh_dec (blk c l))) key = length xs" "slot (ie_sz g) (length xs) (ndata (blk c l)) = e"
    "kinv g vk b (hole_lo g ((l, r, xs, e, ys) # fs0)) (hole_hi g ((l, r, xs, e, ys) # fs0)) u"
    "ge_lo (hole_lo g ((l, r, xs, e, ys) # fs0)) key" "lt_hi key (hole_hi g ((l, r, xs, e, ys) # fs0))"
    using descent_step [OF Suc.prems(1) iv, of g lv r es vk b fs0 key] Suc.prems(3-6) unfolding t by blast
  let ?f = "(l, r, xs, e, ys)"
  have "\<And>k. k \<in> set (lbas u) \<Longrightarrow> in_vol c k" using Suc.prems(2) by (simp add: t st(1))
  from Suc.IH [OF Suc.prems(1) this st(2,6,7,8), of m "(l, length xs) # path"] Suc.prems(7) m
  obtain fs l' r' rs where IH: "plug (?f # fs0) u = plug (fs @ ?f # fs0) (LeafN l' r' rs)" "length fs = lv"
     "tree_descend g c (tlba u) key = Some (Inr (l', blk c l'))"
     "tree_path g c key m (tlba u) ((l, length xs) # path) = Inr (l', blk c l', frame_path fs @ (l, length xs) # path)"
     "in_vol c l'" "rep g (bsz c) (blk c) 0 (LeafN l' r' rs)"
     "kinv g vk b (hole_lo g (fs @ ?f # fs0)) (hole_hi g (fs @ ?f # fs0)) (LeafN l' r' rs)"
     "ge_lo (hole_lo g (fs @ ?f # fs0)) key" "lt_hi key (hole_hi g (fs @ ?f # fs0))" by auto
  have "tree_descend g c l key = tree_descend g c (tlba u) key"
    using rd nd st by (subst tree_descend.simps) (simp add: word_gt_0)
  moreover have "tree_path g c key n l path = tree_path g c key m (tlba u) ((l, length xs) # path)"
    using rd nd st m by (subst tree_path.simps) simp
  ultimately show ?case
    using IH by (intro exI [of _ "fs @ [?f]"] exI [of _ l'] exI [of _ r'] exI [of _ rs]) (simp add: t st(1) frame_path_def)
qed

end
