(* ===== verification/BPlusWorld.thy ===== *)
theory BPlusWorld
  imports BPlusShape
begin

text \<open>
  The steps of the insertion on a healthy volume: allocating a node, writing a node, fixing a
  neighbour's left link and writing the header keep the tree's blocks apart from its free
  list, from its header block and from everything else on the volume.
\<close>

section \<open>The world of a tree\<close>

text \<open>\<open>S\<close> is the set of blocks of the tree, \<open>hl\<close> its header block, \<open>fl\<close> its free list.\<close>

definition env_ok :: "'k tree_cfg \<Rightarrow> ctx \<Rightarrow> u64 \<Rightarrow> bool" where
  "env_ok g c hl \<longleftrightarrow> dev_ok c \<and> bm_ok c \<and> heap_ok c \<and> used c 0 \<and> in_vol c hl \<and> used c (unat hl) \<and>
     0 < rec_sz g \<and> 0 < ie_sz g \<and> nh_size + rec_sz g \<le> bsz c \<and> nh_size + 2 * ie_sz g \<le> bsz c \<and>
     btree_hdr_size \<le> bsz c \<and> bsz c \<le> 65536"

definition world :: "'k tree_cfg \<Rightarrow> ctx \<Rightarrow> btree_header \<Rightarrow> u64 \<Rightarrow> u64 set \<Rightarrow> u64 list \<Rightarrow> bool" where
  "world g c h hl S fl \<longleftrightarrow> env_ok g c hl \<and> blocks_per_node c h = 1 \<and> pool c h fl \<and>
     (\<forall>l \<in> S. l \<noteq> 0 \<and> in_vol c l \<and> used c (unat l) \<and> l \<notin> set fl \<and> l \<noteq> hl) \<and> hl \<notin> set fl"

text \<open>Nothing outside \<open>T\<close> that was in use has changed.\<close>

definition outside :: "u64 set \<Rightarrow> ctx \<Rightarrow> ctx \<Rightarrow> bool" where
  "outside T c c' \<longleftrightarrow> alloc_frame c c' \<and> (\<forall>p. used c p \<longrightarrow> used c' p) \<and>
     (\<forall>k. in_vol c k \<longrightarrow> used c (unat k) \<longrightarrow> k \<notin> T \<longrightarrow> blk c' k = blk c k)"

text \<open>The blocks \<open>X\<close> come from \<open>T\<close> or were free.\<close>

definition fresh_from :: "u64 set \<Rightarrow> ctx \<Rightarrow> u64 set \<Rightarrow> bool" where
  "fresh_from T c X \<longleftrightarrow> (\<forall>k \<in> X. k \<in> T \<or> \<not> used c (unat k))"

lemma fresh_from_trans:
  "fresh_from T' c1 X \<Longrightarrow> fresh_from T c T' \<Longrightarrow> outside T'' c c1 \<Longrightarrow> fresh_from T c X"
  unfolding fresh_from_def outside_def by blast

lemma outside_refl [simp]: "outside T c c"
  by (simp add: outside_def)

lemma outside_trans:
  assumes "outside T c c1" "outside T' c1 c2" "\<And>k. k \<in> T' \<Longrightarrow> k \<in> T \<or> \<not> used c (unat k)"
  shows "outside T c c2"
proof -
  have sb: "sb c1 = sb c" using assms(1) alloc_frame_fields by (auto simp: outside_def)
  show ?thesis
    unfolding outside_def
  proof (intro conjI allI impI)
    show "alloc_frame c c2" using assms(1,2) alloc_frame_trans by (auto simp: outside_def)
  next
    fix p assume "used c p" then show "used c2 p" using assms(1,2) by (auto simp: outside_def)
  next
    fix k assume k: "in_vol c k" "used c (unat k)" "k \<notin> T"
    then have "k \<notin> T'" using assms(3) by blast
    moreover have "in_vol c1 k" "used c1 (unat k)" using k assms(1) sb by (auto simp: outside_def in_vol_def)
    ultimately show "blk c2 k = blk c k" using k assms(1,2) by (auto simp: outside_def)
  qed
qed

lemma env_ok_frame: "env_ok g c hl \<Longrightarrow> outside T c c' \<Longrightarrow> dev_ok c' \<Longrightarrow> bm_ok c' \<Longrightarrow> env_ok g c' hl"
  using alloc_frame_fields [of c c'] by (auto simp: env_ok_def outside_def in_vol_def)

lemma maxes_frame:
  "outside T c c' \<Longrightarrow> sb c' = sb c \<and> leaf_max g c' = leaf_max g c \<and> index_max g c' = index_max g c \<and>
     heap_ok c' = heap_ok c \<and> xxh64 c' = xxh64 c"
  using alloc_frame_fields [of c c'] by (auto simp: outside_def leaf_max_def index_max_def)

lemma used_wrote [simp]: "used (wrote c l b) = used c" "bm_ok (wrote c l b) = bm_ok c"
  by (simp_all add: used_def bm_ok_def fun_eq_iff)

lemma outside_wrote:
  assumes "dev_ok c" "in_vol c l" "length b = bsz c"
  shows "outside {l} c (wrote c l b)"
  using assms by (auto simp: outside_def blk_wrote)

text \<open>A block write away from the free list.\<close>

lemma pool_wrote:
  assumes "dev_ok c" "in_vol c l" "length b = bsz c" "pool c h fl" "l \<notin> set fl"
  shows "pool (wrote c l b) h fl"
proof -
  have "chain (wrote c l b) (free_node_lba h) fl = chain c (free_node_lba h) fl"
  proof (rule chain_cong)
    fix k assume "k \<in> set fl"
    then have "in_vol c k" "k \<noteq> l" using assms(4,5) chain_in_vol by (auto simp: pool_def)
    then show "obmafs3_block_read (wrote c l b) k (bsz c) = obmafs3_block_read c k (bsz c)"
      using assms(1-3) by (intro block_read_wrote_other)
  qed simp
  then show ?thesis using assms(4) by (simp add: pool_def blocks_per_node_def)
qed

lemma world_write:
  assumes "world g c h hl S fl" "l \<in> S" "length b = bsz c"
  shows "obmafs3_block_write c l b = (OBMAFS3_OK, wrote c l b)"
    and "world g (wrote c l b) h hl S fl" "outside {l} c (wrote c l b)"
    and "\<And>k. k \<in> S \<Longrightarrow> blk (wrote c l b) k = (if k = l then b else blk c k)"
proof -
  have d: "dev_ok c" "in_vol c l" "l \<notin> set fl" using assms(1,2) by (auto simp: world_def env_ok_def)
  show "obmafs3_block_write c l b = (OBMAFS3_OK, wrote c l b)" using d assms(3) by (simp add: block_write_eq)
  show o: "outside {l} c (wrote c l b)" using d assms(3) by (simp add: outside_wrote)
  have "env_ok g (wrote c l b) hl" using env_ok_frame [OF _ o, of g hl] assms(1) by (auto simp: world_def env_ok_def)
  then show "world g (wrote c l b) h hl S fl"
    using assms(1,3) d pool_wrote [OF d(1,2) assms(3) _ d(3)] by (auto simp: world_def blocks_per_node_def)
  show "\<And>k. k \<in> S \<Longrightarrow> blk (wrote c l b) k = (if k = l then b else blk c k)"
    using d assms(1,3) by (intro blk_wrote) (auto simp: world_def)
qed


lemma node_blocks_one: "node_blocks 1 l = {unat l}"
  by (auto simp: node_blocks_def)

lemma world_alloc:
  assumes "world g c h hl S fl" "obmafs3_btree_alloc_node c h = (Inr n, h', c')"
  shows "\<exists>fl'. world g c' h' hl (insert n S) fl' \<and> n \<notin> S \<and> (n \<in> set fl \<or> \<not> used c (unat n)) \<and>
     length fl \<le> Suc (length fl') \<and> (\<forall>l \<in> set fl'. l \<in> set fl \<or> \<not> used c (unat l)) \<and>
     outside (set fl) c c' \<and> (\<forall>k \<in> S. blk c' k = blk c k) \<and>
     (\<exists>a b. h' = h\<lparr>free_node_lba := a, free_nodes := b\<rparr>)"
proof -
  have e: "dev_ok c" "bm_ok c" "heap_ok c" "8 \<le> bsz c" "used c 0" "pool c h fl" "blocks_per_node c h = 1"
    using assms(1) by (auto simp: world_def env_ok_def nh_size_def)
  obtain fl' where fr: "fresh_node c h fl n c' h' fl'" using alloc_node_contract [OF e(1-6) assms(2)] ..
  have len: "length fl \<le> Suc (length fl')"
  proof (cases fl)
    case (Cons l ls)
    then obtain h2 where "obmafs3_btree_alloc_node c h = (Inr l, h2, c)" "fresh_node c h fl l c h2 ls"
      using alloc_pop [OF e(1,2), of h l ls] e(6) by auto
    then have "pool c' h' ls" "pool c' h' fl'" using assms(2) fr by (auto simp: fresh_node_def)
    then have "length ls = length fl'" by (simp add: pool_def)
    then show ?thesis using Cons by simp
  qed simp
  have f: "pool c' h' fl'" "n \<noteq> 0" "unat n \<notin> unat ` set fl'" "unat n < unat (max_lba c)" "used c' (unat n)"
    "\<And>l. l \<in> insert n (set fl') \<Longrightarrow> l \<in> set fl \<or> \<not> used c (unat l)" "\<And>p. used c p \<Longrightarrow> used c' p"
    "\<And>k. in_vol c k \<Longrightarrow> used c (unat k) \<Longrightarrow> obmafs3_block_read c' k (bsz c) = obmafs3_block_read c k (bsz c)"
    "h' = h\<lparr>free_node_lba := free_node_lba h', free_nodes := free_nodes h'\<rparr>" "alloc_frame c c'" "dev_ok c'" "bm_ok c'"
    using fr by (auto simp: fresh_node_def e(7) node_blocks_one)
  have sb: "sb c' = sb c" using alloc_frame_fields [OF f(10)] by simp
  have B: "blk c' k = blk c k" if "in_vol c k" "used c (unat k)" for k
    using f(8) [OF that] sb by (simp add: blk_def)
  have o: "outside (set fl) c c'" using f(7,10) B by (simp add: outside_def)
  have "env_ok g c' hl" using env_ok_frame [OF _ o f(11,12), of g hl] assms(1) by (simp add: world_def)
  moreover have "blocks_per_node c' h' = 1" using e(7) sb f(9) by (metis blocks_per_node_cong btree_header.update_convs(4,7) btree_header.select_convs(5) btree_header.surjective)
  moreover have nS: "n \<notin> S" using f(6) [of n] assms(1) by (auto simp: world_def)
  moreover have "l \<notin> set fl' \<and> in_vol c' l \<and> used c' (unat l) \<and> l \<noteq> 0 \<and> l \<noteq> hl" if "l \<in> S" for l
    using f(6) [of l] f(7) assms(1) that sb by (auto simp: world_def in_vol_def)
  moreover have "n \<notin> set fl'" "in_vol c' n" using f(3,4) sb by (auto simp: in_vol_def word_less_nat_alt)
  moreover have "hl \<notin> set fl'" "n \<noteq> hl" using f(6) assms(1) by (auto simp: world_def env_ok_def)
  ultimately have w: "world g c' h' hl (insert n S) fl'" using f(1,2,5) by (auto simp: world_def)
  have "\<exists>a b. h' = h\<lparr>free_node_lba := a, free_nodes := b\<rparr>" using f(9) by blast
  moreover have "\<forall>k \<in> S. blk c' k = blk c k" using B assms(1) by (auto simp: world_def)
  ultimately show ?thesis using w nS o len f(6) by (intro exI [of _ fl']) blast
qed

lemma find_free_err: "bm_ok c \<Longrightarrow> obmafs3_bitmap_find_free c n = Inl e \<Longrightarrow> e = OBMAFS3_ERR_NOSPC"
  by (auto simp: obmafs3_bitmap_find_free_def bm_ok_def Let_def split: option.splits if_splits)

lemma alloc_blocks_err: "bm_ok c \<Longrightarrow> obmafs3_alloc_blocks c n = (Inl e, c') \<Longrightarrow> e = OBMAFS3_ERR_NOSPC \<and> c' = c"
  using find_free_err [of c n] by (auto simp: obmafs3_alloc_blocks_def Let_def split: sum.splits)

lemma clump_alloc_err: "clump_alloc c bpn a = (Inl e, c') \<Longrightarrow> bm_ok c \<Longrightarrow> e = OBMAFS3_ERR_NOSPC \<and> c' = c"
proof (induction c bpn a rule: clump_alloc.induct)
  case (1 c bpn a)
  obtain r c1 where al: "obmafs3_alloc_blocks c a = (r, c1)" by fastforce
  obtain r2 c2 where al2: "obmafs3_alloc_blocks c bpn = (r2, c2)" by fastforce
  show ?case
  proof (cases "bpn < a")
    case True
    show ?thesis
    proof (cases r)
      case (Inl x)
      have "c1 = c" using alloc_blocks_err [OF 1(3)] al Inl by blast
      then show ?thesis
        using 1(1) [OF True al [symmetric] Inl refl] 1(2,3) True al Inl clump_alloc.simps [of c bpn a] by (simp add: Let_def)
    next
      case (Inr x)
      then show ?thesis using 1(2) True al clump_alloc.simps [of c bpn a] by simp
    qed
  next
    case False
    then show ?thesis
      using 1(2,3) al2 alloc_blocks_err [OF 1(3)] clump_alloc.simps [of c bpn a] by (cases r2) auto
  qed
qed

lemma world_alloc_fail:
  assumes "world g c h hl S fl" "obmafs3_btree_alloc_node c h = (Inl e, h', c')"
  shows "e = OBMAFS3_ERR_NOSPC \<and> fl = [] \<and> h' = h \<and> c' = c"
proof -
  have p: "dev_ok c" "bm_ok c" "pool c h fl" using assms(1) by (auto simp: world_def env_ok_def)
  have fl: "fl = []"
  proof (cases fl)
    case (Cons l ls)
    then show ?thesis using alloc_pop [OF p(1,2), of h l ls] p(3) assms(2) by auto
  qed
  then have h: "free_node_lba h = 0" "free_nodes h = 0" using p(3) by (simp_all add: pool_empty)
  then have ac: "alloc_clump c h = (Inl e, h', c')" using assms(2) by (simp add: obmafs3_btree_alloc_node_def)
  obtain r c1 where ca: "clump_alloc c (blocks_per_node c h) (ucast (clump_size c h) * blocks_per_node c h) = (r, c1)"
    by fastforce
  show ?thesis
  proof (cases r)
    case (Inl x)
    then show ?thesis using ac ca fl clump_alloc_err [OF _ p(2)] by (auto simp: alloc_clump_def Let_def)
  next
    case (Inr x)
    then show ?thesis
      using ac ca by (cases x) (auto simp: alloc_clump_def Let_def split: if_splits prod.splits bool.splits)
  qed
qed

lemma world_header:
  assumes "world g c h hl S fl"
  shows "\<exists>ck c'. obmafs3_btree_header_write c hl h = (OBMAFS3_OK, h\<lparr>bh_checksum := ck\<rparr>, c') \<and>
     world g c' (h\<lparr>bh_checksum := ck\<rparr>) hl S fl \<and> outside {hl} c c' \<and> (\<forall>k \<in> S. blk c' k = blk c k)"
proof -
  have p: "dev_ok c" "in_vol c hl" "btree_hdr_size \<le> bsz c" "hl \<notin> set fl" "pool c h fl"
    using assms by (auto simp: world_def env_ok_def)
  have "free_node_lba h = 0 \<or> free_node_lba h < max_lba c"
    using p(5) by (cases fl) (auto simp: pool_def in_vol_def)
  then have san: "btree_hdr_sanitize (max_lba c) h = h" by (auto simp: btree_hdr_sanitize_def)
  define b0 where "b0 = put 0 (btree_hdr_enc (h\<lparr>bh_checksum := replicate 32 0\<rparr>)) (replicate (bsz c) 0)"
  define ck where "ck = obmafs3_checksum_block (xxh64 c) (fld 0 btree_hdr_size b0)"
  have l0: "length b0 = bsz c" using p(3) by (simp add: b0_def)
  have lb: "length (put 58 ck b0) = bsz c"
    using p(3) l0 by (simp add: ck_def btree_hdr_size_def)
  let ?c = "wrote c hl (put 58 ck b0)" and ?h = "h\<lparr>bh_checksum := ck\<rparr>"
  have wr: "obmafs3_btree_header_write c hl h = (OBMAFS3_OK, ?h, ?c)"
    unfolding obmafs3_btree_header_write_def Let_def san b0_def [symmetric] ck_def [symmetric]
    using lb p by (simp add: block_write_eq)
  have o: "outside {hl} c ?c" using p lb by (simp add: outside_wrote)
  have "env_ok g ?c hl" using env_ok_frame [OF _ o, of g hl] assms by (auto simp: world_def env_ok_def)
  moreover have "pool ?c ?h fl" using pool_wrote [OF p(1,2) lb p(5,4)] by (simp add: pool_def blocks_per_node_def)
  ultimately have "world g ?c ?h hl S fl" using assms by (auto simp: world_def blocks_per_node_def)
  moreover have "\<forall>k \<in> S. blk ?c k = blk c k" using assms p lb by (auto simp: world_def blk_wrote)
  ultimately show ?thesis using wr o by blast
qed

lemma left_link_keeps:
  assumes "nh_size \<le> length b"
  shows "node_is bs (compute_node_checksum x (put 0 (nh_enc ((nh_dec b)\<lparr>left_link := n\<rparr>)) b)) lv rl sz es = node_is bs b lv rl sz es"
proof -
  have ck: "length (nh_checksum ((nh_dec b)\<lparr>left_link := n\<rparr>)) = 32" using assms by simp
  then show ?thesis using assms nh_dec_put_header [OF ck, of b]
    by (simp add: node_is_checksum) (simp add: node_is_def)
qed

lemma world_fix_left:
  assumes "world g c h hl S fl" "nb \<in> insert 0 S"
  shows "world g (fix_left_link c nb n) h hl S fl" "outside S c (fix_left_link c nb n)"
    and "\<And>k. k \<in> S \<Longrightarrow> keeps (bsz c) (blk c) (blk (fix_left_link c nb n)) k"
proof -
  have "world g (fix_left_link c nb n) h hl S fl \<and> outside S c (fix_left_link c nb n) \<and>
    (\<forall>k \<in> S. keeps (bsz c) (blk c) (blk (fix_left_link c nb n)) k)"
  proof (cases "nb = 0")
    case True
    then show ?thesis using assms(1) by (simp add: fix_left_link_def keeps_def)
  next
    case False
    then have nb: "nb \<in> S" using assms(2) by simp
    have d: "dev_ok c" "in_vol c nb" "nh_size \<le> bsz c" using assms(1) nb by (auto simp: world_def env_ok_def)
    let ?b = "compute_node_checksum (xxh64 c) (put 0 (nh_enc ((nh_dec (blk c nb))\<lparr>left_link := n\<rparr>)) (blk c nb))"
    have ck: "length (nh_checksum ((nh_dec (blk c nb))\<lparr>left_link := n\<rparr>)) = 32" using d by (simp add: length_blk)
    have "length (put 0 (nh_enc ((nh_dec (blk c nb))\<lparr>left_link := n\<rparr>)) (blk c nb)) = bsz c"
      using d ck by (simp add: length_blk)
    then have lb: "length ?b = bsz c" using node_checksum_view(1) d by simp
    note w = world_write [OF assms(1) nb lb]
    have fx: "fix_left_link c nb n = wrote c nb ?b"
      using False w(1) block_read_blk [OF d(1,2)] by (simp add: fix_left_link_def)
    have "keeps (bsz c) (blk c) (blk (wrote c nb ?b)) k" if "k \<in> S" for k
      using w(4) [OF that] left_link_keeps [of "blk c nb"] d by (auto simp: keeps_def length_blk)
    moreover have "outside S c (wrote c nb ?b)" using outside_trans [OF outside_refl w(3), of S] nb by auto
    ultimately show ?thesis using w(2) unfolding fx by blast
  qed
  then show "world g (fix_left_link c nb n) h hl S fl" "outside S c (fix_left_link c nb n)"
    "\<And>k. k \<in> S \<Longrightarrow> keeps (bsz c) (blk c) (blk (fix_left_link c nb n)) k" by blast+
qed

end
