(* ===== verification/BPlusInsert.thy ===== *)
theory BPlusInsert
  imports BPlusWorld
begin

text \<open>
  Insertion into a B+Tree, as the code does it on disk, proved to insert into the sorted list
  of records: the split of a leaf, the splits it causes on the path and the new root.
\<close>

section \<open>Capacities\<close>

lemma node_max:
  assumes "0 < sz" "nh_size + k * sz \<le> bsz c" "bsz c \<le> 65536" "1 \<le> k"
  shows "nh_size + unat (ucast ((block_size (sb c) - of_nat nh_size) div of_nat sz) :: u16) * sz \<le> bsz c"
    and "k \<le> unat (ucast ((block_size (sb c) - of_nat nh_size) div of_nat sz) :: u16)"
    and "unat (ucast ((block_size (sb c) - of_nat nh_size) div of_nat sz) :: u16) < 65535"
proof -
  let ?b = "block_size (sb c)"
  have nb: "nh_size \<le> bsz c" using assms(2) by simp
  have u70: "unat (of_nat nh_size :: u64) = nh_size" by (simp add: nh_size_def)
  have "sz \<le> k * sz" using assms(4) by simp
  then have "sz \<le> 65536" using assms(2,3) by linarith
  then have us: "unat (of_nat sz :: u64) = sz" by (simp add: unat_of_nat)
  have ud: "unat (?b - of_nat nh_size) = bsz c - nh_size"
    using nb u70 by (simp add: unat_sub_if')
  have q: "unat ((?b - of_nat nh_size) div of_nat sz) = (bsz c - nh_size) div sz"
    by (simp only: unat_div_distrib ud us)
  have lt: "(bsz c - nh_size) div sz \<le> bsz c - nh_size" by simp
  moreover have "bsz c - nh_size < 65535" using assms(3) nb by (simp add: nh_size_def)
  ultimately have lt2: "(bsz c - nh_size) div sz < 65535" by linarith
  then have u: "unat (ucast ((?b - of_nat nh_size) div of_nat sz) :: u16) = (bsz c - nh_size) div sz"
    using q by (simp add: unsigned_ucast_eq take_bit_nat_eq_self)
  show "nh_size + unat (ucast ((?b - of_nat nh_size) div of_nat sz) :: u16) * sz \<le> bsz c"
    unfolding u using nb div_times_less_eq_dividend [of "bsz c - nh_size" sz] by linarith
  show "k \<le> unat (ucast ((?b - of_nat nh_size) div of_nat sz) :: u16)"
    unfolding u using assms(1,2) by (simp add: less_eq_div_iff_mult_less_eq)
  show "unat (ucast ((?b - of_nat nh_size) div of_nat sz) :: u16) < 65535" unfolding u by (rule lt2)
qed

lemma leaf_max_bounds:
  assumes "env_ok g c hl"
  shows "nh_size + unat (leaf_max g c) * rec_sz g \<le> bsz c" "1 \<le> unat (leaf_max g c)" "unat (leaf_max g c) < 65535"
  unfolding leaf_max_def using node_max [of "rec_sz g" 1 c] assms by (simp_all add: env_ok_def)

lemma index_max_bounds:
  assumes "env_ok g c hl"
  shows "nh_size + unat (index_max g c) * ie_sz g \<le> bsz c" "2 \<le> unat (index_max g c)" "unat (index_max g c) < 65535"
  unfolding index_max_def using node_max [of "ie_sz g" 2 c] assms by (simp_all add: env_ok_def)

lemma unat_u16_Suc: "unat (w :: u16) < 65535 \<Longrightarrow> unat (w + 1) = Suc (unat w)"
  by (simp add: unat_word_ariths)

section \<open>Order\<close>

lemma lt_hi_mono: "lt_hi k (Some h) \<Longrightarrow> h \<le> h' \<Longrightarrow> lt_hi k (Some h')"
  by simp

lemma next_key_hi: "next_key g hi es = (if es = [] then hi else next_key g None es)"
  by (cases es) auto

lemma kinv_raise_hi:
  "kinv g vk b lo hi t \<Longrightarrow> hi = Some h \<Longrightarrow> h \<le> h' \<Longrightarrow> kinv g vk b lo (Some h') t"
  "kinv_es g vk b lo hi es \<Longrightarrow> hi = Some h \<Longrightarrow> h \<le> h' \<Longrightarrow> kinv_es g vk b lo (Some h') es"
proof (induction g vk b lo hi t and g vk b lo hi es rule: kinv_kinv_es.induct)
  case (4 g vk b lo hi e t es)
  then show ?case by (cases "(g, hi, es)" rule: next_key.cases) auto
qed auto

lemma kinv_lower_lo:
  "kinv g vk b lo hi t \<Longrightarrow> lo = Some k \<Longrightarrow> k' \<le> k \<Longrightarrow> (b \<longrightarrow> k' = k) \<Longrightarrow> kinv g vk b (Some k') hi t"
  "kinv_es g vk b lo hi es \<Longrightarrow> lo = Some k \<Longrightarrow> k' \<le> k \<Longrightarrow> (b \<longrightarrow> k' = k) \<Longrightarrow> kinv_es g vk b (Some k') hi es"
  by (induction g vk b lo hi t and g vk b lo hi es rule: kinv_kinv_es.induct) (auto simp: first_ok_def)

text \<open>
  What a split hands to its parent: the left part \<open>L\<close> with its key \<open>kl\<close>, the right part \<open>R\<close>
  from \<open>kp\<close> on, for a hole with the bounds \<open>lo\<close> and \<open>hi\<close>.
\<close>

definition split_ok ::
    "('k :: linorder) tree_cfg \<Rightarrow> ('k \<Rightarrow> bool) \<Rightarrow> bool \<Rightarrow> 'k option \<Rightarrow> 'k option \<Rightarrow> 'k \<Rightarrow> tree \<Rightarrow> 'k \<Rightarrow> tree \<Rightarrow> bool" where
  "split_ok g vk b lo hi kl L kp R \<longleftrightarrow> vk kl \<and> vk kp \<and> kl < kp \<and> lt_hi kp hi \<and> kinv g vk b (Some kp) hi R \<and>
     (case lo of None \<Rightarrow> kinv g vk b None (Some kp) L
      | Some k \<Rightarrow> k \<le> kl \<and> (b \<longrightarrow> kl = k) \<and> kinv g vk b (Some kl) (Some kp) L)"

lemma split_ok_kinv_left: "split_ok g vk b lo hi kl L kp R \<Longrightarrow> kinv g vk b lo (Some kp) L"
  using kinv_lower_lo(1) [of g vk b "Some kl" "Some kp" L kl] by (auto simp: split_ok_def split: option.splits)

lemma kinv_merge:
  assumes "finv g vk b ((l, r, xs, e, ys) # fs)"
    and "split_ok g vk b (hole_lo g ((l, r, xs, e, ys) # fs)) (hole_hi g ((l, r, xs, e, ys) # fs)) kl L kp R"
    and "ie_key g e' = kl" "ie_key g p = kp"
  shows "kinv_es g vk b (hole_lo g fs) (hole_hi g fs) (xs @ (e', L) # (p, R) # ys)"
proof -
  note s = assms(2)
  have tail: "kinv_es g vk b (if xs = [] then hole_lo g fs else Some kl) (hole_hi g fs) ((e', L) # (p, R) # ys)"
  proof (cases "xs = []")
    case True
    have "ge_lo (hole_lo g fs) kl" "first_ok b (hole_lo g fs) [kl]"
      using s True by (auto simp: split_ok_def first_ok_def split: option.splits)
    then show ?thesis
      using assms split_ok_kinv_left [OF s] True by (auto simp: split_ok_def)
  next
    case False
    then have "kinv g vk b (Some kl) (Some kp) L" using s by (simp add: split_ok_def)
    then show ?thesis using assms False by (auto simp: split_ok_def)
  qed
  have "kinv_es g vk b (hole_lo g fs) (Some kl) xs"
  proof (cases "xs = []")
    case False
    then have "ie_key g e \<le> kl" using s by (simp add: split_ok_def)
    then show ?thesis using assms(1) kinv_raise_hi(2) by fastforce
  qed simp
  then show ?thesis
    using tail assms(3) kinv_es_append [of "(e', L) # (p, R) # ys" g vk b "hole_lo g fs" "hole_hi g fs" xs]
    by (cases "xs = []") simp_all
qed

text \<open>A full node cut in two hands on what its parent needs.\<close>

lemma split_ok_index:
  assumes "kinv_es g vk b (hole_lo g fs) (hole_hi g fs) M" "0 < n" "n < length M" "b \<or> hole_lo g fs = None"
  shows "split_ok g vk b (hole_lo g fs) (hole_hi g fs) (ie_key g (fst (M ! 0))) (IndexN l r (take n M))
           (ie_key g (fst (M ! n))) (IndexN l' r' (drop n M))"
proof -
  let ?A = "take n M" and ?D = "drop n M"
  have ne: "?A \<noteq> []" "?D \<noteq> []" using assms(2,3) by auto
  have hd: "hd ?D = M ! n" using assms(3) by (simp add: hd_drop_conv_nth)
  have nk: "next_key g x ?D = Some (ie_key g (fst (M ! n)))" for x using next_key_ne [OF ne(2)] hd by simp
  have k: "kinv_es g vk b (hole_lo g fs) (Some (ie_key g (fst (M ! n)))) ?A"
    "kinv_es g vk b (Some (ie_key g (fst (M ! n)))) (hole_hi g fs) ?D"
    using assms(1) kinv_es_append [OF ne(2), of g vk b "hole_lo g fs" "hole_hi g fs" ?A] ne nk by simp_all
  have srt: "sorted_wrt (<) (map (\<lambda>p. ie_key g (fst p)) M)" "\<And>p. p \<in> set M \<Longrightarrow> lt_hi (ie_key g (fst p)) (hole_hi g fs)"
    using kinv_es_keys_sorted [OF assms(1)] by auto
  have "ie_key g (fst (M ! 0)) < ie_key g (fst (M ! n))"
    using srt(1) assms(2,3) by (simp add: sorted_wrt_iff_nth_less)
  moreover have "lt_hi (ie_key g (fst (M ! n))) (hole_hi g fs)" using srt(2) assms(3) by simp
  moreover have "vk (ie_key g (fst (M ! n)))" using k(2) ne(2) hd by (cases ?D; cases "M ! n") auto
  moreover have "vk (ie_key g (fst (M ! 0))) \<and> (case hole_lo g fs of None \<Rightarrow> True | Some x \<Rightarrow> b \<longrightarrow> ie_key g (fst (M ! 0)) = x)"
    using assms(1,2,3) by (cases M) (auto simp: first_ok_def split: option.splits)
  ultimately show ?thesis
    using k ne assms(4) by (auto simp: split_ok_def split: option.splits)
qed

lemma split_ok_leaf:
  assumes "sorted_wrt (<) (map (rec_key g) M)" "\<And>x. x \<in> set M \<Longrightarrow> vk (rec_key g x) \<and> ge_lo lo (rec_key g x) \<and> lt_hi (rec_key g x) hi"
    and "first_ok b lo (map (rec_key g) M)" "0 < n" "n < length M"
  shows "split_ok g vk b lo hi (rec_key g (M ! 0)) (LeafN l r (take n M)) (rec_key g (M ! n)) (LeafN l' r' (drop n M))"
proof -
  have i: "\<And>i j. i < j \<Longrightarrow> j < length M \<Longrightarrow> rec_key g (M ! i) < rec_key g (M ! j)"
    using assms(1) by (simp add: sorted_wrt_iff_nth_less)
  have le: "rec_key g (M ! n) \<le> rec_key g x" if x: "x \<in> set (drop n M)" for x
  proof -
    obtain j where "x = M ! (n + j)" "n + j < length M" using x by (auto simp: in_set_conv_nth)
    then show ?thesis using i [of n "n + j"] by (cases j) auto
  qed
  have lt: "rec_key g x < rec_key g (M ! n)" "rec_key g (M ! 0) \<le> rec_key g x" if x: "x \<in> set (take n M)" for x
  proof -
    obtain j where "x = M ! j" "j < n" using x assms(5) by (auto simp: in_set_conv_nth)
    then show "rec_key g x < rec_key g (M ! n)" "rec_key g (M ! 0) \<le> rec_key g x"
      using i [of j n] i [of 0 j] assms(5) by (cases j; auto)+
  qed
  have srt: "sorted_wrt (<) (map (rec_key g) (take n M))" "sorted_wrt (<) (map (rec_key g) (drop n M))"
    using assms(1) by (simp_all add: sorted_wrt_take sorted_wrt_drop flip: take_map drop_map)
  have h: "hd (map (rec_key g) (drop n M)) = rec_key g (M ! n)" "hd (map (rec_key g) (take n M)) = rec_key g (M ! 0)"
    "drop n M \<noteq> []" "take n M \<noteq> []" "hd (map (rec_key g) M) = rec_key g (M ! 0)" "M \<noteq> []"
    using assms(4,5) by (cases M; auto simp: hd_map hd_drop_conv_nth)+
  have set: "\<And>x. x \<in> set (take n M) \<Longrightarrow> x \<in> set M" "\<And>x. x \<in> set (drop n M) \<Longrightarrow> x \<in> set M"
    by (auto dest: in_set_takeD in_set_dropD)
  have m0: "M ! 0 \<in> set M" by (rule nth_mem) (use assms(5) in linarith)
  have mn: "M ! n \<in> set M" by (rule nth_mem [OF assms(5)])
  show ?thesis
    unfolding split_ok_def
    using srt h lt le set m0 mn assms(2,3,4,5) i [of 0 n]
    by (auto simp: first_ok_def split: option.splits)
qed

section \<open>The write pattern of a split\<close>

lemma world_cong_hdr:
  assumes "free_node_lba h' = free_node_lba h" "free_nodes h' = free_nodes h" "node_size h' = node_size h"
  shows "world g c h' hl S fl = world g c h hl S fl"
proof -
  have "blocks_per_node c h' = blocks_per_node c h" using assms(3) by (simp add: blocks_per_node_def)
  then show ?thesis using assms by (simp add: world_def pool_def)
qed

lemma outside_mono: "outside T c c' \<Longrightarrow> T \<subseteq> T' \<Longrightarrow> outside T' c c'"
  by (auto simp: outside_def)

lemma split_writes:
  assumes w: "world g c h hl S fl" and al: "obmafs3_btree_alloc_node c h = (Inr n, h1, c1)"
    and l: "l \<in> S" and nb: "nb \<in> insert 0 S" and len: "length b1 = bsz c" "length b2 = bsz c"
  defines "c2 \<equiv> wrote c1 l b1" defines "c3 \<equiv> wrote c2 n b2" defines "c4 \<equiv> fix_left_link c3 nb n"
  shows "obmafs3_block_write c1 l b1 = (OBMAFS3_OK, c2) \<and> obmafs3_block_write c2 n b2 = (OBMAFS3_OK, c3) \<and>
     sb c1 = sb c \<and> xxh64 c1 = xxh64 c \<and> n \<notin> S \<and> (\<exists>fl'. world g c4 h1 hl (insert n S) fl' \<and>
     length fl \<le> Suc (length fl') \<and> (\<forall>k \<in> set fl'. k \<in> set fl \<or> \<not> used c (unat k))) \<and>
     (n \<in> set fl \<or> \<not> used c (unat n)) \<and> outside (S \<union> set fl) c c4 \<and>
     keeps (bsz c) (\<lambda>_. b1) (blk c4) l \<and> keeps (bsz c) (\<lambda>_. b2) (blk c4) n \<and>
     (\<forall>k \<in> S. k \<noteq> l \<longrightarrow> keeps (bsz c) (blk c) (blk c4) k) \<and> (\<exists>a b. h1 = h\<lparr>free_node_lba := a, free_nodes := b\<rparr>)"
proof -
  obtain fl' where A: "world g c1 h1 hl (insert n S) fl'" "n \<notin> S" "n \<in> set fl \<or> \<not> used c (unat n)"
      "length fl \<le> Suc (length fl')" "\<forall>k \<in> set fl'. k \<in> set fl \<or> \<not> used c (unat k)" "outside (set fl) c c1"
      "\<forall>k \<in> S. blk c1 k = blk c k" "\<exists>a b. h1 = h\<lparr>free_node_lba := a, free_nodes := b\<rparr>"
    using world_alloc [OF w al] by blast
  have sb1: "sb c1 = sb c" "xxh64 c1 = xxh64 c" using maxes_frame [OF A(6), of g] by simp_all
  have lb: "length b1 = bsz c1" using len sb1 by simp
  note w2 = world_write [OF A(1) insertI2 [OF l] lb, folded c2_def]
  have lb2: "length b2 = bsz c2" using len sb1 by (simp add: c2_def)
  note w3 = world_write [OF w2(2) insertI1 lb2, folded c3_def]
  have nb': "nb \<in> insert 0 (insert n S)" using nb by auto
  note w4 = world_fix_left [OF w3(2) nb', where n = n, folded c4_def]
  have sb3: "sb c2 = sb c" "sb c3 = sb c" using sb1 by (simp_all add: c2_def c3_def)
  have ln: "l \<noteq> n" using l A(2) by auto
  have B3: "blk c3 l = b1" "blk c3 n = b2" "\<And>k. k \<in> S \<Longrightarrow> k \<noteq> l \<Longrightarrow> blk c3 k = blk c k"
    using w3(4) w2(4) A(2,7) l ln by auto
  have K: "\<And>k. k \<in> insert n S \<Longrightarrow> keeps (bsz c) (blk c3) (blk c4) k" using w4(3) sb3 by simp
  have "outside (S \<union> set fl) c c1" using A(6) by (rule outside_mono) simp
  then have "outside (S \<union> set fl) c c2" by (rule outside_trans [OF _ w2(3)]) (use l in auto)
  then have "outside (S \<union> set fl) c c3" by (rule outside_trans [OF _ w3(3)]) (use A(3) in auto)
  then have O: "outside (S \<union> set fl) c c4" by (rule outside_trans [OF _ w4(2)]) (use A(3) in auto)
  have "keeps (bsz c) (\<lambda>_. b1) (blk c4) l" "keeps (bsz c) (\<lambda>_. b2) (blk c4) n"
    using K [of l] K [of n] B3(1,2) l by (simp_all add: keeps_def)
  moreover have "\<forall>k \<in> S. k \<noteq> l \<longrightarrow> keeps (bsz c) (blk c) (blk c4) k"
    using K B3(3) by (simp add: keeps_def)
  moreover have "\<exists>fl'. world g c4 h1 hl (insert n S) fl' \<and> length fl \<le> Suc (length fl') \<and> (\<forall>k \<in> set fl'. k \<in> set fl \<or> \<not> used c (unat k))"
    using w4(1) A(4,5) by blast
  ultimately show ?thesis using w2(1) w3(1) sb1 A(2,3,8) O by blast
qed

section \<open>Carrying a split upwards\<close>

definition tree_ok ::
    "('k :: linorder) tree_cfg \<Rightarrow> ('k \<Rightarrow> bool) \<Rightarrow> bool \<Rightarrow> ctx \<Rightarrow> btree_header \<Rightarrow> u64 \<Rightarrow> nat \<Rightarrow> tree \<Rightarrow> u64 list \<Rightarrow> bool" where
  "tree_ok g vk b c h hl lv t fl \<longleftrightarrow> world g c h hl (set (lbas t)) fl \<and> distinct (lbas t) \<and>
     root_node_lba h = tlba t \<and> rep g (bsz c) (blk c) lv t \<and> kinv g vk b None None t \<and>
     caps (unat (leaf_max g c)) (unat (index_max g c)) t \<and> set (rlinks t) \<subseteq> insert 0 (set (lbas t))"

text \<open>A subtree has been split into \<open>L\<close> and \<open>R\<close>, its parents are still to be told.\<close>

definition pending ::
    "('k :: linorder) tree_cfg \<Rightarrow> ('k \<Rightarrow> bool) \<Rightarrow> bool \<Rightarrow> ctx \<Rightarrow> btree_header \<Rightarrow> u64 \<Rightarrow> nat \<Rightarrow> tree \<Rightarrow> tree \<Rightarrow>
     frame list \<Rightarrow> 'k \<Rightarrow> bytes \<Rightarrow> u64 list \<Rightarrow> bool" where
  "pending g vk b c h hl lv L R fs kl p fl \<longleftrightarrow>
     world g c h hl (set (lbas L @ lbas R @ flbas fs)) fl \<and> distinct (lbas L @ lbas R @ flbas fs) \<and>
     rep g (bsz c) (blk c) lv L \<and> rep g (bsz c) (blk c) lv R \<and> frep g (bsz c) (blk c) lv (tlba L) fs \<and>
     split_ok g vk b (hole_lo g fs) (hole_hi g fs) kl L (ie_key g p) R \<and> finv g vk b fs \<and>
     caps (unat (leaf_max g c)) (unat (index_max g c)) L \<and> caps (unat (leaf_max g c)) (unat (index_max g c)) R \<and>
     fcaps (unat (leaf_max g c)) (unat (index_max g c)) fs \<and>
     set (rlinks L @ rlinks R @ frlinks fs) \<subseteq> insert 0 (set (lbas L @ lbas R @ flbas fs)) \<and>
     length p = ie_sz g \<and> ie_child g p = tlba R \<and> (fs \<noteq> [] \<longrightarrow> root_node_lba h = tlba (plug fs L))"

text \<open>The result: a tree with the records \<open>rs\<close> and the leaves \<open>ls\<close>, or the volume is full.\<close>

definition grown ::
    "('k :: linorder) tree_cfg \<Rightarrow> ('k \<Rightarrow> bool) \<Rightarrow> bool \<Rightarrow> u64 \<Rightarrow> nat \<Rightarrow> bytes list \<Rightarrow> (u64 \<times> u64) list \<Rightarrow> u64 set \<Rightarrow> nat \<Rightarrow>
     u64 list \<Rightarrow> ctx \<Rightarrow> rc \<times> btree_header \<times> ctx \<Rightarrow> bool" where
  "grown g vk b hl lv rs ls T need fl c res \<longleftrightarrow> (case res of (r, h', c') \<Rightarrow>
     (r = OBMAFS3_ERR_NOSPC \<and> length fl < need) \<or>
     (r = OBMAFS3_OK \<and> outside T c c' \<and>
        (\<exists>t' lv' fl'. tree_ok g vk b c' h' hl lv' t' fl' \<and> recs t' = rs \<and> leaves t' = ls \<and> lv' \<le> Suc lv \<and>
           fresh_from T c (set (lbas t') \<union> set fl'))))"

locale tree_layout =
  fixes g :: "('k :: linorder) tree_cfg" and vk :: "'k \<Rightarrow> bool"
  assumes mk_len: "length (mk_ie g k l) = ie_sz g"
    and mk_key: "vk k \<Longrightarrow> ie_key g (mk_ie g k l) = k"
    and mk_child: "ie_child g (mk_ie g k l) = l"
    and set_len: "length e = ie_sz g \<Longrightarrow> length (set_ie_key g k e) = ie_sz g"
    and set_key: "vk k \<Longrightarrow> length e = ie_sz g \<Longrightarrow> ie_key g (set_ie_key g k e) = k"
    and set_child: "length e = ie_sz g \<Longrightarrow> ie_child g (set_ie_key g k e) = ie_child g e"
begin

lemma new_root_grown:
  assumes p: "pending g vk b c h hl lv L R [] kl p fl" and lv: "lv < 255"
  shows "grown g vk b hl lv (recs L @ recs R) (leaves L @ leaves R) (set (lbas L @ lbas R) \<union> set fl \<union> {hl}) 1 fl c
     (new_root g c h hl p kl (tlba L))"
proof -
  let ?S = "set (lbas L @ lbas R)"
  have w: "world g c h hl ?S fl" using p by (simp add: pending_def)
  obtain r h1 c1 where al: "obmafs3_btree_alloc_node c h = (r, h1, c1)" by (cases "obmafs3_btree_alloc_node c h") auto
  show ?thesis
  proof (cases r)
    case (Inl e)
    then show ?thesis using al world_alloc_fail [OF w] by (simp add: new_root_def grown_def)
  next
    case (Inr n)
    obtain fl' where A: "world g c1 h1 hl (insert n ?S) fl'" "n \<notin> ?S" "n \<in> set fl \<or> \<not> used c (unat n)"
        "\<forall>k \<in> set fl'. k \<in> set fl \<or> \<not> used c (unat k)" "outside (set fl) c c1" "\<forall>k \<in> ?S. blk c1 k = blk c k"
        "\<exists>a b. h1 = h\<lparr>free_node_lba := a, free_nodes := b\<rparr>"
      using world_alloc [OF w, of n h1 c1] al Inr by blast
    have m1: "sb c1 = sb c" using maxes_frame [OF A(5), of g] by simp
    have tl: "tlba L \<in> ?S" by (cases L) auto
    have rd: "obmafs3_block_read c1 (tlba L) (bsz c1) = Inr (blk c1 (tlba L))"
      using A(1) tl by (intro block_read_blk) (auto simp: world_def env_ok_def)
    have "\<exists>rl sz es. node_is (bsz c) (blk c (tlba L)) lv rl sz es"
      using p by (cases L) (auto simp: pending_def)
    then have "unat (level (nh_dec (blk c1 (tlba L)))) = lv" using A(6) tl by (auto simp: node_is_def)
    then have lvl: "unat (level (nh_dec (blk c1 (tlba L))) + 1) = Suc lv" using lv by (simp add: unat_word_ariths)
    let ?es = "[mk_ie g kl (tlba L), p]"
    let ?b = "fresh_image g c1 (level (nh_dec (blk c1 (tlba L))) + 1) 2 (ie_sz g) 0 0 (concat ?es)"
    have env: "env_ok g c1 hl" using A(1) by (simp add: world_def)
    have el: "x \<in> set ?es \<Longrightarrow> length x = ie_sz g" for x using p mk_len by (auto simp: pending_def)
    have nd: "node_is (bsz c1) ?b (Suc lv) 0 (ie_sz g) ?es"
      using fresh_image_is [of ?es "ie_sz g" c1 g "level (nh_dec (blk c1 (tlba L))) + 1" 0 0] el env lvl
      by (simp add: env_ok_def mult_2 numeral_2_eq_2)
    have lb: "length ?b = bsz c1" using nd by (simp add: node_is_def)
    note w2 = world_write [OF A(1) insertI1 lb]
    let ?c2 = "wrote c1 n ?b" and ?h2 = "h1\<lparr>root_node_lba := n, total_nodes := total_nodes h1 + 1\<rparr>"
    have "world g ?c2 ?h2 hl (insert n ?S) fl'" using w2(2) by (subst world_cong_hdr [of _ h1]) simp_all
    from world_header [OF this] obtain ck c3 where
      H: "obmafs3_btree_header_write ?c2 hl ?h2 = (OBMAFS3_OK, ?h2\<lparr>bh_checksum := ck\<rparr>, c3)"
        "world g c3 (?h2\<lparr>bh_checksum := ck\<rparr>) hl (insert n ?S) fl'" "outside {hl} ?c2 c3"
        "\<forall>k \<in> insert n ?S. blk c3 k = blk ?c2 k" by blast
    have res: "new_root g c h hl p kl (tlba L) = (OBMAFS3_OK, ?h2\<lparr>bh_checksum := ck\<rparr>, c3)"
      using al Inr rd w2(1) H(1) by (simp add: new_root_def)
    let ?t = "IndexN n 0 [(mk_ie g kl (tlba L), L), (p, R)]"
    have m3: "sb c3 = sb c" using maxes_frame [OF H(3), of g] m1 by simp
    have B3: "blk c3 n = ?b" "\<And>k. k \<in> ?S \<Longrightarrow> blk c3 k = blk c k"
      using H(4) w2(4) A(2,6) by auto
    have rp: "rep g (bsz c) (blk c3) lv L" "rep g (bsz c) (blk c3) lv R"
      using p B3(2) by (auto simp: pending_def intro!: rep_frame(1) [of _ _ "blk c" "blk c3"] keeps_eq)
    have sp: "split_ok g vk b None None kl L (ie_key g p) R" using p by (simp add: pending_def)
    have "rep g (bsz c) (blk c3) (Suc lv) ?t"
      using nd B3(1) rp m1 p mk_child by (simp add: pending_def)
    moreover have "kinv g vk b None None ?t" using sp mk_key by (simp add: split_ok_def)
    moreover have "caps (unat (leaf_max g c3)) (unat (index_max g c3)) ?t"
      using p index_max_bounds(2) [OF env] maxes_frame [OF H(3), of g] maxes_frame [OF w2(3), of g] maxes_frame [OF A(5), of g]
      by (auto simp: pending_def)
    ultimately have ok: "tree_ok g vk b c3 (?h2\<lparr>bh_checksum := ck\<rparr>) hl (Suc lv) ?t fl'"
      using H(2) p A(2) m3 by (auto simp: tree_ok_def pending_def)
    have "outside (?S \<union> set fl \<union> {hl}) c c1" using A(5) by (rule outside_mono) auto
    then have "outside (?S \<union> set fl \<union> {hl}) c ?c2" by (rule outside_trans [OF _ w2(3)]) (use A(3) in auto)
    then have "outside (?S \<union> set fl \<union> {hl}) c c3" by (rule outside_trans [OF _ H(3)]) auto
    moreover have "fresh_from (?S \<union> set fl \<union> {hl}) c (set (lbas ?t) \<union> set fl')" using A(3,4) by (auto simp: fresh_from_def)
    ultimately show ?thesis using ok res by (fastforce simp: grown_def)
  qed
qed

end

section \<open>Halves of the merged array\<close>

lemma take_concat_eq:
  "(\<And>r. r \<in> set es \<Longrightarrow> length r = sz) \<Longrightarrow> n \<le> length es \<Longrightarrow> take (n * sz) (concat es) = concat (take n es)"
proof (induction es arbitrary: n)
  case (Cons e es)
  then show ?case by (cases n) auto
qed simp

lemma drop_concat_eq:
  "(\<And>r. r \<in> set es \<Longrightarrow> length r = sz) \<Longrightarrow> n \<le> length es \<Longrightarrow> drop (n * sz) (concat es) = concat (drop n es)"
proof (induction es arbitrary: n)
  case (Cons e es)
  then show ?case by (cases n) auto
qed simp

lemma slot_concat_eq:
  assumes "\<And>r. r \<in> set es \<Longrightarrow> length r = sz" "i < length es"
  shows "slot sz i (concat es) = es ! i"
  using slots_append_concat [of es sz "[]", OF assms(1)] assms(2) nth_slots [of i "length es" sz "concat es"] by simp

lemma fld_concat_rest:
  assumes "\<And>r. r \<in> set es \<Longrightarrow> length r = sz" "n \<le> length es" "m = length es - n"
  shows "fld (n * sz) (m * sz) (concat es) = concat (drop n es)"
proof -
  have "length (concat (drop n es)) = m * sz"
    using length_concat_eq [of "drop n es" sz] assms by (auto dest: in_set_dropD)
  then show ?thesis using drop_concat_eq [of es sz n, OF assms(1,2)] by (simp add: fld_def)
qed

lemma index_parent_update:
  assumes "node_is bs buf lv r sz (map fst xs @ e # map fst ys)" "length e' = sz"
  shows "node_is bs (put (nh_size + length xs * sz) e' buf) lv r sz (map fst xs @ e' # map fst ys)"
  using put_slot_is [OF assms, of "length xs"] by (simp add: list_update_append)

lemma tlba_plug_cong: "tlba t = tlba t' \<Longrightarrow> tlba (plug fs t) = tlba (plug fs t')"
  by (cases fs) (auto simp: tlba_plug)

context tree_layout
begin

text \<open>The step on a parent that has room.\<close>

lemma propagate_room:
  assumes p: "pending g vk b c h hl lv L R ((l, r, xs, e, ys) # fs) kl p fl"
    and room: "node_keys (nh_dec (blk c l)) < index_max g c"
  shows "grown g vk b hl (lv + Suc (length fs)) (frecs_l ((l, r, xs, e, ys) # fs) @ recs L @ recs R @ frecs_r ((l, r, xs, e, ys) # fs))
     (fleaves_l ((l, r, xs, e, ys) # fs) @ leaves L @ leaves R @ fleaves_r ((l, r, xs, e, ys) # fs))
     (set (lbas L @ lbas R @ flbas ((l, r, xs, e, ys) # fs)) \<union> set fl \<union> {hl}) need fl c
     (propagate g c h hl ((l, length xs) # frame_path fs) p kl (tlba L))"
proof -
  let ?f = "(l, r, xs, e, ys)"
  let ?S = "set (lbas L @ lbas R @ flbas (?f # fs))"
  have w: "world g c h hl ?S fl" and lS: "l \<in> ?S" and env: "env_ok g c hl" using p by (auto simp: pending_def world_def)
  have nd: "node_is (bsz c) (blk c l) (Suc lv) r (ie_sz g) (map fst xs @ e # map fst ys)" using p by (simp add: pending_def)
  have le: "length e = ie_sz g" using node_is_elem [OF nd] by simp
  have sp: "split_ok g vk b (hole_lo g (?f # fs)) (hole_hi g (?f # fs)) kl L (ie_key g p) R" using p by (simp add: pending_def)
  define e' where "e' = set_ie_key g kl e"
  have e': "length e' = ie_sz g" "ie_key g e' = kl" "ie_child g e' = tlba L"
    using set_len [OF le] set_key [OF _ le] set_child [OF le] sp p by (auto simp: e'_def split_ok_def pending_def)
  define b0 where "b0 = put (nh_size + length xs * ie_sz g) e' (blk c l)"
  have nd0: "node_is (bsz c) b0 (Suc lv) r (ie_sz g) (map fst xs @ e' # map fst ys)"
    unfolding b0_def by (rule index_parent_update [OF nd e'(1)])
  let ?n = "Suc (length xs + length ys)" and ?M = "xs @ (e', L) # (p, R) # ys"
  have n: "unat (node_keys (nh_dec (blk c l))) = ?n" using nd by (simp add: node_is_def)
  have nm: "Suc ?n \<le> unat (index_max g c)" using room n by (simp add: word_less_nat_alt)
  have "Suc ?n * ie_sz g \<le> unat (index_max g c) * ie_sz g" using nm by (rule mult_le_mono1)
  then have fit: "nh_size + Suc ?n * ie_sz g \<le> bsz c" using index_max_bounds(1) [OF env] by linarith
  have lp: "length p = ie_sz g" using p by (simp add: pending_def)
  have ins: "slots (ie_sz g) (Suc ?n) (ndata (insert_slot (ie_sz g) ?n (length xs + 1) p b0)) = map fst ?M"
    "length (insert_slot (ie_sz g) ?n (length xs + 1) p b0) = bsz c"
    using insert_slot_slots [OF nd0 lp, of "length xs + 1"] fit by simp_all
  let ?b = "grown_image c (blk c l) (ie_sz g) (insert_slot (ie_sz g) ?n (length xs + 1) p b0)"
  have ndb: "node_is (bsz c) ?b (Suc lv) r (ie_sz g) (map fst ?M)"
    using grown_image_is [OF nd ins(2), of "map fst ?M"] ins(1) fit nm index_max_bounds(3) [OF env] by simp
  have lb: "length ?b = bsz c" using ndb by (simp add: node_is_def)
  note w1 = world_write [OF w lS lb]
  let ?c1 = "wrote c l ?b"
  from world_header [OF w1(2)] obtain ck c2 where
    H: "obmafs3_btree_header_write ?c1 hl h = (OBMAFS3_OK, h\<lparr>bh_checksum := ck\<rparr>, c2)"
      "world g c2 (h\<lparr>bh_checksum := ck\<rparr>) hl ?S fl" "outside {hl} ?c1 c2" "\<forall>k \<in> ?S. blk c2 k = blk ?c1 k" by blast
  have rd: "obmafs3_block_read c l (bsz c) = Inr (blk c l)"
    using w lS by (intro block_read_blk) (auto simp: world_def env_ok_def)
  have sl: "slot (ie_sz g) (length xs) (ndata (blk c l)) = e" using node_is_slot [OF nd, of "length xs"] by (simp add: nth_append)
  have res: "propagate g c h hl ((l, length xs) # frame_path fs) p kl (tlba L) = (OBMAFS3_OK, h\<lparr>bh_checksum := ck\<rparr>, c2)"
    using rd room sl n w1(1) H(1) by (simp add: propagate.simps Let_def b0_def e'_def)
  have B: "blk c2 l = ?b" "\<And>k. k \<in> ?S \<Longrightarrow> k \<noteq> l \<Longrightarrow> blk c2 k = blk c k" using H(4) w1(4) lS by auto
  have dl: "l \<notin> set (lbas L)" "l \<notin> set (lbas R)" "l \<notin> set (lbas_es xs)" "l \<notin> set (lbas_es ys)" "l \<notin> set (flbas fs)"
    using p by (auto simp: pending_def)
  have K: "keeps (bsz c) (blk c) (blk c2) k" if "k \<in> ?S" "k \<noteq> l" for k using B(2) [OF that] by (rule keeps_eq)
  have "rep g (bsz c) (blk c2) lv L" "rep g (bsz c) (blk c2) lv R"
    "rep_es g (bsz c) (blk c2) lv xs" "rep_es g (bsz c) (blk c2) lv ys" "frep g (bsz c) (blk c2) (Suc lv) l fs"
    using p dl K by (auto simp: pending_def intro!: rep_frame [of _ _ "blk c" "blk c2"] frep_frame [of _ _ "blk c" "blk c2"])
  then have rp: "rep g (bsz c) (blk c2) (lv + Suc (length fs)) (plug fs (IndexN l r ?M))"
    using rep_plug [of g "bsz c" "blk c2" "Suc lv" fs "IndexN l r ?M"] ndb B(1) e'(3) p by (simp add: pending_def)
  have "finv g vk b (?f # fs)" using p by (simp add: pending_def)
  then have ki: "kinv g vk b None None (plug fs (IndexN l r ?M))"
    using kinv_plug [of g vk b fs "IndexN l r ?M"] kinv_merge [OF _ sp e'(2) refl] by auto
  have m: "sb c2 = sb c" "leaf_max g c2 = leaf_max g c" "index_max g c2 = index_max g c"
    using maxes_frame [OF H(3), of g] maxes_frame [OF w1(3), of g] by auto
  have cp: "caps (unat (leaf_max g c2)) (unat (index_max g c2)) (plug fs (IndexN l r ?M))"
    using p nm m by (simp add: caps_plug pending_def)
  have st: "set (lbas (plug fs (IndexN l r ?M))) = ?S" by (auto simp: set_lbas_plug)
  have "tree_ok g vk b c2 (h\<lparr>bh_checksum := ck\<rparr>) hl (lv + Suc (length fs)) (plug fs (IndexN l r ?M)) fl"
    unfolding tree_ok_def st
    using H(2) rp ki cp m p tlba_plug_cong [of "IndexN l r (xs @ (e, L) # ys)" "IndexN l r ?M" fs]
    by (auto simp: pending_def distinct_lbas_plug set_rlinks_plug)
  moreover have "outside (?S \<union> set fl \<union> {hl}) c c2"
    by (rule outside_trans [OF outside_mono [OF w1(3)] H(3)]) (use lS in auto)
  moreover have "fresh_from (?S \<union> set fl \<union> {hl}) c (set (lbas (plug fs (IndexN l r ?M))) \<union> set fl)" unfolding st by (auto simp: fresh_from_def)
  ultimately show ?thesis unfolding res grown_def by (fastforce simp: recs_plug leaves_plug)
qed

text \<open>The step on a full parent: it is split and the next parent is told.\<close>

lemma propagate_full:
  assumes p: "pending g vk b c h hl lv L R ((l, r, xs, e, ys) # fs) kl p fl"
    and full: "\<not> node_keys (nh_dec (blk c l)) < index_max g c" and bm: "b \<or> fs = []" and lv: "lv < 255"
    and al: "obmafs3_btree_alloc_node c h = (Inr n, h1, c1)"
  shows "\<exists>c4 L' R' kl' p' fl'.
     propagate g c h hl ((l, length xs) # frame_path fs) p kl (tlba L)
       = propagate g c4 (h1\<lparr>total_nodes := total_nodes h1 + 1\<rparr>) hl (frame_path fs) p' kl' (tlba L') \<and>
     pending g vk b c4 (h1\<lparr>total_nodes := total_nodes h1 + 1\<rparr>) hl (Suc lv) L' R' fs kl' p' fl' \<and>
     recs L' @ recs R' = recs_es xs @ recs L @ recs R @ recs_es ys \<and>
     leaves L' @ leaves R' = leaves_es xs @ leaves L @ leaves R @ leaves_es ys \<and>
     length fl \<le> Suc (length fl') \<and>
     outside (set (lbas L @ lbas R @ flbas ((l, r, xs, e, ys) # fs)) \<union> set fl) c c4 \<and>
     (\<forall>k \<in> set (lbas L' @ lbas R' @ flbas fs) \<union> set fl'.
        k \<in> set (lbas L @ lbas R @ flbas ((l, r, xs, e, ys) # fs)) \<union> set fl \<or> \<not> used c (unat k))"
proof -
  let ?f = "(l, r, xs, e, ys)"
  let ?S = "set (lbas L @ lbas R @ flbas (?f # fs))"
  have w: "world g c h hl ?S fl" and lS: "l \<in> ?S" and env: "env_ok g c hl" using p by (auto simp: pending_def world_def)
  have nd: "node_is (bsz c) (blk c l) (Suc lv) r (ie_sz g) (map fst xs @ e # map fst ys)" using p by (simp add: pending_def)
  have le: "length e = ie_sz g" using node_is_elem [OF nd] by simp
  have sp: "split_ok g vk b (hole_lo g (?f # fs)) (hole_hi g (?f # fs)) kl L (ie_key g p) R" using p by (simp add: pending_def)
  define e' where "e' = set_ie_key g kl e"
  have e': "length e' = ie_sz g" "ie_key g e' = kl" "ie_child g e' = tlba L"
    using set_len [OF le] set_key [OF _ le] set_child [OF le] sp p by (auto simp: e'_def split_ok_def pending_def)
  define b0 where "b0 = put (nh_size + length xs * ie_sz g) e' (blk c l)"
  have nd0: "node_is (bsz c) b0 (Suc lv) r (ie_sz g) (map fst xs @ e' # map fst ys)"
    unfolding b0_def by (rule index_parent_update [OF nd e'(1)])
  define mx where "mx = unat (index_max g c)"
  define M where "M = xs @ (e', L) # (p, R) # ys"
  define il where "il = Suc mx div 2"
  have n: "unat (node_keys (nh_dec (blk c l))) = Suc (length xs + length ys)" using nd by (simp add: node_is_def)
  have mx: "Suc (length xs + length ys) = mx" "2 \<le> mx" "mx < 65535" "nh_size + mx * ie_sz g \<le> bsz c"
    using full n p index_max_bounds [OF env] by (auto simp: mx_def pending_def word_less_nat_alt)
  have lM: "length M = Suc mx" using mx(1) by (simp add: M_def)
  have il: "0 < il" "il < length M" "il \<le> mx" "Suc mx - il \<le> mx" using mx(2) lM by (auto simp: il_def)
  have lp: "length p = ie_sz g" using p by (simp add: pending_def)
  have eM: "x \<in> set (map fst M) \<Longrightarrow> length x = ie_sz g" for x
    using node_is_elem [OF nd0] lp by (auto simp: M_def)
  have "merged (ie_sz g) mx (length xs + 1) p (ndata b0) = concat (take (length xs + 1) (map fst xs @ e' # map fst ys) @ p # drop (length xs + 1) (map fst xs @ e' # map fst ys))"
    using nd0 mx by (intro merged_concat) (auto simp: node_is_def)
  then have mg: "merged (ie_sz g) mx (length xs + 1) p (ndata b0) = concat (map fst M)" by (simp add: M_def)
  have half: "take (il * ie_sz g) (concat (map fst M)) = concat (map fst (take il M))"
    "fld (il * ie_sz g) ((Suc mx - il) * ie_sz g) (concat (map fst M)) = concat (map fst (drop il M))"
    "slot (ie_sz g) il (concat (map fst M)) = fst (M ! il)" "slot (ie_sz g) 0 (concat (map fst M)) = fst (M ! 0)"
    using take_concat_eq [of "map fst M" "ie_sz g" il] fld_concat_rest [of "map fst M" "ie_sz g" il "Suc mx - il"]
      slot_concat_eq [of "map fst M" "ie_sz g" il] slot_concat_eq [of "map fst M" "ie_sz g" 0] eM il lM
    by (auto simp: take_map drop_map)
  have rd: "obmafs3_block_read c l (bsz c) = Inr (blk c l)"
    using w lS by (intro block_read_blk) (auto simp: world_def env_ok_def)
  have sl: "slot (ie_sz g) (length xs) (ndata (blk c l)) = e" using node_is_slot [OF nd, of "length xs"] by (simp add: nth_append)
  have u1: "unat (index_max g c + 1) = Suc mx" using unat_u16_Suc mx(3) by (simp add: mx_def)
  have rl: "right_link (nh_dec (blk c l)) = r" "unat (level (nh_dec (blk c l))) = Suc lv" using nd by (simp_all add: node_is_def)
  define b1 where "b1 = rewrite_image c1 (blk c l) il (ie_sz g) n (concat (map fst (take il M)))"
  define b2 where "b2 = fresh_image g (wrote c1 l b1) (level (nh_dec (blk c l))) (Suc mx - il) (ie_sz g) l r (concat (map fst (drop il M)))"
  have "outside (set fl) c c1" using world_alloc [OF w al] by blast
  then have m1: "sb c1 = sb c" "xxh64 c1 = xxh64 c" using maxes_frame [of _ c c1 g] by auto
  have fits: "nh_size + il * ie_sz g \<le> bsz c" "nh_size + (Suc mx - il) * ie_sz g \<le> bsz c"
    using mx(4) mult_le_mono1 [OF il(3), of "ie_sz g"] mult_le_mono1 [OF il(4), of "ie_sz g"] by linarith+
  have n1: "node_is (bsz c) b1 (Suc lv) n (ie_sz g) (map fst (take il M))"
    using rewrite_image_is [of c1 "blk c l" "Suc lv" r "ie_sz g" _ "map fst (take il M)" "ie_sz g" n] nd eM m1 fits(1) il mx
    by (auto simp: b1_def dest: in_set_takeD)
  have n2: "node_is (bsz c) b2 (Suc lv) r (ie_sz g) (map fst (drop il M))"
    using fresh_image_is [of "map fst (drop il M)" "ie_sz g" "wrote c1 l b1" g "level (nh_dec (blk c l))" l r] eM m1 fits(2) il mx lM rl(2)
    by (auto simp: b2_def dest: in_set_dropD)
  have nbS: "r \<in> insert 0 ?S" using p by (auto simp: pending_def)
  have l1: "length b1 = bsz c" "length b2 = bsz c" using n1 n2 by (simp_all add: node_is_def)
  define c4 where "c4 = fix_left_link (wrote (wrote c1 l b1) n b2) r n"
  note W = split_writes [OF w al lS nbS l1, folded c4_def]
  from W obtain fl' where fl': "world g c4 h1 hl (insert n ?S) fl'" "length fl \<le> Suc (length fl')"
    "\<forall>k \<in> set fl'. k \<in> set fl \<or> \<not> used c (unat k)" by blast
  let ?L = "IndexN l n (take il M)" and ?R = "IndexN n r (drop il M)" and ?kl = "ie_key g (fst (M ! 0))" and ?kp = "ie_key g (fst (M ! il))"
  have step: "propagate g c h hl ((l, length xs) # frame_path fs) p kl (tlba L)
       = propagate g c4 (h1\<lparr>total_nodes := total_nodes h1 + 1\<rparr>) hl (frame_path fs) (mk_ie g ?kp n) ?kl l"
    using rd sl full al W env mg half u1 rl(1)
    by (simp add: propagate.simps(2) Let_def e'_def [symmetric] b0_def [symmetric] mx_def [symmetric] il_def [symmetric]
        b1_def [symmetric] b2_def [symmetric] c4_def [symmetric] env_ok_def)
  have fin: "finv g vk b (?f # fs)" using p by (simp add: pending_def)
  have kM: "kinv_es g vk b (hole_lo g fs) (hole_hi g fs) M"
    unfolding M_def by (rule kinv_merge [OF fin sp e'(2) refl])
  have sp': "split_ok g vk b (hole_lo g fs) (hole_hi g fs) ?kl ?L ?kp ?R"
    using split_ok_index [OF kM il(1,2)] bm by auto
  have key: "ie_key g (mk_ie g ?kp n) = ?kp" using sp' mk_key by (simp add: split_ok_def)
  have AD: "lbas_es (take il M) @ lbas_es (drop il M) = lbas_es xs @ lbas L @ lbas R @ lbas_es ys"
    "recs_es (take il M) @ recs_es (drop il M) = recs_es xs @ recs L @ recs R @ recs_es ys"
    "leaves_es (take il M) @ leaves_es (drop il M) = leaves_es xs @ leaves L @ leaves R @ leaves_es ys"
    "rlinks_es (take il M) @ rlinks_es (drop il M) = rlinks_es xs @ rlinks L @ rlinks R @ rlinks_es ys"
    by (simp_all flip: lbas_es_append recs_es_append leaves_es_append rlinks_es_append) (simp_all add: M_def)
  have stA: "set (lbas_es (take il M)) \<union> set (lbas_es (drop il M)) = set (lbas_es xs) \<union> set (lbas L) \<union> set (lbas R) \<union> set (lbas_es ys)"
    using arg_cong [OF AD(1), of set] by auto
  have stR: "set (rlinks_es (take il M)) \<union> set (rlinks_es (drop il M)) = set (rlinks_es xs) \<union> set (rlinks L) \<union> set (rlinks R) \<union> set (rlinks_es ys)"
    using arg_cong [OF AD(4), of set] by auto
  have S': "set (lbas ?L @ lbas ?R @ flbas fs) = insert n ?S" using stA by auto
  have wp: "world g c4 (h1\<lparr>total_nodes := total_nodes h1 + 1\<rparr>) hl (set (lbas ?L @ lbas ?R @ flbas fs)) fl'"
    unfolding S' using fl'(1) by (subst world_cong_hdr [of _ h1]) simp_all
  have nS: "n \<notin> ?S" using W by blast
  have d0: "distinct (lbas L @ lbas R @ l # lbas_es xs @ lbas_es ys @ flbas fs)" using p by (simp only: pending_def flbas.simps)
  have dAD: "distinct (lbas_es (take il M) @ lbas_es (drop il M))" unfolding AD(1) using d0 by auto
  have q: "l \<notin> set (lbas_es (take il M)) \<union> set (lbas_es (drop il M))" "l \<notin> set (flbas fs)" "l \<noteq> n"
    "n \<notin> set (lbas_es (take il M)) \<union> set (lbas_es (drop il M))" "n \<notin> set (flbas fs)" "distinct (flbas fs)"
    "(set (lbas_es (take il M)) \<union> set (lbas_es (drop il M))) \<inter> set (flbas fs) = {}"
    unfolding stA using d0 nS by auto
  have dp: "distinct (lbas ?L @ lbas ?R @ flbas fs)" using dAD q by auto
  have m4: "sb c4 = sb c" "leaf_max g c4 = leaf_max g c" "index_max g c4 = index_max g c"
    using W maxes_frame [of _ c c4 g] by blast+
  have K: "keeps (bsz c) (blk c) (blk c4) k" if "k \<in> ?S" "k \<noteq> l" for k using W that by blast
  have dl: "l \<notin> set (lbas L)" "l \<notin> set (lbas R)" "l \<notin> set (lbas_es xs)" "l \<notin> set (lbas_es ys)" "l \<notin> set (flbas fs)"
    using p by (auto simp: pending_def)
  have rs: "rep g (bsz c) (blk c4) lv L" "rep g (bsz c) (blk c4) lv R"
    "rep_es g (bsz c) (blk c4) lv xs" "rep_es g (bsz c) (blk c4) lv ys" "frep g (bsz c) (blk c4) (Suc lv) l fs"
    using p dl K by (auto simp: pending_def intro!: rep_frame [of _ _ "blk c" "blk c4"] frep_frame [of _ _ "blk c" "blk c4"])
  have "rep_es g (bsz c) (blk c4) lv M" using rs e'(3) p by (simp add: M_def pending_def)
  then have "rep_es g (bsz c) (blk c4) lv (take il M @ drop il M)" by simp
  then have rM: "rep_es g (bsz c) (blk c4) lv (take il M)" "rep_es g (bsz c) (blk c4) lv (drop il M)"
    unfolding rep_es_append by blast+
  have nodes: "node_is (bsz c) (blk c4 l) (Suc lv) n (ie_sz g) (map fst (take il M))"
    "node_is (bsz c) (blk c4 n) (Suc lv) r (ie_sz g) (map fst (drop il M))"
    using W n1 n2 by (auto simp: keeps_def)
  have "caps_es (unat (leaf_max g c)) (unat (index_max g c)) M" using p by (simp add: M_def pending_def)
  then have "caps_es (unat (leaf_max g c)) (unat (index_max g c)) (take il M @ drop il M)" by simp
  then have cM: "caps_es (unat (leaf_max g c)) (unat (index_max g c)) (take il M)" "caps_es (unat (leaf_max g c)) (unat (index_max g c)) (drop il M)"
    unfolding caps_es_append by blast+
  have "\<exists>a b. h1 = h\<lparr>free_node_lba := a, free_nodes := b\<rparr>" using W by blast
  then have "root_node_lba h1 = root_node_lba h" by auto
  moreover have "root_node_lba h = tlba (plug (?f # fs) L)" using p by (simp add: pending_def)
  ultimately have rt: "root_node_lba h1 = tlba (plug fs ?L)"
    using tlba_plug_cong [of "IndexN l r (xs @ (e, L) # ys)" ?L fs] by simp
  have rl0: "set (rlinks L @ rlinks R @ frlinks (?f # fs)) \<subseteq> insert 0 ?S" using p by (simp only: pending_def)
  have "pending g vk b c4 (h1\<lparr>total_nodes := total_nodes h1 + 1\<rparr>) hl (Suc lv) ?L ?R fs ?kl (mk_ie g ?kp n) fl'"
    unfolding pending_def m4 key
  proof (intro conjI)
    show "rep g (bsz c) (blk c4) (Suc lv) ?L" "rep g (bsz c) (blk c4) (Suc lv) ?R" using nodes rM by simp_all
    show "caps (unat (leaf_max g c)) (unat (index_max g c)) ?L" "caps (unat (leaf_max g c)) (unat (index_max g c)) ?R"
      using cM il(3,4) lM by (simp_all add: mx_def)
    show "set (rlinks ?L @ rlinks ?R @ frlinks fs) \<subseteq> insert 0 (set (lbas ?L @ lbas ?R @ flbas fs))"
      unfolding S' using stR rl0 by auto
  qed (use wp dp sp' fin rs(5) mk_len mk_child rt p in \<open>simp_all add: pending_def\<close>)
  moreover have "\<forall>k \<in> set (lbas ?L @ lbas ?R @ flbas fs) \<union> set fl'. k \<in> ?S \<union> set fl \<or> \<not> used c (unat k)"
    unfolding S' using W fl'(3) by blast
  ultimately show ?thesis
    using step AD fl'(2) W
    by (intro exI [of _ c4] exI [of _ ?L] exI [of _ ?R] exI [of _ ?kl] exI [of _ "mk_ie g ?kp n"] exI [of _ fl']) simp
qed

end

section \<open>Insertion into the sorted list of records\<close>

fun ins_rec :: "('a \<Rightarrow> 'k :: linorder) \<Rightarrow> 'a \<Rightarrow> 'a list \<Rightarrow> 'a list" where
  "ins_rec f r [] = [r]"
| "ins_rec f r (x # xs) = (if f x < f r then x # ins_rec f r xs else if f x = f r then r # xs else r # x # xs)"

lemma ins_rec_skip: "(\<And>x. x \<in> set xs \<Longrightarrow> f x < f r) \<Longrightarrow> ins_rec f r (xs @ ys) = xs @ ins_rec f r ys"
  by (induction xs) auto

lemma ins_rec_before: "(\<And>x. x \<in> set ys \<Longrightarrow> f r < f x) \<Longrightarrow> ins_rec f r (xs @ ys) = ins_rec f r xs @ ys"
proof (induction xs)
  case Nil
  show ?case
  proof (cases ys)
    case (Cons y ys')
    then have "f r < f y" using Nil by simp
    then show ?thesis using Cons by auto
  qed simp
qed auto

lemma set_ins_rec: "set (ins_rec f r xs) \<subseteq> insert r (set xs)"
  by (induction xs) auto

lemma sorted_ins_rec: "sorted_wrt (<) (map f xs) \<Longrightarrow> sorted_wrt (<) (map f (ins_rec f r xs))"
proof (induction xs)
  case (Cons x xs)
  have "f x < f y" if "y \<in> set (ins_rec f r xs)" "f x < f r" for y
    using set_ins_rec [of f r xs] that Cons.prems by auto
  then show ?case using Cons by (auto dest: order.strict_trans)
qed simp

lemma hd_ins_rec: "xs \<noteq> [] \<Longrightarrow> f (hd xs) \<le> f r \<Longrightarrow> ins_rec f r xs \<noteq> [] \<and> f (hd (ins_rec f r xs)) = f (hd xs)"
  by (cases xs) auto

lemma ins_rec_miss:
  assumes "i \<le> length xs" "\<And>j. j < i \<Longrightarrow> f (xs ! j) < f r" "\<And>j. i \<le> j \<Longrightarrow> j < length xs \<Longrightarrow> f r < f (xs ! j)"
  shows "ins_rec f r xs = take i xs @ r # drop i xs"
proof -
  have "ins_rec f r (take i xs @ drop i xs) = take i xs @ ins_rec f r ([] @ drop i xs)"
    using assms(1,2) by (subst ins_rec_skip) (auto simp: in_set_conv_nth)
  also have "ins_rec f r ([] @ drop i xs) = [r] @ drop i xs"
    using assms(1,3) by (subst ins_rec_before) (auto simp: in_set_conv_nth)
  finally show ?thesis by simp
qed

lemma ins_rec_hit:
  assumes "sorted_wrt (<) (map f xs)" "i < length xs" "f (xs ! i) = f r"
  shows "ins_rec f r xs = xs[i := r]"
proof -
  have lt: "f (xs ! j) < f r" if "j < i" for j
    using sorted_lt_nth [OF assms(1), of j i] assms(2,3) that by simp
  have "xs = take i xs @ xs ! i # drop (Suc i) xs" using assms(2) by (rule id_take_nth_drop)
  moreover have "ins_rec f r (take i xs @ xs ! i # drop (Suc i) xs) = take i xs @ r # drop (Suc i) xs"
    using assms(2,3) lt by (subst ins_rec_skip) (auto simp: in_set_conv_nth)
  ultimately show ?thesis using upd_conv_take_nth_drop [OF assms(2), of r] by simp
qed

text \<open>The leaves form a chain through their right links.\<close>

fun chained :: "(u64 \<times> u64) list \<Rightarrow> bool" where
  "chained [] \<longleftrightarrow> True"
| "chained [(l, r)] \<longleftrightarrow> r = 0"
| "chained ((l, r) # (l', r') # xs) \<longleftrightarrow> r = l' \<and> chained ((l', r') # xs)"

lemma chained_split: "chained (xs @ (l, r) # ys) \<Longrightarrow> chained (xs @ (l, n) # (n, r) # ys)"
proof (induction xs rule: chained.induct)
  case 1
  then show ?case by (cases ys) auto
next
  case (2 l' r')
  then show ?case by (cases ys) auto
qed auto

context tree_layout
begin

lemma propagate_grown:
  assumes "pending g vk b c h hl lv L R fs kl p fl" "lv + length fs < 255" "b \<or> length fs \<le> 1"
  shows "grown g vk b hl (lv + length fs) (frecs_l fs @ recs L @ recs R @ frecs_r fs)
     (fleaves_l fs @ leaves L @ leaves R @ fleaves_r fs) (set (lbas L @ lbas R @ flbas fs) \<union> set fl \<union> {hl})
     (Suc (length fs)) fl c (propagate g c h hl (frame_path fs) p kl (tlba L))"
  using assms
proof (induction fs arbitrary: c h lv L R kl p fl)
  case Nil
  then show ?case using new_root_grown by (simp add: frame_path_def propagate.simps)
next
  case (Cons f fs)
  obtain l r xs e ys where f: "f = (l, r, xs, e, ys)" by (cases f) auto
  let ?S = "set (lbas L @ lbas R @ flbas (f # fs))"
  have w: "world g c h hl ?S fl" using Cons.prems(1) by (simp add: pending_def)
  have fp: "frame_path ((l, r, xs, e, ys) # fs) = (l, length xs) # frame_path fs" by (simp add: frame_path_def)
  show ?case
  proof (cases "node_keys (nh_dec (blk c l)) < index_max g c")
    case True
    then show ?thesis using propagate_room [OF Cons.prems(1) [unfolded f] True, of "Suc (length (f # fs))"] unfolding f fp by simp
  next
    case full: False
    obtain q h1 c1 where al: "obmafs3_btree_alloc_node c h = (q, h1, c1)" by (cases "obmafs3_btree_alloc_node c h") auto
    show ?thesis
    proof (cases q)
      case (Inl x)
      have "env_ok g c hl" "in_vol c l" using w by (auto simp: world_def f)
      then have "obmafs3_block_read c l (bsz c) = Inr (blk c l)" "heap_ok c" by (auto simp: env_ok_def intro: block_read_blk)
      then show ?thesis
        using al Inl full world_alloc_fail [OF w, of x h1 c1] unfolding f fp by (simp add: grown_def propagate.simps Let_def)
    next
      case (Inr n)
      have bm: "b \<or> fs = []" and lv: "lv < 255" using Cons.prems(2,3) by auto
      obtain c4 L' R' kl' p' fl' where P:
        "propagate g c h hl (frame_path (f # fs)) p kl (tlba L)
          = propagate g c4 (h1\<lparr>total_nodes := total_nodes h1 + 1\<rparr>) hl (frame_path fs) p' kl' (tlba L')"
        "pending g vk b c4 (h1\<lparr>total_nodes := total_nodes h1 + 1\<rparr>) hl (Suc lv) L' R' fs kl' p' fl'"
        "recs L' @ recs R' = recs_es xs @ recs L @ recs R @ recs_es ys"
        "leaves L' @ leaves R' = leaves_es xs @ leaves L @ leaves R @ leaves_es ys"
        "length fl \<le> Suc (length fl')" "outside (?S \<union> set fl) c c4"
        "\<forall>k \<in> set (lbas L' @ lbas R' @ flbas fs) \<union> set fl'. k \<in> ?S \<union> set fl \<or> \<not> used c (unat k)"
        using propagate_full [OF Cons.prems(1) [unfolded f] full bm lv al [unfolded Inr]] unfolding f fp by blast
      have IH: "grown g vk b hl (Suc lv + length fs) (frecs_l fs @ recs L' @ recs R' @ frecs_r fs)
         (fleaves_l fs @ leaves L' @ leaves R' @ fleaves_r fs) (set (lbas L' @ lbas R' @ flbas fs) \<union> set fl' \<union> {hl})
         (Suc (length fs)) fl' c4 (propagate g c h hl (frame_path (f # fs)) p kl (tlba L))"
        unfolding P(1) by (rule Cons.IH [OF P(2)]) (use Cons.prems(2,3) in auto)
      have out: "outside (?S \<union> set fl \<union> {hl}) c c'" if "outside (set (lbas L' @ lbas R' @ flbas fs) \<union> set fl' \<union> {hl}) c4 c'" for c'
        by (rule outside_trans [OF outside_mono [OF P(6)] that]) (use P(7) in auto)
      have "fresh_from (?S \<union> set fl \<union> {hl}) c (set (lbas L' @ lbas R' @ flbas fs) \<union> set fl' \<union> {hl})" using P(7) by (auto simp: fresh_from_def)
      note fr = fresh_from_trans [OF _ this P(6)]
      have "frecs_l (f # fs) @ recs L @ recs R @ frecs_r (f # fs) = frecs_l fs @ recs L' @ recs R' @ frecs_r fs"
        "fleaves_l (f # fs) @ leaves L @ leaves R @ fleaves_r (f # fs) = fleaves_l fs @ leaves L' @ leaves R' @ fleaves_r fs"
        using P(3,4) by (simp_all add: f flip: append_assoc)
      then show ?thesis using IH P(5) out fr by (fastforce simp: grown_def split: prod.splits)
    qed
  qed
qed

lemma kinv_ins_leaf:
  assumes "kinv g vk b lo hi (LeafN l r rs)" "ge_lo lo (rec_key g x)" "lt_hi (rec_key g x) hi" "vk (rec_key g x)"
  shows "kinv g vk b lo hi (LeafN l r' (ins_rec (rec_key g) x rs))"
proof -
  let ?rs = "ins_rec (rec_key g) x rs"
  have "first_ok b lo (map (rec_key g) ?rs)"
    using assms hd_ins_rec [of rs "rec_key g" x] by (auto simp: first_ok_def hd_map split: option.splits)
  moreover have "\<forall>y \<in> set ?rs. vk (rec_key g y) \<and> ge_lo lo (rec_key g y) \<and> lt_hi (rec_key g y) hi"
    using set_ins_rec [of "rec_key g" x rs] assms by auto
  ultimately show ?thesis using assms(1) sorted_ins_rec [of "rec_key g" rs x] by simp
qed

lemma recs_ins_plug:
  assumes "finv g vk b fs" "ge_lo (hole_lo g fs) (rec_key g x)" "lt_hi (rec_key g x) (hole_hi g fs)"
  shows "ins_rec (rec_key g) x (frecs_l fs @ rs @ frecs_r fs) = frecs_l fs @ ins_rec (rec_key g) x rs @ frecs_r fs"
proof -
  have "rec_key g y < rec_key g x" if "y \<in> set (frecs_l fs)" for y
    using finv_sides(1) [OF assms(1) that] assms(2) by auto
  moreover have "rec_key g x < rec_key g y" if "y \<in> set (frecs_r fs)" for y
    using finv_sides(2) [OF assms(1) that] assms(3) by auto
  ultimately show ?thesis by (simp add: ins_rec_skip ins_rec_before)
qed

text \<open>A leaf rewritten in place.\<close>

lemma leaf_replaced:
  assumes ok: "tree_ok g vk b c h hl lv (plug fs (LeafN l r rs)) fl" and lv: "lv = length fs"
    and nd: "node_is (bsz c) buf 0 r (rec_sz g) rs'" and k: "kinv g vk b (hole_lo g fs) (hole_hi g fs) (LeafN l r rs')"
    and cp: "length rs' \<le> unat (leaf_max g c)"
  shows "obmafs3_block_write c l buf = (OBMAFS3_OK, wrote c l buf)"
    and "tree_ok g vk b (wrote c l buf) h hl lv (plug fs (LeafN l r rs')) fl" and "outside {l} c (wrote c l buf)"
proof -
  have w: "world g c h hl (set (lbas (plug fs (LeafN l r rs)))) fl" using ok by (simp add: tree_ok_def)
  have lS: "l \<in> set (lbas (plug fs (LeafN l r rs)))" by (simp add: set_lbas_plug)
  have lb: "length buf = bsz c" using nd by (simp add: node_is_def)
  note w1 = world_write [OF w lS lb]
  show "obmafs3_block_write c l buf = (OBMAFS3_OK, wrote c l buf)" "outside {l} c (wrote c l buf)" by (fact w1)+
  have dl: "l \<notin> set (flbas fs)" "distinct (flbas fs)" using ok by (auto simp: tree_ok_def distinct_lbas_plug)
  have "frep g (bsz c) (blk c) 0 l fs" using ok lv rep_plug [of g "bsz c" "blk c" 0 fs "LeafN l r rs"] by (simp add: tree_ok_def)
  moreover have "keeps (bsz c) (blk c) (blk (wrote c l buf)) k" if "k \<in> set (flbas fs)" for k
    using w1(4) [of k] dl(1) that by (auto simp: set_lbas_plug intro: keeps_eq)
  ultimately have "frep g (bsz c) (blk (wrote c l buf)) 0 l fs" using frep_frame by blast
  then have "rep g (bsz c) (blk (wrote c l buf)) lv (plug fs (LeafN l r rs'))"
    using rep_plug [of g "bsz c" "blk (wrote c l buf)" 0 fs "LeafN l r rs'"] lv nd w1(4) [OF lS] by simp
  moreover have "kinv g vk b None None (plug fs (LeafN l r rs'))" using ok k by (simp add: tree_ok_def kinv_plug)
  moreover have "leaf_max g (wrote c l buf) = leaf_max g c" "index_max g (wrote c l buf) = index_max g c"
    by (simp_all add: leaf_max_def index_max_def)
  moreover have "caps (unat (leaf_max g c)) (unat (index_max g c)) (plug fs (LeafN l r rs'))" using ok cp by (simp add: tree_ok_def caps_plug)
  ultimately show "tree_ok g vk b (wrote c l buf) h hl lv (plug fs (LeafN l r rs')) fl"
    using w1(2) ok dl tlba_plug_cong [of "LeafN l r rs" "LeafN l r rs'" fs]
    by (simp add: tree_ok_def set_lbas_plug distinct_lbas_plug set_rlinks_plug)
qed

end

end
