(* ===== verification/BPlusOps.thy ===== *)
theory BPlusOps
  imports BPlusInsert
begin

text \<open>
  The operations of a B+Tree on disk, against the sorted list of its records: a lookup finds
  the record with the key, an insertion inserts or replaces one record, keeps the tree
  well-formed and touches no foreign block.
\<close>

context tree_layout
begin

lemma leaf_split_pending:
  assumes ok: "tree_ok g vk b c h hl lv (plug fs (LeafN l r rs)) fl" and lv: "lv = length fs"
    and full: "\<not> node_keys (nh_dec (blk c l)) < leaf_max g c" and lx: "length x = rec_sz g"
    and k: "kinv g vk b (hole_lo g fs) (hole_hi g fs) (LeafN l r (take pos rs @ x # drop pos rs))" and pos: "pos \<le> length rs"
    and al: "obmafs3_btree_alloc_node c h = (Inr n, h1, c1)"
  shows "\<exists>c4 L R kl p fl'. leaf_split g c h hl x l (blk c l) pos (frame_path fs)
       = propagate g c4 (h1\<lparr>total_nodes := total_nodes h1 + 1\<rparr>) hl (frame_path fs) p kl (tlba L) \<and>
     pending g vk b c4 (h1\<lparr>total_nodes := total_nodes h1 + 1\<rparr>) hl 0 L R fs kl p fl' \<and>
     recs L @ recs R = take pos rs @ x # drop pos rs \<and> leaves L @ leaves R = [(l, n), (n, r)] \<and>
     length fl \<le> Suc (length fl') \<and> outside (set (lbas (plug fs (LeafN l r rs))) \<union> set fl) c c4 \<and>
     (\<forall>k \<in> set (lbas L @ lbas R @ flbas fs) \<union> set fl'.
        k \<in> set (lbas (plug fs (LeafN l r rs))) \<union> set fl \<or> \<not> used c (unat k))"
proof -
  let ?S = "set (lbas (plug fs (LeafN l r rs)))"
  have S: "?S = insert l (set (flbas fs))" by (simp add: set_lbas_plug)
  have w: "world g c h hl ?S fl" and env: "env_ok g c hl" using ok by (auto simp: tree_ok_def world_def)
  have lS: "l \<in> ?S" by (simp add: S)
  have rp: "rep g (bsz c) (blk c) 0 (LeafN l r rs)" "frep g (bsz c) (blk c) 0 l fs"
    using ok lv rep_plug [of g "bsz c" "blk c" 0 fs "LeafN l r rs"] by (simp_all add: tree_ok_def)
  then have nd: "node_is (bsz c) (blk c l) 0 r (rec_sz g) rs" by simp
  define mx where "mx = unat (leaf_max g c)"
  define M where "M = take pos rs @ x # drop pos rs"
  define k1 where "k1 = Suc mx div 2"
  have mx: "length rs = mx" "1 \<le> mx" "mx < 65535" "nh_size + mx * rec_sz g \<le> bsz c"
    using full nd ok leaf_max_bounds [OF env] by (auto simp: mx_def node_is_def word_less_nat_alt tree_ok_def caps_plug)
  have lM: "length M = Suc mx" using mx(1) pos by (simp add: M_def)
  have kk: "0 < k1" "k1 < length M" "k1 \<le> mx" "Suc mx - k1 \<le> mx" using mx(2) lM by (auto simp: k1_def)
  have eM: "y \<in> set M \<Longrightarrow> length y = rec_sz g" for y
    using node_is_elem [OF nd] lx by (auto simp: M_def dest: in_set_takeD in_set_dropD)
  have mg: "merged (rec_sz g) mx pos x (ndata (blk c l)) = concat M"
    unfolding M_def using nd mx pos by (intro merged_concat) (auto simp: node_is_def)
  have half: "take (k1 * rec_sz g) (concat M) = concat (take k1 M)"
    "fld (k1 * rec_sz g) ((Suc mx - k1) * rec_sz g) (concat M) = concat (drop k1 M)"
    "slot (rec_sz g) k1 (concat M) = M ! k1" "slot (rec_sz g) 0 (concat M) = M ! 0"
    using take_concat_eq [of M "rec_sz g" k1] fld_concat_rest [of M "rec_sz g" k1 "Suc mx - k1"]
      slot_concat_eq [of M "rec_sz g" k1] slot_concat_eq [of M "rec_sz g" 0] eM kk lM by auto
  have u1: "unat (leaf_max g c + 1) = Suc mx" using unat_u16_Suc mx(3) by (simp add: mx_def)
  have rl: "right_link (nh_dec (blk c l)) = r" using nd by (simp add: node_is_def)
  define b1 where "b1 = rewrite_image c1 (blk c l) k1 (rec_sz g) n (concat (take k1 M))"
  define b2 where "b2 = fresh_image g (wrote c1 l b1) 0 (Suc mx - k1) (rec_sz g) l r (concat (drop k1 M))"
  have "outside (set fl) c c1" using world_alloc [OF w al] by blast
  then have m1: "sb c1 = sb c" "xxh64 c1 = xxh64 c" using maxes_frame [of _ c c1 g] by auto
  have fits: "nh_size + k1 * rec_sz g \<le> bsz c" "nh_size + (Suc mx - k1) * rec_sz g \<le> bsz c"
    using mx(4) mult_le_mono1 [OF kk(3), of "rec_sz g"] mult_le_mono1 [OF kk(4), of "rec_sz g"] by linarith+
  have n1: "node_is (bsz c) b1 0 n (rec_sz g) (take k1 M)"
    using rewrite_image_is [of c1 "blk c l" 0 r "rec_sz g" _ "take k1 M" "rec_sz g" n] nd eM m1 fits(1) kk mx
    by (auto simp: b1_def dest: in_set_takeD)
  have n2: "node_is (bsz c) b2 0 r (rec_sz g) (drop k1 M)"
    using fresh_image_is [of "drop k1 M" "rec_sz g" "wrote c1 l b1" g 0 l r] eM m1 fits(2) kk mx lM
    by (auto simp: b2_def dest: in_set_dropD)
  have rl0: "set (r # frlinks fs) \<subseteq> insert 0 ?S" using ok by (auto simp: tree_ok_def set_rlinks_plug)
  then have nbS: "r \<in> insert 0 ?S" by simp
  have l1: "length b1 = bsz c" "length b2 = bsz c" using n1 n2 by (simp_all add: node_is_def)
  define c4 where "c4 = fix_left_link (wrote (wrote c1 l b1) n b2) r n"
  note W = split_writes [OF w al lS nbS l1, folded c4_def]
  from W obtain fl' where fl': "world g c4 h1 hl (insert n ?S) fl'" "length fl \<le> Suc (length fl')"
    "\<forall>k \<in> set fl'. k \<in> set fl \<or> \<not> used c (unat k)" by blast
  let ?L = "LeafN l n (take k1 M)" and ?R = "LeafN n r (drop k1 M)" and ?kl = "rec_key g (M ! 0)" and ?kp = "rec_key g (M ! k1)"
  have step: "leaf_split g c h hl x l (blk c l) pos (frame_path fs)
       = propagate g c4 (h1\<lparr>total_nodes := total_nodes h1 + 1\<rparr>) hl (frame_path fs) (mk_ie g ?kp n) ?kl l"
    using al W env mg half u1 rl
    by (simp add: leaf_split_def Let_def mx_def [symmetric] k1_def [symmetric]
        b1_def [symmetric] b2_def [symmetric] c4_def [symmetric] env_ok_def)
  have sp: "split_ok g vk b (hole_lo g fs) (hole_hi g fs) ?kl ?L ?kp ?R"
    by (rule split_ok_leaf) (use k kk in \<open>auto simp: M_def\<close>)
  have key: "ie_key g (mk_ie g ?kp n) = ?kp" using sp mk_key by (simp add: split_ok_def)
  have S': "set (lbas ?L @ lbas ?R @ flbas fs) = insert n ?S" by (auto simp: S)
  have wp: "world g c4 (h1\<lparr>total_nodes := total_nodes h1 + 1\<rparr>) hl (set (lbas ?L @ lbas ?R @ flbas fs)) fl'"
    unfolding S' using fl'(1) by (subst world_cong_hdr [of _ h1]) simp_all
  have d0: "distinct (l # flbas fs)" using ok by (simp add: tree_ok_def distinct_lbas_plug)
  moreover have "n \<notin> ?S" using W by blast
  ultimately have dp: "distinct (lbas ?L @ lbas ?R @ flbas fs)" by (auto simp: S)
  have m4: "sb c4 = sb c" "leaf_max g c4 = leaf_max g c" "index_max g c4 = index_max g c"
    using W maxes_frame [of _ c c4 g] by blast+
  have K: "keeps (bsz c) (blk c) (blk c4) k" if "k \<in> set (flbas fs)" for k using W that d0 by (auto simp: S)
  have fr: "frep g (bsz c) (blk c4) 0 l fs" by (rule frep_frame [OF K rp(2)])
  have nodes: "node_is (bsz c) (blk c4 l) 0 n (rec_sz g) (take k1 M)" "node_is (bsz c) (blk c4 n) 0 r (rec_sz g) (drop k1 M)"
    using W n1 n2 unfolding keeps_def by blast+
  have "\<exists>a b. h1 = h\<lparr>free_node_lba := a, free_nodes := b\<rparr>" using W by blast
  then have "root_node_lba h1 = root_node_lba h" by auto
  then have rt: "root_node_lba h1 = tlba (plug fs ?L)"
    using ok tlba_plug_cong [of "LeafN l r rs" ?L fs] by (simp add: tree_ok_def)
  have fc: "fcaps (unat (leaf_max g c)) (unat (index_max g c)) fs" "finv g vk b fs"
    using ok by (simp_all add: tree_ok_def caps_plug kinv_plug)
  have "pending g vk b c4 (h1\<lparr>total_nodes := total_nodes h1 + 1\<rparr>) hl 0 ?L ?R fs ?kl (mk_ie g ?kp n) fl'"
    unfolding pending_def m4 key
  proof (intro conjI)
    show "caps (unat (leaf_max g c)) (unat (index_max g c)) ?L" "caps (unat (leaf_max g c)) (unat (index_max g c)) ?R"
      using kk(3,4) lM by (simp_all add: mx_def)
    show "set (rlinks ?L @ rlinks ?R @ frlinks fs) \<subseteq> insert 0 (set (lbas ?L @ lbas ?R @ flbas fs))"
      unfolding S' using rl0 by auto
  qed (use wp dp sp fr fc nodes mk_len mk_child rt in simp_all)
  moreover have "\<forall>k \<in> set (lbas ?L @ lbas ?R @ flbas fs) \<union> set fl'. k \<in> ?S \<union> set fl \<or> \<not> used c (unat k)"
    unfolding S' using W fl'(3) by blast
  moreover have "recs ?L @ recs ?R = M" "leaves ?L @ leaves ?R = [(l, n), (n, r)]" "tlba ?L = l" by simp_all
  moreover have "outside (?S \<union> set fl) c c4" using W by blast
  ultimately show ?thesis
    unfolding M_def [symmetric] using step fl'(2)
    by (intro exI [of _ c4] exI [of _ ?L] exI [of _ ?R] exI [of _ ?kl] exI [of _ "mk_ie g ?kp n"] exI [of _ fl'] conjI) simp_all
qed


end

section \<open>Operations against the list of records\<close>

text \<open>
  The state of a tree as its clients see it: the records \<open>rs\<close> in key order, the blocks \<open>own\<close>
  that hold them, the height \<open>lv\<close> and the reserve \<open>fl\<close> of free nodes. The flag \<open>b\<close> asks for
  exact separators, which hold until a record is deleted.
\<close>

definition holds ::
    "('k :: linorder) tree_cfg \<Rightarrow> ('k \<Rightarrow> bool) \<Rightarrow> bool \<Rightarrow> ctx \<Rightarrow> btree_header \<Rightarrow> u64 \<Rightarrow> nat \<Rightarrow> u64 set \<Rightarrow> u64 list \<Rightarrow> bytes list \<Rightarrow> bool" where
  "holds g vk b c h hl lv own fl rs \<longleftrightarrow>
     (root_node_lba h = 0 \<and> lv = 0 \<and> own = {} \<and> rs = [] \<and> world g c h hl {} fl) \<or>
     (\<exists>t. tree_ok g vk b c h hl lv t fl \<and> own = set (lbas t) \<and> recs t = rs \<and> chained (leaves t))"

text \<open>The outcome of an insertion.\<close>

definition stored ::
    "('k :: linorder) tree_cfg \<Rightarrow> ('k \<Rightarrow> bool) \<Rightarrow> bool \<Rightarrow> u64 \<Rightarrow> nat \<Rightarrow> bytes list \<Rightarrow> u64 set \<Rightarrow> u64 list \<Rightarrow> ctx \<Rightarrow>
     rc \<times> btree_header \<times> ctx \<Rightarrow> bool" where
  "stored g vk b hl lv rs own fl c res \<longleftrightarrow> (case res of (r, h', c') \<Rightarrow>
     (r = OBMAFS3_ERR_NOSPC \<and> length fl < lv + 2) \<or>
     (r = OBMAFS3_OK \<and> outside (own \<union> set fl \<union> {hl}) c c' \<and>
        (\<exists>lv' own' fl'. holds g vk b c' h' hl lv' own' fl' rs \<and> lv' \<le> Suc lv \<and> (length rs \<le> unat (leaf_max g c) \<longrightarrow> lv' = lv) \<and>
           fresh_from (own \<union> set fl \<union> {hl}) c (own' \<union> set fl'))))"

lemma tree_ok_root: "tree_ok g vk b c h hl lv t fl \<Longrightarrow> root_node_lba h \<noteq> 0"
  by (cases t) (auto simp: tree_ok_def world_def)

lemma holds_sorted:
  assumes "holds g vk b c h hl lv own fl rs"
  shows "sorted_wrt (<) (map (rec_key g) rs)" and "\<And>x. x \<in> set rs \<Longrightarrow> vk (rec_key g x)"
  using assms kinv_recs(1) [of g vk b None None] by (fastforce simp: holds_def tree_ok_def)+

lemma storedI:
  assumes "grown g vk b hl lv rs ls T n fl c res" "T \<subseteq> own \<union> set fl \<union> {hl}" "n \<le> lv + 2" "chained ls" "unat (leaf_max g c) < length rs"
  shows "stored g vk b hl lv rs own fl c res"
proof -
  obtain r h' c' where res: "res = (r, h', c')" by (cases res) auto
  show ?thesis
  proof (cases "r = OBMAFS3_OK")
    case True
    then obtain t' lv' fl' where t: "outside T c c'" "tree_ok g vk b c' h' hl lv' t' fl'" "recs t' = rs" "leaves t' = ls" "lv' \<le> Suc lv"
      "fresh_from T c (set (lbas t') \<union> set fl')" using assms(1) by (auto simp: grown_def res)
    then have "holds g vk b c' h' hl lv' (set (lbas t')) fl' rs" using assms(4) by (auto simp: holds_def)
    moreover have "outside (own \<union> set fl \<union> {hl}) c c'" using t(1) assms(2) by (rule outside_mono)
    moreover have "fresh_from (own \<union> set fl \<union> {hl}) c (set (lbas t') \<union> set fl')" using t(6) assms(2) by (auto simp: fresh_from_def)
    ultimately show ?thesis using True t(5) assms(5) by (auto simp: stored_def res)
  next
    case False
    then show ?thesis using assms(1,3) by (auto simp: grown_def stored_def res)
  qed
qed

context tree_layout
begin

lemma put_empty_stored:
  assumes w: "world g c h hl {} fl" and lx: "length x = rec_sz g" and vk: "vk (rec_key g x)"
  shows "stored g vk b hl 0 [x] {} fl c (put_empty g c h hl x)"
proof -
  obtain r h1 c1 where al: "obmafs3_btree_alloc_node c h = (r, h1, c1)" by (cases "obmafs3_btree_alloc_node c h") auto
  show ?thesis
  proof (cases r)
    case (Inl e)
    then show ?thesis using al world_alloc_fail [OF w] by (simp add: put_empty_def stored_def)
  next
    case (Inr n)
    obtain fl' where A: "world g c1 h1 hl {n} fl'" "n \<in> set fl \<or> \<not> used c (unat n)" "outside (set fl) c c1"
        "\<forall>k \<in> set fl'. k \<in> set fl \<or> \<not> used c (unat k)"
      using world_alloc [OF w, of n h1 c1] al Inr by blast
    have env: "env_ok g c1 hl" using A(1) by (simp add: world_def)
    let ?b = "fresh_image g c1 0 1 (rec_sz g) 0 0 x"
    have nd: "node_is (bsz c1) ?b 0 0 (rec_sz g) [x]"
      using fresh_image_is [of "[x]" "rec_sz g" c1 g 0 0 0] lx env by (simp add: env_ok_def)
    have lb: "length ?b = bsz c1" using nd by (simp add: node_is_def)
    note w2 = world_write [OF A(1) insertI1 lb]
    let ?c2 = "wrote c1 n ?b" and ?h2 = "h1\<lparr>root_node_lba := n, total_nodes := 1\<rparr>"
    have "world g ?c2 ?h2 hl {n} fl'" using w2(2) by (subst world_cong_hdr [of _ h1]) simp_all
    from world_header [OF this] obtain ck c3 where
      H: "obmafs3_btree_header_write ?c2 hl ?h2 = (OBMAFS3_OK, ?h2\<lparr>bh_checksum := ck\<rparr>, c3)"
        "world g c3 (?h2\<lparr>bh_checksum := ck\<rparr>) hl {n} fl'" "outside {hl} ?c2 c3" "blk c3 n = blk ?c2 n" by blast
    have res: "put_empty g c h hl x = (OBMAFS3_OK, ?h2\<lparr>bh_checksum := ck\<rparr>, c3)"
      using al Inr w2(1) H(1) by (simp add: put_empty_def)
    have m3: "sb c3 = sb c1" "leaf_max g c3 = leaf_max g c1"
      using maxes_frame [OF H(3), of g] maxes_frame [OF w2(3), of g] by simp_all
    have "tree_ok g vk b c3 (?h2\<lparr>bh_checksum := ck\<rparr>) hl 0 (LeafN n 0 [x]) fl'"
      using H(2,4) nd w2(4) vk m3 leaf_max_bounds [OF env] by (simp add: tree_ok_def)
    then have "holds g vk b c3 (?h2\<lparr>bh_checksum := ck\<rparr>) hl 0 {n} fl' [x]"
      unfolding holds_def by (intro disjI2 exI [of _ "LeafN n 0 [x]"]) simp
    moreover have "outside (set fl \<union> {hl}) c c1" using A(3) by (rule outside_mono) auto
    then have "outside (set fl \<union> {hl}) c ?c2" by (rule outside_trans [OF _ w2(3)]) (use A(2) in auto)
    then have "outside (set fl \<union> {hl}) c c3" by (rule outside_trans [OF _ H(3)]) auto
    moreover have "fresh_from ({} \<union> set fl \<union> {hl}) c ({n} \<union> set fl')" using A(2,4) by (auto simp: fresh_from_def)
    ultimately show ?thesis using res by (fastforce simp: stored_def)
  qed
qed

lemma leaf_split_stored:
  assumes ok: "tree_ok g vk b c h hl lv (plug fs (LeafN l r rs)) fl" and lv: "lv = length fs" "lv \<le> 8" "b \<or> lv \<le> 1"
    and full: "\<not> node_keys (nh_dec (blk c l)) < leaf_max g c" and lx: "length x = rec_sz g"
    and k: "kinv g vk b (hole_lo g fs) (hole_hi g fs) (LeafN l r (take pos rs @ x # drop pos rs))" and pos: "pos \<le> length rs"
    and ch: "chained (leaves (plug fs (LeafN l r rs)))"
  shows "stored g vk b hl lv (frecs_l fs @ (take pos rs @ x # drop pos rs) @ frecs_r fs) (set (lbas (plug fs (LeafN l r rs)))) fl c
     (leaf_split g c h hl x l (blk c l) pos (frame_path fs))"
proof -
  let ?S = "set (lbas (plug fs (LeafN l r rs)))"
  have w: "world g c h hl ?S fl" using ok by (simp add: tree_ok_def)
  obtain q h1 c1 where al: "obmafs3_btree_alloc_node c h = (q, h1, c1)" by (cases "obmafs3_btree_alloc_node c h") auto
  show ?thesis
  proof (cases q)
    case (Inl e)
    have "heap_ok c" using w by (simp add: world_def env_ok_def)
    then show ?thesis using al Inl world_alloc_fail [OF w] by (simp add: leaf_split_def stored_def Let_def)
  next
    case (Inr n)
    obtain c4 L R kl p fl' where P: "leaf_split g c h hl x l (blk c l) pos (frame_path fs)
         = propagate g c4 (h1\<lparr>total_nodes := total_nodes h1 + 1\<rparr>) hl (frame_path fs) p kl (tlba L)"
       "pending g vk b c4 (h1\<lparr>total_nodes := total_nodes h1 + 1\<rparr>) hl 0 L R fs kl p fl'"
       "recs L @ recs R = take pos rs @ x # drop pos rs" "leaves L @ leaves R = [(l, n), (n, r)]"
       "length fl \<le> Suc (length fl')" "outside (?S \<union> set fl) c c4"
       "\<forall>k \<in> set (lbas L @ lbas R @ flbas fs) \<union> set fl'. k \<in> ?S \<union> set fl \<or> \<not> used c (unat k)"
      using leaf_split_pending [OF ok lv(1) full lx k pos al [unfolded Inr]] by blast
    have "chained (fleaves_l fs @ (l, n) # (n, r) # fleaves_r fs)"
      by (rule chained_split) (use ch in \<open>simp add: leaves_plug\<close>)
    then have ch': "chained (fleaves_l fs @ leaves L @ leaves R @ fleaves_r fs)"
      by (simp add: P(4) del: append_assoc flip: append_assoc [of "leaves L" "leaves R"])
    have G: "grown g vk b hl lv (frecs_l fs @ recs L @ recs R @ frecs_r fs)
     (fleaves_l fs @ leaves L @ leaves R @ fleaves_r fs) (set (lbas L @ lbas R @ flbas fs) \<union> set fl' \<union> {hl})
     (Suc lv) fl' c4 (leaf_split g c h hl x l (blk c l) pos (frame_path fs))"
      using propagate_grown [OF P(2)] lv P(1) by simp
    have out: "outside (?S \<union> set fl \<union> {hl}) c c'" if "outside (set (lbas L @ lbas R @ flbas fs) \<union> set fl' \<union> {hl}) c4 c'" for c'
      by (rule outside_trans [OF outside_mono [OF P(6)] that]) (use P(7) in auto)
    have "fresh_from (?S \<union> set fl \<union> {hl}) c (set (lbas L @ lbas R @ flbas fs) \<union> set fl' \<union> {hl})" using P(7) by (auto simp: fresh_from_def)
    note fr = fresh_from_trans [OF _ this P(6)]
    have "frecs_l fs @ recs L @ recs R @ frecs_r fs = frecs_l fs @ (take pos rs @ x # drop pos rs) @ frecs_r fs"
      by (simp add: P(3) del: append_assoc flip: append_assoc [of "recs L" "recs R"])
    then have gr: "grown g vk b hl lv (frecs_l fs @ (take pos rs @ x # drop pos rs) @ frecs_r fs)
     (fleaves_l fs @ leaves L @ leaves R @ fleaves_r fs) (?S \<union> set fl \<union> {hl}) (lv + 2) fl c (leaf_split g c h hl x l (blk c l) pos (frame_path fs))"
      using G P(5) out fr by (fastforce simp: grown_def split: prod.splits)
    have "unat (leaf_max g c) < length (take pos rs @ x # drop pos rs)"
      using full ok lv(1) rep_plug [of g "bsz c" "blk c" 0 fs "LeafN l r rs"] pos by (simp add: tree_ok_def node_is_def word_less_nat_alt)
    then show ?thesis by (intro storedI [OF gr _ _ ch']) simp_all
  qed
qed

lemma tree_put_stored:
  assumes hs: "holds g vk b c h hl lv own fl rs" and lv: "lv \<le> 8" "b \<or> lv \<le> 1"
    and lx: "length x = rec_sz g" and vk: "vk (rec_key g x)"
  shows "stored g vk b hl lv (ins_rec (rec_key g) x rs) own fl c (tree_put g c h hl x)"
proof (cases "root_node_lba h = 0")
  case True
  then have "lv = 0" "own = {}" "rs = []" "world g c h hl {} fl" using hs tree_ok_root [of g vk b c h hl] by (auto simp: holds_def)
  then show ?thesis using put_empty_stored [OF _ lx vk] True by (simp add: tree_put_def)
next
  case False
  then obtain t where t: "tree_ok g vk b c h hl lv t fl" "own = set (lbas t)" "recs t = rs" "chained (leaves t)"
    using hs by (auto simp: holds_def)
  have w: "world g c h hl (set (lbas t)) fl" "env_ok g c hl" using t(1) by (auto simp: tree_ok_def world_def)
  have "dev_ok c" "\<And>k. k \<in> set (lbas t) \<Longrightarrow> in_vol c k" "rep g (bsz c) (blk c) lv t"
    "kinv g vk b (hole_lo g []) (hole_hi g []) t" "root_node_lba h = tlba t"
    using w t(1) by (auto simp: world_def env_ok_def tree_ok_def)
  from descent [OF this(1-4), of "rec_key g x" 8 "[]"] lv(1) this(5)
  obtain fs l r ls where D: "t = plug fs (LeafN l r ls)" "length fs = lv"
     "tree_path g c (rec_key g x) 8 (root_node_lba h) [] = Inr (l, blk c l, frame_path fs)"
     "node_is (bsz c) (blk c l) 0 r (rec_sz g) ls"
     "kinv g vk b (hole_lo g fs) (hole_hi g fs) (LeafN l r ls)"
     "ge_lo (hole_lo g fs) (rec_key g x)" "lt_hi (rec_key g x) (hole_hi g fs)" by auto
  note ok = t(1) [unfolded D(1)]
  define idx where "idx = leaf_find g (blk c l) (node_keys (nh_dec (blk c l))) (rec_key g x)"
  have srt: "sorted_wrt (<) (map (rec_key g) ls)" using D(5) by simp
  note spec = leaf_find_spec [OF D(4) srt idx_def]
  have fin: "finv g vk b fs" using ok by (simp add: tree_ok_def kinv_plug)
  have rs: "ins_rec (rec_key g) x rs = frecs_l fs @ ins_rec (rec_key g) x ls @ frecs_r fs"
    using recs_ins_plug [OF fin D(6,7), of ls] t(3) by (simp add: D(1) recs_plug)
  have kl: "kinv g vk b (hole_lo g fs) (hole_hi g fs) (LeafN l r (ins_rec (rec_key g) x ls))"
    by (rule kinv_ins_leaf [OF D(5,6,7) vk])
  have cap: "length ls \<le> unat (leaf_max g c)" using ok by (simp add: tree_ok_def caps_plug)
  have nk: "unat (node_keys (nh_dec (blk c l))) = length ls" using D(4) by (simp add: node_is_def)
  have inplace: "stored g vk b hl lv (ins_rec (rec_key g) x rs) own fl c (case obmafs3_block_write c l buf of (e, c1) \<Rightarrow> (e, h, c1))"
    if nd: "node_is (bsz c) buf 0 r (rec_sz g) (ins_rec (rec_key g) x ls)"
      and cp: "length (ins_rec (rec_key g) x ls) \<le> unat (leaf_max g c)" for buf
  proof -
    note R = leaf_replaced [OF ok D(2) [symmetric] nd kl cp]
    have "holds g vk b (wrote c l buf) h hl lv own fl (ins_rec (rec_key g) x rs)"
      unfolding holds_def using R(2) t(2,4) rs
      by (intro disjI2 exI [of _ "plug fs (LeafN l r (ins_rec (rec_key g) x ls))"]) (simp add: D(1) set_lbas_plug recs_plug leaves_plug)
    moreover have "outside (own \<union> set fl \<union> {hl}) c (wrote c l buf)"
      using R(3) by (rule outside_mono) (simp add: t(2) D(1) set_lbas_plug)
    moreover have "fresh_from (own \<union> set fl \<union> {hl}) c (own \<union> set fl)" by (auto simp: fresh_from_def)
    ultimately show ?thesis using R(1) by (fastforce simp: stored_def)
  qed
  consider (hit) "0 \<le> idx" | (room) "idx < 0" "node_keys (nh_dec (blk c l)) < leaf_max g c"
    | (full) "idx < 0" "\<not> node_keys (nh_dec (blk c l)) < leaf_max g c" by linarith
  then show ?thesis
  proof cases
    case hit
    then have i: "nat idx < length ls" "ins_rec (rec_key g) x ls = ls[nat idx := x]" using spec(1) ins_rec_hit [OF srt] by auto
    have "node_is (bsz c) (compute_node_checksum (xxh64 c) (put (nh_size + nat idx * rec_sz g) x (blk c l))) 0 r (rec_sz g) (ls[nat idx := x])"
      using put_slot_is [OF D(4) lx i(1)] by (subst node_is_checksum) (auto simp: node_is_def)
    from inplace [unfolded i(2), OF this] show ?thesis
      using hit False D(3) cap by (simp add: tree_put_def Let_def BTREE_MAX_DEPTH_def idx_def [symmetric] i(2))
  next
    case room
    define pos where "pos = nat (- (idx + 1))"
    have posn: "nat (- idx - 1) = pos" by (simp add: pos_def algebra_simps)
    have pos: "pos \<le> length ls" and i: "ins_rec (rec_key g) x ls = take pos ls @ x # drop pos ls"
      using spec(2) room(1) by (auto simp: pos_def intro!: ins_rec_miss)
    have nm: "Suc (length ls) \<le> unat (leaf_max g c)" using room(2) nk by (simp add: word_less_nat_alt)
    then have "Suc (length ls) * rec_sz g \<le> unat (leaf_max g c) * rec_sz g" by (rule mult_le_mono1)
    then have fit: "nh_size + Suc (length ls) * rec_sz g \<le> bsz c" "Suc (length ls) < 65536"
      using leaf_max_bounds [OF w(2)] nm by linarith+
    have "node_is (bsz c) (grown_image c (blk c l) (rec_sz g) (insert_slot (rec_sz g) (length ls) pos x (blk c l))) 0 r (rec_sz g)
        (take pos ls @ x # drop pos ls)"
      using insert_slot_slots [OF D(4) lx pos fit(1)] fit by (intro grown_image_is [OF D(4)]) simp_all
    from inplace [unfolded i, OF this] show ?thesis
      using room False D(3) nm pos nk by (simp add: tree_put_def Let_def BTREE_MAX_DEPTH_def idx_def [symmetric] posn i)
  next
    case full
    define pos where "pos = nat (- (idx + 1))"
    have posn: "nat (- idx - 1) = pos" by (simp add: pos_def algebra_simps)
    have pos: "pos \<le> length ls" and i: "ins_rec (rec_key g) x ls = take pos ls @ x # drop pos ls"
      using spec(2) full(1) by (auto simp: pos_def intro!: ins_rec_miss)
    have "stored g vk b hl lv (ins_rec (rec_key g) x rs) own fl c (leaf_split g c h hl x l (blk c l) pos (frame_path fs))"
      using leaf_split_stored [OF ok D(2) [symmetric] lv full(2) lx kl [unfolded i] pos] t(2,4) rs i by (simp add: D(1))
    then show ?thesis
      using full False D(3) by (simp add: tree_put_def Let_def BTREE_MAX_DEPTH_def idx_def [symmetric] posn)
  qed
qed

end

text \<open>The records as a finite map.\<close>

definition rmap :: "('k :: linorder) tree_cfg \<Rightarrow> bytes list \<Rightarrow> 'k \<rightharpoonup> bytes" where
  "rmap g rs = map_of (map (\<lambda>r. (rec_key g r, r)) rs)"

lemma rmap_Some: "sorted_wrt (<) (map (rec_key g) rs) \<Longrightarrow> rmap g rs k = Some r \<longleftrightarrow> r \<in> set rs \<and> rec_key g r = k"
proof -
  assume "sorted_wrt (<) (map (rec_key g) rs)"
  then have "distinct (map fst (map (\<lambda>r. (rec_key g r, r)) rs))"
    by (simp add: comp_def strict_sorted_iff)
  from map_of_eq_Some_iff [OF this, of k r] show ?thesis by (auto simp: rmap_def)
qed

lemma rmap_None: "rmap g rs k = None \<longleftrightarrow> (\<forall>r \<in> set rs. rec_key g r \<noteq> k)"
  by (force simp: rmap_def map_of_eq_None_iff)

lemma rmap_ins_rec: "rmap g (ins_rec (rec_key g) x rs) = (rmap g rs)(rec_key g x \<mapsto> x)"
  if "sorted_wrt (<) (map (rec_key g) rs)"
  using that by (induction rs) (auto simp: rmap_def fun_eq_iff)

lemma tree_lookup_finds:
  assumes hs: "holds g vk b c h hl lv own fl rs"
  shows "case rmap g rs key of
      None \<Rightarrow> tree_lookup g c h key = Some (Inl OBMAFS3_ERR_NOTFOUND)
    | Some r \<Rightarrow> \<exists>l off. tree_lookup g c h key = Some (Inr (l, off, r)) \<and> l \<in> own \<and> fld off (rec_sz g) (blk c l) = r"
proof (cases "root_node_lba h = 0")
  case True
  then have "rs = []" using hs tree_ok_root [of g vk b c h hl] by (auto simp: holds_def)
  then show ?thesis using True by (simp add: tree_lookup_def rmap_def)
next
  case False
  then obtain t where t: "tree_ok g vk b c h hl lv t fl" "own = set (lbas t)" "recs t = rs" using hs by (auto simp: holds_def)
  have "dev_ok c" "\<And>k. k \<in> set (lbas t) \<Longrightarrow> in_vol c k" "rep g (bsz c) (blk c) lv t"
    "kinv g vk b (hole_lo g []) (hole_hi g []) t" "root_node_lba h = tlba t"
    using t(1) by (auto simp: world_def env_ok_def tree_ok_def)
  from descent [OF this(1-4), of key lv "[]"] this(5)
  obtain fs l r ls where D: "t = plug fs (LeafN l r ls)"
     "tree_descend g c (root_node_lba h) key = Some (Inr (l, blk c l))"
     "node_is (bsz c) (blk c l) 0 r (rec_sz g) ls"
     "kinv g vk b (hole_lo g fs) (hole_hi g fs) (LeafN l r ls)"
     "ge_lo (hole_lo g fs) key" "lt_hi key (hole_hi g fs)" by auto
  have rs: "rs = frecs_l fs @ ls @ frecs_r fs" using t(3) by (simp add: D(1) recs_plug)
  have fin: "finv g vk b fs" using t(1) by (simp add: D(1) tree_ok_def kinv_plug)
  have srt: "sorted_wrt (<) (map (rec_key g) ls)" using D(4) by simp
  define idx where "idx = leaf_find g (blk c l) (node_keys (nh_dec (blk c l))) key"
  note spec = leaf_find_spec [OF D(3) srt idx_def]
  have lk: "tree_lookup g c h key = (if 0 \<le> idx
      then Some (Inr (l, nh_size + nat idx * rec_sz g, slot (rec_sz g) (nat idx) (ndata (blk c l))))
      else Some (Inl OBMAFS3_ERR_NOTFOUND))" using False D(2) by (simp add: tree_lookup_def idx_def [symmetric])
  show ?thesis
  proof (cases "0 \<le> idx")
    case True
    note i = spec(1) [OF True]
    have "rmap g rs key = Some (ls ! nat idx)"
      using i rmap_Some [OF holds_sorted(1) [OF hs]] by (simp add: rs)
    moreover have "slot (rec_sz g) (nat idx) (ndata (blk c l)) = ls ! nat idx" using node_is_slot [OF D(3)] i by blast
    moreover have "l \<in> own" by (simp add: t(2) D(1) set_lbas_plug)
    ultimately show ?thesis using lk True by (simp add: slot_def fld_def add.commute)
  next
    case False
    then have "\<forall>j < length ls. rec_key g (ls ! j) \<noteq> key" using spec(2) by (meson linorder_not_less less_irrefl)
    then have "\<forall>y \<in> set ls. rec_key g y \<noteq> key" by (auto simp: in_set_conv_nth)
    moreover have "rec_key g y \<noteq> key" if "y \<in> set (frecs_l fs) \<union> set (frecs_r fs)" for y
      using finv_sides [OF fin] D(5,6) that by force
    ultimately have "rmap g rs key = None" by (auto simp: rmap_None rs)
    then show ?thesis using lk False by simp
  qed
qed

end
