(* ===== verification/BPlusDelete.thy ===== *)
theory BPlusDelete
  imports BPlusOps
begin

text \<open>
  Deletion from a B+Tree on disk: the delete functions of cd\_btree.c, inode.c, catalog.c and
  media\_tag.c, which are one algorithm. Deletion never rebalances: a leaf that becomes empty
  is taken out of its parent, and only a root of one level collapses. The lemmas relate it to
  the removal of one record from the sorted list, for the trees on which the code keeps its
  promise: those with at most one level of index nodes.
\<close>

section \<open>The operation\<close>

text \<open>The right link of the left neighbour; errors are ignored.\<close>

definition fix_right_link :: "ctx \<Rightarrow> u64 \<Rightarrow> u64 \<Rightarrow> ctx" where
  "fix_right_link c nb new_lba =
     (if nb = 0 then c
      else case obmafs3_block_read c nb (bsz c) of
        Inl e \<Rightarrow> c
      | Inr buf \<Rightarrow>
          snd (obmafs3_block_write c nb (compute_node_checksum (xxh64 c) (put 0 (nh_enc ((nh_dec buf)\<lparr>right_link := new_lba\<rparr>)) buf))))"

definition unlink_leaf :: "ctx \<Rightarrow> btree_node_header \<Rightarrow> ctx" where
  "unlink_leaf c lh = fix_left_link (fix_right_link c (left_link lh) (right_link lh)) (right_link lh) (left_link lh)"

text \<open>memmove down by one record; \<open>nk\<close> records are in the array.\<close>

definition remove_slot :: "nat \<Rightarrow> nat \<Rightarrow> nat \<Rightarrow> bytes \<Rightarrow> bytes" where
  "remove_slot sz nk i buf =
     (if i < nk - 1 then put (nh_size + i * sz) (fld (nh_size + (i + 1) * sz) ((nk - i - 1) * sz) buf) buf else buf)"

definition shrunk_image :: "ctx \<Rightarrow> bytes \<Rightarrow> nat \<Rightarrow> bytes \<Rightarrow> bytes" where
  "shrunk_image c buf sz buf1 =
     (let nk = node_keys (nh_dec buf) - 1 in
      compute_node_checksum (xxh64 c)
        (put 0 (nh_enc ((nh_dec buf)\<lparr>node_keys := nk, keys_length := of_nat (unat nk * sz)\<rparr>)) buf1))"

text \<open>The tree loses its root and gets the new root \<open>r\<close>; \<open>ns\<close> are the nodes to give back.\<close>

fun free_nodes_of :: "ctx \<Rightarrow> btree_header \<Rightarrow> u64 list \<Rightarrow> btree_header \<times> ctx" where
  "free_nodes_of c h [] = (h, c)"
| "free_nodes_of c h (n # ns) = (case obmafs3_btree_free_node c h n of (_, h1, c1) \<Rightarrow> free_nodes_of c1 h1 ns)"

definition drop_root :: "ctx \<Rightarrow> btree_header \<Rightarrow> u64 \<Rightarrow> u64 \<Rightarrow> u64 list \<Rightarrow> rc \<times> btree_header \<times> ctx" where
  "drop_root c h hdr_lba r ns =
     (case obmafs3_btree_header_write c hdr_lba
             (h\<lparr>root_node_lba := r, total_nodes := total_nodes h - of_nat (length ns)\<rparr>) of
        (rc, h1, c1) \<Rightarrow> (case free_nodes_of c1 h1 ns of (h2, c2) \<Rightarrow> (rc, h2, c2)))"

text \<open>The empty leaf \<open>lba\<close> leaves its parent; \<open>atop\<close> says that the parent is the root (depth 1).\<close>

definition remove_child ::
    "'k tree_cfg \<Rightarrow> ctx \<Rightarrow> btree_header \<Rightarrow> u64 \<Rightarrow> u64 \<Rightarrow> u64 \<Rightarrow> nat \<Rightarrow> bool \<Rightarrow> bytes \<Rightarrow> rc \<times> btree_header \<times> ctx" where
  "remove_child g c h hdr_lba lba plba pslot atop pbuf =
     (let nk = node_keys (nh_dec pbuf) - 1;
          moved = remove_slot (ie_sz g) (unat (node_keys (nh_dec pbuf))) pslot pbuf
      in if nk = 0 \<and> atop then drop_root c h hdr_lba 0 [lba, plba]
         else if nk = 1 \<and> atop then drop_root c h hdr_lba (ie_child g (slot (ie_sz g) 0 (ndata moved))) [lba, plba]
         else
           (case (case obmafs3_block_write c plba (shrunk_image c pbuf (ie_sz g) moved) of
                    (OBMAFS3_OK, c1) \<Rightarrow> obmafs3_btree_header_write c1 hdr_lba (h\<lparr>total_nodes := total_nodes h - 1\<rparr>)
                  | (e, c1) \<Rightarrow> (e, h, c1)) of
              (rc, h1, c1) \<Rightarrow> (case free_nodes_of c1 h1 [lba] of (h2, c2) \<Rightarrow> (rc, h2, c2))))"

text \<open>
  The first component is the removed record when control reaches the end of the function,
  where inode.c and media\_tag.c release what the record owned.
\<close>

definition tree_remove ::
    "('k :: linorder) tree_cfg \<Rightarrow> ctx \<Rightarrow> btree_header \<Rightarrow> u64 \<Rightarrow> 'k \<Rightarrow> bytes option \<times> rc \<times> btree_header \<times> ctx" where
  "tree_remove g c h hdr_lba key =
     (if root_node_lba h = 0 then (None, OBMAFS3_ERR_NOTFOUND, h, c)
      else case tree_path g c key BTREE_MAX_DEPTH (root_node_lba h) [] of
        Inl e \<Rightarrow> (None, e, h, c)
      | Inr (lba, buf, path) \<Rightarrow>
          let lh = nh_dec buf;
              idx = leaf_find g buf (node_keys lh) key
          in if idx < 0 then (None, OBMAFS3_ERR_NOTFOUND, h, c)
             else
               let del_rec = slot (rec_sz g) (nat idx) (ndata buf);
                   nk = node_keys lh - 1
               in if nk = 0 then
                    (case path of
                       [] \<Rightarrow> (Some del_rec, drop_root c h hdr_lba 0 [lba])
                     | (plba, pslot) # rest \<Rightarrow>
                         let c1 = unlink_leaf c lh in
                         if \<not> heap_ok c1 then (None, OBMAFS3_ERR_NOMEM, h, c1)
                         else (case obmafs3_block_read c1 plba (bsz c1) of
                                 Inl e \<Rightarrow> (None, e, h, c1)
                               | Inr pbuf \<Rightarrow> (Some del_rec, remove_child g c1 h hdr_lba lba plba pslot (rest = []) pbuf)))
                  else
                    let moved = remove_slot (rec_sz g) (unat (node_keys lh)) (nat idx) buf;
                        cleared = put (nh_size + unat nk * rec_sz g) (replicate (rec_sz g) 0) moved
                    in (case obmafs3_block_write c lba (shrunk_image c buf (rec_sz g) cleared) of
                          (e, c1) \<Rightarrow> (Some del_rec, e, h, c1)))"

definition tree_delete :: "('k :: linorder) tree_cfg \<Rightarrow> ctx \<Rightarrow> btree_header \<Rightarrow> u64 \<Rightarrow> 'k \<Rightarrow> rc \<times> btree_header \<times> ctx" where
  "tree_delete g c h hdr_lba key = snd (tree_remove g c h hdr_lba key)"

section \<open>Removal from the sorted list of records\<close>

definition del_rec :: "('a \<Rightarrow> 'k) \<Rightarrow> 'k \<Rightarrow> 'a list \<Rightarrow> 'a list" where
  "del_rec f k xs = filter (\<lambda>x. f x \<noteq> k) xs"

lemma del_rec_append [simp]: "del_rec f k (xs @ ys) = del_rec f k xs @ del_rec f k ys"
  by (simp add: del_rec_def)

lemma del_rec_id: "(\<And>x. x \<in> set xs \<Longrightarrow> f x \<noteq> k) \<Longrightarrow> del_rec f k xs = xs"
  by (simp add: del_rec_def filter_id_conv)

lemma del_rec_at:
  assumes "sorted_wrt (<) (map f xs)" "i < length xs" "f (xs ! i) = (k :: 'k :: linorder)"
  shows "del_rec f k xs = take i xs @ drop (Suc i) xs"
proof -
  have ne: "f (xs ! j) \<noteq> k" if "j < length xs" "j \<noteq> i" for j
    using sorted_lt_nth [OF assms(1), of j i] sorted_lt_nth [OF assms(1), of i j] assms(2,3) that by (cases j i rule: linorder_cases) auto
  have "xs = take i xs @ xs ! i # drop (Suc i) xs" using assms(2) by (rule id_take_nth_drop)
  then have "del_rec f k xs = del_rec f k (take i xs @ xs ! i # drop (Suc i) xs)" by simp
  also have "\<dots> = del_rec f k (take i xs) @ del_rec f k (drop (Suc i) xs)" using assms(3) by (simp add: del_rec_def)
  also have "del_rec f k (take i xs) = take i xs"
  proof (rule del_rec_id)
    fix x assume "x \<in> set (take i xs)"
    then obtain j where "j < i" "x = xs ! j" by (auto simp: in_set_conv_nth)
    then show "f x \<noteq> k" using ne [of j] assms(2) by simp
  qed
  also have "del_rec f k (drop (Suc i) xs) = drop (Suc i) xs"
  proof (rule del_rec_id)
    fix x assume "x \<in> set (drop (Suc i) xs)"
    then obtain j where "j < length xs - Suc i" "x = xs ! Suc (i + j)" by (auto simp: in_set_conv_nth)
    then show "f x \<noteq> k" using ne [of "Suc (i + j)"] by simp
  qed
  finally show ?thesis .
qed

lemma rmap_del_rec: "sorted_wrt (<) (map (rec_key g) rs) \<Longrightarrow> rmap g (del_rec (rec_key g) k rs) = (rmap g rs)(k := None)"
  by (induction rs) (auto simp: rmap_def del_rec_def fun_eq_iff)

section \<open>Node images\<close>

lemma fld_put_in:
  "off \<le> p \<Longrightarrow> p + n \<le> off + length xs \<Longrightarrow> off + length xs \<le> length buf \<Longrightarrow> fld p n (put off xs buf) = fld (p - off) n xs"
  by (simp add: fld_def put_def)

lemma fld_fld: "p + n \<le> m \<Longrightarrow> fld p n (fld off m b) = fld (off + p) n b"
  by (simp add: fld_def drop_take min_def add.commute)

lemma remove_slot_slots:
  assumes "node_is bs b lv rl sz es" "i < length es"
  shows "slots sz (length es - 1) (ndata (remove_slot sz (length es) i b)) = take i es @ drop (Suc i) es"
    and "length (remove_slot sz (length es) i b) = bs"
proof -
  let ?n = "length es" and ?d = "ndata b"
  have b: "length b = bs" "slots sz ?n ?d = es" "nh_size + ?n * sz \<le> bs" "nh_size \<le> bs" using assms(1) by (auto simp: node_is_def)
  have ej: "slot sz j ?d = es ! j" if "j < ?n" for j using b(2) that nth_slots by metis
  have both: "slots sz (?n - 1) (ndata (remove_slot sz ?n i b)) = take i es @ drop (Suc i) es \<and> length (remove_slot sz ?n i b) = bs"
  proof (cases "i < ?n - 1")
    case False
    then have i: "i = ?n - 1" using assms(2) by simp
    have "slots sz (?n - 1) ?d = take (?n - 1) es" using take_slots [of "?n - 1" ?n sz ?d] b(2) by simp
    then show ?thesis using b(1) False i assms(2) by (simp add: remove_slot_def)
  next
    case True
    let ?m = "(?n - i - 1) * sz"
    let ?M = "fld (nh_size + (i + 1) * sz) ?m b"
    have "i + 1 + (?n - i - 1) = ?n" using assms(2) by simp
    then have tot: "(i + 1) * sz + ?m = ?n * sz" by (metis add_mult_distrib)
    have M: "?M = fld ((i + 1) * sz) ?m ?d" by (simp add: fld_def ac_simps)
    have ld: "length ?d = bs - nh_size" using b(1) by simp
    have lM: "length ?M = ?m" using tot b by simp
    have fit: "i * sz + ?m \<le> length ?d" using tot b ld by simp
    have dm: "ndata (remove_slot sz ?n i b) = put (i * sz) ?M ?d"
      using True b tot by (simp add: remove_slot_def drop_put)
    have "slot sz j (put (i * sz) ?M ?d) = es ! (if j < i then j else Suc j)" if j: "j < ?n - 1" for j
    proof (cases "j < i")
      case True
      then have "Suc j * sz \<le> i * sz" by (intro mult_le_mono1) simp
      then show ?thesis using True j ej [of j] fit lM by (simp add: slot_def fld_put_other)
    next
      case False
      then have le: "i * sz \<le> j * sz" "Suc j * sz \<le> (?n - 1) * sz" using j by (auto intro!: mult_le_mono1 simp del: mult_Suc)
      have "(?n - 1) * sz = i * sz + ?m"
        unfolding add_mult_distrib [symmetric] using True by simp
      then have "slot sz j (put (i * sz) ?M ?d) = fld (j * sz - i * sz) sz ?M"
        unfolding slot_def using le fit lM by (subst fld_put_in) auto
      also have "\<dots> = fld (j * sz - i * sz) sz (fld ((i + 1) * sz) ?m ?d)" by (simp only: M)
      also have "\<dots> = fld ((i + 1) * sz + (j * sz - i * sz)) sz ?d"
        using le \<open>(?n - 1) * sz = i * sz + ?m\<close> by (intro fld_fld) simp
      also have "(i + 1) * sz + (j * sz - i * sz) = Suc j * sz" using le by simp
      finally show ?thesis using False ej [of "Suc j"] j by (simp add: slot_def)
    qed
    then have "slots sz (?n - 1) (put (i * sz) ?M ?d) = take i es @ drop (Suc i) es"
      using True by (intro nth_equalityI) (auto simp: nth_append)
    moreover have "length (remove_slot sz ?n i b) = bs" using True b tot by (simp add: remove_slot_def)
    ultimately show ?thesis by (simp add: dm)
  qed
  then show "slots sz (?n - 1) (ndata (remove_slot sz ?n i b)) = take i es @ drop (Suc i) es" "length (remove_slot sz ?n i b) = bs" by blast+
qed

text \<open>A node with one record less; the bytes behind the records are free to change.\<close>

lemma shrunk_image_is:
  assumes "node_is (bsz c) buf lv rl sz es" "0 < length es" "length buf1 = bsz c" "slots sz (length es - 1) (ndata buf1) = es'"
  shows "node_is (bsz c) (shrunk_image c buf sz buf1) lv rl sz es'"
proof -
  let ?nk = "node_keys (nh_dec buf) - 1"
  define n where "n = (nh_dec buf)\<lparr>node_keys := ?nk, keys_length := of_nat (unat ?nk * sz)\<rparr>"
  have buf: "length buf = bsz c" "nh_size \<le> bsz c" "unat (node_keys (nh_dec buf)) = length es" "nh_size + length es * sz \<le> bsz c"
    using assms(1) by (simp_all add: node_is_def)
  have ck: "length (nh_checksum n) = 32" using buf by (simp add: n_def)
  have u: "unat ?nk = length es - 1" using buf(3) assms(2) by (subst unat_minus_one) auto
  have "length es' = length es - 1" using assms(4) by auto
  moreover have "(length es - 1) * sz \<le> length es * sz" by (rule mult_le_mono1) simp
  then have "nh_size + (length es - 1) * sz \<le> bsz c" using buf(4) by linarith
  ultimately have "node_is (bsz c) (put 0 (nh_enc n) buf1) lv rl sz es'"
    using assms(1,3,4) buf u nh_dec_put_header [OF ck, of buf1] ck by (simp add: node_is_def) (simp add: n_def)
  then show ?thesis
    unfolding shrunk_image_def Let_def n_def [symmetric] by (subst node_is_checksum) (auto simp: node_is_def)
qed


section \<open>Loose separators\<close>

lemma kinv_loose:
  "kinv g vk b lo hi t \<Longrightarrow> kinv g vk False lo hi t"
  "kinv_es g vk b lo hi es \<Longrightarrow> kinv_es g vk False lo hi es"
  by (induction g vk b lo hi t and g vk b lo hi es rule: kinv_kinv_es.induct) (auto simp: first_ok_def split: option.splits)

lemma tree_ok_loose: "tree_ok g vk b c h hl lv t fl \<Longrightarrow> tree_ok g vk False c h hl lv t fl"
  using kinv_loose(1) by (auto simp: tree_ok_def)

lemma kinv_no_lo:
  "kinv g vk False lo hi t \<Longrightarrow> kinv g vk False None hi t"
  "kinv_es g vk False lo hi es \<Longrightarrow> kinv_es g vk False None hi es"
proof -
  have "kinv g vk b lo hi t \<Longrightarrow> \<not> b \<Longrightarrow> kinv g vk b None hi t" "kinv_es g vk b lo hi es \<Longrightarrow> \<not> b \<Longrightarrow> kinv_es g vk b None hi es" for b
    by (induction g vk b lo hi t and g vk b lo hi es rule: kinv_kinv_es.induct) auto
  then show "kinv g vk False lo hi t \<Longrightarrow> kinv g vk False None hi t" "kinv_es g vk False lo hi es \<Longrightarrow> kinv_es g vk False None hi es" by blast+
qed

lemma kinv_no_hi:
  "kinv g vk b lo hi t \<Longrightarrow> kinv g vk b lo None t"
  "kinv_es g vk b lo hi es \<Longrightarrow> kinv_es g vk b lo None es"
proof (induction g vk b lo hi t and g vk b lo hi es rule: kinv_kinv_es.induct)
  case (4 g vk b lo hi e t es)
  then show ?case by (cases "(g, hi, es)" rule: next_key.cases) auto
qed auto

lemma kinv_drop_entry:
  assumes "kinv_es g vk False None None (xs @ (e, u) # ys)"
  shows "kinv_es g vk False None None (xs @ ys)"
proof (cases ys)
  case Nil
  then have "kinv_es g vk False None (Some (ie_key g e)) xs" using assms kinv_es_append [of "[(e, u)]" g vk False None None xs] by simp
  then show ?thesis using Nil kinv_no_hi(2) by simp
next
  case (Cons q ys')
  obtain e' u' where q: "q = (e', u')" by fastforce
  have "kinv_es g vk False None (Some (ie_key g e)) xs"
    "kinv_es g vk False (if xs = [] then None else Some (ie_key g e)) None ((e, u) # ys)"
    using assms kinv_es_append [of "(e, u) # ys" g vk False None None xs] by auto
  moreover from this have "ie_key g e \<le> ie_key g e'" "kinv_es g vk False (Some (ie_key g e')) None ys"
    by (auto simp: Cons q)
  ultimately have "kinv_es g vk False None (Some (ie_key g e')) xs" "kinv_es g vk False (if xs = [] then None else Some (ie_key g e')) None ys"
    using kinv_raise_hi(2) [OF _ refl, of g vk False None "ie_key g e" xs] kinv_no_lo(2) by auto
  moreover have "ys \<noteq> []" "next_key g None ys = Some (ie_key g e')" by (simp_all add: Cons q)
  ultimately show ?thesis by (cases "xs = []") (simp_all add: kinv_es_append)
qed

section \<open>The doubly linked leaves\<close>

fun linked :: "(u64 \<Rightarrow> bytes) \<Rightarrow> u64 \<Rightarrow> (u64 \<times> u64) list \<Rightarrow> bool" where
  "linked B p [] \<longleftrightarrow> True"
| "linked B p ((l, r) # ls) \<longleftrightarrow> left_link (nh_dec (B l)) = p \<and> linked B l ls"

lemma linked_append:
  "linked B p (xs @ ys) \<longleftrightarrow> linked B p xs \<and> linked B (if xs = [] then p else fst (last xs)) ys"
  by (induction xs arbitrary: p) auto

lemma linked_frame:
  "(\<And>l. l \<in> fst ` set ls \<Longrightarrow> left_link (nh_dec (B' l)) = left_link (nh_dec (B l))) \<Longrightarrow> linked B' p ls = linked B p ls"
  by (induction ls arbitrary: p) auto

lemma chained_append:
  "chained (xs @ (l, r) # ys) \<longleftrightarrow> chained ((l, r) # ys) \<and> (xs = [] \<or> (\<exists>zs p. xs = zs @ [(p, l)] \<and> chained (zs @ [(p, 0)])))"
proof (induction xs rule: chained.induct)
  case (2 l' r')
  then show ?case by auto
next
  case (3 l1 r1 l2 r2 xs)
  then show ?case
    by (cases xs rule: rev_cases) (auto simp: Cons_eq_append_conv)
qed simp

text \<open>Rewriting the links of a node.\<close>

definition relinked :: "(bytes \<Rightarrow> u64) \<Rightarrow> u64 \<Rightarrow> u64 \<Rightarrow> bytes \<Rightarrow> bytes" where
  "relinked x ll rl buf = compute_node_checksum x (put 0 (nh_enc ((nh_dec buf)\<lparr>left_link := ll, right_link := rl\<rparr>)) buf)"

lemma relinked_is:
  assumes "node_is bs buf lv r sz es"
  shows "node_is bs (relinked x ll rl buf) lv rl sz es" "left_link (nh_dec (relinked x ll rl buf)) = ll"
proof -
  have b: "nh_size \<le> length buf" "length buf = bs" using assms by (auto simp: node_is_def)
  define n where "n = (nh_dec buf)\<lparr>left_link := ll, right_link := rl\<rparr>"
  have ck: "length (nh_checksum n) = 32" using b by (simp add: n_def)
  note hd = nh_dec_put_header [OF ck, of buf]
  have lp: "nh_size \<le> length (put 0 (nh_enc n) buf)" using b ck by simp
  have "node_is bs (put 0 (nh_enc n) buf) lv rl sz es"
    using assms b hd ck by (simp add: node_is_def) (simp add: n_def)
  then show "node_is bs (relinked x ll rl buf) lv rl sz es" unfolding relinked_def n_def [symmetric] by (subst node_is_checksum [OF lp])
  show "left_link (nh_dec (relinked x ll rl buf)) = ll"
    using node_checksum_view(3) [OF lp, of x] hd b unfolding relinked_def n_def [symmetric] by (auto simp: n_def)
qed

lemma fix_links_relinked:
  assumes "dev_ok c" "in_vol c nb" "nb \<noteq> 0" "node_is (bsz c) (blk c nb) lv r sz es"
  shows "fix_left_link c nb n = wrote c nb (relinked (xxh64 c) n (right_link (nh_dec (blk c nb))) (blk c nb))"
    and "fix_right_link c nb n = wrote c nb (relinked (xxh64 c) (left_link (nh_dec (blk c nb))) n (blk c nb))"
proof -
  have "length (relinked (xxh64 c) a b (blk c nb)) = bsz c" for a b
    using relinked_is(1) [OF assms(4)] by (simp add: node_is_def)
  then have w: "obmafs3_block_write c nb (relinked (xxh64 c) a b (blk c nb)) = (OBMAFS3_OK, wrote c nb (relinked (xxh64 c) a b (blk c nb)))" for a b
    using assms by (simp add: block_write_eq)
  have e: "compute_node_checksum x (put 0 (nh_enc ((nh_dec b)\<lparr>left_link := n\<rparr>)) b) = relinked x n (right_link (nh_dec b)) b"
    "compute_node_checksum x (put 0 (nh_enc ((nh_dec b)\<lparr>right_link := n\<rparr>)) b) = relinked x (left_link (nh_dec b)) n b" for x b
    by (simp_all add: relinked_def)
  show "fix_left_link c nb n = wrote c nb (relinked (xxh64 c) n (right_link (nh_dec (blk c nb))) (blk c nb))"
    "fix_right_link c nb n = wrote c nb (relinked (xxh64 c) (left_link (nh_dec (blk c nb))) n (blk c nb))"
    unfolding fix_left_link_def fix_right_link_def e using assms(3) block_read_blk [OF assms(1,2)] w by simp_all
qed

section \<open>Giving nodes back\<close>

lemma world_free:
  assumes w: "world g c h hl S fl" and n: "n \<in> S" and len: "length fl < 2 ^ 32 - 1"
  shows "\<exists>h' c'. obmafs3_btree_free_node c h n = (OBMAFS3_OK, h', c') \<and> world g c' h' hl (S - {n}) (n # fl) \<and> outside {n} c c' \<and>
    (\<forall>k \<in> S - {n}. blk c' k = blk c k) \<and> h' = h\<lparr>free_node_lba := n, free_nodes := free_nodes h + 1\<rparr>"
proof -
  have f: "dev_ok c" "heap_ok c" "8 \<le> bsz c" "pool c h fl" "in_vol c n" "n \<noteq> 0" "n \<notin> set fl" "blocks_per_node c h = 1" "used c (unat n)"
    using w n by (auto simp: world_def env_ok_def nh_size_def)
  have "\<exists>h' b. obmafs3_btree_free_node c h n = (OBMAFS3_OK, h', wrote c n b) \<and> length b = bsz c \<and>
     h' = h\<lparr>free_node_lba := n, free_nodes := free_nodes h + 1\<rparr> \<and> pool (wrote c n b) h' (n # fl)"
    by (rule free_node_pushes [OF f(1-7) _ _ len])
      (use f in \<open>auto simp: node_blocks_one in_vol_def word_less_nat_alt [symmetric] word_unat_eq_iff [symmetric]\<close>)
  then obtain b where b: "obmafs3_btree_free_node c h n = (OBMAFS3_OK, h\<lparr>free_node_lba := n, free_nodes := free_nodes h + 1\<rparr>, wrote c n b)"
    "length b = bsz c" "pool (wrote c n b) (h\<lparr>free_node_lba := n, free_nodes := free_nodes h + 1\<rparr>) (n # fl)" by blast
  note ww = world_write [OF w n b(2)]
  have "world g (wrote c n b) (h\<lparr>free_node_lba := n, free_nodes := free_nodes h + 1\<rparr>) hl (S - {n}) (n # fl)"
    using ww(2) b(3) w n by (auto simp: world_def blocks_per_node_def)
  then show ?thesis using b(1) ww(3,4) by fastforce
qed


section \<open>Deletion against the list of records\<close>

definition dholds ::
    "('k :: linorder) tree_cfg \<Rightarrow> ('k \<Rightarrow> bool) \<Rightarrow> bool \<Rightarrow> ctx \<Rightarrow> btree_header \<Rightarrow> u64 \<Rightarrow> nat \<Rightarrow> u64 set \<Rightarrow> u64 list \<Rightarrow> bytes list \<Rightarrow> bool" where
  "dholds g vk b c h hl lv own fl rs \<longleftrightarrow>
     (root_node_lba h = 0 \<and> lv = 0 \<and> own = {} \<and> rs = [] \<and> world g c h hl {} fl) \<or>
     (\<exists>t. tree_ok g vk b c h hl lv t fl \<and> own = set (lbas t) \<and> recs t = rs \<and> chained (leaves t) \<and> linked (blk c) 0 (leaves t) \<and> trl t = 0)"

lemma dholds_holds: "dholds g vk b c h hl lv own fl rs \<Longrightarrow> holds g vk b c h hl lv own fl rs"
  by (auto simp: dholds_def holds_def)

text \<open>The outcome of a deletion: nodes move from the tree to its reserve, nothing else changes.\<close>

definition removed ::
    "('k :: linorder) tree_cfg \<Rightarrow> ('k \<Rightarrow> bool) \<Rightarrow> u64 \<Rightarrow> nat \<Rightarrow> bytes list \<Rightarrow> u64 set \<Rightarrow> u64 list \<Rightarrow> ctx \<Rightarrow>
     rc \<times> btree_header \<times> ctx \<Rightarrow> bool" where
  "removed g vk hl lv rs own fl c res \<longleftrightarrow> (case res of (r, h', c') \<Rightarrow>
     r = OBMAFS3_OK \<and> outside (own \<union> {hl}) c c' \<and>
     (\<exists>lv' own' fl'. dholds g vk False c' h' hl lv' own' fl' rs \<and> lv' \<le> lv \<and> own' \<union> set fl' = own \<union> set fl))"

lemma drop_root_world:
  assumes w: "world g c h hl S fl" and ns: "distinct ns" "set ns \<subseteq> S" and len: "length fl + length ns < 2 ^ 32"
  shows "\<exists>h' c'. drop_root c h hl r ns = (OBMAFS3_OK, h', c') \<and> root_node_lba h' = r \<and> world g c' h' hl (S - set ns) (rev ns @ fl) \<and>
    outside (set ns \<union> {hl}) c c' \<and> (\<forall>k \<in> S - set ns. blk c' k = blk c k)"
proof -
  have fr: "\<exists>h' c'. free_nodes_of c h ns = (h', c') \<and> root_node_lba h' = root_node_lba h \<and> world g c' h' hl (S - set ns) (rev ns @ fl) \<and>
      outside (set ns) c c' \<and> (\<forall>k \<in> S - set ns. blk c' k = blk c k)"
    if "world g c h hl S fl" "distinct ns" "set ns \<subseteq> S" "length fl + length ns < 2 ^ 32" for c h S fl ns
    using that
  proof (induction ns arbitrary: c h S fl)
    case Nil
    then show ?case by simp
  next
    case (Cons n ns)
    obtain h1 c1 where f: "obmafs3_btree_free_node c h n = (OBMAFS3_OK, h1, c1)" "world g c1 h1 hl (S - {n}) (n # fl)" "outside {n} c c1"
      "\<forall>k \<in> S - {n}. blk c1 k = blk c k" "root_node_lba h1 = root_node_lba h"
      using world_free [OF Cons.prems(1), of n] Cons.prems by auto
    obtain h2 c2 where i: "free_nodes_of c1 h1 ns = (h2, c2)" "root_node_lba h2 = root_node_lba h1"
      "world g c2 h2 hl (S - {n} - set ns) (rev ns @ n # fl)" "outside (set ns) c1 c2" "\<forall>k \<in> S - {n} - set ns. blk c2 k = blk c1 k"
      using Cons.IH [OF f(2)] Cons.prems by auto
    have "outside (set (n # ns)) c c2" by (rule outside_trans [OF outside_mono [OF f(3)] i(4)]) auto
    moreover have "S - {n} - set ns = S - set (n # ns)" by auto
    ultimately show ?case using f i by auto
  qed
  let ?h = "h\<lparr>root_node_lba := r, total_nodes := total_nodes h - of_nat (length ns)\<rparr>"
  have "world g c ?h hl S fl" using w by (subst world_cong_hdr [of _ h]) simp_all
  from world_header [OF this] obtain ck c1 where
    H: "obmafs3_btree_header_write c hl ?h = (OBMAFS3_OK, ?h\<lparr>bh_checksum := ck\<rparr>, c1)"
      "world g c1 (?h\<lparr>bh_checksum := ck\<rparr>) hl S fl" "outside {hl} c c1" "\<forall>k \<in> S. blk c1 k = blk c k" by blast
  from fr [OF H(2) ns len] obtain h2 c2 where F: "free_nodes_of c1 (?h\<lparr>bh_checksum := ck\<rparr>) ns = (h2, c2)" "root_node_lba h2 = r"
    "world g c2 h2 hl (S - set ns) (rev ns @ fl)" "outside (set ns) c1 c2" "\<forall>k \<in> S - set ns. blk c2 k = blk c1 k" by auto
  have "outside (set ns \<union> {hl}) c c2" by (rule outside_trans [OF outside_mono [OF H(3)] F(4)]) auto
  then show ?thesis using H F by (auto simp: drop_root_def)
qed

lemma trl_plug: "trl (plug fs (LeafN l r ls')) = trl (plug fs (LeafN l r ls))"
proof (cases fs rule: rev_cases)
  case (snoc zs f)
  have "trl (plug (zs @ [f]) t) = (case f of (_, r, _) \<Rightarrow> r)" for t by (induction zs arbitrary: t) (cases f; auto)+
  then show ?thesis by (simp add: snoc)
qed simp

lemma left_link_shrunk:
  assumes "length buf = bsz c" "length buf1 = bsz c" "nh_size \<le> bsz c"
  shows "left_link (nh_dec (shrunk_image c buf sz buf1)) = left_link (nh_dec buf)"
proof -
  define n where "n = (nh_dec buf)\<lparr>node_keys := node_keys (nh_dec buf) - 1, keys_length := of_nat (unat (node_keys (nh_dec buf) - 1) * sz)\<rparr>"
  have ck: "length (nh_checksum n) = 32" using assms by (simp add: n_def)
  have "nh_size \<le> length (put 0 (nh_enc n) buf1)" using assms ck by simp
  from node_checksum_view(3) [OF this, of "xxh64 c"] show ?thesis
    using nh_dec_put_header [OF ck, of buf1] assms by (auto simp: shrunk_image_def Let_def n_def)
qed

lemma leaves_lbas: "p \<in> set (leaves t) \<Longrightarrow> fst p \<in> set (lbas t)" "p \<in> set (leaves_es es) \<Longrightarrow> fst p \<in> set (lbas_es es)"
  by (induction t and es rule: leaves_leaves_es.induct) auto

context tree_layout
begin

text \<open>The leaf keeps a record.\<close>

lemma leaf_shrunk:
  assumes ok: "tree_ok g vk b c h hl lv (plug fs (LeafN l r ls)) fl" "lv = length fs" and i: "i < length ls"
    and buf: "buf = shrunk_image c (blk c l) (rec_sz g) (put (nh_size + (length ls - 1) * rec_sz g) (replicate (rec_sz g) 0)
       (remove_slot (rec_sz g) (length ls) i (blk c l)))"
  shows "obmafs3_block_write c l buf = (OBMAFS3_OK, wrote c l buf)"
    and "tree_ok g vk False (wrote c l buf) h hl lv (plug fs (LeafN l r (take i ls @ drop (Suc i) ls))) fl"
    and "outside {l} c (wrote c l buf)" and "left_link (nh_dec buf) = left_link (nh_dec (blk c l))" and "length buf = bsz c"
proof -
  let ?ls = "take i ls @ drop (Suc i) ls"
  have nd: "node_is (bsz c) (blk c l) 0 r (rec_sz g) ls"
    using ok rep_plug [of g "bsz c" "blk c" 0 fs "LeafN l r ls"] by (simp add: tree_ok_def)
  define m where "m = remove_slot (rec_sz g) (length ls) i (blk c l)"
  note rm = remove_slot_slots [OF nd i, folded m_def]
  have fits: "nh_size + length ls * rec_sz g \<le> bsz c" "length (blk c l) = bsz c" using nd by (simp_all add: node_is_def)
  have ln: "(length ls - 1) * rec_sz g + rec_sz g = length ls * rec_sz g" using i by (cases ls) simp_all
  let ?z = "put (nh_size + (length ls - 1) * rec_sz g) (replicate (rec_sz g) 0) m"
  have lz: "length ?z = bsz c" using rm(2) fits ln by simp
  have "ndata ?z = put ((length ls - 1) * rec_sz g) (replicate (rec_sz g) 0) (ndata m)" using rm(2) fits ln by (intro drop_put) simp
  moreover have "take ((length ls - 1) * rec_sz g) (put ((length ls - 1) * rec_sz g) xs d) = take ((length ls - 1) * rec_sz g) d"
    if "(length ls - 1) * rec_sz g \<le> length d" for xs and d :: bytes using that by (simp add: put_def)
  ultimately have "slots (rec_sz g) (length ls - 1) (ndata ?z) = slots (rec_sz g) (length ls - 1) (ndata m)"
    using rm(2) fits ln by (intro slots_cong) simp
  then have nb: "node_is (bsz c) buf 0 r (rec_sz g) ?ls"
    unfolding buf m_def [symmetric] using rm(1) lz i by (intro shrunk_image_is [OF nd]) auto
  have k0: "kinv g vk False (hole_lo g fs) (hole_hi g fs) (LeafN l r ls)" using tree_ok_loose [OF ok(1)] by (simp add: tree_ok_def kinv_plug)
  have sub: "set ?ls \<subseteq> set ls" by (auto dest: in_set_takeD in_set_dropD)
  have "sorted_wrt (<) (map (rec_key g) (take i ls @ drop (Suc i) ls))"
  proof -
    have "sorted_wrt (<) (map (rec_key g) (take i ls @ [ls ! i] @ drop (Suc i) ls))" using k0 id_take_nth_drop [OF i] by simp
    then show ?thesis unfolding map_append sorted_wrt_append by auto
  qed
  then have kn: "kinv g vk False (hole_lo g fs) (hole_hi g fs) (LeafN l r ?ls)" using k0 sub by (auto simp: first_ok_def split: option.splits)
  have "length ls \<le> unat (leaf_max g c)" using ok(1) by (simp add: tree_ok_def caps_plug)
  then have cp: "length ?ls \<le> unat (leaf_max g c)" using i by simp
  note R = leaf_replaced [OF tree_ok_loose [OF ok(1)] ok(2) nb kn cp]
  show "obmafs3_block_write c l buf = (OBMAFS3_OK, wrote c l buf)" "outside {l} c (wrote c l buf)"
    "tree_ok g vk False (wrote c l buf) h hl lv (plug fs (LeafN l r ?ls)) fl" by (fact R)+
  show "left_link (nh_dec buf) = left_link (nh_dec (blk c l))"
    unfolding buf m_def [symmetric] using lz fits by (intro left_link_shrunk) simp_all
  show "length buf = bsz c" using nb by (simp add: node_is_def)
qed

lemma remove_in_place:
  assumes ok: "tree_ok g vk b c h hl lv (plug fs (LeafN l r ls)) fl" "lv = length fs" and lk: "linked (blk c) 0 (leaves (plug fs (LeafN l r ls)))"
    and i: "i < length ls"
    and buf: "buf = shrunk_image c (blk c l) (rec_sz g) (put (nh_size + (length ls - 1) * rec_sz g) (replicate (rec_sz g) 0)
       (remove_slot (rec_sz g) (length ls) i (blk c l)))"
    and ch: "chained (leaves (plug fs (LeafN l r ls)))" "trl (plug fs (LeafN l r ls)) = 0"
  shows "removed g vk hl lv (frecs_l fs @ (take i ls @ drop (Suc i) ls) @ frecs_r fs) (set (lbas (plug fs (LeafN l r ls)))) fl c
    (case obmafs3_block_write c l buf of (e, c1) \<Rightarrow> (e, h, c1))"
proof -
  let ?ls = "take i ls @ drop (Suc i) ls" and ?t = "plug fs (LeafN l r ls)"
  note R = leaf_shrunk [OF ok i buf]
  have lf: "leaves (plug fs (LeafN l r ?ls)) = leaves ?t" by (simp add: leaves_plug)
  have "world g c h hl (set (lbas ?t)) fl" "l \<in> set (lbas ?t)" using ok(1) by (simp_all add: tree_ok_def set_lbas_plug)
  then have "left_link (nh_dec (blk (wrote c l buf) k)) = left_link (nh_dec (blk c k))" if "k \<in> set (lbas ?t)" for k
    using world_write(4) [of g c h hl "set (lbas ?t)" fl l buf k] R(4,5) that by simp
  then have "linked (blk (wrote c l buf)) 0 (leaves ?t)" using lk leaves_lbas(1) [of _ ?t] by (subst linked_frame) auto
  then have "dholds g vk False (wrote c l buf) h hl lv (set (lbas ?t)) fl (frecs_l fs @ ?ls @ frecs_r fs)"
    unfolding dholds_def using R(2) lf ch trl_plug [of fs l r ?ls ls]
    by (intro disjI2 exI [of _ "plug fs (LeafN l r ?ls)"]) (simp add: set_lbas_plug recs_plug)
  moreover have "outside (set (lbas ?t) \<union> {hl}) c (wrote c l buf)" using R(3) by (rule outside_mono) (simp add: set_lbas_plug)
  ultimately show ?thesis using R(1) by (fastforce simp: removed_def)
qed

end

text \<open>The only leaf of the tree becomes empty.\<close>

lemma remove_last_leaf:
  assumes ok: "tree_ok g vk b c h hl 0 (LeafN l r ls) fl" and len: "length fl + 2 < 2 ^ 32"
  shows "removed g vk hl 0 [] {l} fl c (drop_root c h hl 0 [l])"
proof -
  have w: "world g c h hl {l} fl" using ok by (simp add: tree_ok_def)
  obtain h' c' where D: "drop_root c h hl 0 [l] = (OBMAFS3_OK, h', c')" "root_node_lba h' = 0" "world g c' h' hl {} (l # fl)" "outside {l, hl} c c'"
    using drop_root_world [OF w, of "[l]" 0] len by (auto simp: insert_commute)
  then have "dholds g vk False c' h' hl 0 {} (l # fl) []" by (simp add: dholds_def)
  moreover have "outside ({l} \<union> {hl}) c c'" using D(4) by (simp add: insert_commute)
  ultimately show ?thesis using D(1) unfolding removed_def by fastforce
qed

text \<open>
  A leaf leaves the chain of its siblings. With one level of index nodes all children of the
  root are leaves; \<open>xs\<close> and \<open>ys\<close> are the siblings on both sides.
\<close>

fun relink_last :: "u64 \<Rightarrow> ents \<Rightarrow> ents" where
  "relink_last r [] = []"
| "relink_last r [(e, LeafN l _ rs)] = [(e, LeafN l r rs)]"
| "relink_last r (x # xs) = x # relink_last r xs"

lemma relink_last_snoc: "relink_last r (xs @ [(e, LeafN l r0 rs)]) = xs @ [(e, LeafN l r rs)]"
proof (induction xs)
  case (Cons x xs)
  then show ?case by (cases xs; cases x; auto)
qed simp

lemma rep_es_leaves:
  assumes "rep_es g bs B 0 xs" "xs \<noteq> []"
  obtains zs e l r rs where "xs = zs @ [(e, LeafN l r rs)]"
proof -
  obtain zs e u where x: "xs = zs @ [(e, u)]" using assms(2) by (cases xs rule: rev_cases) auto
  moreover obtain l r rs where "u = LeafN l r rs" using assms(1) x by (cases u) auto
  ultimately show ?thesis using that by blast
qed

lemma rep_es_eq: "rep_es g bs B lv es \<Longrightarrow> (\<And>k. k \<in> set (lbas_es es) \<Longrightarrow> B' k = B k) \<Longrightarrow> rep_es g bs B' lv es"
  by (rule rep_frame(2)) (auto intro: keeps_eq)

lemma unlink_right:
  assumes w: "world g c h hl S fl" and S: "set (lbas_es xs) \<subseteq> S" and d: "distinct (lbas_es xs)" and rp: "rep_es g (bsz c) (blk c) 0 xs"
    and p: "p = (if xs = [] then 0 else fst (last (leaves_es xs)))"
  shows "world g (fix_right_link c p r) h hl S fl" "outside (set (lbas_es xs)) c (fix_right_link c p r)"
    "\<And>k. k \<in> S - set (lbas_es xs) \<Longrightarrow> blk (fix_right_link c p r) k = blk c k"
    "rep_es g (bsz c) (blk (fix_right_link c p r)) 0 (relink_last r xs)"
    "\<And>k. k \<in> S \<Longrightarrow> left_link (nh_dec (blk (fix_right_link c p r) k)) = left_link (nh_dec (blk c k))"
proof -
  let ?c = "fix_right_link c p r"
  have "world g ?c h hl S fl \<and> outside (set (lbas_es xs)) c ?c \<and> (\<forall>k \<in> S - set (lbas_es xs). blk ?c k = blk c k) \<and>
    rep_es g (bsz c) (blk ?c) 0 (relink_last r xs) \<and> (\<forall>k \<in> S. left_link (nh_dec (blk ?c k)) = left_link (nh_dec (blk c k)))"
  proof (cases "xs = []")
    case True
    then show ?thesis using w p by (simp add: fix_right_link_def)
  next
    case False
    then obtain zs e l0 r0 rs where xs: "xs = zs @ [(e, LeafN l0 r0 rs)]" using rep_es_leaves [OF rp] by blast
    have p0: "p = l0" using p by (simp add: xs)
    have l0: "l0 \<in> S" "l0 \<noteq> 0" "in_vol c l0" "dev_ok c" using S w by (auto simp: xs world_def env_ok_def)
    have nd: "node_is (bsz c) (blk c l0) 0 r0 (rec_sz g) rs" "ie_child g e = l0" using rp by (simp_all add: xs)
    let ?b = "relinked (xxh64 c) (left_link (nh_dec (blk c l0))) r (blk c l0)"
    note rl = relinked_is [OF nd(1), of "xxh64 c" "left_link (nh_dec (blk c l0))" r]
    have fx: "?c = wrote c l0 ?b" unfolding p0 by (rule fix_links_relinked(2) [OF l0(4,3,2) nd(1)])
    have lb: "length ?b = bsz c" using rl(1) by (simp add: node_is_def)
    note ww = world_write [OF w l0(1) lb]
    have "rep_es g (bsz c) (blk (wrote c l0 ?b)) 0 zs"
    proof (rule rep_es_eq)
      show "rep_es g (bsz c) (blk c) 0 zs" using rp by (simp add: xs)
      fix k assume "k \<in> set (lbas_es zs)"
      then show "blk (wrote c l0 ?b) k = blk c k" using ww(4) [of k] d S by (auto simp: xs)
    qed
    then have "rep_es g (bsz c) (blk (wrote c l0 ?b)) 0 (relink_last r xs)"
      using rl(1) nd(2) ww(4) [OF l0(1)] by (simp add: xs relink_last_snoc)
    moreover have "outside (set (lbas_es xs)) c (wrote c l0 ?b)" using ww(3) by (rule outside_mono) (simp add: xs)
    ultimately show ?thesis using ww rl(2) unfolding fx by (auto simp: xs)
  qed
  then show "world g ?c h hl S fl" "outside (set (lbas_es xs)) c ?c" "\<And>k. k \<in> S - set (lbas_es xs) \<Longrightarrow> blk ?c k = blk c k"
    "rep_es g (bsz c) (blk ?c) 0 (relink_last r xs)" "\<And>k. k \<in> S \<Longrightarrow> left_link (nh_dec (blk ?c k)) = left_link (nh_dec (blk c k))" by blast+
qed

lemma unlink_left:
  assumes w: "world g c h hl S fl" and S: "set (lbas_es ys) \<subseteq> S" and d: "distinct (lbas_es ys)" and rp: "rep_es g (bsz c) (blk c) 0 ys"
    and r: "r = (if ys = [] then 0 else fst (hd (leaves_es ys)))"
  shows "world g (fix_left_link c r p) h hl S fl" "outside (set (lbas_es ys)) c (fix_left_link c r p)"
    "\<And>k. k \<in> S - set (lbas_es ys) \<Longrightarrow> blk (fix_left_link c r p) k = blk c k"
    "rep_es g (bsz c) (blk (fix_left_link c r p)) 0 ys"
    "\<And>k. k \<in> S \<Longrightarrow> left_link (nh_dec (blk (fix_left_link c r p) k)) = (if k = r then p else left_link (nh_dec (blk c k)))"
proof -
  let ?c = "fix_left_link c r p"
  have "world g ?c h hl S fl \<and> outside (set (lbas_es ys)) c ?c \<and> (\<forall>k \<in> S - set (lbas_es ys). blk ?c k = blk c k) \<and>
    rep_es g (bsz c) (blk ?c) 0 ys \<and> (\<forall>k \<in> S. left_link (nh_dec (blk ?c k)) = (if k = r then p else left_link (nh_dec (blk c k))))"
  proof (cases ys)
    case Nil
    then show ?thesis using w r by (auto simp: fix_left_link_def world_def)
  next
    case (Cons q zs)
    obtain e u where q: "q = (e, u)" by fastforce
    obtain l0 r0 rs where u: "u = LeafN l0 r0 rs" using rp by (cases u) (auto simp: Cons q)
    note ys = Cons [unfolded q u]
    have p0: "r = l0" using r by (simp add: ys)
    have l0: "l0 \<in> S" "l0 \<noteq> 0" "in_vol c l0" "dev_ok c" using S w by (auto simp: ys world_def env_ok_def)
    have nd: "node_is (bsz c) (blk c l0) 0 r0 (rec_sz g) rs" "ie_child g e = l0" using rp by (simp_all add: ys)
    let ?b = "relinked (xxh64 c) p (right_link (nh_dec (blk c l0))) (blk c l0)"
    have "right_link (nh_dec (blk c l0)) = r0" using nd(1) by (simp add: node_is_def)
    note rl = relinked_is [OF nd(1), of "xxh64 c" p r0, folded this]
    have fx: "?c = wrote c l0 ?b" unfolding p0 by (rule fix_links_relinked(1) [OF l0(4,3,2) nd(1)])
    have lb: "length ?b = bsz c" using rl(1) by (simp add: node_is_def)
    note ww = world_write [OF w l0(1) lb]
    have "rep_es g (bsz c) (blk (wrote c l0 ?b)) 0 zs"
    proof (rule rep_es_eq)
      show "rep_es g (bsz c) (blk c) 0 zs" using rp by (simp add: ys)
      fix k assume "k \<in> set (lbas_es zs)"
      then show "blk (wrote c l0 ?b) k = blk c k" using ww(4) [of k] d S by (auto simp: ys)
    qed
    then have "rep_es g (bsz c) (blk (wrote c l0 ?b)) 0 ys"
      using rl(1) nd ww(4) [OF l0(1)] by (simp add: ys node_is_def)
    moreover have "outside (set (lbas_es ys)) c (wrote c l0 ?b)" using ww(3) by (rule outside_mono) (simp add: ys)
    ultimately show ?thesis using ww rl(2) p0 unfolding fx by (auto simp: ys)
  qed
  then show "world g ?c h hl S fl" "outside (set (lbas_es ys)) c ?c" "\<And>k. k \<in> S - set (lbas_es ys) \<Longrightarrow> blk ?c k = blk c k"
    "rep_es g (bsz c) (blk ?c) 0 ys" "\<And>k. k \<in> S \<Longrightarrow> left_link (nh_dec (blk ?c k)) = (if k = r then p else left_link (nh_dec (blk c k)))" by blast+
qed


lemma relink_last_same [simp]:
  "lbas_es (relink_last r xs) = lbas_es xs" "recs_es (relink_last r xs) = recs_es xs" "map fst (relink_last r xs) = map fst xs"
  "length (relink_last r xs) = length xs" "caps_es ml mi (relink_last r xs) = caps_es ml mi xs" "(relink_last r xs = []) = (xs = [])"
  by (induction r xs rule: relink_last.induct) (auto split: tree.splits)

lemma next_key_relink [simp]: "next_key g hi (relink_last r xs) = next_key g hi xs"
  by (induction r xs rule: relink_last.induct) (auto split: tree.splits)

lemma kinv_relink: "kinv_es g vk b lo hi (relink_last r xs) = kinv_es g vk b lo hi xs"
  by (induction r xs arbitrary: lo rule: relink_last.induct) (auto split: tree.splits)

lemma kinv_relink_append:
  "kinv_es g vk b lo hi (xs @ ys) \<Longrightarrow> kinv_es g vk b lo hi (relink_last r xs @ ys)"
  by (cases "ys = []") (simp_all add: kinv_relink kinv_es_append)

lemma leaves_rep:
  assumes "rep_es g bs B 0 xs"
  shows "fst ` set (leaves_es xs) = set (lbas_es xs)" "set (rlinks_es xs) = snd ` set (leaves_es xs)" "(leaves_es xs = []) = (xs = [])"
proof -
  have "fst ` set (leaves_es xs) = set (lbas_es xs) \<and> set (rlinks_es xs) = snd ` set (leaves_es xs) \<and> (leaves_es xs = []) = (xs = [])"
    using assms
  proof (induction xs)
    case (Cons q xs)
    obtain e u where q: "q = (e, u)" by fastforce
    obtain l r rs where "u = LeafN l r rs" using Cons.prems by (cases u) (auto simp: q)
    then show ?case using Cons by (auto simp: q)
  qed simp
  then show "fst ` set (leaves_es xs) = set (lbas_es xs)" "set (rlinks_es xs) = snd ` set (leaves_es xs)" "(leaves_es xs = []) = (xs = [])"
    by blast+
qed

lemma distinct_leaves: "rep_es g bs B 0 xs \<Longrightarrow> distinct (lbas_es xs) \<Longrightarrow> distinct (map fst (leaves_es xs))"
proof (induction xs)
  case (Cons q xs)
  obtain e u where q: "q = (e, u)" by fastforce
  obtain l r rs where u: "u = LeafN l r rs" using Cons.prems by (cases u) (auto simp: q)
  have "l \<notin> fst ` set (leaves_es xs)" using Cons.prems leaves_rep(1) [of g bs B xs] by (auto simp: q u)
  then show ?case using Cons by (auto simp: q u)
qed simp

lemma chained_links: "chained ls \<Longrightarrow> snd ` set ls \<subseteq> insert 0 (fst ` set ls)"
  by (induction ls rule: chained.induct) auto

lemma chained_next: "chained ((l, r) # ls) \<Longrightarrow> r = (if ls = [] then 0 else fst (hd ls))"
  by (cases ls) auto

lemma chained_skip: "chained (xs @ (p, q) # (l, r) # ls) \<Longrightarrow> chained (xs @ (p, r) # ls)"
proof (induction xs rule: chained.induct)
  case 1
  then show ?case by (cases ls) auto
next
  case (2 l' r')
  then show ?case by (cases ls) auto
qed auto

lemma linked_fst: "map fst xs = map fst ys \<Longrightarrow> linked B p xs = linked B p ys"
proof (induction xs arbitrary: ys p)
  case (Cons x xs)
  from Cons.prems obtain y zs where y: "ys = y # zs" "fst x = fst y" "map fst xs = map fst zs" by (cases ys) auto
  then show ?case using Cons.IH [OF y(3)] by (cases x; cases y) simp
qed simp

lemma leaves_relink:
  assumes "rep_es g bs B 0 xs" "xs \<noteq> []"
  shows "\<exists>zs p r0. leaves_es xs = zs @ [(p, r0)] \<and> leaves_es (relink_last r xs) = zs @ [(p, r)]"
  using rep_es_leaves [OF assms] by (metis relink_last_snoc leaves_es_append leaves.simps(1) leaves_es.simps append_Nil2)

lemma unlink_leaf_ok:
  assumes w: "world g c h hl S fl" and S: "set (l # lbas_es xs @ lbas_es ys) \<subseteq> S" and d: "distinct (l # lbas_es xs @ lbas_es ys)"
    and rp: "rep_es g (bsz c) (blk c) 0 xs" "rep_es g (bsz c) (blk c) 0 ys" "right_link (nh_dec (blk c l)) = r"
    and ch: "chained (leaves_es xs @ (l, r) # leaves_es ys)" and lk: "linked (blk c) 0 (leaves_es xs @ (l, r) # leaves_es ys)"
    and c1: "c1 = unlink_leaf c (nh_dec (blk c l))"
  shows "world g c1 h hl S fl" "outside (set (lbas_es xs @ lbas_es ys)) c c1" "\<And>k. k \<in> S - set (lbas_es xs @ lbas_es ys) \<Longrightarrow> blk c1 k = blk c k"
    and "rep_es g (bsz c) (blk c1) 0 (relink_last r xs)" "rep_es g (bsz c) (blk c1) 0 ys"
    and "chained (leaves_es (relink_last r xs) @ leaves_es ys)" "linked (blk c1) 0 (leaves_es (relink_last r xs) @ leaves_es ys)"
proof -
  define p where "p = left_link (nh_dec (blk c l))"
  note ne = leaves_rep(3) [OF rp(1)] leaves_rep(3) [OF rp(2)]
  have p: "p = (if xs = [] then 0 else fst (last (leaves_es xs)))" using lk ne by (simp add: p_def linked_append)
  have chr: "chained ((l, r) # leaves_es ys)" using ch chained_append [of "leaves_es xs" l r "leaves_es ys"] by blast
  have r: "r = (if ys = [] then 0 else fst (hd (leaves_es ys)))" using chained_next [OF chr] ne by simp
  define c0 where "c0 = fix_right_link c p r"
  have c1': "c1 = fix_left_link c0 r p" by (simp add: c1 unlink_leaf_def c0_def p_def rp(3))
  have dd: "distinct (lbas_es xs)" "distinct (lbas_es ys)" "set (lbas_es xs) \<inter> set (lbas_es ys) = {}" "set (lbas_es xs) \<subseteq> S" "set (lbas_es ys) \<subseteq> S"
    using d S by auto
  note A = unlink_right [OF w dd(4,1) rp(1) p, where r = r, folded c0_def]
  have sb: "sb c0 = sb c" using A(2) maxes_frame [of _ c c0 g] by blast
  have "rep_es g (bsz c0) (blk c0) 0 ys"
    unfolding sb by (rule rep_es_eq [OF rp(2)]) (use A(3) dd(3,5) in auto)
  note B = unlink_left [OF A(1) dd(5,2) this r, where p = p, folded c1', unfolded sb]
  show "world g c1 h hl S fl" "rep_es g (bsz c) (blk c1) 0 ys" by (fact B)+
  show "rep_es g (bsz c) (blk c1) 0 (relink_last r xs)"
    by (rule rep_es_eq [OF A(4)]) (use B(3) dd in auto)
  show "outside (set (lbas_es xs @ lbas_es ys)) c c1"
    by (rule outside_trans [OF outside_mono [OF A(2)] B(2)]) auto
  show "blk c1 k = blk c k" if "k \<in> S - set (lbas_es xs @ lbas_es ys)" for k using that A(3) B(3) by auto
  have ll: "left_link (nh_dec (blk c1 k)) = (if k = r then p else left_link (nh_dec (blk c k)))" if "k \<in> S" for k
    using that A(5) B(5) by auto
  have inS: "k \<in> S" "k \<noteq> r" if "k \<in> fst ` set (leaves_es xs)" for k
    using that leaves_rep(1) [OF rp(1)] leaves_rep(1) [OF rp(2)] dd r w ne by (auto simp: world_def)
  have "linked (blk c1) 0 (leaves_es xs)" using lk inS ll by (subst linked_frame [of _ _ "blk c"]) (auto simp: linked_append)
  moreover have fx: "map fst (leaves_es (relink_last r xs)) = map fst (leaves_es xs)"
    using leaves_relink [OF rp(1), of r] by (cases "xs = []") auto
  ultimately have lx: "linked (blk c1) 0 (leaves_es (relink_last r xs))" using linked_fst [OF fx] by simp
  have last: "(if leaves_es (relink_last r xs) = [] then 0 else fst (last (leaves_es (relink_last r xs)))) = p"
    using leaves_relink [OF rp(1), of r] p ne by (cases "xs = []") auto
  have "linked (blk c1) p (leaves_es ys)"
  proof (cases "leaves_es ys")
    case (Cons q ls)
    obtain l2 r2 where q: "q = (l2, r2)" by fastforce
    have r2: "r = l2" using r ne Cons by (auto simp: q)
    have dl: "distinct (map fst (leaves_es ys))" by (rule distinct_leaves [OF rp(2) dd(2)])
    have "linked (blk c) l2 ls" using lk by (simp add: linked_append Cons q)
    moreover have "k \<in> S \<and> k \<noteq> r" if "k \<in> fst ` set ls" for k
      using that dl leaves_rep(1) [OF rp(2)] dd(5) by (auto simp: Cons q r2)
    ultimately have "linked (blk c1) l2 ls" using ll by (subst linked_frame [of _ _ "blk c"]) auto
    moreover have "l2 \<in> S" using leaves_rep(1) [OF rp(2)] dd(5) by (auto simp: Cons q)
    ultimately show ?thesis using ll [of l2] by (simp add: Cons q r2)
  qed simp
  then show "linked (blk c1) 0 (leaves_es (relink_last r xs) @ leaves_es ys)" using lx last by (simp add: linked_append)
  show "chained (leaves_es (relink_last r xs) @ leaves_es ys)"
  proof (cases "xs = []")
    case True
    then show ?thesis using chr by (cases "leaves_es ys") auto
  next
    case False
    then show ?thesis using leaves_relink [OF rp(1) False, of r] ch chained_skip by auto
  qed
qed


text \<open>A leaf under the root becomes empty.\<close>

lemma remove_leaf_of_root:
  assumes t: "t = IndexN p 0 (xs @ (e, LeafN l r [x]) # ys)" and ok0: "tree_ok g vk b c h hl 1 t fl"
    and ch0: "chained (leaves t)" and lk0: "linked (blk c) 0 (leaves t)" and len: "length fl + 2 < 2 ^ 32"
    and c1: "c1 = unlink_leaf c (nh_dec (blk c l))"
  shows "heap_ok c1" "obmafs3_block_read c1 p (bsz c1) = Inr (blk c1 p)"
    and "removed g vk hl 1 (recs_es xs @ recs_es ys) (set (lbas t)) fl c (remove_child g c1 h hl l p (length xs) True (blk c1 p))"
proof -
  let ?t = "IndexN p 0 (xs @ (e, LeafN l r [x]) # ys)"
  note ok = ok0 [unfolded t] and ch = ch0 [unfolded t] and lk = lk0 [unfolded t]
  let ?S = "set (lbas t)" and ?xs = "relink_last r xs"
  have St: "?S = insert p (insert l (set (lbas_es xs @ lbas_es ys)))" by (auto simp: t)
  have w: "world g c h hl ?S fl" and d: "distinct (p # l # lbas_es xs @ lbas_es ys)" using ok0 by (auto simp: tree_ok_def t)
  have rp: "rep_es g (bsz c) (blk c) 0 xs" "rep_es g (bsz c) (blk c) 0 ys" "node_is (bsz c) (blk c l) 0 r (rec_sz g) [x]"
    "node_is (bsz c) (blk c p) 1 0 (ie_sz g) (map fst xs @ e # map fst ys)" using ok by (simp_all add: tree_ok_def)
  have rl: "right_link (nh_dec (blk c l)) = r" using rp(3) by (simp add: node_is_def)
  have U: "world g c1 h hl ?S fl" "outside (set (lbas_es xs @ lbas_es ys)) c c1" "\<And>k. k \<in> ?S - set (lbas_es xs @ lbas_es ys) \<Longrightarrow> blk c1 k = blk c k"
    "rep_es g (bsz c) (blk c1) 0 ?xs" "rep_es g (bsz c) (blk c1) 0 ys"
    "chained (leaves_es ?xs @ leaves_es ys)" "linked (blk c1) 0 (leaves_es ?xs @ leaves_es ys)"
    using unlink_leaf_ok [OF w _ _ rp(1,2) rl _ _ c1] d ch lk by (auto simp: St)
  have mx: "sb c1 = sb c" "leaf_max g c1 = leaf_max g c" "index_max g c1 = index_max g c" using maxes_frame [OF U(2), of g] by simp_all
  show "heap_ok c1" "obmafs3_block_read c1 p (bsz c1) = Inr (blk c1 p)"
    using U(1) by (auto simp: world_def env_ok_def St intro: block_read_blk)
  have bp: "blk c1 p = blk c p" using U(3) [of p] d by (auto simp: St)
  define moved where "moved = remove_slot (ie_sz g) (Suc (length xs + length ys)) (length xs) (blk c1 p)"
  have mv: "slots (ie_sz g) (length xs + length ys) (ndata moved) = map fst (?xs @ ys)" "length moved = bsz c"
    using remove_slot_slots [OF rp(4), of "length xs"] by (simp_all add: moved_def bp)
  have nk: "unat (node_keys (nh_dec (blk c1 p))) = Suc (length xs + length ys)" using rp(4) by (simp add: bp node_is_def)
  then have md: "remove_slot (ie_sz g) (unat (node_keys (nh_dec (blk c1 p)))) (length xs) (blk c1 p) = moved" by (simp add: moved_def)
  from nk have nk1: "unat (node_keys (nh_dec (blk c1 p)) - 1) = length xs + length ys" by (subst unat_minus_one) auto
  have kk: "kinv_es g vk False None None (?xs @ ys)"
    using tree_ok_loose [OF ok] kinv_drop_entry kinv_relink_append by (fastforce simp: tree_ok_def)
  have cp: "caps_es (unat (leaf_max g c)) (unat (index_max g c)) (?xs @ ys)" "length xs + length ys \<le> unat (index_max g c)"
    using ok by (simp_all add: tree_ok_def)
  have rle: "set (rlinks_es (?xs @ ys)) \<subseteq> insert 0 (set (lbas_es (?xs @ ys)))"
    using leaves_rep(1,2) [of g "bsz c" "blk c1" "?xs @ ys"] chained_links [OF U(6)] U(4,5) by simp
  have drop: "\<exists>h' c'. drop_root c1 h hl q [l, p] = (OBMAFS3_OK, h', c') \<and> root_node_lba h' = q \<and>
      world g c' h' hl (set (lbas_es xs @ lbas_es ys)) (p # l # fl) \<and> outside (?S \<union> {hl}) c c' \<and>
      (\<forall>k \<in> set (lbas_es xs @ lbas_es ys). blk c' k = blk c1 k)" for q
  proof -
    have "?S - set [l, p] = set (lbas_es xs @ lbas_es ys)" using d by (auto simp: St)
    then obtain h' c' where D: "drop_root c1 h hl q [l, p] = (OBMAFS3_OK, h', c')" "root_node_lba h' = q"
      "world g c' h' hl (set (lbas_es xs @ lbas_es ys)) (p # l # fl)" "outside (set [l, p] \<union> {hl}) c1 c'"
      "\<forall>k \<in> set (lbas_es xs @ lbas_es ys). blk c' k = blk c1 k"
      using drop_root_world [OF U(1), of "[l, p]" q] d len by (auto simp: St)
    have "outside (?S \<union> {hl}) c c'" by (rule outside_trans [OF outside_mono [OF U(2)] D(4)]) (auto simp: St)
    then show ?thesis using D by blast
  qed
  consider (none) "length xs + length ys = 0" | (one) "length xs + length ys = 1" | (more) "2 \<le> length xs + length ys" by linarith
  then show "removed g vk hl 1 (recs_es xs @ recs_es ys) (set (lbas t)) fl c (remove_child g c1 h hl l p (length xs) True (blk c1 p))"
  proof cases
    case none
    then have "node_keys (nh_dec (blk c1 p)) - 1 = 0" using nk1 by (simp add: unat_eq_zero)
    then have rc: "remove_child g c1 h hl l p (length xs) True (blk c1 p) = drop_root c1 h hl 0 [l, p]" by (simp add: remove_child_def)
    obtain h' c' where D: "drop_root c1 h hl 0 [l, p] = (OBMAFS3_OK, h', c')" "root_node_lba h' = 0" "world g c' h' hl {} (p # l # fl)"
      "outside (?S \<union> {hl}) c c'" using drop [of 0] none by auto
    then have "dholds g vk False c' h' hl 0 {} (p # l # fl) []" by (simp add: dholds_def)
    moreover have "{} \<union> set (p # l # fl) = ?S \<union> set fl" "recs_es xs @ recs_es ys = []" using none by (auto simp: St)
    ultimately show ?thesis using D(1,4) unfolding rc removed_def by fastforce
  next
    case one
    then have "length (?xs @ ys) = Suc 0" by simp
    then obtain q' where "?xs @ ys = [q']" unfolding length_Suc_conv by blast
    then obtain e' u' where q: "?xs @ ys = [(e', u')]" by (cases q') simp
    have ru: "rep g (bsz c) (blk c1) 0 u'" "ie_child g e' = tlba u'" using U(4,5) q by (metis rep_es.simps(2) rep_es_append)+
    obtain l' r' rs' where u: "u' = LeafN l' r' rs'" using ru(1) by (cases u') auto
    have own: "set (lbas_es xs @ lbas_es ys) = {l'}" "recs_es xs @ recs_es ys = rs'" "leaves_es ?xs @ leaves_es ys = [(l', r')]"
      using arg_cong [OF q, of lbas_es] arg_cong [OF q, of recs_es] arg_cong [OF q, of leaves_es] by (auto simp: u)
    have "slot (ie_sz g) 0 (ndata moved) = e'" using mv(1) q one nth_slots [of 0 "length xs + length ys" "ie_sz g" "ndata moved"] by simp
    moreover have "node_keys (nh_dec (blk c1 p)) - 1 = 1" using nk1 one by (simp add: word_unat_eq_iff)
    ultimately have rc: "remove_child g c1 h hl l p (length xs) True (blk c1 p) = drop_root c1 h hl l' [l, p]"
      using ru(2) unfolding remove_child_def Let_def md by (simp add: u)
    obtain h' c' where D: "drop_root c1 h hl l' [l, p] = (OBMAFS3_OK, h', c')" "root_node_lba h' = l'" "world g c' h' hl {l'} (p # l # fl)"
      "outside (?S \<union> {hl}) c c'" "blk c' l' = blk c1 l'" using drop [of l'] own(1) by auto
    have m: "sb c' = sb c" "leaf_max g c' = leaf_max g c" using maxes_frame [OF D(4), of g] by simp_all
    have "tree_ok g vk False c' h' hl 0 (LeafN l' r' rs') (p # l # fl)"
      using D(2,3,5) ru(1) kk cp(1) U(6) own(3) m unfolding q u by (simp add: tree_ok_def)
    moreover have "linked (blk c') 0 [(l', r')]" "r' = 0" using U(6,7) D(5) unfolding own(3) by simp_all
    ultimately have "dholds g vk False c' h' hl 0 {l'} (p # l # fl) (recs_es xs @ recs_es ys)"
      unfolding dholds_def own(2) by (intro disjI2 exI [of _ "LeafN l' r' rs'"]) simp
    moreover have "{l'} \<union> set (p # l # fl) = ?S \<union> set fl" unfolding St own(1) by auto
    ultimately show ?thesis using D(1,4) unfolding rc removed_def by fastforce
  next
    case more
    let ?b = "shrunk_image c1 (blk c1 p) (ie_sz g) moved" and ?t' = "IndexN p 0 (?xs @ ys)"
    have n1: "node_is (bsz c1) (blk c1 p) 1 0 (ie_sz g) (map fst xs @ e # map fst ys)" using rp(4) by (simp add: bp mx)
    have nd: "node_is (bsz c1) ?b 1 0 (ie_sz g) (map fst (?xs @ ys))"
      using mv by (intro shrunk_image_is [OF n1]) (simp_all add: mx)
    have lb: "length ?b = bsz c1" using nd by (simp add: node_is_def)
    have pS: "p \<in> ?S" by (simp add: St)
    note W = world_write [OF U(1) pS lb]
    let ?h = "h\<lparr>total_nodes := total_nodes h - 1\<rparr>"
    have "world g (wrote c1 p ?b) ?h hl ?S fl" using W(2) by (subst world_cong_hdr [of _ h]) simp_all
    from world_header [OF this] obtain ck c2 where
      H: "obmafs3_btree_header_write (wrote c1 p ?b) hl ?h = (OBMAFS3_OK, ?h\<lparr>bh_checksum := ck\<rparr>, c2)"
        "world g c2 (?h\<lparr>bh_checksum := ck\<rparr>) hl ?S fl" "outside {hl} (wrote c1 p ?b) c2" "\<forall>k \<in> ?S. blk c2 k = blk (wrote c1 p ?b) k" by blast
    obtain h' c' where F: "obmafs3_btree_free_node c2 (?h\<lparr>bh_checksum := ck\<rparr>) l = (OBMAFS3_OK, h', c')" "world g c' h' hl (?S - {l}) (l # fl)"
      "outside {l} c2 c'" "\<forall>k \<in> ?S - {l}. blk c' k = blk c2 k" "root_node_lba h' = root_node_lba h"
      using world_free [OF H(2), of l] len by (auto simp: St)
    have nz: "node_keys (nh_dec (blk c1 p)) - 1 \<noteq> 0" "node_keys (nh_dec (blk c1 p)) - 1 \<noteq> 1"
      using nk1 more by (auto simp: word_unat_eq_iff)
    have rc: "remove_child g c1 h hl l p (length xs) True (blk c1 p) = (OBMAFS3_OK, h', c')"
      unfolding remove_child_def Let_def md using nz W(1) H(1) F(1) by simp
    have "outside (?S \<union> {hl}) c c1" using U(2) by (rule outside_mono) (auto simp: St)
    then have "outside (?S \<union> {hl}) c (wrote c1 p ?b)" by (rule outside_trans [OF _ W(3)]) (simp add: St)
    then have "outside (?S \<union> {hl}) c c2" by (rule outside_trans [OF _ H(3)]) auto
    then have out: "outside (?S \<union> {hl}) c c'" by (rule outside_trans [OF _ F(3)]) (simp add: St)
    have m: "sb c' = sb c" "leaf_max g c' = leaf_max g c" "index_max g c' = index_max g c" using maxes_frame [OF out, of g] by simp_all
    have S': "?S - {l} = set (lbas ?t')" using d by (auto simp: St)
    have B0: "blk c' k = (if k = p then ?b else blk c1 k)" if "k \<in> ?S" "k \<noteq> l" for k
      using F(4) H(4) W(4) [of k] that by simp
    have B: "blk c' p = ?b" "\<And>k. k \<in> set (lbas_es (?xs @ ys)) \<Longrightarrow> blk c' k = blk c1 k"
    proof -
      show "blk c' p = ?b" using B0 [of p] d by (simp add: St)
      fix k assume that: "k \<in> set (lbas_es (?xs @ ys))"
      have "k \<in> ?S" "k \<noteq> l" "k \<noteq> p" using that d by (auto simp: St)
      then show "blk c' k = blk c1 k" using B0 by simp
    qed
    have "rep_es g (bsz c) (blk c') 0 (?xs @ ys)" by (rule rep_es_eq [of g "bsz c" "blk c1"]) (use U(4,5) B(2) in auto)
    then have rp': "rep g (bsz c) (blk c') 1 ?t'" using nd B(1) mx by simp
    have "tree_ok g vk False c' h' hl 1 ?t' (l # fl)"
      unfolding tree_ok_def m
    proof (intro conjI)
      show "world g c' h' hl (set (lbas ?t')) (l # fl)" unfolding S' [symmetric] by (rule F(2))
      show "distinct (lbas ?t')" using d by auto
      show "root_node_lba h' = tlba ?t'" using F(5) ok by (simp add: tree_ok_def)
      show "rep g (bsz c) (blk c') 1 ?t'" by (rule rp')
      show "kinv g vk False None None ?t'" using kk more by auto
      show "caps (unat (leaf_max g c)) (unat (index_max g c)) ?t'" using cp by simp
      show "set (rlinks ?t') \<subseteq> insert 0 (set (lbas ?t'))" using rle by auto
    qed
    moreover have "linked (blk c') 0 (leaves ?t')"
    proof (subst linked_frame [of _ _ "blk c1"])
      fix k assume "k \<in> fst ` set (leaves ?t')"
      then have "k \<in> set (lbas_es (?xs @ ys))" using leaves_lbas(2) [of _ "?xs @ ys"] by auto
      then show "left_link (nh_dec (blk c' k)) = left_link (nh_dec (blk c1 k))" using B(2) by simp
    qed (use U(7) in simp)
    ultimately have "dholds g vk False c' h' hl 1 (?S - {l}) (l # fl) (recs_es xs @ recs_es ys)"
      unfolding dholds_def S' using U(6) by (intro disjI2 exI [of _ ?t']) simp
    moreover have "(?S - {l}) \<union> set (l # fl) = ?S \<union> set fl" by (auto simp: St)
    ultimately show ?thesis using out unfolding rc removed_def by fastforce
  qed
qed


section \<open>The whole deletion\<close>

context tree_layout
begin

lemma tree_remove_removes:
  assumes hs: "dholds g vk b c h hl lv own fl rs" and lv: "lv \<le> 1" and len: "length fl + 2 < 2 ^ 32"
    and key: "rmap g rs key = Some x"
  shows "fst (tree_remove g c h hl key) = Some x"
    and "removed g vk hl lv (del_rec (rec_key g) key rs) own fl c (snd (tree_remove g c h hl key))"
proof -
  have xr: "x \<in> set rs" "rec_key g x = key" using key rmap_Some [OF holds_sorted(1) [OF dholds_holds [OF hs]]] by auto
  then have "rs \<noteq> []" by auto
  then obtain t where t: "tree_ok g vk b c h hl lv t fl" "own = set (lbas t)" "recs t = rs" "chained (leaves t)"
    "linked (blk c) 0 (leaves t)" "trl t = 0" using hs by (auto simp: dholds_def)
  have root: "root_node_lba h \<noteq> 0" using tree_ok_root [OF t(1)] .
  have "dev_ok c" "\<And>k. k \<in> set (lbas t) \<Longrightarrow> in_vol c k" "rep g (bsz c) (blk c) lv t"
    "kinv g vk b (hole_lo g []) (hole_hi g []) t" "root_node_lba h = tlba t"
    using t(1) by (auto simp: world_def env_ok_def tree_ok_def)
  from descent [OF this(1-4), of key 8 "[]"] lv this(5)
  obtain fs l r ls where D: "t = plug fs (LeafN l r ls)" "length fs = lv"
     "tree_path g c key 8 (root_node_lba h) [] = Inr (l, blk c l, frame_path fs)"
     "node_is (bsz c) (blk c l) 0 r (rec_sz g) ls"
     "kinv g vk b (hole_lo g fs) (hole_hi g fs) (LeafN l r ls)"
     "ge_lo (hole_lo g fs) key" "lt_hi key (hole_hi g fs)" by auto
  have fin: "finv g vk b fs" using t(1) by (simp add: D(1) tree_ok_def kinv_plug)
  have rs: "rs = frecs_l fs @ ls @ frecs_r fs" using t(3) by (simp add: D(1) recs_plug)
  have side: "rec_key g y \<noteq> key" if "y \<in> set (frecs_l fs) \<union> set (frecs_r fs)" for y
    using finv_sides [OF fin] D(6,7) that by force
  then have xls: "x \<in> set ls" using xr by (auto simp: rs)
  have srt: "sorted_wrt (<) (map (rec_key g) ls)" using D(5) by simp
  define idx where "idx = leaf_find g (blk c l) (node_keys (nh_dec (blk c l))) key"
  note spec = leaf_find_spec [OF D(4) srt idx_def]
  have hit: "0 \<le> idx"
  proof (rule ccontr)
    assume "\<not> 0 \<le> idx"
    then have "\<forall>j < length ls. rec_key g (ls ! j) \<noteq> key" using spec(2) by (meson linorder_not_less less_irrefl)
    then show False using xls xr(2) by (auto simp: in_set_conv_nth)
  qed
  define i where "i = nat idx"
  have i: "i < length ls" "rec_key g (ls ! i) = key" using spec(1) [OF hit] by (simp_all add: i_def)
  have xi: "ls ! i = x" using rmap_Some [OF srt, of key] i xls xr(2) by (metis nth_mem option.inject)
  have sl: "slot (rec_sz g) i (ndata (blk c l)) = x" using node_is_slot [OF D(4) i(1)] xi by simp
  have drs: "del_rec (rec_key g) key rs = frecs_l fs @ (take i ls @ drop (Suc i) ls) @ frecs_r fs"
    using del_rec_at [OF srt i] side by (simp add: rs del_rec_id)
  have nk: "unat (node_keys (nh_dec (blk c l))) = length ls" using D(4) by (simp add: node_is_def)
  then have nk1: "unat (node_keys (nh_dec (blk c l)) - 1) = length ls - 1" using i(1) by (subst unat_minus_one) auto
  have "fst (tree_remove g c h hl key) = Some x \<and> removed g vk hl lv (del_rec (rec_key g) key rs) own fl c (snd (tree_remove g c h hl key))"
  proof (cases "1 < length ls")
    case True
    then have nz: "node_keys (nh_dec (blk c l)) - 1 \<noteq> 0" using nk1 by auto
    define buf where "buf = shrunk_image c (blk c l) (rec_sz g) (put (nh_size + (length ls - 1) * rec_sz g) (replicate (rec_sz g) 0)
       (remove_slot (rec_sz g) (length ls) i (blk c l)))"
    have "tree_remove g c h hl key = (case obmafs3_block_write c l buf of (e, c1) \<Rightarrow> (Some x, e, h, c1))"
      using root D(3) hit nz sl by (simp add: tree_remove_def Let_def BTREE_MAX_DEPTH_def idx_def [symmetric] i_def [symmetric] nk nk1 buf_def)
    moreover have "removed g vk hl lv (del_rec (rec_key g) key rs) own fl c (case obmafs3_block_write c l buf of (e, c1) \<Rightarrow> (e, h, c1))"
      unfolding drs t(2) D(1)
      by (rule remove_in_place [OF t(1) [unfolded D(1)] D(2) [symmetric] _ i(1) buf_def]) (use t(4-6) in \<open>simp_all add: D(1)\<close>)
    ultimately show ?thesis by (cases "obmafs3_block_write c l buf") simp
  next
    case False
    then have ls: "ls = [x]" "i = 0" using i(1) xi by (cases ls; auto)+
    have nz: "node_keys (nh_dec (blk c l)) = 1" using nk ls by (simp add: word_unat_eq_iff)
    then have idx1: "leaf_find g (blk c l) 1 key = idx" by (simp add: idx_def)
    show ?thesis
    proof (cases fs)
      case Nil
      have "tree_remove g c h hl key = (Some x, drop_root c h hl 0 [l])"
        using root D(3) hit nz sl Nil by (simp add: tree_remove_def Let_def BTREE_MAX_DEPTH_def idx1 i_def [symmetric] frame_path_def)
      moreover have "removed g vk hl 0 [] {l} fl c (drop_root c h hl 0 [l])"
        by (rule remove_last_leaf) (use t(1) D(1,2) Nil len in simp_all)
      ultimately show ?thesis using D(1,2) Nil ls t(2) by (simp add: drs)
    next
      case (Cons f fs')
      obtain p pr xs e ys where f: "f = (p, pr, xs, e, ys)" by (cases f) auto
      have fs: "fs = [(p, pr, xs, e, ys)]" "lv = 1" using lv D(2) Cons f by (auto simp: le_Suc_eq)
      have tt: "t = IndexN p 0 (xs @ (e, LeafN l r [x]) # ys)" using D(1) t(6) by (simp add: fs ls)
      note R = remove_leaf_of_root [OF tt t(1) [unfolded fs(2)] t(4,5) len refl]
      have "tree_remove g c h hl key = (Some x, remove_child g (unlink_leaf c (nh_dec (blk c l))) h hl l p (length xs) True
          (blk (unlink_leaf c (nh_dec (blk c l))) p))"
        using root D(3) hit nz sl R(1,2)
        by (simp add: tree_remove_def Let_def BTREE_MAX_DEPTH_def idx1 i_def [symmetric] frame_path_def fs)
      then show ?thesis using R(3) t(2) ls fs by (simp add: drs)
    qed
  qed
  then show "fst (tree_remove g c h hl key) = Some x"
    and "removed g vk hl lv (del_rec (rec_key g) key rs) own fl c (snd (tree_remove g c h hl key))" by blast+
qed

end

text \<open>A key that is not there: nothing changes.\<close>

lemma tree_remove_absent:
  assumes hs: "holds g vk b c h hl lv own fl rs" and lv: "lv \<le> 8" and key: "rmap g rs key = None"
  shows "tree_remove g c h hl key = (None, OBMAFS3_ERR_NOTFOUND, h, c)"
proof (cases "root_node_lba h = 0")
  case True
  then show ?thesis by (simp add: tree_remove_def)
next
  case False
  then obtain t where t: "tree_ok g vk b c h hl lv t fl" "recs t = rs" using hs by (auto simp: holds_def)
  have "dev_ok c" "\<And>k. k \<in> set (lbas t) \<Longrightarrow> in_vol c k" "rep g (bsz c) (blk c) lv t"
    "kinv g vk b (hole_lo g []) (hole_hi g []) t" "root_node_lba h = tlba t"
    using t(1) by (auto simp: world_def env_ok_def tree_ok_def)
  from descent [OF this(1-4), of key 8 "[]"] lv this(5)
  obtain fs l r ls where D: "t = plug fs (LeafN l r ls)"
     "tree_path g c key 8 (root_node_lba h) [] = Inr (l, blk c l, frame_path fs)"
     "node_is (bsz c) (blk c l) 0 r (rec_sz g) ls" "kinv g vk b (hole_lo g fs) (hole_hi g fs) (LeafN l r ls)" by auto
  have srt: "sorted_wrt (<) (map (rec_key g) ls)" using D(4) by simp
  define idx where "idx = leaf_find g (blk c l) (node_keys (nh_dec (blk c l))) key"
  note spec = leaf_find_spec [OF D(3) srt idx_def]
  have "\<not> 0 \<le> idx"
  proof
    assume "0 \<le> idx"
    from spec(1) [OF this] have "ls ! nat idx \<in> set rs" "rec_key g (ls ! nat idx) = key" using t(2) by (auto simp: D(1) recs_plug)
    then show False using key by (auto simp: rmap_None)
  qed
  then show ?thesis using False D(2) by (simp add: tree_remove_def Let_def BTREE_MAX_DEPTH_def idx_def [symmetric])
qed

end
