(* ===== verification/TreeStore.thy ===== *)
theory TreeStore
  imports BPlusDelete
begin

text \<open>
  Trees as parts of a volume. Each tree of the filesystem keeps its header in a field of the
  context; the operations of the library run the B+Tree code on that field. This theory lifts
  the tree lemmas to the context, shows that trees which share a volume do not disturb each
  other, and states as a locale what a component gets from the tree it keeps its records in.
\<close>

section \<open>Contexts with the same volume\<close>

definition same_volume :: "ctx \<Rightarrow> ctx \<Rightarrow> bool" where
  "same_volume c c' \<longleftrightarrow> dev c' = dev c \<and> sb c' = sb c \<and> bitmap c' = bitmap c \<and> bitmap_size c' = bitmap_size c \<and>
     next_free_lba c' = next_free_lba c \<and> heap_ok c' = heap_ok c \<and> heap_past c' = heap_past c \<and> xxh64 c' = xxh64 c"

lemma same_volume_sym: "same_volume c c' \<Longrightarrow> same_volume c' c"
  by (simp add: same_volume_def)

lemma same_volume_trans: "same_volume a b \<Longrightarrow> same_volume b c \<Longrightarrow> same_volume a c"
  by (simp add: same_volume_def)

lemma same_volume_blocks:
  assumes "same_volume c c'"
  shows "obmafs3_block_read c' = obmafs3_block_read c" "blk c' = blk c" "used c' = used c" "bm_ok c' = bm_ok c"
    "dev_ok c' = dev_ok c" "in_vol c' = in_vol c" "blocks_per_node c' = blocks_per_node c" "sb c' = sb c"
  using assms by (auto simp: same_volume_def fun_eq_iff obmafs3_block_read_def blk_def used_def bm_ok_def dev_ok_def in_vol_def
      blocks_per_node_def)

lemma same_volume_maxes: "same_volume c c' \<Longrightarrow> leaf_max g c' = leaf_max g c" "same_volume c c' \<Longrightarrow> index_max g c' = index_max g c"
  by (simp_all add: same_volume_def leaf_max_def index_max_def)

lemma same_volume_chain: "same_volume c c' \<Longrightarrow> chain c' x ls = chain c x ls"
  by (induction ls arbitrary: x) (auto simp: same_volume_blocks split: sum.splits)

lemma same_volume_world: "same_volume c c' \<Longrightarrow> world g c' h hl S fl = world g c h hl S fl"
  using same_volume_blocks [of c c'] same_volume_chain [of c c']
  by (simp add: world_def env_ok_def pool_def) (simp add: same_volume_def)

lemma same_volume_holds: "same_volume c c' \<Longrightarrow> holds g vk b c' h hl lv own fl rs = holds g vk b c h hl lv own fl rs"
  using same_volume_world [of c c' g] same_volume_blocks [of c c'] same_volume_maxes [of c c' g] by (simp add: holds_def tree_ok_def)

lemma same_volume_dholds: "same_volume c c' \<Longrightarrow> dholds g vk b c' h hl lv own fl rs = dholds g vk b c h hl lv own fl rs"
  using same_volume_world [of c c' g] same_volume_blocks [of c c'] same_volume_maxes [of c c' g] by (simp add: dholds_def tree_ok_def)

section \<open>Trees side by side\<close>

text \<open>What is left alone stays as it was: the blocks of another tree, its reserve and its header.\<close>

lemma world_beside:
  assumes w: "world g c h hl S fl" and o: "outside T c c'" and ok: "dev_ok c'" "bm_ok c'"
    and T: "T \<inter> (S \<union> set fl) = {}"
  shows "world g c' h hl S fl" "\<And>k. k \<in> S \<Longrightarrow> blk c' k = blk c k"
proof -
  have sb: "sb c' = sb c" using maxes_frame [OF o, of g] by simp
  have env: "env_ok g c' hl" using w env_ok_frame [OF _ o ok, of g hl] by (simp add: world_def)
  have B: "blk c' k = blk c k" "in_vol c' k" "used c' (unat k)" if "in_vol c k" "used c (unat k)" "k \<notin> T" for k
    using o that sb by (auto simp: outside_def in_vol_def)
  have fl: "in_vol c k \<and> used c (unat k) \<and> k \<notin> T" if "k \<in> set fl" for k
    using w T that chain_in_vol [of c "free_node_lba h" fl k] by (auto simp: world_def pool_def node_blocks_one)
  have S: "in_vol c k \<and> used c (unat k) \<and> k \<notin> T" if "k \<in> S" for k using w T that by (auto simp: world_def)
  have rd: "obmafs3_block_read c' k (bsz c) = obmafs3_block_read c k (bsz c)" if "in_vol c k" "used c (unat k)" "k \<notin> T" for k
    using block_read_blk [of c k] block_read_blk [of c' k] B [OF that] that(1) ok(1) w sb by (simp add: world_def env_ok_def)
  have "chain c' (free_node_lba h) fl = chain c (free_node_lba h) fl"
    using fl rd sb by (intro chain_cong) auto
  moreover have "blocks_per_node c' h = blocks_per_node c h" using sb by (simp add: blocks_per_node_def)
  moreover have "\<forall>p. used c p \<longrightarrow> used c' p" using o by (simp add: outside_def)
  ultimately have "pool c' h fl" using w sb by (auto simp: world_def pool_def)
  then show "world g c' h hl S fl" using env w S B \<open>blocks_per_node c' h = blocks_per_node c h\<close> by (auto simp: world_def)
  show "\<And>k. k \<in> S \<Longrightarrow> blk c' k = blk c k" using S B by blast
qed

lemma rep_eq: "rep g bs B lv t \<Longrightarrow> (\<And>k. k \<in> set (lbas t) \<Longrightarrow> B' k = B k) \<Longrightarrow> rep g bs B' lv t"
  by (rule rep_frame(1)) (auto intro: keeps_eq)

lemma holds_beside:
  assumes h: "holds g vk b c h hl lv own fl rs" and o: "outside T c c'" and ok: "dev_ok c'" "bm_ok c'"
    and T: "T \<inter> (own \<union> set fl) = {}"
  shows "holds g vk b c' h hl lv own fl rs"
proof -
  have mx: "sb c' = sb c" "leaf_max g c' = leaf_max g c" "index_max g c' = index_max g c" using maxes_frame [OF o, of g] by simp_all
  from h consider (empty) "root_node_lba h = 0" "lv = 0" "own = {}" "rs = []" "world g c h hl {} fl"
    | (tree) t where "tree_ok g vk b c h hl lv t fl" "own = set (lbas t)" "recs t = rs" "chained (leaves t)"
    by (auto simp: holds_def)
  then show ?thesis
  proof cases
    case empty
    have "world g c' h hl {} fl" using world_beside(1) [OF empty(5) o ok] T empty(3) by simp
    then show ?thesis using empty by (simp add: holds_def)
  next
    case tree
    have w: "world g c h hl (set (lbas t)) fl" using tree(1) by (simp add: tree_ok_def)
    note W = world_beside [OF w o ok, unfolded tree(2) [symmetric], OF T]
    have "rep g (bsz c) (blk c) lv t" using tree(1) by (simp add: tree_ok_def)
    then have "rep g (bsz c) (blk c') lv t" by (rule rep_eq) (rule W(2), simp add: tree(2))
    then have "tree_ok g vk b c' h hl lv t fl" using tree(1,2) W(1) mx by (simp add: tree_ok_def)
    then show ?thesis using tree by (auto simp: holds_def)
  qed
qed

text \<open>The headers of the other trees and the refcount cache live in the context and stay.\<close>

lemma outside_fields:
  assumes "outside T c c'"
  shows "catalog_hdr c' = catalog_hdr c" "inode_hdr c' = inode_hdr c" "overflow_hdr c' = overflow_hdr c" "media_tag_hdr c' = media_tag_hdr c"
    "cd_prefix_hdr c' = cd_prefix_hdr c" "cd_suffix_hdr c' = cd_suffix_hdr c" "cd_subchannel_hdr c' = cd_subchannel_hdr c"
    "refcount_hdr c' = refcount_hdr c" "bitmap_size c' = bitmap_size c" "rc_leaf_buf c' = rc_leaf_buf c" "rc_leaf_lba c' = rc_leaf_lba c"
    "rc_leaf_min c' = rc_leaf_min c" "rc_leaf_max c' = rc_leaf_max c" "rc_leaf_count c' = rc_leaf_count c" "rc_leaf_valid c' = rc_leaf_valid c"
proof -
  obtain d b n where "c' = c\<lparr>dev := d, bitmap := b, next_free_lba := n\<rparr>" using assms unfolding outside_def alloc_frame_def by blast
  then show "catalog_hdr c' = catalog_hdr c" "inode_hdr c' = inode_hdr c" "overflow_hdr c' = overflow_hdr c" "media_tag_hdr c' = media_tag_hdr c"
    "cd_prefix_hdr c' = cd_prefix_hdr c" "cd_suffix_hdr c' = cd_suffix_hdr c" "cd_subchannel_hdr c' = cd_subchannel_hdr c"
    "refcount_hdr c' = refcount_hdr c" "bitmap_size c' = bitmap_size c" "rc_leaf_buf c' = rc_leaf_buf c" "rc_leaf_lba c' = rc_leaf_lba c"
    "rc_leaf_min c' = rc_leaf_min c" "rc_leaf_max c' = rc_leaf_max c" "rc_leaf_count c' = rc_leaf_count c" "rc_leaf_valid c' = rc_leaf_valid c"
    by simp_all
qed

section \<open>A tree in the context\<close>

text \<open>
  Where a tree keeps its header in the context and in which field of the superblock the block
  of the header is named.
\<close>

record hdr_slot =
  hget :: "ctx \<Rightarrow> btree_header"
  hset :: "btree_header \<Rightarrow> ctx \<Rightarrow> ctx"
  hlba :: "obmafs3_sb \<Rightarrow> u64"

definition slot_lookup :: "hdr_slot \<Rightarrow> ('k :: linorder) tree_cfg \<Rightarrow> ctx \<Rightarrow> 'k \<Rightarrow> (rc + u64 \<times> nat \<times> bytes) option" where
  "slot_lookup S g c k = tree_lookup g c (hget S c) k"

definition slot_put :: "hdr_slot \<Rightarrow> ('k :: linorder) tree_cfg \<Rightarrow> ctx \<Rightarrow> bytes \<Rightarrow> rc \<times> ctx" where
  "slot_put S g c x = (case tree_put g c (hget S c) (hlba S (sb c)) x of (r, h, c') \<Rightarrow> (r, hset S h c'))"

definition slot_remove :: "hdr_slot \<Rightarrow> ('k :: linorder) tree_cfg \<Rightarrow> ctx \<Rightarrow> 'k \<Rightarrow> bytes option \<times> rc \<times> ctx" where
  "slot_remove S g c k = (case tree_remove g c (hget S c) (hlba S (sb c)) k of (d, r, h, c') \<Rightarrow> (d, r, hset S h c'))"

text \<open>The tree behind a slot holds the records \<open>rs\<close>; \<open>b\<close> as in \<open>holds\<close>, for exact separators.\<close>

definition slot_holds ::
    "hdr_slot \<Rightarrow> ('k :: linorder) tree_cfg \<Rightarrow> ('k \<Rightarrow> bool) \<Rightarrow> bool \<Rightarrow> ctx \<Rightarrow> nat \<Rightarrow> u64 set \<Rightarrow> u64 list \<Rightarrow> bytes list \<Rightarrow> bool" where
  "slot_holds S g vk b c lv own fl rs \<longleftrightarrow> holds g vk b c (hget S c) (hlba S (sb c)) lv own fl rs"

definition slot_dholds ::
    "hdr_slot \<Rightarrow> ('k :: linorder) tree_cfg \<Rightarrow> ('k \<Rightarrow> bool) \<Rightarrow> bool \<Rightarrow> ctx \<Rightarrow> nat \<Rightarrow> u64 set \<Rightarrow> u64 list \<Rightarrow> bytes list \<Rightarrow> bool" where
  "slot_dholds S g vk b c lv own fl rs \<longleftrightarrow> dholds g vk b c (hget S c) (hlba S (sb c)) lv own fl rs"

text \<open>The blocks a tree may touch: its nodes, its reserve and its header block.\<close>

definition slot_blocks :: "hdr_slot \<Rightarrow> ctx \<Rightarrow> u64 set \<Rightarrow> u64 list \<Rightarrow> u64 set" where
  "slot_blocks S c own fl = own \<union> set fl \<union> {hlba S (sb c)}"

text \<open>Only the blocks \<open>T\<close> and the header field of the slot have changed.\<close>

definition touches :: "hdr_slot \<Rightarrow> u64 set \<Rightarrow> ctx \<Rightarrow> ctx \<Rightarrow> bool" where
  "touches S T c c' \<longleftrightarrow> (\<exists>c1. outside T c c1 \<and> c' = hset S (hget S c') c1)"

locale tree_store = tree_layout g vk for g :: "('k :: linorder) tree_cfg" and vk :: "'k \<Rightarrow> bool" +
  fixes S :: hdr_slot
  assumes get_set: "hget S (hset S h c) = h"
    and set_volume: "same_volume c (hset S h c)"
begin

lemma slot_put_stored:
  assumes "slot_holds S g vk b c lv own fl rs" "lv \<le> 8" "b \<or> lv \<le> 1" "length x = rec_sz g" "vk (rec_key g x)"
    and p: "slot_put S g c x = (r, c')"
  shows "(r = OBMAFS3_ERR_NOSPC \<and> length fl < lv + 2) \<or>
     (r = OBMAFS3_OK \<and> touches S (slot_blocks S c own fl) c c' \<and>
        (\<exists>lv' own' fl'. slot_holds S g vk b c' lv' own' fl' (ins_rec (rec_key g) x rs) \<and> lv' \<le> Suc lv \<and>
           (length (ins_rec (rec_key g) x rs) \<le> unat (leaf_max g c) \<longrightarrow> lv' = lv) \<and>
           fresh_from (slot_blocks S c own fl) c (own' \<union> set fl')))"
proof -
  obtain h1 c1 where t: "tree_put g c (hget S c) (hlba S (sb c)) x = (r, h1, c1)" "c' = hset S h1 c1"
    using p by (auto simp: slot_put_def split: prod.splits)
  have st: "stored g vk b (hlba S (sb c)) lv (ins_rec (rec_key g) x rs) own fl c (r, h1, c1)"
    using tree_put_stored [OF assms(1) [unfolded slot_holds_def] assms(2-5)] t(1) by simp
  show ?thesis
  proof (cases "r = OBMAFS3_OK")
    case True
    then obtain lv' own' fl' where s: "outside (slot_blocks S c own fl) c c1" "lv' \<le> Suc lv"
      "holds g vk b c1 h1 (hlba S (sb c)) lv' own' fl' (ins_rec (rec_key g) x rs)" "fresh_from (slot_blocks S c own fl) c (own' \<union> set fl')"
      "length (ins_rec (rec_key g) x rs) \<le> unat (leaf_max g c) \<longrightarrow> lv' = lv" using st by (auto simp: stored_def slot_blocks_def)
    have "sb c' = sb c" using maxes_frame [OF s(1), of g] same_volume_blocks(8) [OF set_volume] t(2) by simp
    then have "slot_holds S g vk b c' lv' own' fl' (ins_rec (rec_key g) x rs)"
      using s(3) same_volume_holds [OF set_volume, of g vk b h1 c1] by (simp add: slot_holds_def t(2) get_set)
    moreover have "touches S (slot_blocks S c own fl) c c'" unfolding touches_def using s(1) t(2) get_set by auto
    ultimately show ?thesis using True s(2,4,5) by blast
  next
    case False
    then show ?thesis using st by (auto simp: stored_def)
  qed
qed

lemma slot_lookup_finds:
  assumes "slot_holds S g vk b c lv own fl rs"
  shows "case rmap g rs k of
      None \<Rightarrow> slot_lookup S g c k = Some (Inl OBMAFS3_ERR_NOTFOUND)
    | Some r \<Rightarrow> \<exists>l off. slot_lookup S g c k = Some (Inr (l, off, r)) \<and> l \<in> own \<and> fld off (rec_sz g) (blk c l) = r"
  using tree_lookup_finds [OF assms [unfolded slot_holds_def], of k] unfolding slot_lookup_def .

lemma slot_rmap_put: "slot_holds S g vk b c lv own fl rs \<Longrightarrow> rmap g (ins_rec (rec_key g) x rs) = (rmap g rs)(rec_key g x \<mapsto> x)"
  using holds_sorted(1) rmap_ins_rec unfolding slot_holds_def by blast

lemma slot_remove_removes:
  assumes "slot_dholds S g vk b c lv own fl rs" "lv \<le> 1" "length fl + 2 < 2 ^ 32" "rmap g rs k = Some x"
  shows "\<exists>c' lv' own' fl'. slot_remove S g c k = (Some x, OBMAFS3_OK, c') \<and> touches S (own \<union> {hlba S (sb c)}) c c' \<and>
     slot_dholds S g vk False c' lv' own' fl' (del_rec (rec_key g) k rs) \<and> lv' \<le> lv \<and> own' \<union> set fl' = own \<union> set fl"
proof -
  note R = tree_remove_removes [OF assms(1) [unfolded slot_dholds_def] assms(2-4)]
  obtain d r h1 c1 where t: "tree_remove g c (hget S c) (hlba S (sb c)) k = (d, r, h1, c1)" by (metis prod_cases4)
  from R t obtain lv' own' fl' where s: "d = Some x" "r = OBMAFS3_OK" "outside (own \<union> {hlba S (sb c)}) c c1" "lv' \<le> lv"
    "dholds g vk False c1 h1 (hlba S (sb c)) lv' own' fl' (del_rec (rec_key g) k rs)" "own' \<union> set fl' = own \<union> set fl"
    by (auto simp: removed_def)
  have "sb (hset S h1 c1) = sb c" using maxes_frame [OF s(3), of g] same_volume_blocks(8) [OF set_volume] by simp
  then have "slot_dholds S g vk False (hset S h1 c1) lv' own' fl' (del_rec (rec_key g) k rs)"
    using s(5) same_volume_dholds [OF set_volume, of g vk False h1 c1] by (simp add: slot_dholds_def get_set)
  moreover have "touches S (own \<union> {hlba S (sb c)}) c (hset S h1 c1)" unfolding touches_def using s(3) get_set by auto
  ultimately show ?thesis using t s by (auto simp: slot_remove_def)
qed

lemma slot_remove_absent:
  assumes "slot_holds S g vk b c lv own fl rs" "lv \<le> 8" "rmap g rs k = None" "hset S (hget S c) c = c"
  shows "slot_remove S g c k = (None, OBMAFS3_ERR_NOTFOUND, c)"
  using tree_remove_absent [OF assms(1) [unfolded slot_holds_def] assms(2,3)] assms(4) by (simp add: slot_remove_def)

end

section \<open>Trees with 64-bit keys\<close>

text \<open>
  struct btree\_index\_entry, btree.h, and records that start with their 64-bit key: the inode,
  refcount and CD trees.
\<close>

definition u64_cfg :: "nat \<Rightarrow> u8 \<Rightarrow> u64 tree_cfg" where
  "u64_cfg n ty = \<lparr>rec_sz = n, ie_sz = 16, rec_key = (\<lambda>r. u64at 0 r), ie_key = (\<lambda>e. u64at 0 e), ie_child = (\<lambda>e. u64at 8 e),
     mk_ie = (\<lambda>k l. le_enc 8 k @ le_enc 8 l), set_ie_key = (\<lambda>k e. put 0 (le_enc 8 k) e), cfg_type = ty\<rparr>"

interpretation u64_tree: tree_layout "u64_cfg n ty" "\<lambda>_. True"
  by unfold_locales (auto simp: u64_cfg_def codec_simps fld_put_same fld_put_other)

section \<open>A volume with a reserve\<close>

text \<open>
  A concrete volume for the instances of the theorems: sixteen blocks of 1024 bytes, a tree
  header in block 1 with a reserve of the nodes 2 and 3, and a second header in block 4.
\<close>

definition reserve_dev :: dev where
  "reserve_dev = \<lparr>fdata = (\<lambda>i. if i = 2048 then 3 else 0), fsize = 16384, rd_fail = (\<lambda>_. False), wr_fail = (\<lambda>_. False)\<rparr>"

definition reserve_hdr :: btree_header where
  "reserve_hdr = zero_hdr\<lparr>free_node_lba := 2, free_nodes := 2\<rparr>"

definition reserve_ctx :: ctx where
  "reserve_ctx = (blank_ctx 1024 16 [31, 0])\<lparr>dev := reserve_dev\<rparr>"

text \<open>The contexts built on it differ in the superblock fields that name the trees.\<close>

definition reserve_volume :: "ctx \<Rightarrow> bool" where
  "reserve_volume c \<longleftrightarrow> same_volume reserve_ctx (c\<lparr>sb := sb reserve_ctx\<rparr>) \<and> block_size (sb c) = 1024 \<and> total_bytes (sb c) = 16384"

definition fits_reserve :: "'k tree_cfg \<Rightarrow> bool" where
  "fits_reserve g \<longleftrightarrow> 0 < rec_sz g \<and> 0 < ie_sz g \<and> nh_size + rec_sz g \<le> 1024 \<and> nh_size + 2 * ie_sz g \<le> 1024"

lemma u64at_map_upt: "a + 8 \<le> b \<Longrightarrow> u64at 0 (map f [a..<b]) = le_dec [f a, f (a + 1), f (a + 2), f (a + 3), f (a + 4), f (a + 5), f (a + 6), f (a + 7)]"
  by (simp add: fld_def take_map numeral_eq_Suc upt_conv_Cons)

lemma u64at_blk:
  assumes "dev_ok c" "in_vol c l" "8 \<le> bsz c" "a = unat l * bsz c" "f = fdata (dev c)"
  shows "u64at 0 (blk c l) = le_dec [f a, f (a + 1), f (a + 2), f (a + 3), f (a + 4), f (a + 5), f (a + 6), f (a + 7)]"
  using u64at_map_upt [of a "a + bsz c" f] assms by (simp add: blk_def block_read_eq)

lemma reserve_facts:
  assumes "reserve_volume c"
  shows "dev_ok c" "bm_ok c" "heap_ok c" "bsz c = 1024" "p \<le> 4 \<Longrightarrow> used c p" "unat l < 16 \<Longrightarrow> in_vol c l"
    "blocks_per_node c zero_hdr = 1" "blocks_per_node c reserve_hdr = 1"
proof -
  have c: "dev c = reserve_dev" "bitmap c = Some [31, 0]" "bitmap_size c = 2" "heap_ok c" "block_size (sb c) = 1024" "total_bytes (sb c) = 16384"
    using assms by (simp_all add: reserve_volume_def same_volume_def reserve_ctx_def blank_ctx_def)
  show "dev_ok c" "bm_ok c" "heap_ok c" "bsz c = 1024" using c by (simp_all add: dev_ok_def bm_ok_def reserve_dev_def)
  show "unat l < 16 \<Longrightarrow> in_vol c l" using c by (simp add: in_vol_def word_less_nat_alt)
  show "blocks_per_node c zero_hdr = 1" "blocks_per_node c reserve_hdr = 1" by (simp_all add: blocks_per_node_def reserve_hdr_def zero_hdr_def)
  assume "p \<le> 4"
  then have "p \<in> {0, 1, 2, 3, 4}" by auto
  then show "used c p" using c(2) by (auto simp: used_def allocated_def)
qed

lemma reserve_world:
  assumes "reserve_volume c" "fits_reserve g"
  shows "world g c reserve_hdr 1 {} [2, 3]"
    and "unat hl \<le> 4 \<Longrightarrow> (\<forall>l \<in> S. l \<noteq> 0 \<and> unat l \<le> 4 \<and> l \<noteq> hl) \<Longrightarrow> world g c (zero_hdr\<lparr>root_node_lba := r, total_nodes := n\<rparr>) hl S []"
proof -
  note F = reserve_facts [OF assms(1)]
  have d: "dev c = reserve_dev" using assms(1) by (simp add: reserve_volume_def same_volume_def reserve_ctx_def)
  have v: "in_vol c 2" "in_vol c 3" "in_vol c 1" "used c 1" "used c 2" "used c 3" using F(5,6) by simp_all
  have mx: "unat (max_lba c) = 16" using assms(1) by (simp add: reserve_volume_def)
  have "u64at 0 (blk c 2) = 3" "u64at 0 (blk c 3) = 0"
    using u64at_blk [OF F(1) v(1), of 2048] u64at_blk [OF F(1) v(2), of 3072] F(4) by (simp_all add: d reserve_dev_def)
  then have "chain c 2 [2, 3]" using block_read_blk [OF F(1) v(1)] block_read_blk [OF F(1) v(2)] v by simp
  then have "pool c reserve_hdr [2, 3]" using v F(8) mx by (simp add: pool_def node_blocks_one) (simp add: reserve_hdr_def zero_hdr_def)
  then show "world g c reserve_hdr 1 {} [2, 3]"
    using assms(2) F v by (simp add: world_def env_ok_def fits_reserve_def btree_hdr_size_def)
  show "world g c (zero_hdr\<lparr>root_node_lba := r, total_nodes := n\<rparr>) hl S []"
    if "unat hl \<le> 4" "\<forall>l \<in> S. l \<noteq> 0 \<and> unat l \<le> 4 \<and> l \<noteq> hl"
    using assms(2) F that by (auto simp: world_def env_ok_def fits_reserve_def btree_hdr_size_def pool_empty zero_hdr_def blocks_per_node_def)
qed

text \<open>A tree of one leaf with one record.\<close>

lemma left_link_fresh: "nh_size + length x \<le> bsz c \<Longrightarrow> left_link (nh_dec (fresh_image g c lv n sz ll rl x)) = ll"
proof -
  assume fit: "nh_size + length x \<le> bsz c"
  define h where "h = zero_nh\<lparr>nh_magic := OBMAFS3_BTREE_NODE_MAGIC, record_type := cfg_type g, level := lv,
    node_keys := of_nat n, keys_length := of_nat (n * sz), left_link := ll, right_link := rl\<rparr>"
  have ck: "length (nh_checksum h) = 32" by (simp add: h_def zero_nh_def)
  let ?b = "put 0 (nh_enc h) (replicate (bsz c) 0)"
  have lb: "length ?b = bsz c" using fit ck by simp
  then have "nh_dec (put nh_size x ?b) = h" using nh_dec_put_data [of nh_size ?b x] nh_dec_put_header [OF ck] fit by simp
  moreover have "nh_size \<le> length (put nh_size x ?b)" using lb fit by simp
  ultimately show "left_link (nh_dec (fresh_image g c lv n sz ll rl x)) = ll"
    using node_checksum_view(3) [of "put nh_size x ?b" "xxh64 c"] unfolding fresh_image_def h_def [symmetric] by (auto simp: h_def)
qed

lemma one_leaf:
  fixes g :: "('k :: linorder) tree_cfg"
  assumes "world g c h hl {l} fl" "root_node_lba h = l" "length x = rec_sz g" "vk (rec_key g x)"
  shows "dholds g vk b (wrote c l (fresh_image g c 0 1 (rec_sz g) 0 0 x)) h hl 0 {l} fl [x]"
proof -
  have env: "env_ok g c hl" using assms(1) by (simp add: world_def)
  let ?b = "fresh_image g c 0 1 (rec_sz g) 0 0 x"
  have nd: "node_is (bsz c) ?b 0 0 (rec_sz g) [x]"
    using fresh_image_is [of "[x]" "rec_sz g" c g 0 0 0] assms(3) env by (simp add: env_ok_def)
  have lb: "length ?b = bsz c" using nd by (simp add: node_is_def)
  note w = world_write [OF assms(1) insertI1 lb]
  have ll: "left_link (nh_dec ?b) = 0" using left_link_fresh [of x c] assms(3) env by (simp add: env_ok_def)
  have "leaf_max g (wrote c l ?b) = leaf_max g c" by (simp add: leaf_max_def)
  then have "tree_ok g vk b (wrote c l ?b) h hl 0 (LeafN l 0 [x]) fl"
    using w(2) w(4) [of l] nd assms(2,4) leaf_max_bounds [OF env] by (simp add: tree_ok_def)
  then show ?thesis unfolding dholds_def using w(4) [of l] ll by (intro disjI2 exI [of _ "LeafN l 0 [x]"]) simp
qed

end
