(* ===== verification/RecordStore.thy ===== *)
theory RecordStore
  imports TreeStore
begin

text \<open>
  The contract between a tree and the component that keeps its records in it. The component
  brings an encoding of its records; the tree brings insertion, lookup and removal. The
  client's lemmas, that a stored record is found again, that other records stay and that a
  removed record is gone, are proved here once for all components.
\<close>

section \<open>Lookups\<close>

text \<open>The lookup of a component: the record found in the leaf, decoded.\<close>

definition slot_get :: "hdr_slot \<Rightarrow> ('k :: linorder) tree_cfg \<Rightarrow> (bytes \<Rightarrow> 'v) \<Rightarrow> ctx \<Rightarrow> 'k \<Rightarrow> (rc + 'v) option" where
  "slot_get S g view c k = map_option (map_sum id (\<lambda>(_, _, r). view r)) (slot_lookup S g c k)"

text \<open>The answer a dictionary gives.\<close>

definition answer :: "'v option \<Rightarrow> (rc + 'v) option" where
  "answer v = Some (case v of None \<Rightarrow> Inl OBMAFS3_ERR_NOTFOUND | Some x \<Rightarrow> Inr x)"

lemma answer_simps [simp]: "answer None = Some (Inl OBMAFS3_ERR_NOTFOUND)" "answer (Some x) = Some (Inr x)"
  "answer v = Some (Inl e) \<longleftrightarrow> v = None \<and> e = OBMAFS3_ERR_NOTFOUND" "answer v = Some (Inr y) \<longleftrightarrow> v = Some y"
  by (auto simp: answer_def split: option.splits)

lemma answer_inj [simp]: "answer v = answer w \<longleftrightarrow> v = w"
  by (auto simp: answer_def split: option.splits)

section \<open>The contract\<close>

locale record_store = tree_store g vk S for g :: "('k :: linorder) tree_cfg" and vk S +
  fixes enc :: "'r \<Rightarrow> bytes" and view :: "bytes \<Rightarrow> 'v" and rkey :: "'r \<Rightarrow> 'k" and rval :: "'r \<Rightarrow> 'v" and ok :: "'r \<Rightarrow> bool"
  assumes enc_size: "ok r \<Longrightarrow> length (enc r) = rec_sz g"
    and enc_key: "ok r \<Longrightarrow> rec_key g (enc r) = rkey r"
    and enc_valid: "ok r \<Longrightarrow> vk (rkey r)"
    and enc_view: "ok r \<Longrightarrow> view (enc r) = rval r"
    and set_get: "hset S (hget S c) c = c"
    and get_frame: "hget S (c\<lparr>dev := d, bitmap := bm, next_free_lba := nf\<rparr>) = hget S c"
begin

lemma get_holds:
  assumes "slot_holds S g vk b c lv own fl rs"
  shows "slot_get S g view c k = answer (map_option view (rmap g rs k))"
  using slot_lookup_finds [OF assms, of k] by (auto simp: slot_get_def answer_def split: option.splits)

lemma holds_of_dholds: "slot_dholds S g vk b c lv own fl rs \<Longrightarrow> slot_holds S g vk b c lv own fl rs"
  using dholds_holds by (auto simp: slot_dholds_def slot_holds_def)

lemma touches_sb: "touches S T c c' \<Longrightarrow> sb c' = sb c"
  using maxes_frame(1) set_volume unfolding touches_def same_volume_def by metis

lemma put_outcome:
  assumes h: "slot_holds S g vk b c lv own fl rs" "lv \<le> 8" "b \<or> lv \<le> 1" "ok r"
  obtains (full) c' where "slot_put S g c (enc r) = (OBMAFS3_ERR_NOSPC, c')" "length fl < lv + 2"
  | (stored) c' lv' own' fl' where "slot_put S g c (enc r) = (OBMAFS3_OK, c')" "touches S (slot_blocks S c own fl) c c'"
      "slot_holds S g vk b c' lv' own' fl' (ins_rec (rec_key g) (enc r) rs)" "lv' \<le> Suc lv" "sb c' = sb c"
      "\<And>j. slot_get S g view c' j = (if j = rkey r then Some (Inr (rval r)) else slot_get S g view c j)"
      "fresh_from (slot_blocks S c own fl) c (own' \<union> set fl')"
      "length (ins_rec (rec_key g) (enc r) rs) \<le> unat (leaf_max g c) \<Longrightarrow> lv' = lv"
proof -
  obtain e c' where p: "slot_put S g c (enc r) = (e, c')" by fastforce
  from slot_put_stored [OF h(1-3) enc_size [OF h(4)] _ p] enc_key enc_valid h(4)
  consider "e = OBMAFS3_ERR_NOSPC" "length fl < lv + 2"
    | lv' own' fl' where "e = OBMAFS3_OK" "touches S (slot_blocks S c own fl) c c'" "lv' \<le> Suc lv"
      "slot_holds S g vk b c' lv' own' fl' (ins_rec (rec_key g) (enc r) rs)" "fresh_from (slot_blocks S c own fl) c (own' \<union> set fl')"
      "length (ins_rec (rec_key g) (enc r) rs) \<le> unat (leaf_max g c) \<longrightarrow> lv' = lv" by auto
  then show ?thesis
  proof cases
    case 1
    then show ?thesis using full p by simp
  next
    case 2
    have "slot_get S g view c' j = (if j = rkey r then Some (Inr (rval r)) else slot_get S g view c j)" for j
      using get_holds [OF 2(4), of j] get_holds [OF h(1), of j] slot_rmap_put [OF h(1), of "enc r"] enc_key enc_view h(4) by simp
    then show ?thesis using stored p 2 touches_sb by simp
  qed
qed

lemma remove_outcome:
  assumes h: "slot_dholds S g vk b c lv own fl rs" "lv \<le> 1" "length fl + 2 < 2 ^ 32"
  obtains (absent) "slot_remove S g c k = (None, OBMAFS3_ERR_NOTFOUND, c)" "rmap g rs k = None"
  | (removed) x c' lv' own' fl' where "slot_remove S g c k = (Some x, OBMAFS3_OK, c')" "rmap g rs k = Some x"
      "touches S (own \<union> {hlba S (sb c)}) c c'" "slot_dholds S g vk False c' lv' own' fl' (del_rec (rec_key g) k rs)"
      "own' \<union> set fl' = own \<union> set fl" "sb c' = sb c" "lv' \<le> lv"
      "\<And>j. slot_get S g view c' j = (if j = k then Some (Inl OBMAFS3_ERR_NOTFOUND) else slot_get S g view c j)"
proof -
  have hh: "slot_holds S g vk b c lv own fl rs" by (rule holds_of_dholds [OF h(1)])
  show ?thesis
  proof (cases "rmap g rs k")
    case None
    then show ?thesis using absent slot_remove_absent [OF hh _ None set_get] h(2) by simp
  next
    case (Some x)
    obtain c' lv' own' fl' where s: "slot_remove S g c k = (Some x, OBMAFS3_OK, c')" "touches S (own \<union> {hlba S (sb c)}) c c'"
      "slot_dholds S g vk False c' lv' own' fl' (del_rec (rec_key g) k rs)" "own' \<union> set fl' = own \<union> set fl" "lv' \<le> lv"
      using slot_remove_removes [OF h Some] by blast
    have srt: "sorted_wrt (<) (map (rec_key g) rs)" using hh holds_sorted(1) unfolding slot_holds_def by blast
    have "slot_get S g view c' j = (if j = k then Some (Inl OBMAFS3_ERR_NOTFOUND) else slot_get S g view c j)" for j
      using get_holds [OF holds_of_dholds [OF s(3)], of j] get_holds [OF hh, of j] rmap_del_rec [OF srt, of k] by simp
    then show ?thesis using removed s Some touches_sb by blast
  qed
qed

text \<open>A tree whose blocks and header another store leaves alone keeps its records.\<close>

lemma holds_beside_store:
  assumes "slot_holds S g vk b c lv own fl rs" "touches S' T c c'" "T \<inter> (own \<union> set fl) = {}" "dev_ok c'" "bm_ok c'"
    and apart: "\<And>h c. hget S (hset S' h c) = hget S c" and vol: "\<And>h c. same_volume c (hset S' h c)"
  shows "slot_holds S g vk b c' lv own fl rs" "slot_get S g view c' k = slot_get S g view c k"
proof -
  obtain c1 where c1: "outside T c c1" "c' = hset S' (hget S' c') c1" using assms(2) by (auto simp: touches_def)
  then have sv: "same_volume c1 c'" using vol by metis
  have ok1: "dev_ok c1" "bm_ok c1" using same_volume_blocks [OF sv] assms(4,5) by simp_all
  have "hget S c1 = hget S c" using c1(1) get_frame unfolding outside_def alloc_frame_def by metis
  then have hg: "hget S c' = hget S c" using c1(2) apart by metis
  have sb: "sb c' = sb c" using maxes_frame [OF c1(1), of g] same_volume_blocks(8) [OF sv] by simp
  have "holds g vk b c1 (hget S c) (hlba S (sb c)) lv own fl rs"
    using holds_beside [OF _ c1(1) ok1 assms(3)] assms(1) by (simp add: slot_holds_def)
  then show h': "slot_holds S g vk b c' lv own fl rs"
    using same_volume_holds [OF sv, of g] by (simp add: slot_holds_def hg sb)
  show "slot_get S g view c' k = slot_get S g view c k" using get_holds [OF h', of k] get_holds [OF assms(1), of k] by simp
qed

lemma holds_env: "slot_holds S g vk b c lv own fl rs \<Longrightarrow> dev_ok c \<and> bm_ok c"
  by (auto simp: slot_holds_def holds_def tree_ok_def world_def env_ok_def)

end

section \<open>Releasing blocks\<close>

text \<open>Removal works on the nodes of the tree only; the bitmap stays.\<close>

lemma bitmap_block_write [simp]: "bitmap (snd (obmafs3_block_write c l b)) = bitmap c"
  by (simp add: obmafs3_block_write_def split: option.split)

lemma bitmap_block_writeD: "obmafs3_block_write c l b = (r, c') \<Longrightarrow> bitmap c' = bitmap c"
  by (metis bitmap_block_write snd_conv)

lemma bitmap_header_write [simp]: "bitmap (snd (snd (obmafs3_btree_header_write c l h))) = bitmap c"
  by (simp add: obmafs3_btree_header_write_def Let_def case_prod_beta)

lemma bitmap_free_node [simp]: "bitmap (snd (snd (obmafs3_btree_free_node c h l))) = bitmap c"
  by (auto simp: obmafs3_btree_free_node_def Let_def dest: bitmap_block_writeD split: prod.split rc.split)

lemma bitmap_free_nodes_of [simp]: "bitmap (snd (free_nodes_of c h ns)) = bitmap c"
proof (induction ns arbitrary: c h)
  case (Cons n ns)
  then show ?case by (simp add: case_prod_beta)
qed simp

lemma bitmap_drop_root [simp]: "bitmap (snd (snd (drop_root c h l r ns))) = bitmap c"
  unfolding drop_root_def
  using bitmap_header_write [of c l "h\<lparr>root_node_lba := r, total_nodes := total_nodes h - of_nat (length ns)\<rparr>"] bitmap_free_nodes_of
  by (simp add: case_prod_beta)

lemma bitmap_unlink_leaf [simp]: "bitmap (unlink_leaf c lh) = bitmap c"
  by (simp add: unlink_leaf_def fix_left_link_def fix_right_link_def split: sum.split)

lemma bitmap_remove_child [simp]: "bitmap (snd (snd (remove_child g c h hl l p s t pb))) = bitmap c"
proof -
  let ?w = "obmafs3_block_write c p (shrunk_image c pb (ie_sz g) (remove_slot (ie_sz g) (unat (node_keys (nh_dec pb))) s pb))"
  have w: "bitmap (snd ?w) = bitmap c" by simp
  show ?thesis
    unfolding remove_child_def Let_def using w
    by (cases ?w; cases "fst ?w") (simp_all add: case_prod_beta)
qed

lemma bitmap_tree_remove: "bitmap (snd (snd (snd (tree_remove g c h hl k)))) = bitmap c"
  by (auto simp: tree_remove_def Let_def case_prod_beta split: sum.split list.split)

lemma bitmap_clear_eq: "obmafs3_bitmap_clear c l n = c\<lparr>bitmap := bitmap (obmafs3_bitmap_clear c l n)\<rparr>"
  by (auto simp: obmafs3_bitmap_clear_def split: option.split)

text \<open>A tree does not notice that blocks of others are released.\<close>

lemma world_released:
  assumes "world g c h hl S fl" "bm_ok (c\<lparr>bitmap := bm\<rparr>)"
    and "\<And>l. l \<in> insert 0 (insert hl (S \<union> set fl)) \<Longrightarrow> used (c\<lparr>bitmap := bm\<rparr>) (unat l)"
  shows "world g (c\<lparr>bitmap := bm\<rparr>) h hl S fl"
proof -
  let ?c = "c\<lparr>bitmap := bm\<rparr>"
  have rd: "obmafs3_block_read ?c = obmafs3_block_read c" by (rule block_read_cong) simp_all
  have "chain ?c a ls = chain c a ls" for a ls
    using rd by (intro chain_cong) simp_all
  moreover have "dev_ok ?c = dev_ok c" "\<And>l. in_vol ?c l = in_vol c l" "blocks_per_node ?c h = blocks_per_node c h"
    by (simp_all add: dev_ok_def in_vol_def blocks_per_node_def)
  moreover have "used ?c 0" using assms(3) [of 0] by simp
  ultimately show ?thesis
    using assms by (auto simp: world_def env_ok_def pool_def node_blocks_one)
qed

lemma tree_ok_released:
  assumes t: "tree_ok g vk b c h hl lv t fl" and bm: "bm_ok (c\<lparr>bitmap := bm\<rparr>)"
    and u: "\<And>l. l \<in> insert 0 (insert hl (set (lbas t) \<union> set fl)) \<Longrightarrow> used (c\<lparr>bitmap := bm\<rparr>) (unat l)"
  shows "tree_ok g vk b (c\<lparr>bitmap := bm\<rparr>) h hl lv t fl"
proof -
  let ?c = "c\<lparr>bitmap := bm\<rparr>"
  have B: "blk ?c = blk c" using block_read_cong [of ?c c] by (simp add: blk_def fun_eq_iff)
  have mx: "leaf_max g ?c = leaf_max g c" "index_max g ?c = index_max g c" by (simp_all add: leaf_max_def index_max_def)
  have "world g c h hl (set (lbas t)) fl" using t by (simp add: tree_ok_def)
  from world_released [OF this bm u] show ?thesis using t B mx by (simp add: tree_ok_def)
qed

lemma blk_bitmap [simp]: "blk (c\<lparr>bitmap := bm\<rparr>) = blk c"
  using block_read_cong [of "c\<lparr>bitmap := bm\<rparr>" c] by (simp add: blk_def fun_eq_iff)

lemma holds_released:
  assumes h: "holds g vk b c h hl lv own fl rs" and bm: "bm_ok (c\<lparr>bitmap := bm\<rparr>)"
    and u: "\<And>l. l \<in> insert 0 (insert hl (own \<union> set fl)) \<Longrightarrow> used (c\<lparr>bitmap := bm\<rparr>) (unat l)"
  shows "holds g vk b (c\<lparr>bitmap := bm\<rparr>) h hl lv own fl rs"
  using h u world_released [OF _ bm, of g h hl "{}" fl] tree_ok_released [OF _ bm, of g vk b h hl lv _ fl] unfolding holds_def by blast

lemma dholds_released:
  assumes h: "dholds g vk b c h hl lv own fl rs" and bm: "bm_ok (c\<lparr>bitmap := bm\<rparr>)"
    and u: "\<And>l. l \<in> insert 0 (insert hl (own \<union> set fl)) \<Longrightarrow> used (c\<lparr>bitmap := bm\<rparr>) (unat l)"
  shows "dholds g vk b (c\<lparr>bitmap := bm\<rparr>) h hl lv own fl rs"
  using h u world_released [OF _ bm, of g h hl "{}" fl] tree_ok_released [OF _ bm, of g vk b h hl lv _ fl] unfolding dholds_def blk_bitmap by blast

text \<open>The reserve has no duplicates, so its length is bounded by the blocks of the tree.\<close>

lemma holds_reserve:
  assumes "holds g vk b c h hl lv own fl rs"
  shows "distinct fl" "finite own"
proof -
  obtain S where "world g c h hl S fl" "finite own" using assms by (auto simp: holds_def tree_ok_def)
  then have "sorted_wrt (\<lambda>a b. unat a \<noteq> unat b) fl" "finite own" by (auto simp: world_def pool_def node_blocks_one elim: sorted_wrt_mono_rel [rotated])
  moreover have "sorted_wrt (\<lambda>a b. unat a \<noteq> unat b) xs \<Longrightarrow> distinct xs" for xs :: "u64 list" by (induction xs) auto
  ultimately show "distinct fl" "finite own" by auto
qed

lemma holds_blocks_used:
  assumes "holds g vk b c h hl lv own fl rs" "l \<in> insert 0 (insert hl (own \<union> set fl))"
  shows "used c (unat l)"
proof -
  obtain S where "world g c h hl S fl" "S = own" using assms(1) by (auto simp: holds_def tree_ok_def)
  then show ?thesis using assms(2) by (auto simp: world_def env_ok_def pool_def node_blocks_one)
qed

section \<open>What a tree tells about its volume\<close>

lemma slot_env:
  assumes "slot_holds S g vk b c lv own fl rs"
  shows "dev_ok c" "bm_ok c" "heap_ok c" "0 < bsz c" "bsz c \<le> 65536" "sorted_wrt (<) (map (rec_key g) rs)"
    "l \<in> insert 0 (slot_blocks S c own fl) \<Longrightarrow> used c (unat l)"
proof -
  have h: "holds g vk b c (hget S c) (hlba S (sb c)) lv own fl rs" using assms by (simp add: slot_holds_def)
  have "env_ok g c (hlba S (sb c))" using h by (auto simp: holds_def tree_ok_def world_def)
  then show "dev_ok c" "bm_ok c" "heap_ok c" "0 < bsz c" "bsz c \<le> 65536" by (auto simp: env_ok_def nh_size_def)
  show "sorted_wrt (<) (map (rec_key g) rs)" by (rule holds_sorted(1) [OF h])
  show "l \<in> insert 0 (slot_blocks S c own fl) \<Longrightarrow> used c (unat l)" using holds_blocks_used [OF h, of l] by (auto simp: slot_blocks_def)
qed

section \<open>Two more facts about trees\<close>

lemma holds_loose: "holds g vk b c h hl lv own fl rs \<Longrightarrow> holds g vk False c h hl lv own fl rs"
  using tree_ok_loose unfolding holds_def by blast

text \<open>Replacing a record that is there needs no room.\<close>

lemma tree_put_existing:
  assumes hs: "holds g vk b c h hl lv own fl rs" "lv \<le> 8" "rmap g rs (rec_key g x) = Some y"
  shows "fst (tree_put g c h hl x) \<noteq> OBMAFS3_ERR_NOSPC"
proof -
  let ?k = "rec_key g x"
  have lk: "\<exists>l off. tree_lookup g c h ?k = Some (Inr (l, off, y))" using tree_lookup_finds [OF hs(1), of ?k] hs(3) by auto
  then have ne: "root_node_lba h \<noteq> 0" by (auto simp: tree_lookup_def)
  then obtain t where t: "tree_ok g vk b c h hl lv t fl" using hs(1) by (auto simp: holds_def)
  have "dev_ok c" "\<And>k. k \<in> set (lbas t) \<Longrightarrow> in_vol c k" "rep g (bsz c) (blk c) lv t"
    "kinv g vk b (hole_lo g []) (hole_hi g []) t" "root_node_lba h = tlba t"
    using t by (auto simp: world_def env_ok_def tree_ok_def)
  from descent [OF this(1-4), of ?k BTREE_MAX_DEPTH "[]"] this(5) hs(2)
  obtain l path where D: "tree_descend g c (root_node_lba h) ?k = Some (Inr (l, blk c l))"
    "tree_path g c ?k BTREE_MAX_DEPTH (root_node_lba h) [] = Inr (l, blk c l, path)" by (auto simp: BTREE_MAX_DEPTH_def)
  have "0 \<le> leaf_find g (blk c l) (node_keys (nh_dec (blk c l))) ?k"
    using lk D(1) ne by (auto simp: tree_lookup_def Let_def split: if_splits)
  then have "fst (tree_put g c h hl x) = fst (obmafs3_block_write c l (compute_node_checksum (xxh64 c)
      (put (nh_size + nat (leaf_find g (blk c l) (node_keys (nh_dec (blk c l))) ?k) * rec_sz g) x (blk c l))))"
    using ne D(2) by (simp add: tree_put_def Let_def case_prod_beta)
  then show ?thesis by (simp add: obmafs3_block_write_def split: option.splits)
qed

end
