(* ===== verification/CdBtree.thy ===== *)
theory CdBtree
  imports RecordStore
begin

text \<open>
  The three trees of Compact Disc side data, src/src/lib/cd\_btree.c: sector prefixes, sector
  suffixes and subchannel data, stored once per XXH64 hash. A record is the hash followed by
  the data.
\<close>

section \<open>The trees\<close>

definition CD_PREFIX_DATA_SIZE :: nat where "CD_PREFIX_DATA_SIZE = 16"
definition CD_SUFFIX_DATA_SIZE :: nat where "CD_SUFFIX_DATA_SIZE = 288"
definition CD_SUBCHANNEL_DATA_SIZE :: nat where "CD_SUBCHANNEL_DATA_SIZE = 96"

definition cd_prefix_slot :: hdr_slot where
  "cd_prefix_slot = \<lparr>hget = cd_prefix_hdr, hset = (\<lambda>h c. c\<lparr>cd_prefix_hdr := h\<rparr>), hlba = cd_prefix_lba\<rparr>"

definition cd_suffix_slot :: hdr_slot where
  "cd_suffix_slot = \<lparr>hget = cd_suffix_hdr, hset = (\<lambda>h c. c\<lparr>cd_suffix_hdr := h\<rparr>), hlba = cd_suffix_lba\<rparr>"

definition cd_subchannel_slot :: hdr_slot where
  "cd_subchannel_slot = \<lparr>hget = cd_subchannel_hdr, hset = (\<lambda>h c. c\<lparr>cd_subchannel_hdr := h\<rparr>), hlba = cd_subchannel_lba\<rparr>"

text \<open>The record layouts and the node tags kBtreeDataTypeCd...Entry.\<close>

definition cd_prefix_cfg :: "u64 tree_cfg" where "cd_prefix_cfg = u64_cfg (8 + CD_PREFIX_DATA_SIZE) 6"
definition cd_suffix_cfg :: "u64 tree_cfg" where "cd_suffix_cfg = u64_cfg (8 + CD_SUFFIX_DATA_SIZE) 7"
definition cd_subchannel_cfg :: "u64 tree_cfg" where "cd_subchannel_cfg = u64_cfg (8 + CD_SUBCHANNEL_DATA_SIZE) 8"

definition cd_record :: "u64 \<Rightarrow> bytes \<Rightarrow> bytes" where
  "cd_record hash data = le_enc 8 hash @ data"

section \<open>The API\<close>

text \<open>A lookup that never returns is None, as in \<open>tree_lookup\<close>.\<close>

definition obmafs3_cd_prefix_get :: "ctx \<Rightarrow> u64 \<Rightarrow> (rc + bytes) option" where
  "obmafs3_cd_prefix_get c hash =
     (if cd_prefix_lba (sb c) = 0 then Some (Inl OBMAFS3_ERR_NOTFOUND)
      else case slot_lookup cd_prefix_slot cd_prefix_cfg c hash of
        None \<Rightarrow> None
      | Some (Inl e) \<Rightarrow> Some (Inl e)
      | Some (Inr (_, _, r)) \<Rightarrow> Some (Inr (fld 8 CD_PREFIX_DATA_SIZE r)))"

definition obmafs3_cd_prefix_put :: "ctx \<Rightarrow> u64 \<Rightarrow> bytes \<Rightarrow> rc \<times> ctx" where
  "obmafs3_cd_prefix_put c hash data =
     (if cd_prefix_lba (sb c) = 0 then (OBMAFS3_ERR_INVAL, c)
      else slot_put cd_prefix_slot cd_prefix_cfg c (cd_record hash data))"

definition obmafs3_cd_prefix_delete :: "ctx \<Rightarrow> u64 \<Rightarrow> rc \<times> ctx" where
  "obmafs3_cd_prefix_delete c hash =
     (if cd_prefix_lba (sb c) = 0 then (OBMAFS3_ERR_NOTFOUND, c)
      else snd (slot_remove cd_prefix_slot cd_prefix_cfg c hash))"

definition obmafs3_cd_suffix_get :: "ctx \<Rightarrow> u64 \<Rightarrow> (rc + bytes) option" where
  "obmafs3_cd_suffix_get c hash =
     (if cd_suffix_lba (sb c) = 0 then Some (Inl OBMAFS3_ERR_NOTFOUND)
      else case slot_lookup cd_suffix_slot cd_suffix_cfg c hash of
        None \<Rightarrow> None
      | Some (Inl e) \<Rightarrow> Some (Inl e)
      | Some (Inr (_, _, r)) \<Rightarrow> Some (Inr (fld 8 CD_SUFFIX_DATA_SIZE r)))"

definition obmafs3_cd_suffix_put :: "ctx \<Rightarrow> u64 \<Rightarrow> bytes \<Rightarrow> rc \<times> ctx" where
  "obmafs3_cd_suffix_put c hash data =
     (if cd_suffix_lba (sb c) = 0 then (OBMAFS3_ERR_INVAL, c)
      else slot_put cd_suffix_slot cd_suffix_cfg c (cd_record hash data))"

definition obmafs3_cd_suffix_delete :: "ctx \<Rightarrow> u64 \<Rightarrow> rc \<times> ctx" where
  "obmafs3_cd_suffix_delete c hash =
     (if cd_suffix_lba (sb c) = 0 then (OBMAFS3_ERR_NOTFOUND, c)
      else snd (slot_remove cd_suffix_slot cd_suffix_cfg c hash))"

text \<open>The location variant also reports the leaf and the offset of the record in it.\<close>

definition obmafs3_cd_subchannel_get_location :: "ctx \<Rightarrow> u64 \<Rightarrow> (rc + bytes \<times> u64 \<times> nat) option" where
  "obmafs3_cd_subchannel_get_location c hash =
     (if cd_subchannel_lba (sb c) = 0 then Some (Inl OBMAFS3_ERR_NOTFOUND)
      else case slot_lookup cd_subchannel_slot cd_subchannel_cfg c hash of
        None \<Rightarrow> None
      | Some (Inl e) \<Rightarrow> Some (Inl e)
      | Some (Inr (leaf_lba, record_offset, r)) \<Rightarrow> Some (Inr (fld 8 CD_SUBCHANNEL_DATA_SIZE r, leaf_lba, record_offset)))"

definition obmafs3_cd_subchannel_get :: "ctx \<Rightarrow> u64 \<Rightarrow> (rc + bytes) option" where
  "obmafs3_cd_subchannel_get c hash =
     (if cd_subchannel_lba (sb c) = 0 then Some (Inl OBMAFS3_ERR_NOTFOUND)
      else case slot_lookup cd_subchannel_slot cd_subchannel_cfg c hash of
        None \<Rightarrow> None
      | Some (Inl e) \<Rightarrow> Some (Inl e)
      | Some (Inr (_, _, r)) \<Rightarrow> Some (Inr (fld 8 CD_SUBCHANNEL_DATA_SIZE r)))"

definition obmafs3_cd_subchannel_put :: "ctx \<Rightarrow> u64 \<Rightarrow> bytes \<Rightarrow> rc \<times> ctx" where
  "obmafs3_cd_subchannel_put c hash data =
     (if cd_subchannel_lba (sb c) = 0 then (OBMAFS3_ERR_INVAL, c)
      else slot_put cd_subchannel_slot cd_subchannel_cfg c (cd_record hash data))"

definition obmafs3_cd_subchannel_delete :: "ctx \<Rightarrow> u64 \<Rightarrow> rc \<times> ctx" where
  "obmafs3_cd_subchannel_delete c hash =
     (if cd_subchannel_lba (sb c) = 0 then (OBMAFS3_ERR_NOTFOUND, c)
      else snd (slot_remove cd_subchannel_slot cd_subchannel_cfg c hash))"

section \<open>The trees as dictionaries\<close>

text \<open>A record of a CD tree is a hash with data of the size the tree stores.\<close>

abbreviation cd_enc :: "u64 \<times> bytes \<Rightarrow> bytes" where "cd_enc r \<equiv> cd_record (fst r) (snd r)"

lemma u64_key_record: "rec_key (u64_cfg m ty) (cd_record k d) = k"
  by (simp add: u64_cfg_def cd_record_def codec_simps)

lemma cd_record_data: "length d = n \<Longrightarrow> fld 8 n (cd_record k d) = d"
  by (simp add: cd_record_def codec_simps)

interpretation cd_prefix: record_store cd_prefix_cfg "\<lambda>_. True" cd_prefix_slot cd_enc "fld 8 CD_PREFIX_DATA_SIZE" fst snd "\<lambda>r. length (snd r) = CD_PREFIX_DATA_SIZE"
  unfolding cd_prefix_cfg_def
  by unfold_locales (auto simp: cd_prefix_slot_def same_volume_def u64_key_record cd_record_data, simp add: u64_cfg_def cd_record_def)

interpretation cd_suffix: record_store cd_suffix_cfg "\<lambda>_. True" cd_suffix_slot cd_enc "fld 8 CD_SUFFIX_DATA_SIZE" fst snd "\<lambda>r. length (snd r) = CD_SUFFIX_DATA_SIZE"
  unfolding cd_suffix_cfg_def
  by unfold_locales (auto simp: cd_suffix_slot_def same_volume_def u64_key_record cd_record_data, simp add: u64_cfg_def cd_record_def)

interpretation cd_subchannel: record_store cd_subchannel_cfg "\<lambda>_. True" cd_subchannel_slot cd_enc "fld 8 CD_SUBCHANNEL_DATA_SIZE" fst snd "\<lambda>r. length (snd r) = CD_SUBCHANNEL_DATA_SIZE"
  unfolding cd_subchannel_cfg_def
  by unfold_locales (auto simp: cd_subchannel_slot_def same_volume_def u64_key_record cd_record_data, simp add: u64_cfg_def cd_record_def)

section \<open>The API on any of the three trees\<close>

datatype cd_kind = Prefix | Suffix | Subchannel

definition cd_get :: "cd_kind \<Rightarrow> ctx \<Rightarrow> u64 \<Rightarrow> (rc + bytes) option" where
  "cd_get i = (case i of Prefix \<Rightarrow> obmafs3_cd_prefix_get | Suffix \<Rightarrow> obmafs3_cd_suffix_get | Subchannel \<Rightarrow> obmafs3_cd_subchannel_get)"

definition cd_put :: "cd_kind \<Rightarrow> ctx \<Rightarrow> u64 \<Rightarrow> bytes \<Rightarrow> rc \<times> ctx" where
  "cd_put i = (case i of Prefix \<Rightarrow> obmafs3_cd_prefix_put | Suffix \<Rightarrow> obmafs3_cd_suffix_put | Subchannel \<Rightarrow> obmafs3_cd_subchannel_put)"

definition cd_delete :: "cd_kind \<Rightarrow> ctx \<Rightarrow> u64 \<Rightarrow> rc \<times> ctx" where
  "cd_delete i = (case i of Prefix \<Rightarrow> obmafs3_cd_prefix_delete | Suffix \<Rightarrow> obmafs3_cd_suffix_delete | Subchannel \<Rightarrow> obmafs3_cd_subchannel_delete)"

definition cd_slot :: "cd_kind \<Rightarrow> hdr_slot" where
  "cd_slot i = (case i of Prefix \<Rightarrow> cd_prefix_slot | Suffix \<Rightarrow> cd_suffix_slot | Subchannel \<Rightarrow> cd_subchannel_slot)"

definition cd_cfg :: "cd_kind \<Rightarrow> u64 tree_cfg" where
  "cd_cfg i = (case i of Prefix \<Rightarrow> cd_prefix_cfg | Suffix \<Rightarrow> cd_suffix_cfg | Subchannel \<Rightarrow> cd_subchannel_cfg)"

definition cd_size :: "cd_kind \<Rightarrow> nat" where
  "cd_size i = (case i of Prefix \<Rightarrow> CD_PREFIX_DATA_SIZE | Suffix \<Rightarrow> CD_SUFFIX_DATA_SIZE | Subchannel \<Rightarrow> CD_SUBCHANNEL_DATA_SIZE)"

definition cd_holds :: "cd_kind \<Rightarrow> bool \<Rightarrow> ctx \<Rightarrow> nat \<Rightarrow> u64 set \<Rightarrow> u64 list \<Rightarrow> bytes list \<Rightarrow> bool" where
  "cd_holds i = slot_holds (cd_slot i) (cd_cfg i) (\<lambda>_. True)"

interpretation cd: record_store "cd_cfg i" "\<lambda>_. True" "cd_slot i" cd_enc "fld 8 (cd_size i)" fst snd "\<lambda>r. length (snd r) = cd_size i" for i
  unfolding cd_cfg_def cd_slot_def cd_size_def
  by (cases i) (simp_all add: cd_prefix.record_store_axioms cd_suffix.record_store_axioms cd_subchannel.record_store_axioms)

lemma cd_get_eq:
  "cd_get i c k = (if hlba (cd_slot i) (sb c) = 0 then Some (Inl OBMAFS3_ERR_NOTFOUND)
     else slot_get (cd_slot i) (cd_cfg i) (fld 8 (cd_size i)) c k)"
  by (cases i) (auto simp: cd_get_def cd_slot_def cd_cfg_def cd_size_def slot_get_def obmafs3_cd_prefix_get_def obmafs3_cd_suffix_get_def
      obmafs3_cd_subchannel_get_def cd_prefix_slot_def cd_suffix_slot_def cd_subchannel_slot_def split: option.splits sum.splits)

lemma cd_put_eq:
  "cd_put i c k d = (if hlba (cd_slot i) (sb c) = 0 then (OBMAFS3_ERR_INVAL, c) else slot_put (cd_slot i) (cd_cfg i) c (cd_record k d))"
  by (cases i) (simp_all add: cd_put_def cd_slot_def cd_cfg_def obmafs3_cd_prefix_put_def obmafs3_cd_suffix_put_def
      obmafs3_cd_subchannel_put_def cd_prefix_slot_def cd_suffix_slot_def cd_subchannel_slot_def)

lemma cd_delete_eq:
  "cd_delete i c k = (if hlba (cd_slot i) (sb c) = 0 then (OBMAFS3_ERR_NOTFOUND, c) else snd (slot_remove (cd_slot i) (cd_cfg i) c k))"
  by (cases i) (simp_all add: cd_delete_def cd_slot_def cd_cfg_def obmafs3_cd_prefix_delete_def obmafs3_cd_suffix_delete_def
      obmafs3_cd_subchannel_delete_def cd_prefix_slot_def cd_suffix_slot_def cd_subchannel_slot_def)

section \<open>Properties\<close>

text \<open>
  C11: storing a prefix, suffix or subchannel under its hash either succeeds, and then a lookup
  of the hash returns the stored data while every other hash looks up as before, or reports a
  full volume, which happens only when the reserve of nodes is shorter than a split needs.
\<close>

theorem cd_put_get:
  assumes "cd_holds i b c lv own fl rs" "lv \<le> 8" "b \<or> lv \<le> 1" "hlba (cd_slot i) (sb c) \<noteq> 0" "length d = cd_size i"
  shows "(\<exists>c'. cd_put i c k d = (OBMAFS3_OK, c') \<and> (\<forall>j. cd_get i c' j = (if j = k then Some (Inr d) else cd_get i c j))) \<or>
    (\<exists>c'. cd_put i c k d = (OBMAFS3_ERR_NOSPC, c') \<and> length fl < lv + 2)"
proof -
  have "length (snd (k, d)) = cd_size i" using assms(5) by simp
  from cd.put_outcome [OF assms(1) [unfolded cd_holds_def] assms(2,3) this] show ?thesis
    by (cases, use assms(4) in \<open>auto simp: cd_put_eq cd_get_eq\<close>)
qed

definition cd_ctx :: ctx where
  "cd_ctx = reserve_ctx\<lparr>cd_prefix_hdr := reserve_hdr, cd_suffix_hdr := zero_hdr,
     sb := (sb reserve_ctx)\<lparr>cd_prefix_lba := 1, cd_suffix_lba := 4\<rparr>\<rparr>"

lemma cd_ctx_facts: "hlba (cd_slot Prefix) (sb cd_ctx) = 1" "cd_prefix_hdr cd_ctx = reserve_hdr" "root_node_lba reserve_hdr = 0"
  "hlba (cd_slot Suffix) (sb cd_ctx) = 4" "hget (cd_slot Suffix) cd_ctx = zero_hdr" "hget (cd_slot Prefix) cd_ctx = reserve_hdr"
  by (simp_all add: cd_slot_def cd_prefix_slot_def cd_suffix_slot_def cd_ctx_def reserve_hdr_def zero_hdr_def)

lemma cd_ctx_volume: "reserve_volume cd_ctx"
  by (simp add: reserve_volume_def cd_ctx_def same_volume_def reserve_ctx_def blank_ctx_def)

lemma cd_fits: "fits_reserve (cd_cfg i)"
  by (cases i) (simp_all add: fits_reserve_def cd_cfg_def cd_prefix_cfg_def cd_suffix_cfg_def cd_subchannel_cfg_def u64_cfg_def
      CD_PREFIX_DATA_SIZE_def CD_SUFFIX_DATA_SIZE_def CD_SUBCHANNEL_DATA_SIZE_def nh_size_def)

lemma cd_ctx_holds: "cd_holds Prefix b cd_ctx 0 {} [2, 3] []"
  using reserve_world(1) [OF cd_ctx_volume cd_fits, of Prefix] cd_ctx_facts by (simp add: cd_holds_def slot_holds_def holds_def)

lemma cd_ctx_holds_suffix: "cd_holds Suffix b cd_ctx 0 {} [] []"
proof -
  have "world (cd_cfg Suffix) cd_ctx zero_hdr 4 {} []"
    using reserve_world(2) [OF cd_ctx_volume cd_fits, of 4 "{}" Suffix 0 0] by (simp add: zero_hdr_def)
  then show ?thesis using cd_ctx_facts by (simp add: cd_holds_def slot_holds_def holds_def zero_hdr_def)
qed

lemma cd_ctx_empty: "cd_get Prefix cd_ctx k = Some (Inl OBMAFS3_ERR_NOTFOUND)"
  using cd_ctx_facts by (simp add: cd_get_eq slot_get_def slot_lookup_def tree_lookup_def cd_slot_def cd_prefix_slot_def)

theorem cd_put_get_witness:
  "\<exists>c'. obmafs3_cd_prefix_put cd_ctx 5 (replicate 16 7) = (OBMAFS3_OK, c') \<and>
     obmafs3_cd_prefix_get c' 5 = Some (Inr (replicate 16 7)) \<and> obmafs3_cd_prefix_get c' 6 = Some (Inl OBMAFS3_ERR_NOTFOUND)"
proof -
  have s: "length (replicate 16 7 :: bytes) = cd_size Prefix" by (simp add: cd_size_def CD_PREFIX_DATA_SIZE_def)
  show ?thesis
    using cd_put_get [OF cd_ctx_holds [of True] _ _ _ s, of 5] cd_ctx_facts cd_ctx_empty [of 6] by (auto simp: cd_put_def cd_get_def)
qed

text \<open>
  C12: the CD trees share a volume without disturbing each other: storing a record in one of
  them, when it succeeds, changes no lookup in another one, provided the two trees do not
  claim the same blocks, and that one still is a well-formed tree with the same records.
\<close>

theorem cd_trees_independent:
  assumes "cd_holds i b c lv own fl rs" "lv \<le> 8" "b \<or> lv \<le> 1" "hlba (cd_slot i) (sb c) \<noteq> 0" "length d = cd_size i"
    and "i \<noteq> j" "cd_holds j b' c lv' own' fl' rs'" "slot_blocks (cd_slot i) c own fl \<inter> (own' \<union> set fl') = {}"
    and "cd_put i c k d = (OBMAFS3_OK, c')"
  shows "cd_holds j b' c' lv' own' fl' rs' \<and> (\<forall>q. cd_get j c' q = cd_get j c q)"
proof -
  have "length (snd (k, d)) = cd_size i" using assms(5) by simp
  from cd.put_outcome [OF assms(1) [unfolded cd_holds_def] assms(2,3) this]
  obtain lv1 own1 fl1 rs1 where s: "touches (cd_slot i) (slot_blocks (cd_slot i) c own fl) c c'"
    "slot_holds (cd_slot i) (cd_cfg i) (\<lambda>_. True) b c' lv1 own1 fl1 rs1" "sb c' = sb c"
    by (cases, use assms(4,9) in \<open>auto simp: cd_put_eq\<close>)
  have ap: "hget (cd_slot j) (hset (cd_slot i) h x) = hget (cd_slot j) x" for h x
    using assms(6) by (cases i; cases j) (simp_all add: cd_slot_def cd_prefix_slot_def cd_suffix_slot_def cd_subchannel_slot_def)
  have ok: "dev_ok c'" "bm_ok c'" using cd.holds_env [OF s(2)] by simp_all
  note B = cd.holds_beside_store [OF assms(7) [unfolded cd_holds_def] s(1) assms(8) ok ap cd.set_volume]
  show ?thesis using B by (simp add: cd_holds_def cd_get_eq s(3))
qed

theorem cd_trees_independent_witness:
  "\<exists>c'. obmafs3_cd_prefix_put cd_ctx 5 (replicate 16 7) = (OBMAFS3_OK, c') \<and> cd_holds Suffix True c' 0 {} [] [] \<and>
     obmafs3_cd_suffix_get c' 5 = obmafs3_cd_suffix_get cd_ctx 5"
proof -
  have s: "length (replicate 16 7 :: bytes) = cd_size Prefix" by (simp add: cd_size_def CD_PREFIX_DATA_SIZE_def)
  have "length (snd (5 :: u64, replicate 16 7 :: bytes)) = cd_size Prefix" using s by simp
  from cd.put_outcome [OF cd_ctx_holds [of True, unfolded cd_holds_def] _ _ this]
  obtain c' where p: "cd_put Prefix cd_ctx 5 (replicate 16 7) = (OBMAFS3_OK, c')"
    by (cases, use cd_ctx_facts in \<open>auto simp: cd_put_eq\<close>)
  show ?thesis
    using cd_trees_independent [OF cd_ctx_holds [of True] _ _ _ s _ cd_ctx_holds_suffix [of True] _ p] cd_ctx_facts p
    by (auto simp: cd_put_def cd_get_def)
qed


definition cd_leaf_ctx :: ctx where
  "cd_leaf_ctx = reserve_ctx\<lparr>cd_prefix_hdr := zero_hdr\<lparr>root_node_lba := 2, total_nodes := 1\<rparr>, sb := (sb reserve_ctx)\<lparr>cd_prefix_lba := 1\<rparr>\<rparr>"

definition cd_leaf :: ctx where
  "cd_leaf = wrote cd_leaf_ctx 2 (fresh_image cd_prefix_cfg cd_leaf_ctx 0 1 24 0 0 (cd_record 5 (replicate 16 7)))"

lemma cd_leaf_facts: "hget (cd_slot Prefix) cd_leaf = zero_hdr\<lparr>root_node_lba := 2, total_nodes := 1\<rparr>" "hlba (cd_slot Prefix) (sb cd_leaf) = 1"
  by (simp_all add: cd_leaf_def wrote_def cd_leaf_ctx_def cd_slot_def cd_prefix_slot_def)

lemma cd_leaf_holds: "slot_dholds (cd_slot Prefix) (cd_cfg Prefix) (\<lambda>_. True) True cd_leaf 0 {2} [] [cd_record 5 (replicate 16 7)]"
proof -
  have v: "reserve_volume cd_leaf_ctx" by (simp add: reserve_volume_def cd_leaf_ctx_def same_volume_def reserve_ctx_def blank_ctx_def)
  let ?h = "zero_hdr\<lparr>root_node_lba := 2, total_nodes := 1\<rparr>"
  have w: "world (cd_cfg Prefix) cd_leaf_ctx ?h 1 {2} []" using reserve_world(2) [OF v cd_fits, of 1 "{2}" Prefix 1 2] by simp
  have sz: "rec_sz (cd_cfg Prefix) = 24" by (simp add: cd_cfg_def cd_prefix_cfg_def u64_cfg_def CD_PREFIX_DATA_SIZE_def)
  have "length (cd_record 5 (replicate 16 7)) = rec_sz (cd_cfg Prefix)" by (simp add: cd_record_def sz)
  from one_leaf [OF w _ this, of "\<lambda>_. True" True] show ?thesis
    unfolding slot_dholds_def cd_leaf_facts by (simp add: cd_leaf_def sz) (simp add: cd_cfg_def)
qed


end
