(* ===== verification/Inode.thy ===== *)
theory Inode
  imports RecordStore
begin

text \<open>
  The inode tree, src/src/lib/inode.c: one record per file or directory under its inode number,
  with the runs of blocks that hold the file's data. Deleting an inode gives its blocks back to
  the volume.
\<close>

section \<open>The record\<close>

text \<open>struct extent\_run (defs.h).\<close>

record extent_run =
  start_block :: u64
  block_count :: u64
  logical_blocks :: u64

definition extent_enc :: "extent_run \<Rightarrow> bytes" where
  "extent_enc e = le_enc 8 (start_block e) @ le_enc 8 (block_count e) @ le_enc 8 (logical_blocks e)"

definition extent_dec :: "bytes \<Rightarrow> extent_run" where
  "extent_dec b = \<lparr>start_block = u64at 0 b, block_count = u64at 8 b, logical_blocks = u64at 16 b\<rparr>"

text \<open>struct inode\_record (btree.h), packed; the array \<open>extents\<close> has eight entries.\<close>

record inode_record =
  inode_id :: u64
  uid :: u32
  gid :: u32
  mode :: u32
  creation_time :: u64
  modification_time :: u64
  access_time :: u64
  file_size :: u64
  extents :: "extent_run list"
  file_type :: u8
  sector_count :: u64
  sector_map_size :: u64
  ref_count :: u32

definition inode_record_size :: nat where "inode_record_size = 265"

definition inode_enc :: "inode_record \<Rightarrow> bytes" where
  "inode_enc r = le_enc 8 (inode_id r) @ le_enc 4 (uid r) @ le_enc 4 (gid r) @ le_enc 4 (mode r) @ le_enc 8 (creation_time r) @
     le_enc 8 (modification_time r) @ le_enc 8 (access_time r) @ le_enc 8 (file_size r) @ concat (map extent_enc (extents r)) @
     le_enc 1 (file_type r) @ le_enc 8 (sector_count r) @ le_enc 8 (sector_map_size r) @ le_enc 4 (ref_count r)"

definition inode_dec :: "bytes \<Rightarrow> inode_record" where
  "inode_dec b = \<lparr>inode_id = u64at 0 b, uid = u32at 8 b, gid = u32at 12 b, mode = u32at 16 b, creation_time = u64at 20 b,
     modification_time = u64at 28 b, access_time = u64at 36 b, file_size = u64at 44 b, extents = map extent_dec (slots 24 8 (fld 52 192 b)),
     file_type = u8at 244 b, sector_count = u64at 245 b, sector_map_size = u64at 253 b, ref_count = u32at 261 b\<rparr>"

definition inode_ok :: "inode_record \<Rightarrow> bool" where
  "inode_ok r \<longleftrightarrow> length (extents r) = 8"

lemma extent_dec_enc [simp]: "extent_dec (extent_enc e) = e"
  by (simp add: extent_dec_def extent_enc_def codec_simps)

lemma length_extent_enc [simp]: "length (extent_enc e) = 24"
  by (simp add: extent_enc_def)

lemma extents_enc:
  assumes "length es = 8"
  shows "length (concat (map extent_enc es)) = 192" "map extent_dec (slots 24 8 (concat (map extent_enc es))) = es"
proof -
  show "length (concat (map extent_enc es)) = 192" using assms by (subst length_concat_eq [of _ 24]) auto
  have "slots 24 (length (map extent_enc es)) (concat (map extent_enc es) @ []) = map extent_enc es"
    by (rule slots_append_concat) auto
  then show "map extent_dec (slots 24 8 (concat (map extent_enc es))) = es" using assms by (simp add: map_idI)
qed

lemma length_inode_enc: "inode_ok r \<Longrightarrow> length (inode_enc r) = inode_record_size"
  unfolding inode_ok_def using extents_enc(1) [of "extents r"] by (simp add: inode_enc_def inode_record_size_def)

lemma inode_dec_enc: "inode_ok r \<Longrightarrow> inode_dec (inode_enc r) = r"
  unfolding inode_ok_def using extents_enc [of "extents r"] by (simp add: inode_enc_def inode_dec_def codec_simps del: le_enc.simps One_nat_def)

section \<open>The operations\<close>

definition inode_slot :: hdr_slot where
  "inode_slot = \<lparr>hget = inode_hdr, hset = (\<lambda>h c. c\<lparr>inode_hdr := h\<rparr>), hlba = inode_lba\<rparr>"

definition inode_cfg :: "u64 tree_cfg" where
  "inode_cfg = u64_cfg inode_record_size 1"

definition obmafs3_inode_get :: "ctx \<Rightarrow> u64 \<Rightarrow> (rc + inode_record) option" where
  "obmafs3_inode_get c ino =
     (case slot_lookup inode_slot inode_cfg c ino of
        None \<Rightarrow> None
      | Some (Inl e) \<Rightarrow> Some (Inl e)
      | Some (Inr (_, _, r)) \<Rightarrow> Some (Inr (inode_dec r)))"

definition obmafs3_inode_put :: "ctx \<Rightarrow> inode_record \<Rightarrow> rc \<times> ctx" where
  "obmafs3_inode_put c ino = slot_put inode_slot inode_cfg c (inode_enc ino)"

text \<open>The loop over the extents of the deleted record; the result of the release is ignored.\<close>

fun free_extents :: "ctx \<Rightarrow> extent_run list \<Rightarrow> ctx" where
  "free_extents c [] = c"
| "free_extents c (e # es) =
     free_extents (if 0 < block_count e then snd (obmafs3_free_blocks c (start_block e) (block_count e)) else c) es"

definition obmafs3_inode_delete :: "ctx \<Rightarrow> u64 \<Rightarrow> rc \<times> ctx" where
  "obmafs3_inode_delete c ino =
     (case slot_remove inode_slot inode_cfg c ino of
        (None, r, c1) \<Rightarrow> (r, c1)
      | (Some del, r, c1) \<Rightarrow> (r, free_extents c1 (extents (inode_dec del))))"

section \<open>The contract\<close>

interpretation inode: record_store inode_cfg "\<lambda>_. True" inode_slot inode_enc inode_dec inode_id id inode_ok
  unfolding inode_cfg_def
  by unfold_locales (auto simp: inode_slot_def same_volume_def length_inode_enc inode_dec_enc, auto simp: u64_cfg_def length_inode_enc inode_enc_def codec_simps)

lemma inode_get_eq: "obmafs3_inode_get c k = slot_get inode_slot inode_cfg inode_dec c k"
  by (auto simp: obmafs3_inode_get_def slot_get_def split: option.splits sum.splits)

text \<open>The inode tree holds the records \<open>rs\<close>, which lie in the blocks \<open>own\<close>, with the reserve \<open>fl\<close>.\<close>

definition inode_holds :: "bool \<Rightarrow> ctx \<Rightarrow> nat \<Rightarrow> u64 set \<Rightarrow> u64 list \<Rightarrow> bytes list \<Rightarrow> bool" where
  "inode_holds = slot_holds inode_slot inode_cfg (\<lambda>_. True)"

definition inode_dholds :: "bool \<Rightarrow> ctx \<Rightarrow> nat \<Rightarrow> u64 set \<Rightarrow> u64 list \<Rightarrow> bytes list \<Rightarrow> bool" where
  "inode_dholds = slot_dholds inode_slot inode_cfg (\<lambda>_. True)"

section \<open>Releasing the extents\<close>

definition ext_blocks :: "extent_run list \<Rightarrow> nat set" where
  "ext_blocks es = {p. \<exists>e \<in> set es. unat (start_block e) \<le> p \<and> p < unat (start_block e) + unat (block_count e)}"

definition ext_range :: "extent_run list \<Rightarrow> bool" where
  "ext_range es \<longleftrightarrow> (\<forall>e \<in> set es. unat (start_block e) + unat (block_count e) \<le> 2 ^ 64)"

lemma free_extents_frame: "\<exists>bm. free_extents c es = c\<lparr>bitmap := bm\<rparr>"
proof (induction es arbitrary: c)
  case Nil
  have "c = c\<lparr>bitmap := bitmap c\<rparr>" by simp
  then show ?case by (metis free_extents.simps(1))
next
  case (Cons e es)
  let ?c = "if 0 < block_count e then snd (obmafs3_free_blocks c (start_block e) (block_count e)) else c"
  obtain b1 where "?c = c\<lparr>bitmap := b1\<rparr>"
  proof (cases "0 < block_count e")
    case True
    then show ?thesis using bitmap_clear_eq [of c "start_block e" "block_count e"] that by (simp add: obmafs3_free_blocks_def)
  next
    case False
    then show ?thesis using that [of "bitmap c"] by simp
  qed
  moreover obtain b2 where "free_extents ?c es = ?c\<lparr>bitmap := b2\<rparr>" using Cons by blast
  ultimately have "free_extents c (e # es) = c\<lparr>bitmap := b2\<rparr>" by simp
  then show ?case by blast
qed

lemma free_extents_used:
  assumes "bm_ok c" "ext_range es"
  shows "bm_ok (free_extents c es) \<and> (used (free_extents c es) p \<longleftrightarrow> used c p \<and> p \<notin> ext_blocks es)"
  using assms
proof (induction es arbitrary: c)
  case (Cons e es)
  let ?c = "if 0 < block_count e then snd (obmafs3_free_blocks c (start_block e) (block_count e)) else c"
  have ok: "bm_ok ?c" using Cons.prems(1) by (simp add: obmafs3_free_blocks_def)
  have r: "ext_range es" using Cons.prems(2) by (simp add: ext_range_def)
  have "used ?c p \<longleftrightarrow> used c p \<and> \<not> (unat (start_block e) \<le> p \<and> p < unat (start_block e) + unat (block_count e))"
    using used_clear [OF Cons.prems(1), of "start_block e" "block_count e" p] Cons.prems(2)
    by (auto simp: obmafs3_free_blocks_def ext_range_def word_less_nat_alt)
  then show ?case using Cons.IH [OF ok r] by (auto simp: ext_blocks_def)
qed (simp add: ext_blocks_def)

section \<open>Properties\<close>

text \<open>
  C14: storing an inode either succeeds, and then the inode reads back exactly, with its eight
  extents, while every other inode reads as before, or reports a full volume, which happens
  only when the reserve of nodes is shorter than a split needs.
\<close>

theorem inode_put_get:
  assumes "inode_holds b c lv own fl rs" "lv \<le> 8" "b \<or> lv \<le> 1" "inode_ok r"
  shows "(\<exists>c'. obmafs3_inode_put c r = (OBMAFS3_OK, c') \<and>
      (\<forall>j. obmafs3_inode_get c' j = (if j = inode_id r then Some (Inr r) else obmafs3_inode_get c j))) \<or>
    (\<exists>c'. obmafs3_inode_put c r = (OBMAFS3_ERR_NOSPC, c') \<and> length fl < lv + 2)"
  using inode.put_outcome [OF assms(1) [unfolded inode_holds_def] assms(2-4)]
  by cases (auto simp: obmafs3_inode_put_def inode_get_eq)

definition demo_inode :: inode_record where
  "demo_inode = \<lparr>inode_id = 7, uid = 1000, gid = 1000, mode = 0x81A4, creation_time = 1, modification_time = 2, access_time = 3, file_size = 2048,
     extents = \<lparr>start_block = 3, block_count = 2, logical_blocks = 2\<rparr> # replicate 7 \<lparr>start_block = 0, block_count = 0, logical_blocks = 0\<rparr>,
     file_type = 0, sector_count = 0, sector_map_size = 0, ref_count = 1\<rparr>"

definition inode_ctx :: "btree_header \<Rightarrow> ctx" where
  "inode_ctx h = reserve_ctx\<lparr>inode_hdr := h, sb := (sb reserve_ctx)\<lparr>inode_lba := 1\<rparr>\<rparr>"

lemma demo_inode_ok: "inode_ok demo_inode" "inode_id demo_inode = 7"
  by (simp_all add: demo_inode_def inode_ok_def)

lemma inode_ctx_facts: "reserve_volume (inode_ctx h)" "fits_reserve inode_cfg" "inode_hdr (inode_ctx h) = h" "inode_lba (sb (inode_ctx h)) = 1"
  by (simp_all add: reserve_volume_def inode_ctx_def same_volume_def reserve_ctx_def blank_ctx_def fits_reserve_def inode_cfg_def
      u64_cfg_def inode_record_size_def nh_size_def)

lemma inode_ctx_holds: "inode_holds b (inode_ctx reserve_hdr) 0 {} [2, 3] []"
  using reserve_world(1) [OF inode_ctx_facts(1,2)]
  by (simp add: inode_holds_def slot_holds_def holds_def inode_slot_def inode_ctx_facts) (simp add: reserve_hdr_def zero_hdr_def)

theorem inode_put_get_witness:
  "\<exists>c'. obmafs3_inode_put (inode_ctx reserve_hdr) demo_inode = (OBMAFS3_OK, c') \<and> obmafs3_inode_get c' 7 = Some (Inr demo_inode)"
  using inode_put_get [OF inode_ctx_holds [of True] _ _ demo_inode_ok(1)] demo_inode_ok(2) by auto


definition inode_leaf :: ctx where
  "inode_leaf = wrote (inode_ctx (zero_hdr\<lparr>root_node_lba := 2, total_nodes := 1\<rparr>)) 2
     (fresh_image inode_cfg (inode_ctx (zero_hdr\<lparr>root_node_lba := 2, total_nodes := 1\<rparr>)) 0 1 (rec_sz inode_cfg) 0 0 (inode_enc demo_inode))"

lemma inode_leaf_facts: "inode_hdr inode_leaf = zero_hdr\<lparr>root_node_lba := 2, total_nodes := 1\<rparr>" "inode_lba (sb inode_leaf) = 1"
  by (simp_all add: inode_leaf_def wrote_def inode_ctx_facts)

lemma inode_leaf_holds: "inode_dholds True inode_leaf 0 {2} [] [inode_enc demo_inode]"
proof -
  let ?h = "zero_hdr\<lparr>root_node_lba := 2, total_nodes := 1\<rparr>"
  have w: "world inode_cfg (inode_ctx ?h) ?h 1 {2} []" using reserve_world(2) [OF inode_ctx_facts(1,2), of 1 "{2}" ?h 1 2] by simp
  from one_leaf [OF w _ inode.enc_size [OF demo_inode_ok(1)], of "\<lambda>_. True" True] show ?thesis
    by (simp add: inode_dholds_def slot_dholds_def inode_slot_def inode_leaf_facts) (simp add: inode_leaf_def)
qed

lemma inode_leaf_get: "obmafs3_inode_get inode_leaf 7 = Some (Inr demo_inode)"
proof -
  have "rmap inode_cfg [inode_enc demo_inode] 7 = Some (inode_enc demo_inode)"
    using inode.enc_key [OF demo_inode_ok(1)] demo_inode_ok(2) by (simp add: rmap_def)
  then show ?thesis
    using inode.get_holds [OF inode.holds_of_dholds [OF inode_leaf_holds [unfolded inode_dholds_def]], of 7] inode_dec_enc [OF demo_inode_ok(1)]
    by (simp add: inode_get_eq)
qed


end
