(* ===== verification/Refcount.thy ===== *)
theory Refcount
  imports Inode
begin

text \<open>
  The refcount tree, src/src/lib/refcount.c: how many inodes share a block. Blocks with one
  owner have no record. The leaf of the last lookup is cached in the context; every change of
  the tree drops it.
\<close>

section \<open>The operations\<close>

text \<open>struct refcount\_record (defs.h).\<close>

definition refcount_record_size :: nat where "refcount_record_size = 12"

definition refcount_enc :: "u64 \<times> u32 \<Rightarrow> bytes" where
  "refcount_enc r = le_enc 8 (fst r) @ le_enc 4 (snd r)"

definition refcount_slot :: hdr_slot where
  "refcount_slot = \<lparr>hget = refcount_hdr, hset = (\<lambda>h c. c\<lparr>refcount_hdr := h\<rparr>), hlba = refcount_lba\<rparr>"

definition refcount_cfg :: "u64 tree_cfg" where
  "refcount_cfg = u64_cfg refcount_record_size 10"

text \<open>What a leaf says about a block: the count of its record, or the implicit 1.\<close>

definition leaf_count :: "bytes \<Rightarrow> u16 \<Rightarrow> u64 \<Rightarrow> u32" where
  "leaf_count buf nk lba =
     (let idx = leaf_find refcount_cfg buf nk lba in
      if 0 \<le> idx then u32at 8 (slot (rec_sz refcount_cfg) (nat idx) (ndata buf)) else 1)"

definition cache_leaf :: "ctx \<Rightarrow> u64 \<Rightarrow> bytes \<Rightarrow> ctx" where
  "cache_leaf c cur buf =
     (let nk = node_keys (nh_dec buf);
          lo = (if 0 < nk then u64at 0 (slot (rec_sz refcount_cfg) 0 (ndata buf)) else -1);
          hi = (if 0 < nk then u64at 0 (slot (rec_sz refcount_cfg) (unat (nk - 1)) (ndata buf)) else 0)
      in c\<lparr>rc_leaf_buf := buf, rc_leaf_lba := cur, rc_leaf_count := nk, rc_leaf_min := lo, rc_leaf_max := hi, rc_leaf_valid := True\<rparr>)"

definition obmafs3_refcount_get :: "ctx \<Rightarrow> u64 \<Rightarrow> ((rc + u32) \<times> ctx) option" where
  "obmafs3_refcount_get c lba =
     (if root_node_lba (refcount_hdr c) = 0 then Some (Inr 1, c)
      else if rc_leaf_valid c \<and> rc_leaf_min c \<le> lba \<and> lba \<le> rc_leaf_max c
      then Some (Inr (leaf_count (rc_leaf_buf c) (rc_leaf_count c) lba), c)
      else case tree_descend refcount_cfg c (root_node_lba (refcount_hdr c)) lba of
        None \<Rightarrow> None
      | Some (Inl e) \<Rightarrow> Some (Inl e, c)
      | Some (Inr (cur, buf)) \<Rightarrow> Some (Inr (leaf_count buf (node_keys (nh_dec buf)) lba), cache_leaf c cur buf))"

text \<open>The descent of the removal does not look at the magic number of a node.\<close>

partial_function (option) refcount_descend :: "ctx \<Rightarrow> u64 \<Rightarrow> u64 \<Rightarrow> (rc + u64 \<times> bytes) option" where
  [code]: "refcount_descend c cur lba =
     (case obmafs3_block_read c cur (bsz c) of
        Inl e \<Rightarrow> Some (Inl e)
      | Inr buf \<Rightarrow>
          if 0 < level (nh_dec buf) then
            refcount_descend c (ie_child refcount_cfg (slot (ie_sz refcount_cfg) (index_find refcount_cfg buf (node_keys (nh_dec buf)) lba) (ndata buf))) lba
          else Some (Inr (cur, buf)))"

definition refcount_unset :: "ctx \<Rightarrow> u64 \<Rightarrow> (rc \<times> ctx) option" where
  "refcount_unset c lba =
     (if root_node_lba (refcount_hdr c) = 0 then Some (OBMAFS3_OK, c)
      else case refcount_descend c (root_node_lba (refcount_hdr c)) lba of
        None \<Rightarrow> None
      | Some (Inl e) \<Rightarrow> Some (e, c)
      | Some (Inr (cur, buf)) \<Rightarrow>
          let nk = node_keys (nh_dec buf);
              sz = rec_sz refcount_cfg;
              idx = leaf_find refcount_cfg buf nk lba
          in if idx < 0 then Some (OBMAFS3_OK, c)
             else Some (obmafs3_block_write c cur
                    (shrunk_image c buf sz (put (nh_size + unat (nk - 1) * sz) (replicate sz 0) (remove_slot sz (unat nk) (nat idx) buf)))))"

definition obmafs3_refcount_set :: "ctx \<Rightarrow> u64 \<Rightarrow> u32 \<Rightarrow> (rc \<times> ctx) option" where
  "obmafs3_refcount_set c lba n =
     (let c0 = c\<lparr>rc_leaf_valid := False\<rparr> in
      if n \<le> 1 then refcount_unset c0 lba
      else Some (slot_put refcount_slot refcount_cfg c0 (refcount_enc (lba, n))))"

definition obmafs3_refcount_inc :: "ctx \<Rightarrow> u64 \<Rightarrow> (rc \<times> ctx) option" where
  "obmafs3_refcount_inc c lba =
     (case obmafs3_refcount_get c lba of
        None \<Rightarrow> None
      | Some (Inl e, c1) \<Rightarrow> Some (e, c1)
      | Some (Inr cur, c1) \<Rightarrow> obmafs3_refcount_set c1 lba (cur + 1))"

text \<open>The second result is what is stored through \<open>new_count\<close>, None for nothing.\<close>

definition obmafs3_refcount_dec :: "ctx \<Rightarrow> u64 \<Rightarrow> (rc \<times> u32 option \<times> ctx) option" where
  "obmafs3_refcount_dec c lba =
     (case obmafs3_refcount_get c lba of
        None \<Rightarrow> None
      | Some (Inl e, c1) \<Rightarrow> Some (e, None, c1)
      | Some (Inr cur, c1) \<Rightarrow>
          if cur \<le> 1 then Some (OBMAFS3_OK, Some 1, c1)
          else (case obmafs3_refcount_set c1 lba (cur - 1) of
                  None \<Rightarrow> None
                | Some (r, c2) \<Rightarrow> Some (r, if r = OBMAFS3_OK then Some (cur - 1) else None, c2)))"

section \<open>The contract\<close>

interpretation refcount: record_store refcount_cfg "\<lambda>_. True" refcount_slot refcount_enc "u32at 8" fst snd "\<lambda>_. True"
  unfolding refcount_cfg_def
  by unfold_locales (auto simp: refcount_slot_def same_volume_def, auto simp: u64_cfg_def refcount_enc_def refcount_record_size_def codec_simps)

text \<open>The count the records \<open>rs\<close> give a block.\<close>

definition count_of :: "bytes list \<Rightarrow> u64 \<Rightarrow> u32" where
  "count_of rs lba = (case rmap refcount_cfg rs lba of None \<Rightarrow> 1 | Some r \<Rightarrow> u32at 8 r)"

text \<open>The cached leaf is a stretch of the records of the tree, with its first and last key.\<close>

definition cache_ok :: "ctx \<Rightarrow> bytes list \<Rightarrow> bool" where
  "cache_ok c rs \<longleftrightarrow> (rc_leaf_valid c \<longrightarrow>
     (\<exists>pre ls post rl. rs = pre @ ls @ post \<and> node_is (bsz c) (rc_leaf_buf c) 0 rl (rec_sz refcount_cfg) ls \<and>
        rc_leaf_count c = node_keys (nh_dec (rc_leaf_buf c)) \<and>
        rc_leaf_min c = (if ls = [] then -1 else rec_key refcount_cfg (hd ls)) \<and>
        rc_leaf_max c = (if ls = [] then 0 else rec_key refcount_cfg (last ls))))"

text \<open>Records are kept for shared blocks only.\<close>

definition shared_only :: "bytes list \<Rightarrow> bool" where
  "shared_only rs \<longleftrightarrow> (\<forall>r \<in> set rs. 1 < (u32at 8 r))"

definition refcount_holds :: "bool \<Rightarrow> ctx \<Rightarrow> nat \<Rightarrow> u64 set \<Rightarrow> u64 list \<Rightarrow> bytes list \<Rightarrow> bool" where
  "refcount_holds b c lv own fl rs \<longleftrightarrow> slot_holds refcount_slot refcount_cfg (\<lambda>_. True) b c lv own fl rs \<and> cache_ok c rs \<and> shared_only rs"

lemma leaf_count_spec:
  assumes nd: "node_is bs buf lv rl (rec_sz refcount_cfg) ls" and srt: "sorted_wrt (<) (map (rec_key refcount_cfg) ls)"
  shows "leaf_count buf (node_keys (nh_dec buf)) lba = count_of ls lba"
proof -
  define idx where "idx = leaf_find refcount_cfg buf (node_keys (nh_dec buf)) lba"
  note spec = leaf_find_spec [OF nd srt idx_def]
  show ?thesis
  proof (cases "0 \<le> idx")
    case True
    note i = spec(1) [OF True]
    have "rmap refcount_cfg ls lba = Some (ls ! nat idx)" using i rmap_Some [OF srt] by simp
    moreover have "slot (rec_sz refcount_cfg) (nat idx) (ndata buf) = ls ! nat idx" using node_is_slot [OF nd] i by blast
    ultimately show ?thesis using True by (simp add: leaf_count_def idx_def [symmetric] count_of_def)
  next
    case False
    then have "\<forall>j < length ls. rec_key refcount_cfg (ls ! j) \<noteq> lba" using spec(2) by (meson linorder_not_less less_irrefl)
    then have "rmap refcount_cfg ls lba = None" by (auto simp: rmap_None in_set_conv_nth)
    then show ?thesis using False by (simp add: leaf_count_def idx_def [symmetric] count_of_def)
  qed
qed

text \<open>Between its first and its last key a stretch of sorted records decides alone.\<close>

lemma count_of_stretch:
  assumes srt: "sorted_wrt (<) (map (rec_key refcount_cfg) (pre @ ls @ post))"
    and out: "\<And>x. x \<in> set pre \<union> set post \<Longrightarrow> rec_key refcount_cfg x \<noteq> lba"
  shows "count_of (pre @ ls @ post) lba = count_of ls lba"
proof -
  have s: "sorted_wrt (<) (map (rec_key refcount_cfg) ls)" using srt by (simp add: sorted_wrt_append)
  show ?thesis
  proof (cases "rmap refcount_cfg ls lba")
    case None
    then have "rmap refcount_cfg (pre @ ls @ post) lba = None" using out by (auto simp: rmap_None)
    then show ?thesis using None by (simp add: count_of_def)
  next
    case (Some r)
    then have "r \<in> set ls" "rec_key refcount_cfg r = lba" using rmap_Some [OF s] by auto
    then have "rmap refcount_cfg (pre @ ls @ post) lba = Some r" using rmap_Some [OF srt] by simp
    then show ?thesis using Some by (simp add: count_of_def)
  qed
qed

lemma stretch_ends:
  assumes srt: "sorted_wrt (<) (map (rec_key g) (pre @ ls @ post))" and ne: "ls \<noteq> []"
    and k: "rec_key g (hd ls) \<le> k" "k \<le> (rec_key g (last ls) :: 'k :: linorder)" and x: "x \<in> set pre \<union> set post"
  shows "rec_key g x \<noteq> k"
proof -
  have "hd ls \<in> set ls" "last ls \<in> set ls" using ne by simp_all
  then have "x \<in> set pre \<Longrightarrow> rec_key g x < rec_key g (hd ls)" "x \<in> set post \<Longrightarrow> rec_key g (last ls) < rec_key g x"
    using srt by (auto simp: sorted_wrt_append)
  then show ?thesis using x k by auto
qed

lemma count_of_cached:
  assumes "cache_ok c rs" "sorted_wrt (<) (map (rec_key refcount_cfg) rs)" "rc_leaf_valid c" "rc_leaf_min c \<le> lba" "lba \<le> rc_leaf_max c"
  shows "leaf_count (rc_leaf_buf c) (rc_leaf_count c) lba = count_of rs lba"
proof -
  obtain pre ls post rl where C: "rs = pre @ ls @ post" "node_is (bsz c) (rc_leaf_buf c) 0 rl (rec_sz refcount_cfg) ls"
    "rc_leaf_count c = node_keys (nh_dec (rc_leaf_buf c))" "rc_leaf_min c = (if ls = [] then -1 else rec_key refcount_cfg (hd ls))"
    "rc_leaf_max c = (if ls = [] then 0 else rec_key refcount_cfg (last ls))" using assms(1,3) by (auto simp: cache_ok_def)
  have "\<not> (-1 \<le> lba \<and> lba \<le> 0)" by auto
  then have ne: "ls \<noteq> []" using assms(4,5) C(4,5) by auto
  note srt = assms(2) [unfolded C(1)]
  have "count_of rs lba = count_of ls lba"
    unfolding C(1) using assms(4,5) C(4,5) ne by (intro count_of_stretch [OF srt] stretch_ends [OF srt ne]) auto
  moreover have "sorted_wrt (<) (map (rec_key refcount_cfg) ls)" using srt by (simp add: sorted_wrt_append)
  ultimately show ?thesis using leaf_count_spec [OF C(2)] C(3) by simp
qed

section \<open>Lookup\<close>

lemma refcount_descend_same:
  assumes "tree_descend refcount_cfg c cur lba = Some (Inr x)"
  shows "refcount_descend c cur lba = Some (Inr x)"
proof -
  have "tree_descend g c cur lba = Some y \<Longrightarrow> g = refcount_cfg \<and> y = Inr x \<longrightarrow> refcount_descend c cur lba = Some y" for g y
  proof (erule tree_descend.raw_induct [rotated])
    fix td g c cur lba y
    assume IH: "\<And>g c cur lba y. td g c cur lba = Some y \<Longrightarrow> g = refcount_cfg \<and> y = Inr x \<longrightarrow> refcount_descend c cur lba = Some y"
      and step: "(case obmafs3_block_read c cur (bsz c) of Inl e \<Rightarrow> Some (Inl e)
        | Inr buf \<Rightarrow> if nh_magic (nh_dec buf) \<noteq> OBMAFS3_BTREE_NODE_MAGIC then Some (Inl OBMAFS3_ERR_BADMAGIC)
            else if 0 < level (nh_dec buf) then td g c (ie_child g (slot (ie_sz g) (index_find g buf (node_keys (nh_dec buf)) lba) (ndata buf))) lba
            else Some (Inr (cur, buf))) = Some y"
    show "g = refcount_cfg \<and> y = Inr x \<longrightarrow> refcount_descend c cur lba = Some y"
    proof
      assume "g = refcount_cfg \<and> y = Inr x"
      then show "refcount_descend c cur lba = Some y"
        using step by (subst refcount_descend.simps) (auto split: sum.splits if_splits dest: IH)
    qed
  qed
  then show ?thesis using assms by blast
qed

text \<open>Both descents end in the leaf that decides about a block.\<close>

lemma refcount_leaf:
  assumes hs: "holds refcount_cfg (\<lambda>_. True) b c h hl lv own fl rs" and ne: "root_node_lba h \<noteq> 0"
  obtains fs l r ls where "tree_ok refcount_cfg (\<lambda>_. True) b c h hl lv (plug fs (LeafN l r ls)) fl" "own = set (lbas (plug fs (LeafN l r ls)))"
    "chained (leaves (plug fs (LeafN l r ls)))" "lv = length fs"
    "tree_descend refcount_cfg c (root_node_lba h) lba = Some (Inr (l, blk c l))"
    "refcount_descend c (root_node_lba h) lba = Some (Inr (l, blk c l))"
    "node_is (bsz c) (blk c l) 0 r (rec_sz refcount_cfg) ls" "rs = frecs_l fs @ ls @ frecs_r fs"
    "\<And>x. x \<in> set (frecs_l fs) \<union> set (frecs_r fs) \<Longrightarrow> rec_key refcount_cfg x \<noteq> lba"
proof -
  let ?g = refcount_cfg
  obtain t where t: "tree_ok ?g (\<lambda>_. True) b c h hl lv t fl" "own = set (lbas t)" "recs t = rs" "chained (leaves t)"
    using hs ne by (auto simp: holds_def)
  have "dev_ok c" "\<And>k. k \<in> set (lbas t) \<Longrightarrow> in_vol c k" "rep ?g (bsz c) (blk c) lv t"
    "kinv ?g (\<lambda>_. True) b (hole_lo ?g []) (hole_hi ?g []) t" "root_node_lba h = tlba t"
    using t(1) by (auto simp: world_def env_ok_def tree_ok_def)
  from descent [OF this(1-4), of lba lv "[]"] this(5)
  obtain fs l r ls where D: "t = plug fs (LeafN l r ls)" "length fs = lv" "tree_descend ?g c (root_node_lba h) lba = Some (Inr (l, blk c l))"
     "node_is (bsz c) (blk c l) 0 r (rec_sz ?g) ls" "ge_lo (hole_lo ?g fs) lba" "lt_hi lba (hole_hi ?g fs)" by auto
  have "finv ?g (\<lambda>_. True) b fs" using t(1) by (simp add: D(1) tree_ok_def kinv_plug)
  from finv_sides [OF this] D(5,6) have "rec_key ?g x \<noteq> lba" if "x \<in> set (frecs_l fs) \<union> set (frecs_r fs)" for x using that by force
  then show ?thesis using that t D refcount_descend_same [OF D(3)] by (auto simp: recs_plug)
qed

definition same_but_cache :: "ctx \<Rightarrow> ctx \<Rightarrow> bool" where
  "same_but_cache c c' \<longleftrightarrow> c\<lparr>rc_leaf_buf := rc_leaf_buf c', rc_leaf_lba := rc_leaf_lba c', rc_leaf_min := rc_leaf_min c',
     rc_leaf_max := rc_leaf_max c', rc_leaf_count := rc_leaf_count c', rc_leaf_valid := rc_leaf_valid c'\<rparr> = c'"

lemma same_but_cache_simps: "same_but_cache c c" "same_but_cache c (cache_leaf c cur buf)" "same_but_cache c (c\<lparr>rc_leaf_valid := v\<rparr>)"
  by (simp_all add: same_but_cache_def cache_leaf_def Let_def)

lemma same_but_cache_holds:
  assumes "same_but_cache c c'"
  shows "slot_holds refcount_slot refcount_cfg vk b c' lv own fl rs = slot_holds refcount_slot refcount_cfg vk b c lv own fl rs"
    "same_volume c c'" "refcount_hdr c' = refcount_hdr c"
proof -
  obtain a1 a2 a3 a4 a5 a6 where c': "c' = c\<lparr>rc_leaf_buf := a1, rc_leaf_lba := a2, rc_leaf_min := a3, rc_leaf_max := a4, rc_leaf_count := a5, rc_leaf_valid := a6\<rparr>"
    using assms unfolding same_but_cache_def by metis
  show sv: "same_volume c c'" "refcount_hdr c' = refcount_hdr c" by (simp_all add: c' same_volume_def)
  then show "slot_holds refcount_slot refcount_cfg vk b c' lv own fl rs = slot_holds refcount_slot refcount_cfg vk b c lv own fl rs"
    using same_volume_holds [OF sv(1)] same_volume_blocks(8) [OF sv(1)] by (simp add: slot_holds_def refcount_slot_def)
qed

lemma refcount_get_spec:
  assumes h: "refcount_holds b c lv own fl rs"
  obtains c' where "obmafs3_refcount_get c lba = Some (Inr (count_of rs lba), c')" "refcount_holds b c' lv own fl rs" "same_but_cache c c'"
proof -
  have sh: "slot_holds refcount_slot refcount_cfg (\<lambda>_. True) b c lv own fl rs" and ck: "cache_ok c rs" using h by (simp_all add: refcount_holds_def)
  have hs: "holds refcount_cfg (\<lambda>_. True) b c (refcount_hdr c) (refcount_lba (sb c)) lv own fl rs"
    using sh by (simp add: slot_holds_def refcount_slot_def)
  have srt: "sorted_wrt (<) (map (rec_key refcount_cfg) rs)" by (rule holds_sorted(1) [OF hs])
  consider (empty) "root_node_lba (refcount_hdr c) = 0"
    | (hit) "root_node_lba (refcount_hdr c) \<noteq> 0" "rc_leaf_valid c \<and> rc_leaf_min c \<le> lba \<and> lba \<le> rc_leaf_max c"
    | (miss) "root_node_lba (refcount_hdr c) \<noteq> 0" "\<not> (rc_leaf_valid c \<and> rc_leaf_min c \<le> lba \<and> lba \<le> rc_leaf_max c)" by blast
  then show ?thesis
  proof cases
    case empty
    then have "rs = []" using hs tree_ok_root [of refcount_cfg] unfolding holds_def by blast
    then show ?thesis using that [of c] empty h same_but_cache_simps(1) by (simp add: obmafs3_refcount_get_def count_of_def rmap_def)
  next
    case hit
    then show ?thesis using that [of c] h same_but_cache_simps(1) count_of_cached [OF ck srt] by (simp add: obmafs3_refcount_get_def)
  next
    case miss
    obtain fs l r ls where D: "tree_descend refcount_cfg c (root_node_lba (refcount_hdr c)) lba = Some (Inr (l, blk c l))"
      "node_is (bsz c) (blk c l) 0 r (rec_sz refcount_cfg) ls" "rs = frecs_l fs @ ls @ frecs_r fs"
      "\<And>x. x \<in> set (frecs_l fs) \<union> set (frecs_r fs) \<Longrightarrow> rec_key refcount_cfg x \<noteq> lba"
      by (rule refcount_leaf [OF hs miss(1), of lba]) blast
    have sl: "sorted_wrt (<) (map (rec_key refcount_cfg) ls)" using srt by (simp add: D(3) sorted_wrt_append)
    let ?c = "cache_leaf c l (blk c l)"
    have nk: "unat (node_keys (nh_dec (blk c l))) = length ls" using D(2) by (simp add: node_is_def)
    have "count_of rs lba = count_of ls lba" unfolding D(3) using count_of_stretch [OF srt [unfolded D(3)] D(4)] .
    then have g: "obmafs3_refcount_get c lba = Some (Inr (count_of rs lba), ?c)"
      using miss D(1) leaf_count_spec [OF D(2) sl, of lba] by (auto simp: obmafs3_refcount_get_def)
    have k: "u64at 0 x = rec_key refcount_cfg x" for x by (simp add: refcount_cfg_def u64_cfg_def)
    have el: "slot (rec_sz refcount_cfg) i (ndata (blk c l)) = ls ! i" if "i < length ls" for i using node_is_slot [OF D(2) that] .
    have ends: "rc_leaf_min ?c = (if ls = [] then -1 else rec_key refcount_cfg (hd ls)) \<and>
        rc_leaf_max ?c = (if ls = [] then 0 else rec_key refcount_cfg (last ls))"
    proof (cases "ls = []")
      case True
      then have "node_keys (nh_dec (blk c l)) = 0" using nk by (simp add: unat_eq_0)
      then show ?thesis using True by (simp add: cache_leaf_def)
    next
      case False
      then have n0: "node_keys (nh_dec (blk c l)) \<noteq> 0" using nk by auto
      then have "unat (node_keys (nh_dec (blk c l)) - 1) = length ls - 1" using nk by (simp add: unat_minus_one)
      then show ?thesis using False n0 el [of 0] el [of "length ls - 1"] k by (simp add: cache_leaf_def word_gt_0 hd_conv_nth last_conv_nth)
    qed
    have "cache_ok ?c rs"
      unfolding cache_ok_def using D(2,3) ends by (intro impI exI [of _ "frecs_l fs"] exI [of _ ls] exI [of _ "frecs_r fs"] exI [of _ r])
        (simp add: cache_leaf_def Let_def)
    then have "refcount_holds b ?c lv own fl rs" using sh same_but_cache_holds(1) [OF same_but_cache_simps(2) [of c l "blk c l"]] using h by (simp add: refcount_holds_def)
    then show ?thesis using that g same_but_cache_simps(2) by blast
  qed
qed

section \<open>Changing a count\<close>

lemma refcount_unset_spec:
  assumes sh: "slot_holds refcount_slot refcount_cfg (\<lambda>_. True) b c lv own fl rs" and inv: "\<not> rc_leaf_valid c"
  obtains c' where "refcount_unset c lba = Some (OBMAFS3_OK, c')" "\<not> rc_leaf_valid c'"
    "slot_holds refcount_slot refcount_cfg (\<lambda>_. True) False c' lv own fl (del_rec (rec_key refcount_cfg) lba rs)"
proof -
  let ?g = refcount_cfg and ?h = "refcount_hdr c" and ?hl = "refcount_lba (sb c)"
  have hs: "holds ?g (\<lambda>_. True) b c ?h ?hl lv own fl rs" using sh by (simp add: slot_holds_def refcount_slot_def)
  have srt: "sorted_wrt (<) (map (rec_key ?g) rs)" by (rule holds_sorted(1) [OF hs])
  note out = that
  have keep: ?thesis if u: "refcount_unset c lba = Some (OBMAFS3_OK, c)" and nk: "\<forall>x \<in> set rs. rec_key ?g x \<noteq> lba"
  proof -
    have "del_rec (rec_key ?g) lba rs = rs" using nk by (intro del_rec_id) auto
    then have "slot_holds refcount_slot ?g (\<lambda>_. True) False c lv own fl (del_rec (rec_key ?g) lba rs)"
      using holds_loose [OF hs] by (simp add: slot_holds_def refcount_slot_def)
    then show ?thesis using out u inv by blast
  qed
  show ?thesis
  proof (cases "root_node_lba ?h = 0")
    case True
    then have "rs = []" using hs tree_ok_root [of refcount_cfg] unfolding holds_def by blast
    then show ?thesis using keep True by (simp add: refcount_unset_def)
  next
    case False
    obtain fs l r ls where L: "tree_ok ?g (\<lambda>_. True) b c ?h ?hl lv (plug fs (LeafN l r ls)) fl" "own = set (lbas (plug fs (LeafN l r ls)))"
      "chained (leaves (plug fs (LeafN l r ls)))" "lv = length fs" "refcount_descend c (root_node_lba ?h) lba = Some (Inr (l, blk c l))"
      "node_is (bsz c) (blk c l) 0 r (rec_sz ?g) ls" "rs = frecs_l fs @ ls @ frecs_r fs"
      "\<And>x. x \<in> set (frecs_l fs) \<union> set (frecs_r fs) \<Longrightarrow> rec_key ?g x \<noteq> lba"
      by (rule refcount_leaf [OF hs False, of lba]) blast
    have nk: "unat (node_keys (nh_dec (blk c l))) = length ls" using L(6) by (simp add: node_is_def)
    have sl: "sorted_wrt (<) (map (rec_key ?g) ls)" using srt by (simp add: L(7) sorted_wrt_append)
    define idx where "idx = leaf_find ?g (blk c l) (node_keys (nh_dec (blk c l))) lba"
    note spec = leaf_find_spec [OF L(6) sl idx_def]
    show ?thesis
    proof (cases "idx < 0")
      case True
      then have "\<forall>j < length ls. rec_key ?g (ls ! j) \<noteq> lba" using spec(2) by (meson linorder_not_less less_irrefl)
      then have "\<forall>x \<in> set ls. rec_key ?g x \<noteq> lba" by (auto simp: in_set_conv_nth)
      then have "\<forall>x \<in> set rs. rec_key ?g x \<noteq> lba" using L(8) by (auto simp: L(7))
      then show ?thesis using keep True False L(5) by (simp add: refcount_unset_def Let_def idx_def)
    next
      case F: False
      then have i: "nat idx < length ls" "rec_key ?g (ls ! nat idx) = lba" using spec(1) by auto
      define buf where "buf = shrunk_image c (blk c l) (rec_sz ?g)
        (put (nh_size + (length ls - 1) * rec_sz ?g) (replicate (rec_sz ?g) 0) (remove_slot (rec_sz ?g) (length ls) (nat idx) (blk c l)))"
      note R = refcount.leaf_shrunk [OF L(1,4) i(1) buf_def]
      have "node_keys (nh_dec (blk c l)) \<noteq> 0" using nk i(1) by auto
      then have "unat (node_keys (nh_dec (blk c l)) - 1) = length ls - 1" using nk by (simp add: unat_minus_one)
      then have u: "refcount_unset c lba = Some (OBMAFS3_OK, wrote c l buf)"
        using False F L(5) R(1) nk by (simp add: refcount_unset_def Let_def idx_def buf_def)
      have "del_rec (rec_key ?g) lba rs = frecs_l fs @ (take (nat idx) ls @ drop (Suc (nat idx)) ls) @ frecs_r fs"
        unfolding L(7) del_rec_append del_rec_at [OF sl i] using L(8) by (simp add: del_rec_id)
      moreover have "leaves (plug fs (LeafN l r (take (nat idx) ls @ drop (Suc (nat idx)) ls))) = leaves (plug fs (LeafN l r ls))"
        by (simp add: leaves_plug)
      ultimately have "holds ?g (\<lambda>_. True) False (wrote c l buf) ?h ?hl lv own fl (del_rec (rec_key ?g) lba rs)"
        unfolding holds_def using R(2) L(2,3)
        by (intro disjI2 exI [of _ "plug fs (LeafN l r (take (nat idx) ls @ drop (Suc (nat idx)) ls))"]) (simp add: recs_plug set_lbas_plug)
      then show ?thesis using that u inv by (simp add: slot_holds_def refcount_slot_def wrote_def)
    qed
  qed
qed

lemma count_of_del: "sorted_wrt (<) (map (rec_key refcount_cfg) rs) \<Longrightarrow>
    count_of (del_rec (rec_key refcount_cfg) lba rs) j = (if j = lba then 1 else count_of rs j)"
  by (simp add: count_of_def rmap_del_rec)

lemma count_of_pos: "shared_only rs \<Longrightarrow> sorted_wrt (<) (map (rec_key refcount_cfg) rs) \<Longrightarrow> 1 \<le> count_of rs lba"
  using rmap_Some [of refcount_cfg rs lba] by (auto simp: count_of_def shared_only_def less_imp_le split: option.splits)

lemma refcount_set_spec:
  assumes h: "refcount_holds b c lv own fl rs" "lv \<le> 8" "b \<or> lv \<le> 1"
  obtains (full) c' where "obmafs3_refcount_set c lba n = Some (OBMAFS3_ERR_NOSPC, c')" "length fl < lv + 2" "1 < n" "count_of rs lba = 1"
  | (changed) c' lv' own' fl' rs' where "obmafs3_refcount_set c lba n = Some (OBMAFS3_OK, c')"
      "refcount_holds (b \<and> 1 < n) c' lv' own' fl' rs'" "lv' \<le> Suc lv" "\<And>j. count_of rs' j = (if j = lba then max 1 n else count_of rs j)"
proof -
  let ?c = "c\<lparr>rc_leaf_valid := False\<rparr>"
  have sh: "slot_holds refcount_slot refcount_cfg (\<lambda>_. True) b ?c lv own fl rs" and so: "shared_only rs"
    using h(1) same_but_cache_holds(1) [OF same_but_cache_simps(3) [of c False]] by (simp_all add: refcount_holds_def)
  have hs: "holds refcount_cfg (\<lambda>_. True) b ?c (refcount_hdr c) (refcount_lba (sb c)) lv own fl rs"
    using sh by (simp add: slot_holds_def refcount_slot_def)
  have srt: "sorted_wrt (<) (map (rec_key refcount_cfg) rs)" by (rule holds_sorted(1) [OF hs])
  show ?thesis
  proof (cases "n \<le> 1")
    case True
    obtain c' where u: "refcount_unset ?c lba = Some (OBMAFS3_OK, c')" "\<not> rc_leaf_valid c'"
      "slot_holds refcount_slot refcount_cfg (\<lambda>_. True) False c' lv own fl (del_rec (rec_key refcount_cfg) lba rs)"
      by (rule refcount_unset_spec [OF sh, of lba]) auto
    have so': "shared_only (del_rec (rec_key refcount_cfg) lba rs)" using so by (auto simp: shared_only_def del_rec_def)
    have "obmafs3_refcount_set c lba n = Some (OBMAFS3_OK, c')" using True u(1) by (simp add: obmafs3_refcount_set_def)
    moreover have "refcount_holds (b \<and> 1 < n) c' lv own fl (del_rec (rec_key refcount_cfg) lba rs)"
      using u(2,3) so' True by (simp add: refcount_holds_def cache_ok_def linorder_not_less [symmetric])
    moreover have "max 1 n = 1" using True by simp
    ultimately show ?thesis using changed count_of_del [OF srt, of lba] by simp
  next
    case False
    let ?x = "refcount_enc (lba, n)"
    have s: "obmafs3_refcount_set c lba n = Some (slot_put refcount_slot refcount_cfg ?c ?x)" using False by (simp add: obmafs3_refcount_set_def)
    have k: "rec_key refcount_cfg ?x = lba" "u32at 8 ?x = n" using refcount.enc_key [of "(lba, n)"] refcount.enc_view [of "(lba, n)"] by simp_all
    from sh h(2,3) TrueI show ?thesis
    proof (cases rule: refcount.put_outcome [where r = "(lba, n)"])
      case full
      have "fst (tree_put refcount_cfg ?c (refcount_hdr c) (refcount_lba (sb c)) ?x) = OBMAFS3_ERR_NOSPC"
        using full(1) by (auto simp: slot_put_def refcount_slot_def split: prod.splits)
      then have "rmap refcount_cfg rs lba = None" using tree_put_existing [OF hs h(2), of ?x] k(1) by (cases "rmap refcount_cfg rs lba") auto
      then show ?thesis using that(1) full s False by (simp add: count_of_def)
    next
      case (stored c' lv' own' fl')
      obtain c1 where c1: "outside (slot_blocks refcount_slot ?c own fl) ?c c1" "c' = hset refcount_slot (hget refcount_slot c') c1"
        using stored(2) by (auto simp: touches_def)
      have "rc_leaf_valid (hset refcount_slot h1 c1) = rc_leaf_valid c1" for h1 by (simp add: refcount_slot_def)
      then have "rc_leaf_valid c' = rc_leaf_valid c1" by (subst c1(2))
      then have "\<not> rc_leaf_valid c'" using outside_fields(15) [OF c1(1)] by simp
      moreover have "shared_only (ins_rec (rec_key refcount_cfg) ?x rs)" using so False k set_ins_rec by (fastforce simp: shared_only_def)
      ultimately have "refcount_holds (b \<and> 1 < n) c' lv' own' fl' (ins_rec (rec_key refcount_cfg) ?x rs)"
        using stored(3) False by (simp add: refcount_holds_def cache_ok_def linorder_not_le)
      moreover have "count_of (ins_rec (rec_key refcount_cfg) ?x rs) j = (if j = lba then max 1 n else count_of rs j)" for j
        using refcount.slot_rmap_put [OF sh, of ?x] k False by (simp add: count_of_def)
      ultimately show ?thesis using that(2) s stored(1,4) by simp
    qed
  qed
qed

section \<open>Properties\<close>

text \<open>The count a lookup reports.\<close>

definition refcount_of :: "ctx \<Rightarrow> u64 \<Rightarrow> (rc + u32) option" where
  "refcount_of c lba = map_option fst (obmafs3_refcount_get c lba)"

lemma refcount_of_holds: "refcount_holds b c lv own fl rs \<Longrightarrow> refcount_of c lba = Some (Inr (count_of rs lba))"
  by (rule refcount_get_spec [of b c lv own fl rs lba]) (simp_all add: refcount_of_def)

text \<open>
  C16: the leaf cache is invisible. A lookup always returns, reports the count the tree holds,
  whatever leaf is cached, and leaves the tree, the volume and all counts as they were; the
  cache it leaves behind is again a true copy of a leaf.
\<close>

theorem refcount_cache_transparent:
  assumes "refcount_holds b c lv own fl rs"
  shows "\<exists>c' c''. obmafs3_refcount_get c lba = Some (Inr (count_of rs lba), c') \<and>
    obmafs3_refcount_get (c\<lparr>rc_leaf_valid := False\<rparr>) lba = Some (Inr (count_of rs lba), c'') \<and>
    same_but_cache c c' \<and> refcount_holds b c' lv own fl rs \<and> (\<forall>j. refcount_of c' j = refcount_of c j)"
proof -
  have "refcount_holds b (c\<lparr>rc_leaf_valid := False\<rparr>) lv own fl rs"
    using assms same_but_cache_holds(1) [OF same_but_cache_simps(3) [of c False]] by (simp add: refcount_holds_def cache_ok_def)
  then obtain c'' where u: "obmafs3_refcount_get (c\<lparr>rc_leaf_valid := False\<rparr>) lba = Some (Inr (count_of rs lba), c'')"
    by (rule refcount_get_spec)
  from assms obtain c' where "obmafs3_refcount_get c lba = Some (Inr (count_of rs lba), c')" "refcount_holds b c' lv own fl rs" "same_but_cache c c'"
    by (rule refcount_get_spec)
  then show ?thesis using u refcount_of_holds assms by metis
qed

definition refcount_ctx :: "btree_header \<Rightarrow> ctx" where
  "refcount_ctx h = reserve_ctx\<lparr>refcount_hdr := h, sb := (sb reserve_ctx)\<lparr>refcount_lba := 1\<rparr>\<rparr>"

lemma refcount_ctx_facts: "reserve_volume (refcount_ctx h)" "fits_reserve refcount_cfg" "refcount_hdr (refcount_ctx h) = h"
  "refcount_lba (sb (refcount_ctx h)) = 1" "\<not> rc_leaf_valid (refcount_ctx h)"
  by (simp_all add: reserve_volume_def refcount_ctx_def same_volume_def reserve_ctx_def blank_ctx_def fits_reserve_def refcount_cfg_def
      u64_cfg_def refcount_record_size_def nh_size_def)

lemma refcount_ctx_holds: "refcount_holds b (refcount_ctx reserve_hdr) 0 {} [2, 3] []"
  using reserve_world(1) [OF refcount_ctx_facts(1,2)]
  by (simp add: refcount_holds_def shared_only_def cache_ok_def slot_holds_def holds_def refcount_slot_def refcount_ctx_facts)
    (simp add: reserve_hdr_def zero_hdr_def)

text \<open>A tree of one leaf: block 9 is owned \<open>n\<close> times.\<close>

definition refcount_one :: "u32 \<Rightarrow> ctx" where
  "refcount_one n = wrote (refcount_ctx (zero_hdr\<lparr>root_node_lba := 2, total_nodes := 1\<rparr>)) 2
     (fresh_image refcount_cfg (refcount_ctx (zero_hdr\<lparr>root_node_lba := 2, total_nodes := 1\<rparr>)) 0 1 (rec_sz refcount_cfg) 0 0 (refcount_enc (9, n)))"

lemma refcount_one_holds: "1 < n \<Longrightarrow> refcount_holds True (refcount_one n) 0 {2} [] [refcount_enc (9, n)]"
proof -
  assume n: "1 < n"
  let ?h = "zero_hdr\<lparr>root_node_lba := 2, total_nodes := 1\<rparr>"
  have w: "world refcount_cfg (refcount_ctx ?h) ?h 1 {2} []" using reserve_world(2) [OF refcount_ctx_facts(1,2), of 1 "{2}" ?h 1 2] by simp
  have d: "slot_dholds refcount_slot refcount_cfg (\<lambda>_. True) True (refcount_one n) 0 {2} [] [refcount_enc (9, n)]"
    using one_leaf [OF w _ refcount.enc_size [of "(9, n)"], of "\<lambda>_. True" True]
    by (simp add: slot_dholds_def refcount_slot_def refcount_one_def wrote_def refcount_ctx_facts)
  have "\<not> rc_leaf_valid (refcount_one n)" by (simp add: refcount_one_def wrote_def refcount_ctx_facts)
  then show ?thesis using refcount.holds_of_dholds [OF d] n refcount.enc_view [of "(9, n)"] by (simp add: refcount_holds_def cache_ok_def shared_only_def)
qed

lemma refcount_one_count: "count_of [refcount_enc (9, n)] j = (if j = 9 then n else 1)"
  using refcount.enc_key [of "(9, n)"] refcount.enc_view [of "(9, n)"] by (simp add: count_of_def rmap_def)

theorem refcount_cache_transparent_witness:
  "\<exists>c'. obmafs3_refcount_get (refcount_one 3) 9 = Some (Inr 3, c') \<and> refcount_of c' 9 = refcount_of (refcount_one 3) 9"
proof -
  have "refcount_holds True (refcount_one 3) 0 {2} [] [refcount_enc (9, 3)]" by (rule refcount_one_holds) simp
  from refcount_cache_transparent [OF this, of 9] show ?thesis by (auto simp: refcount_one_count)
qed

text \<open>
  C17: setting a count either succeeds, and then lookups report it for the block (0 counts as
  1) and the old counts for all other blocks, or reports a full volume, which happens only for
  a block without a record and a reserve of nodes shorter than a split needs.
\<close>

theorem refcount_set_get:
  assumes "refcount_holds b c lv own fl rs" "lv \<le> 8" "b \<or> lv \<le> 1"
  shows "(\<exists>c'. obmafs3_refcount_set c lba n = Some (OBMAFS3_OK, c') \<and>
      (\<forall>j. refcount_of c' j = (if j = lba then Some (Inr (max 1 n)) else refcount_of c j))) \<or>
    (\<exists>c'. obmafs3_refcount_set c lba n = Some (OBMAFS3_ERR_NOSPC, c') \<and> refcount_of c lba = Some (Inr 1) \<and> length fl < lv + 2)"
  using assms
proof (cases rule: refcount_set_spec [where lba = lba and n = n])
  case (full c')
  then show ?thesis using refcount_of_holds [OF assms(1)] by simp
next
  case (changed c' lv' own' fl' rs')
  then show ?thesis using refcount_of_holds [OF assms(1)] refcount_of_holds [OF changed(2)] by simp
qed

theorem refcount_set_get_witness:
  "\<exists>c'. obmafs3_refcount_set (refcount_one 3) 9 7 = Some (OBMAFS3_OK, c') \<and> refcount_of c' 9 = Some (Inr 7) \<and> refcount_of c' 5 = Some (Inr 1)"
proof -
  have h: "refcount_holds True (refcount_one 3) 0 {2} [] [refcount_enc (9, 3)]" by (rule refcount_one_holds) simp
  have "refcount_of (refcount_one 3) 9 = Some (Inr 3)" "refcount_of (refcount_one 3) 5 = Some (Inr 1)"
    using refcount_of_holds [OF h] by (simp_all add: refcount_one_count)
  then show ?thesis using refcount_set_get [OF h, of 9 7] by auto
qed

text \<open>
  C18: incrementing the count of a block whose count is not the largest 32-bit number and then
  decrementing it restores every count, and the decrement reports the old count. Only the
  increment can fail, for want of room, and only on a block that was not shared.
\<close>

theorem refcount_inc_dec:
  assumes h: "refcount_holds True c lv own fl rs" "lv \<le> 7" and n: "refcount_of c lba = Some (Inr n)" "n \<noteq> -1"
  shows "(\<exists>c1 c2. obmafs3_refcount_inc c lba = Some (OBMAFS3_OK, c1) \<and> refcount_of c1 lba = Some (Inr (n + 1)) \<and>
      obmafs3_refcount_dec c1 lba = Some (OBMAFS3_OK, Some n, c2) \<and> (\<forall>j. refcount_of c2 j = refcount_of c j)) \<or>
    (\<exists>c1. obmafs3_refcount_inc c lba = Some (OBMAFS3_ERR_NOSPC, c1) \<and> n = 1 \<and> length fl < lv + 2)"
proof -
  have cn: "count_of rs lba = n" using n(1) refcount_of_holds [OF h(1)] by simp
  have n1: "1 \<le> n"
    using h(1) cn count_of_pos [of rs lba] holds_sorted(1) unfolding refcount_holds_def slot_holds_def by blast
  have "n + 1 \<noteq> 0" using n(2) by (simp add: eq_neg_iff_add_eq_0)
  then have "unat (n + 1) = Suc (unat n)" using unatSuc [of n] by (simp add: add.commute)
  then have gt: "1 < n + 1" using n1 by (simp add: word_less_nat_alt word_le_nat_alt)
  obtain c0 where g: "obmafs3_refcount_get c lba = Some (Inr n, c0)" "refcount_holds True c0 lv own fl rs"
    using refcount_get_spec [OF h(1), of lba] cn by metis
  have i: "obmafs3_refcount_inc c lba = obmafs3_refcount_set c0 lba (n + 1)" using g(1) by (simp add: obmafs3_refcount_inc_def)
  have l8: "lv \<le> 8" using h(2) by simp
  from g(2) l8 disjI1 [OF TrueI] show ?thesis
  proof (cases rule: refcount_set_spec [where lba = lba and n = "n + 1"])
    case (full c')
    then show ?thesis using i cn by simp
  next
    case (changed c1 lv1 own1 fl1 rs1)
    have c1: "count_of rs1 lba = n + 1" using changed(4) gt by simp
    have h1: "refcount_holds True c1 lv1 own1 fl1 rs1" using changed(2) gt by simp
    then obtain c2 where g2: "obmafs3_refcount_get c1 lba = Some (Inr (n + 1), c2)" "refcount_holds True c2 lv1 own1 fl1 rs1"
      using refcount_get_spec [of True c1 lv1 own1 fl1 rs1 lba] c1 by metis
    have d: "obmafs3_refcount_dec c1 lba = (case obmafs3_refcount_set c2 lba n of None \<Rightarrow> None
        | Some (r, c3) \<Rightarrow> Some (r, if r = OBMAFS3_OK then Some n else None, c3))"
      using g2(1) gt by (simp add: obmafs3_refcount_dec_def linorder_not_le [symmetric] split: option.split)
    have l1: "lv1 \<le> 8" using changed(3) h(2) by simp
    from g2(2) l1 disjI1 [OF TrueI] show ?thesis
    proof (cases rule: refcount_set_spec [where lba = lba and n = n])
      case (full c3)
      then show ?thesis using c1 gt by simp
    next
      case ch: (changed c3 lv3 own3 fl3 rs3)
      have "count_of rs3 j = count_of rs j" for j using ch(4) changed(4) n1 cn by (simp add: max_def)
      then have "refcount_of c3 j = refcount_of c j" for j using refcount_of_holds [OF ch(2)] refcount_of_holds [OF h(1)] by simp
      then show ?thesis using i changed(1) d ch(1) refcount_of_holds [OF h1] c1 by simp
    qed
  qed
qed

theorem refcount_inc_dec_witness:
  "\<exists>c1 c2. obmafs3_refcount_inc (refcount_ctx reserve_hdr) 9 = Some (OBMAFS3_OK, c1) \<and> refcount_of c1 9 = Some (Inr 2) \<and>
     obmafs3_refcount_dec c1 9 = Some (OBMAFS3_OK, Some 1, c2) \<and> refcount_of c2 9 = Some (Inr 1)"
proof -
  have z: "refcount_of (refcount_ctx reserve_hdr) 9 = Some (Inr 1)"
    using refcount_of_holds [OF refcount_ctx_holds] by (simp add: count_of_def rmap_def)
  then show ?thesis using refcount_inc_dec [OF refcount_ctx_holds _ z] by auto
qed

text \<open>
  C19: incrementing a count that has reached the largest 32-bit number does not fail: the sum
  wraps to 0, which removes the record, and the block counts as owned once.
\<close>

theorem refcount_inc_wraps:
  assumes h: "refcount_holds b c lv own fl rs" "lv \<le> 8" "b \<or> lv \<le> 1" and n: "refcount_of c lba = Some (Inr (-1))"
  shows "\<exists>c'. obmafs3_refcount_inc c lba = Some (OBMAFS3_OK, c') \<and> refcount_of c' lba = Some (Inr 1)"
proof -
  have cn: "count_of rs lba = -1" using n refcount_of_holds [OF h(1)] by simp
  obtain c0 where g: "obmafs3_refcount_get c lba = Some (Inr (-1), c0)" "refcount_holds b c0 lv own fl rs"
    using refcount_get_spec [OF h(1), of lba] cn by metis
  have i: "obmafs3_refcount_inc c lba = obmafs3_refcount_set c0 lba 0" using g(1) by (simp add: obmafs3_refcount_inc_def)
  from g(2) h(2,3) show ?thesis
  proof (cases rule: refcount_set_spec [where lba = lba and n = 0])
    case (changed c1 lv1 own1 fl1 rs1)
    then show ?thesis using i refcount_of_holds [OF changed(2), of lba] by simp
  qed simp
qed

theorem refcount_inc_wraps_witness:
  "refcount_of (refcount_one (-1)) 9 = Some (Inr 0xFFFFFFFF) \<and>
   (\<exists>c'. obmafs3_refcount_inc (refcount_one (-1)) 9 = Some (OBMAFS3_OK, c') \<and> refcount_of c' 9 = Some (Inr 1))"
proof -
  have h: "refcount_holds True (refcount_one (-1)) 0 {2} [] [refcount_enc (9, -1)]" by (rule refcount_one_holds) code_simp
  have "refcount_of (refcount_one (-1)) 9 = Some (Inr (-1))" using refcount_of_holds [OF h] by (simp add: refcount_one_count)
  then show ?thesis using refcount_inc_wraps [OF h, of 9] by simp
qed

end
