(* ===== verification/LeafChain.thy ===== *)
theory LeafChain
  imports RecordStore
begin

text \<open>
  The leaves of a tree as a chain: the listing and search functions of the library reach a
  leaf through the index nodes and then follow the right links. The chain of a well-formed
  tree carries its records in order.
\<close>

section \<open>The chain of leaves\<close>

fun lnodes :: "tree \<Rightarrow> (u64 \<times> u64 \<times> bytes list) list" and lnodes_es :: "ents \<Rightarrow> (u64 \<times> u64 \<times> bytes list) list" where
  "lnodes (LeafN l r rs) = [(l, r, rs)]"
| "lnodes (IndexN l r es) = lnodes_es es"
| "lnodes_es [] = []"
| "lnodes_es ((e, t) # es) = lnodes t @ lnodes_es es"

lemma lnodes_es_append [simp]: "lnodes_es (xs @ ys) = lnodes_es xs @ lnodes_es ys"
  by (induction xs) auto

abbreviation node_recs :: "(u64 \<times> u64 \<times> bytes list) list \<Rightarrow> bytes list" where
  "node_recs ns \<equiv> concat (map (\<lambda>(l, r, rs). rs) ns)"

lemma lnodes_links: "map (\<lambda>(l, r, rs). (l, r)) (lnodes t) = leaves t" "map (\<lambda>(l, r, rs). (l, r)) (lnodes_es es) = leaves_es es"
  by (induction t and es rule: lnodes_lnodes_es.induct) auto

lemma lnodes_recs: "node_recs (lnodes t) = recs t" "node_recs (lnodes_es es) = recs_es es"
  by (induction t and es rule: lnodes_lnodes_es.induct) auto

lemma lnodes_rep:
  "rep g bs B lv t \<Longrightarrow> (l, r, rs) \<in> set (lnodes t) \<Longrightarrow> node_is bs (B l) 0 r (rec_sz g) rs \<and> l \<in> set (lbas t)"
  "rep_es g bs B lv es \<Longrightarrow> (l, r, rs) \<in> set (lnodes_es es) \<Longrightarrow> node_is bs (B l) 0 r (rec_sz g) rs \<and> l \<in> set (lbas_es es)"
  by (induction t and es arbitrary: lv and lv rule: lnodes_lnodes_es.induct) auto

lemma lnodes_plug:
  "\<exists>xs ys. lnodes (plug fs t) = xs @ lnodes t @ ys \<and> node_recs xs = frecs_l fs \<and> node_recs ys = frecs_r fs"
proof (induction fs t rule: plug.induct)
  case (1 t)
  show ?case by (intro exI [of _ "[]"]) simp
next
  case (2 l r xs e ys fs t)
  then obtain us vs where "lnodes (plug fs (IndexN l r (xs @ (e, t) # ys))) = us @ lnodes (IndexN l r (xs @ (e, t) # ys)) @ vs"
    "node_recs us = frecs_l fs" "node_recs vs = frecs_r fs" by blast
  then show ?case using lnodes_recs(2) by (intro exI [of _ "us @ lnodes_es xs"] exI [of _ "lnodes_es ys @ vs"]) simp
qed

text \<open>The nodes \<open>ns\<close> are leaves in the volume, linked from left to right.\<close>

definition leaf_chain :: "'k tree_cfg \<Rightarrow> ctx \<Rightarrow> (u64 \<times> u64 \<times> bytes list) list \<Rightarrow> bool" where
  "leaf_chain g c ns \<longleftrightarrow> dev_ok c \<and> chained (map (\<lambda>(l, r, rs). (l, r)) ns) \<and> 0 \<notin> fst ` set ns \<and>
     (\<forall>(l, r, rs) \<in> set ns. in_vol c l \<and> node_is (bsz c) (blk c l) 0 r (rec_sz g) rs)"

lemma leaf_chain_tree:
  assumes "tree_ok g vk b c h hl lv t fl" "chained (leaves t)"
  shows "leaf_chain g c (lnodes t)"
proof -
  have w: "world g c h hl (set (lbas t)) fl" and r: "rep g (bsz c) (blk c) lv t" using assms(1) by (simp_all add: tree_ok_def)
  have "in_vol c l \<and> l \<noteq> 0 \<and> node_is (bsz c) (blk c l) 0 r (rec_sz g) rs" if "(l, r, rs) \<in> set (lnodes t)" for l r rs
    using lnodes_rep(1) [OF r that] w by (auto simp: world_def)
  then show ?thesis using w assms(2) lnodes_links(1) [of t] by (force simp: leaf_chain_def world_def env_ok_def)
qed

lemma leaf_chain_suffix: "leaf_chain g c (xs @ n # ns) \<Longrightarrow> leaf_chain g c (n # ns)"
proof -
  assume h: "leaf_chain g c (xs @ n # ns)"
  obtain l r rs where n: "n = (l, r, rs)" by (cases n) auto
  have "chained (map (\<lambda>(l, r, rs). (l, r)) (n # ns))"
    using h chained_append [of "map (\<lambda>(l, r, rs). (l, r)) xs" l r "map (\<lambda>(l, r, rs). (l, r)) ns"] by (simp add: leaf_chain_def n)
  then show ?thesis using h by (auto simp: leaf_chain_def)
qed

lemma leaf_chain_first:
  assumes "leaf_chain g c ((l, r, rs) # ns)"
  shows "right_link (nh_dec (blk c l)) = r" "slots (rec_sz g) (unat (node_keys (nh_dec (blk c l)))) (ndata (blk c l)) = rs"
    and "ns = [] \<Longrightarrow> r = 0" "ns = (l', r', rs') # ns' \<Longrightarrow> r = l' \<and> r \<noteq> 0 \<and> obmafs3_block_read c r (bsz c) = Inr (blk c l') \<and> leaf_chain g c ns"
proof -
  have nd: "node_is (bsz c) (blk c l) 0 r (rec_sz g) rs" and ch: "chained (map (\<lambda>(l, r, rs). (l, r)) ((l, r, rs) # ns))" and ok: "dev_ok c"
    using assms by (auto simp: leaf_chain_def)
  show "right_link (nh_dec (blk c l)) = r" "slots (rec_sz g) (unat (node_keys (nh_dec (blk c l)))) (ndata (blk c l)) = rs"
    using nd by (simp_all add: node_is_def)
  show "ns = [] \<Longrightarrow> r = 0" using ch by simp
  assume ns: "ns = (l', r', rs') # ns'"
  have "in_vol c l'" "l' \<noteq> 0" using assms by (auto simp: leaf_chain_def ns)
  then show "r = l' \<and> r \<noteq> 0 \<and> obmafs3_block_read c r (bsz c) = Inr (blk c l') \<and> leaf_chain g c ns"
    using ch block_read_blk [OF ok] leaf_chain_suffix [of g c "[(l, r, rs)]" "(l', r', rs')" ns'] assms by (simp add: ns)
qed

text \<open>
  A descent for a key ends in a leaf from which the chain carries all records but some smaller
  ones.
\<close>

lemma descend_leaf:
  assumes t: "tree_ok g vk b c h hl lv t fl"
  obtains xs l r ls ns where "tree_descend g c (root_node_lba h) k = Some (Inr (l, blk c l))" "lnodes t = xs @ (l, r, ls) # ns"
    "\<And>x. x \<in> set (node_recs xs) \<Longrightarrow> rec_key g x < k"
proof -
  have "dev_ok c" "\<And>l. l \<in> set (lbas t) \<Longrightarrow> in_vol c l" "rep g (bsz c) (blk c) lv t" "kinv g vk b (hole_lo g []) (hole_hi g []) t" "root_node_lba h = tlba t"
    using t by (auto simp: world_def env_ok_def tree_ok_def)
  from descent [OF this(1-4), of k lv "[]"] this(5)
  obtain fs l r ls where D: "t = plug fs (LeafN l r ls)" "tree_descend g c (root_node_lba h) k = Some (Inr (l, blk c l))" "ge_lo (hole_lo g fs) k" by auto
  obtain xs ns where ln: "lnodes t = xs @ (l, r, ls) # ns" "node_recs xs = frecs_l fs"
    using lnodes_plug [of fs "LeafN l r ls"] by (auto simp: D(1))
  have fin: "finv g vk b fs" using t by (simp add: D(1) tree_ok_def kinv_plug)
  have "rec_key g x < k" if x: "x \<in> set (frecs_l fs)" for x
  proof -
    obtain j where "hole_lo g fs = Some j" "rec_key g x < j" using finv_sides(1) [OF fin x] by blast
    then show ?thesis using D(3) by (simp add: less_le_trans)
  qed
  then show ?thesis using that [OF D(2) ln(1)] unfolding ln(2) by blast
qed

lemma descend_chain:
  assumes h: "holds g vk b c h hl lv own fl rs" and ne: "root_node_lba h \<noteq> 0"
  obtains l r ls ns left where "tree_descend g c (root_node_lba h) k = Some (Inr (l, blk c l))" "leaf_chain g c ((l, r, ls) # ns)"
    "rs = left @ node_recs ((l, r, ls) # ns)" "\<And>x. x \<in> set left \<Longrightarrow> rec_key g x < k"
proof -
  obtain t where t: "tree_ok g vk b c h hl lv t fl" "recs t = rs" "chained (leaves t)" using h ne by (auto simp: holds_def)
  obtain xs l r ls ns where D: "tree_descend g c (root_node_lba h) k = Some (Inr (l, blk c l))" "lnodes t = xs @ (l, r, ls) # ns"
    "\<And>x. x \<in> set (node_recs xs) \<Longrightarrow> rec_key g x < k" by (rule descend_leaf [OF t(1), of k]) blast
  have "rs = node_recs xs @ node_recs ((l, r, ls) # ns)" using lnodes_recs(1) [of t] t(2) by (simp add: D(2))
  then show ?thesis using that [OF D(1) leaf_chain_suffix [OF leaf_chain_tree [OF t(1,3), unfolded D(2)]]] D(3) by blast
qed

section \<open>Taking records out of a leaf\<close>

lemma plug_append: "plug (fs @ gs) t = plug gs (plug fs t)"
  by (induction fs t rule: plug.induct) auto

lemma lnodes_es_split:
  "lnodes_es es = xs @ n # ns \<Longrightarrow> \<exists>es1 e t es2 ys zs. es = es1 @ (e, t) # es2 \<and> lnodes t = ys @ n # zs \<and> xs = lnodes_es es1 @ ys \<and> ns = zs @ lnodes_es es2"
proof (induction es arbitrary: xs)
  case (Cons et es)
  obtain e t where et: "et = (e, t)" by fastforce
  from Cons.prems have "lnodes t @ lnodes_es es = xs @ n # ns" by (simp add: et)
  then consider us where "lnodes t = xs @ n # us" "ns = us @ lnodes_es es" | us where "xs = lnodes t @ us" "lnodes_es es = us @ n # ns"
    by (fastforce simp: append_eq_append_conv2 append_eq_Cons_conv)
  then show ?case
  proof cases
    case 1
    then show ?thesis by (intro exI [of _ "[]"] exI [of _ e] exI [of _ t] exI [of _ es] exI [of _ xs] exI [of _ us]) (simp add: et)
  next
    case 2
    then obtain es1 e' t' es2 ys zs where "es = es1 @ (e', t') # es2" "lnodes t' = ys @ n # zs" "us = lnodes_es es1 @ ys" "ns = zs @ lnodes_es es2"
      using Cons.IH by blast
    then show ?thesis using 2(1) by (intro exI [of _ "et # es1"]) (auto simp: et)
  qed
qed simp

text \<open>A leaf of the chain is the hole of some path.\<close>

lemma lnodes_plugged:
  "lnodes t = xs @ (l, r, rs) # ns \<Longrightarrow> \<exists>fs. t = plug fs (LeafN l r rs) \<and> (\<forall>rs'. lnodes (plug fs (LeafN l r rs')) = xs @ (l, r, rs') # ns)"
proof (induction t arbitrary: xs ns)
  case (LeafN a b cs)
  then have "xs = [] \<and> ns = [] \<and> (a, b, cs) = (l, r, rs)" by (cases xs) auto
  then show ?case by (intro exI [of _ "[]"]) simp
next
  case (IndexN a b es)
  then obtain es1 e t es2 ys zs where S: "es = es1 @ (e, t) # es2" "lnodes t = ys @ (l, r, rs) # zs" "xs = lnodes_es es1 @ ys" "ns = zs @ lnodes_es es2"
    using lnodes_es_split [of es xs "(l, r, rs)" ns] by auto
  have "(e, t) \<in> set es" "t \<in> Basic_BNFs.snds (e, t)" using S(1) by (auto simp: snds.simps)
  from IndexN.IH [OF this S(2)] obtain fs where "t = plug fs (LeafN l r rs)" "\<forall>rs'. lnodes (plug fs (LeafN l r rs')) = ys @ (l, r, rs') # zs"
    by blast
  then show ?case using S by (intro exI [of _ "fs @ [(a, b, es1, e, es2)]"]) (simp add: plug_append)
qed

lemma rep_leaf_depth: "rep g bs B lv (plug fs (LeafN l r rs)) \<Longrightarrow> lv = length fs"
proof (induction fs arbitrary: lv rule: rev_induct)
  case (snoc f fs)
  obtain a b xs e ys where "f = (a, b, xs, e, ys)" by (cases f) auto
  moreover have "rep_es g bs B k (us @ (e, t) # vs) \<Longrightarrow> rep g bs B k t" for k us e t vs by (simp add: rep_es_append)
  ultimately have "0 < lv \<and> rep g bs B (lv - 1) (plug fs (LeafN l r rs))" using snoc.prems by (simp add: plug_append)
  then show ?case using snoc.IH [of "lv - 1"] by auto
qed simp

context tree_layout
begin

lemma leaf_filtered:
  assumes ok: "tree_ok g vk b c h hl lv (plug fs (LeafN l r ls)) fl" and nb: "node_is (bsz c) buf 0 r (rec_sz g) (filter P ls)"
  shows "obmafs3_block_write c l buf = (OBMAFS3_OK, wrote c l buf)"
    and "tree_ok g vk False (wrote c l buf) h hl lv (plug fs (LeafN l r (filter P ls))) fl" and "outside {l} c (wrote c l buf)"
proof -
  have lv: "lv = length fs" using ok rep_leaf_depth by (auto simp: tree_ok_def)
  have "kinv g vk False (hole_lo g fs) (hole_hi g fs) (LeafN l r ls)" using tree_ok_loose [OF ok] by (simp add: tree_ok_def kinv_plug)
  then have kn: "kinv g vk False (hole_lo g fs) (hole_hi g fs) (LeafN l r (filter P ls))"
    by (auto simp: first_ok_def sorted_wrt_map sorted_wrt_filter split: option.splits)
  have "length ls \<le> unat (leaf_max g c)" using ok by (simp add: tree_ok_def caps_plug)
  then have cp: "length (filter P ls) \<le> unat (leaf_max g c)" using length_filter_le [of P ls] by linarith
  show "obmafs3_block_write c l buf = (OBMAFS3_OK, wrote c l buf)" "outside {l} c (wrote c l buf)"
    "tree_ok g vk False (wrote c l buf) h hl lv (plug fs (LeafN l r (filter P ls))) fl"
    using leaf_replaced [OF tree_ok_loose [OF ok] lv nb kn cp] by simp_all
qed

end

end
