(* ===== verification/Catalog.thy ===== *)
theory Catalog
  imports LeafChain "HOL-Library.List_Lexorder" "HOL-Library.Product_Lexorder"
begin

text \<open>
  The catalog, src/src/lib/catalog.c: the directory tree. A record names an inode inside its
  parent directory; the records are sorted by parent and name, so the entries of a directory
  are neighbours on the chain of leaves.
\<close>

section \<open>Strings in fixed arrays\<close>

text \<open>The string in a char array ends before the first NUL; strcmp compares unsigned bytes.\<close>

definition cstr :: "bytes \<Rightarrow> bytes" where
  "cstr a = takeWhile (\<lambda>b. b \<noteq> 0) a"

definition strncpy :: "nat \<Rightarrow> bytes \<Rightarrow> bytes" where
  "strncpy n s = take n s @ replicate (n - length s) 0"

lemma length_strncpy [simp]: "length (strncpy n s) = n"
  by (simp add: strncpy_def)

lemma cstr_no_nul: "0 \<notin> set (cstr a)"
  by (auto simp: cstr_def dest: set_takeWhileD)

lemma cstr_strncpy: "0 \<notin> set s \<Longrightarrow> length s < n \<Longrightarrow> cstr (strncpy n s @ r) = s"
proof -
  assume s: "0 \<notin> set s" "length s < n"
  then obtain m where "n - length s = Suc m" by (metis Suc_diff_Suc)
  then have "strncpy n s @ r = s @ 0 # (replicate m 0 @ r)" using s(2) by (simp add: strncpy_def)
  moreover have "takeWhile (\<lambda>b. b \<noteq> 0) (s @ 0 # r') = s" for r' using s(1) by (induction s) auto
  ultimately show ?thesis by (simp only: cstr_def)
qed

section \<open>The record\<close>

text \<open>struct catalog\_record (btree.h).\<close>

record catalog_record =
  cat_inode_id :: u64
  cat_parent_id :: u64
  directory_flag :: u8
  cat_name :: bytes

definition NAME_SIZE :: nat where "NAME_SIZE = 256"

definition catalog_enc :: "catalog_record \<Rightarrow> bytes" where
  "catalog_enc r = le_enc 8 (cat_inode_id r) @ le_enc 8 (cat_parent_id r) @ le_enc 1 (directory_flag r) @ cat_name r"

definition catalog_dec :: "bytes \<Rightarrow> catalog_record" where
  "catalog_dec b = \<lparr>cat_inode_id = u64at 0 b, cat_parent_id = u64at 8 b, directory_flag = u8at 16 b, cat_name = fld 17 NAME_SIZE b\<rparr>"

text \<open>A name of at most 254 bytes, terminated inside its array.\<close>

definition catalog_ok :: "catalog_record \<Rightarrow> bool" where
  "catalog_ok r \<longleftrightarrow> length (cat_name r) = NAME_SIZE \<and> length (cstr (cat_name r)) < 255"

section \<open>The tree\<close>

type_synonym catalog_key = "u64 \<times> bytes"

definition catalog_key :: "catalog_record \<Rightarrow> catalog_key" where
  "catalog_key r = (cat_parent_id r, cstr (cat_name r))"

definition key_ok :: "catalog_key \<Rightarrow> bool" where
  "key_ok k \<longleftrightarrow> 0 \<notin> set (snd k) \<and> length (snd k) < 255"

text \<open>struct catalog\_index\_entry; strncpy leaves the last byte of the array alone.\<close>

definition catalog_cfg :: "catalog_key tree_cfg" where
  "catalog_cfg = \<lparr>rec_sz = 273, ie_sz = 272, rec_key = (\<lambda>r. (u64at 8 r, cstr (fld 17 NAME_SIZE r))),
     ie_key = (\<lambda>e. (u64at 0 e, cstr (fld 8 NAME_SIZE e))), ie_child = (\<lambda>e. u64at 264 e),
     mk_ie = (\<lambda>k l. le_enc 8 (fst k) @ strncpy 255 (snd k) @ [0] @ le_enc 8 l),
     set_ie_key = (\<lambda>k e. put 0 (le_enc 8 (fst k) @ strncpy 255 (snd k)) e), cfg_type = 0\<rparr>"

definition catalog_slot :: hdr_slot where
  "catalog_slot = \<lparr>hget = catalog_hdr, hset = (\<lambda>h c. c\<lparr>catalog_hdr := h\<rparr>), hlba = catalog_lba\<rparr>"

section \<open>The operations\<close>

definition obmafs3_catalog_lookup :: "ctx \<Rightarrow> u64 \<Rightarrow> bytes \<Rightarrow> (rc + catalog_record) option" where
  "obmafs3_catalog_lookup c parent_id name =
     (case slot_lookup catalog_slot catalog_cfg c (parent_id, name) of
        None \<Rightarrow> None
      | Some (Inl e) \<Rightarrow> Some (Inl e)
      | Some (Inr (_, _, r)) \<Rightarrow> Some (Inr (catalog_dec r)))"

definition obmafs3_catalog_insert :: "ctx \<Rightarrow> catalog_record \<Rightarrow> rc \<times> ctx" where
  "obmafs3_catalog_insert c entry = slot_put catalog_slot catalog_cfg c (catalog_enc entry)"

definition obmafs3_catalog_delete :: "ctx \<Rightarrow> u64 \<Rightarrow> bytes \<Rightarrow> rc \<times> ctx" where
  "obmafs3_catalog_delete c parent_id name = snd (slot_remove catalog_slot catalog_cfg c (parent_id, name))"

text \<open>The records of a leaf buffer.\<close>

definition leaf_records :: "bytes \<Rightarrow> catalog_record list" where
  "leaf_records buf = map catalog_dec (slots 273 (unat (node_keys (nh_dec buf))) (ndata buf))"

text \<open>
  The inner loop of the listing: records of earlier parents are skipped, a record of a later
  parent ends the listing (True).
\<close>

fun collect :: "u64 \<Rightarrow> catalog_record list \<Rightarrow> catalog_record list \<times> bool" where
  "collect p [] = ([], False)"
| "collect p (r # rs) =
     (if cat_parent_id r < p then collect p rs
      else if p < cat_parent_id r then ([], True)
      else (case collect p rs of (xs, stop) \<Rightarrow> (r # xs, stop)))"

text \<open>The loop over the chain of leaves, which does not look at their magic numbers.\<close>

partial_function (option) list_leaves :: "ctx \<Rightarrow> u64 \<Rightarrow> bytes \<Rightarrow> catalog_record list \<Rightarrow> (rc + catalog_record list) option" where
  [code]: "list_leaves c p buf acc =
     (case collect p (leaf_records buf) of (xs, stop) \<Rightarrow>
        if stop \<or> right_link (nh_dec buf) = 0 then Some (Inr (acc @ xs))
        else case obmafs3_block_read c (right_link (nh_dec buf)) (bsz c) of
          Inl e \<Rightarrow> Some (Inl e)
        | Inr buf' \<Rightarrow> list_leaves c p buf' (acc @ xs))"

definition obmafs3_catalog_list :: "ctx \<Rightarrow> u64 \<Rightarrow> (rc + catalog_record list) option" where
  "obmafs3_catalog_list c p =
     (if root_node_lba (catalog_hdr c) = 0 then Some (Inr [])
      else if \<not> heap_ok c then Some (Inl OBMAFS3_ERR_NOMEM)
      else case tree_descend catalog_cfg c (root_node_lba (catalog_hdr c)) (p, []) of
        None \<Rightarrow> None
      | Some (Inl e) \<Rightarrow> Some (Inl e)
      | Some (Inr (_, buf)) \<Rightarrow> list_leaves c p buf [])"

text \<open>The search by inode number visits all leaves, from the leftmost.\<close>

partial_function (option) leftmost_leaf :: "ctx \<Rightarrow> u64 \<Rightarrow> (rc + bytes) option" where
  [code]: "leftmost_leaf c lba =
     (case obmafs3_block_read c lba (bsz c) of
        Inl e \<Rightarrow> Some (Inl e)
      | Inr buf \<Rightarrow>
          if nh_magic (nh_dec buf) \<noteq> OBMAFS3_BTREE_NODE_MAGIC then Some (Inl OBMAFS3_ERR_BADMAGIC)
          else if level (nh_dec buf) = 0 then Some (Inr buf)
          else leftmost_leaf c (ie_child catalog_cfg (slot (ie_sz catalog_cfg) 0 (ndata buf))))"

partial_function (option) find_leaves :: "ctx \<Rightarrow> u64 \<Rightarrow> bytes \<Rightarrow> (rc + catalog_record) option" where
  [code]: "find_leaves c ino buf =
     (case find (\<lambda>r. cat_inode_id r = ino) (leaf_records buf) of
        Some r \<Rightarrow> Some (Inr r)
      | None \<Rightarrow>
          if right_link (nh_dec buf) = 0 then Some (Inl OBMAFS3_ERR_NOTFOUND)
          else case obmafs3_block_read c (right_link (nh_dec buf)) (bsz c) of
            Inl e \<Rightarrow> Some (Inl e)
          | Inr buf' \<Rightarrow> find_leaves c ino buf')"

definition obmafs3_catalog_find_by_inode :: "ctx \<Rightarrow> u64 \<Rightarrow> (rc + catalog_record) option" where
  "obmafs3_catalog_find_by_inode c ino =
     (if root_node_lba (catalog_hdr c) = 0 then Some (Inl OBMAFS3_ERR_NOTFOUND)
      else if \<not> heap_ok c then Some (Inl OBMAFS3_ERR_NOMEM)
      else case leftmost_leaf c (root_node_lba (catalog_hdr c)) of
        None \<Rightarrow> None
      | Some (Inl e) \<Rightarrow> Some (Inl e)
      | Some (Inr buf) \<Rightarrow> find_leaves c ino buf)"

definition OBMAFS3_ROOT_INODE_ID :: u64 where "OBMAFS3_ROOT_INODE_ID = 2"

text \<open>The way up from an inode: the names from the inode to the root, at most \<open>n\<close> of them.\<close>

fun path_up :: "ctx \<Rightarrow> nat \<Rightarrow> u64 \<Rightarrow> (rc + bytes list) option" where
  "path_up c 0 cur = Some (Inr [])"
| "path_up c (Suc n) cur =
     (if cur = OBMAFS3_ROOT_INODE_ID then Some (Inr [])
      else case obmafs3_catalog_find_by_inode c cur of
        None \<Rightarrow> None
      | Some (Inl e) \<Rightarrow> Some (Inl e)
      | Some (Inr cat) \<Rightarrow>
          (case path_up c n (cat_parent_id cat) of
             None \<Rightarrow> None
           | Some (Inl e) \<Rightarrow> Some (Inl e)
           | Some (Inr ns) \<Rightarrow> Some (Inr (cstr (cat_name cat) # ns))))"

text \<open>The path from the top down; \<open>sz\<close> is the room in the caller's buffer. 47 is a slash.\<close>

fun build_path :: "nat \<Rightarrow> bytes list \<Rightarrow> bytes \<Rightarrow> rc + bytes" where
  "build_path sz [] p = Inr p"
| "build_path sz (n # ns) p =
     (if sz < length p + 1 + length n + 1 then Inl OBMAFS3_ERR_NOMEM
      else build_path sz ns (p @ 47 # n))"

text \<open>The result is the string written to the buffer, without its NUL.\<close>

definition obmafs3_resolve_inode_path :: "ctx \<Rightarrow> u64 \<Rightarrow> nat \<Rightarrow> (rc + bytes) option" where
  "obmafs3_resolve_inode_path c ino sz =
     (if sz = 0 then Some (Inl OBMAFS3_ERR_NOMEM)
      else if ino = OBMAFS3_ROOT_INODE_ID then Some (Inr [47])
      else if \<not> heap_ok c then Some (Inl OBMAFS3_ERR_NOMEM)
      else case path_up c 256 ino of
        None \<Rightarrow> None
      | Some (Inl e) \<Rightarrow> Some (Inl e)
      | Some (Inr ns) \<Rightarrow> Some (build_path sz (rev ns) []))"

section \<open>The contract\<close>

lemma catalog_dec_enc: "catalog_ok r \<Longrightarrow> catalog_dec (catalog_enc r) = r"
  by (simp add: catalog_ok_def catalog_enc_def catalog_dec_def codec_simps NAME_SIZE_def del: le_enc.simps One_nat_def)

lemma catalog_layout: "tree_layout catalog_cfg key_ok"
proof
  fix k :: catalog_key and l :: u64 and e :: bytes
  have sp: "fld 8 NAME_SIZE (le_enc 8 (fst k) @ strncpy 255 (snd k) @ [0] @ le_enc 8 l) = strncpy 255 (snd k) @ [0]"
    by (simp add: codec_simps NAME_SIZE_def) (simp add: fld_def)
  show "length (mk_ie catalog_cfg k l) = ie_sz catalog_cfg" by (simp add: catalog_cfg_def)
  show "ie_child catalog_cfg (mk_ie catalog_cfg k l) = l" by (simp add: catalog_cfg_def codec_simps) (simp add: fld_def)
  show "key_ok k \<Longrightarrow> ie_key catalog_cfg (mk_ie catalog_cfg k l) = k"
    using sp by (cases k) (simp add: catalog_cfg_def key_ok_def cstr_strncpy codec_simps)
  assume e: "length e = ie_sz catalog_cfg"
  have le: "length e = 272" using e by (simp add: catalog_cfg_def)
  let ?n = "le_enc 8 (fst k) @ strncpy 255 (snd k)"
  have ln: "length ?n = 263" by simp
  show "length (set_ie_key catalog_cfg k e) = ie_sz catalog_cfg" using le ln by (simp add: catalog_cfg_def)
  have "fld 264 8 (put 0 ?n e) = fld 264 8 e" using le ln by (intro fld_put_other) simp_all
  then show "ie_child catalog_cfg (set_ie_key catalog_cfg k e) = ie_child catalog_cfg e" by (simp add: catalog_cfg_def)
  have "put 0 ?n e = ?n @ drop 263 e" using ln by (simp add: put_def)
  then have "fld 8 NAME_SIZE (put 0 ?n e) = strncpy 255 (snd k) @ take 1 (drop 263 e)" "fld 0 8 (put 0 ?n e) = le_enc 8 (fst k)"
    by (simp_all add: codec_simps NAME_SIZE_def fld_def)
  then show "key_ok k \<Longrightarrow> ie_key catalog_cfg (set_ie_key catalog_cfg k e) = k"
    by (cases k) (simp add: catalog_cfg_def key_ok_def cstr_strncpy)
qed

interpretation catalog: record_store catalog_cfg key_ok catalog_slot catalog_enc catalog_dec catalog_key id catalog_ok
proof -
  have T: "tree_store catalog_cfg key_ok catalog_slot"
    by (rule tree_store.intro [OF catalog_layout]) (unfold_locales, simp_all add: catalog_slot_def same_volume_def)
  have c: "length (catalog_enc r) = 273" "rec_key catalog_cfg (catalog_enc r) = catalog_key r" "key_ok (catalog_key r)" if "catalog_ok r" for r
    using that cstr_no_nul
    by (auto simp: catalog_ok_def catalog_cfg_def catalog_key_def key_ok_def catalog_enc_def codec_simps NAME_SIZE_def simp del: le_enc.simps One_nat_def)
  show "record_store catalog_cfg key_ok catalog_slot catalog_enc catalog_dec catalog_key id catalog_ok"
    by (rule record_store.intro [OF T], unfold_locales)
      (use c catalog_dec_enc in \<open>auto simp: catalog_slot_def\<close>, simp add: catalog_cfg_def)
qed

lemma catalog_lookup_eq: "obmafs3_catalog_lookup c p n = slot_get catalog_slot catalog_cfg catalog_dec c (p, n)"
  by (auto simp: obmafs3_catalog_lookup_def slot_get_def split: option.splits sum.splits)

definition catalog_holds :: "bool \<Rightarrow> ctx \<Rightarrow> nat \<Rightarrow> u64 set \<Rightarrow> u64 list \<Rightarrow> bytes list \<Rightarrow> bool" where
  "catalog_holds = slot_holds catalog_slot catalog_cfg key_ok"

definition catalog_dholds :: "bool \<Rightarrow> ctx \<Rightarrow> nat \<Rightarrow> u64 set \<Rightarrow> u64 list \<Rightarrow> bytes list \<Rightarrow> bool" where
  "catalog_dholds = slot_dholds catalog_slot catalog_cfg key_ok"

section \<open>Listing\<close>

lemma collect_append:
  "collect p (xs @ ys) = (case collect p xs of (as, True) \<Rightarrow> (as, True) | (as, False) \<Rightarrow> (case collect p ys of (bs, s) \<Rightarrow> (as @ bs, s)))"
  by (induction xs) (auto split: prod.splits bool.splits)

lemma collect_filter: "sorted (map cat_parent_id rs) \<Longrightarrow> fst (collect p rs) = filter (\<lambda>r. cat_parent_id r = p) rs"
proof (induction rs)
  case (Cons r rs)
  show ?case
  proof (cases "p < cat_parent_id r")
    case True
    then have "filter (\<lambda>r. cat_parent_id r = p) (r # rs) = []" using Cons.prems by (auto simp: filter_empty_conv)
    moreover have "\<not> cat_parent_id r < p" using True by order
    ultimately show ?thesis using True by simp
  next
    case False
    then show ?thesis using Cons by (auto split: prod.splits)
  qed
qed simp

lemma list_leaves_chain:
  assumes "leaf_chain catalog_cfg c ((l, r, rs) # ns)"
  shows "list_leaves c p (blk c l) acc = Some (Inr (acc @ fst (collect p (map catalog_dec (node_recs ((l, r, rs) # ns))))))"
  using assms
proof (induction ns arbitrary: l r rs acc)
  case Nil
  note F = leaf_chain_first [OF Nil]
  have "leaf_records (blk c l) = map catalog_dec rs" using F(2) by (simp add: leaf_records_def catalog_cfg_def)
  then show ?case using F(1,3) by (subst list_leaves.simps) (simp split: prod.split)
next
  case (Cons n ns)
  obtain l' r' rs' where n: "n = (l', r', rs')" by (cases n) auto
  note F = leaf_chain_first [OF Cons.prems]
  have lr: "leaf_records (blk c l) = map catalog_dec rs" using F(2) by (simp add: leaf_records_def catalog_cfg_def)
  have nx: "r \<noteq> 0" "obmafs3_block_read c r (bsz c) = Inr (blk c l')" "leaf_chain catalog_cfg c ((l', r', rs') # ns)"
    using F(4) [of l' r' rs' ns] unfolding n by blast+
  obtain as s where co: "collect p (map catalog_dec rs) = (as, s)" by fastforce
  show ?case
  proof (cases s)
    case True
    then show ?thesis using F(1) lr co collect_append [of p "map catalog_dec rs"] by (subst list_leaves.simps) simp
  next
    case False
    then have "list_leaves c p (blk c l) acc = list_leaves c p (blk c l') (acc @ as)"
      using F(1) lr co nx by (subst list_leaves.simps) simp
    then show ?thesis
      using Cons.IH [OF nx(3), of "acc @ as"] False co collect_append [of p "map catalog_dec rs"] by (simp add: n case_prod_beta)
  qed
qed

lemma catalog_dec_fields: "cat_parent_id (catalog_dec x) = fst (rec_key catalog_cfg x)" "cstr (cat_name (catalog_dec x)) = snd (rec_key catalog_cfg x)"
  by (simp_all add: catalog_dec_def catalog_cfg_def)

lemma nil_least: "(k :: catalog_key) < (p, []) \<longleftrightarrow> fst k < p"
  by (cases k) auto

lemma catalog_tree:
  assumes "catalog_holds b c lv own fl rs" "root_node_lba (catalog_hdr c) \<noteq> 0"
  obtains t where "tree_ok catalog_cfg key_ok b c (catalog_hdr c) (catalog_lba (sb c)) lv t fl" "recs t = rs" "leaf_chain catalog_cfg c (lnodes t)"
    "dev_ok c" "heap_ok c" "\<And>k. k \<in> set (lbas t) \<Longrightarrow> in_vol c k" "rep catalog_cfg (bsz c) (blk c) lv t"
    "kinv catalog_cfg key_ok b (hole_lo catalog_cfg []) (hole_hi catalog_cfg []) t" "root_node_lba (catalog_hdr c) = tlba t"
proof -
  obtain t where t: "tree_ok catalog_cfg key_ok b c (catalog_hdr c) (catalog_lba (sb c)) lv t fl" "recs t = rs" "chained (leaves t)"
    using assms by (auto simp: catalog_holds_def slot_holds_def holds_def catalog_slot_def)
  show ?thesis
    by (rule that [OF t(1,2) leaf_chain_tree [OF t(1,3)]]) (use t(1) in \<open>auto simp: world_def env_ok_def tree_ok_def\<close>)
qed

lemma catalog_empty:
  assumes "catalog_holds b c lv own fl rs" "root_node_lba (catalog_hdr c) = 0"
  shows "rs = []"
  using assms tree_ok_root [of catalog_cfg] unfolding catalog_holds_def slot_holds_def holds_def catalog_slot_def by (simp, blast)

lemma catalog_sorted: "catalog_holds b c lv own fl rs \<Longrightarrow> sorted_wrt (<) (map (rec_key catalog_cfg) rs)"
  unfolding catalog_holds_def slot_holds_def using holds_sorted(1) by blast

lemma catalog_lookup_iff:
  assumes "catalog_holds b c lv own fl rs"
  shows "obmafs3_catalog_lookup c p n = Some (Inr r) \<longleftrightarrow> (\<exists>x \<in> set rs. r = catalog_dec x \<and> rec_key catalog_cfg x = (p, n))"
  using catalog.get_holds [OF assms [unfolded catalog_holds_def], of "(p, n)"] rmap_Some [OF catalog_sorted [OF assms], of "(p, n)"]
  by (auto simp: catalog_lookup_eq)

lemma catalog_list_records:
  assumes h: "catalog_holds b c lv own fl rs"
  shows "obmafs3_catalog_list c p = Some (Inr (filter (\<lambda>r. cat_parent_id r = p) (map catalog_dec rs)))"
proof (cases "root_node_lba (catalog_hdr c) = 0")
  case True
  then show ?thesis using catalog_empty [OF h] by (simp add: obmafs3_catalog_list_def)
next
  case False
  have hp: "heap_ok c" using catalog_tree [OF h False] by metis
  obtain l r ls ys left where D: "tree_descend catalog_cfg c (root_node_lba (catalog_hdr c)) (p, []) = Some (Inr (l, blk c l))"
    "leaf_chain catalog_cfg c ((l, r, ls) # ys)" "rs = left @ node_recs ((l, r, ls) # ys)" "\<And>x. x \<in> set left \<Longrightarrow> rec_key catalog_cfg x < (p, [])"
    using h False descend_chain [of catalog_cfg key_ok b c "catalog_hdr c" "catalog_lba (sb c)" lv own fl rs "(p, [])" thesis]
    by (auto simp: catalog_holds_def slot_holds_def catalog_slot_def)
  note rs = D(3)
  have left: "fst (rec_key catalog_cfg x) < p" if "x \<in> set left" for x using D(4) [OF that] by (simp only: nil_least)
  have "sorted_wrt (<) (map (rec_key catalog_cfg) (node_recs ((l, r, ls) # ys)))" using catalog_sorted [OF h] by (simp add: rs sorted_wrt_append)
  then have "sorted (map cat_parent_id (map catalog_dec (node_recs ((l, r, ls) # ys))))"
    unfolding sorted_map sorted_wrt_map by (rule sorted_wrt_mono_rel [rotated]) (auto simp: catalog_dec_fields less_prod_def)
  note F = collect_filter [OF this, of p]
  have "obmafs3_catalog_list c p = list_leaves c p (blk c l) []" using False hp D(1) by (simp add: obmafs3_catalog_list_def)
  also have "\<dots> = Some (Inr (filter (\<lambda>r. cat_parent_id r = p) (map catalog_dec (node_recs ((l, r, ls) # ys)))))"
    using list_leaves_chain [OF D(2), of p "[]"] F by simp
  also have "filter (\<lambda>r. cat_parent_id r = p) (map catalog_dec left) = []"
    using left by (fastforce simp: filter_empty_conv catalog_dec_fields)
  then have "filter (\<lambda>r. cat_parent_id r = p) (map catalog_dec (node_recs ((l, r, ls) # ys))) = filter (\<lambda>r. cat_parent_id r = p) (map catalog_dec rs)"
    unfolding rs by simp
  finally show ?thesis .
qed

section \<open>The search by inode\<close>

lemma leftmost_leaf_first:
  assumes "dev_ok c" "\<And>l. l \<in> set (lbas t) \<Longrightarrow> in_vol c l" "rep catalog_cfg (bsz c) (blk c) lv t" "kinv catalog_cfg key_ok b lo hi t"
  shows "\<exists>l r rs ns. lnodes t = (l, r, rs) # ns \<and> leftmost_leaf c (tlba t) = Some (Inr (blk c l))"
  using assms
proof (induction lv arbitrary: t lo hi)
  case 0
  then obtain l r rs where t: "t = LeafN l r rs" by (cases t) auto
  have rd: "obmafs3_block_read c l (bsz c) = Inr (blk c l)" using 0(1,2) by (intro block_read_blk) (simp_all add: t)
  have nd: "nh_magic (nh_dec (blk c l)) = OBMAFS3_BTREE_NODE_MAGIC" "level (nh_dec (blk c l)) = 0"
    using 0(3) by (simp_all add: t node_is_def unat_eq_0)
  then show ?case using rd by (simp add: t leftmost_leaf.simps)
next
  case (Suc lv)
  then obtain l r es where t: "t = IndexN l r es" by (cases t) auto
  then obtain e u es' where es: "es = (e, u) # es'" using Suc.prems(4) by (cases es) auto
  have rd: "obmafs3_block_read c l (bsz c) = Inr (blk c l)" using Suc.prems(1,2) by (intro block_read_blk) (simp_all add: t)
  have nd: "node_is (bsz c) (blk c l) (Suc lv) r (ie_sz catalog_cfg) (map fst es)" using Suc.prems(3) by (simp add: t)
  have m: "nh_magic (nh_dec (blk c l)) = OBMAFS3_BTREE_NODE_MAGIC" "level (nh_dec (blk c l)) \<noteq> 0"
    using nd by (auto simp: node_is_def)
  have "slot (ie_sz catalog_cfg) 0 (ndata (blk c l)) = e" using node_is_slot [OF nd, of 0] by (simp add: es)
  moreover have "ie_child catalog_cfg e = tlba u" "rep catalog_cfg (bsz c) (blk c) lv u" "\<And>k. k \<in> set (lbas u) \<Longrightarrow> in_vol c k"
    using Suc.prems(2,3) by (auto simp: t es)
  moreover have "kinv catalog_cfg key_ok b lo (next_key catalog_cfg hi es') u" using Suc.prems(4) by (simp add: t es)
  moreover have "leftmost_leaf c l = leftmost_leaf c (ie_child catalog_cfg (slot (ie_sz catalog_cfg) 0 (ndata (blk c l))))"
    using rd m by (subst leftmost_leaf.simps) simp
  ultimately show ?case using Suc.IH [OF Suc.prems(1), of u lo "next_key catalog_cfg hi es'"] by (auto simp: t es)
qed

lemma find_leaves_chain:
  assumes "leaf_chain catalog_cfg c ((l, r, rs) # ns)"
  shows "find_leaves c ino (blk c l) = answer (find (\<lambda>x. cat_inode_id x = ino) (map catalog_dec (node_recs ((l, r, rs) # ns))))"
  using assms
proof (induction ns arbitrary: l r rs)
  case Nil
  note F = leaf_chain_first [OF Nil]
  have "leaf_records (blk c l) = map catalog_dec rs" using F(2) by (simp add: leaf_records_def catalog_cfg_def)
  then show ?case using F(1,3) by (subst find_leaves.simps) (simp split: option.split)
next
  case (Cons n ns)
  obtain l' r' rs' where n: "n = (l', r', rs')" by (cases n) auto
  note F = leaf_chain_first [OF Cons.prems]
  have lr: "leaf_records (blk c l) = map catalog_dec rs" using F(2) by (simp add: leaf_records_def catalog_cfg_def)
  have nx: "r \<noteq> 0" "obmafs3_block_read c r (bsz c) = Inr (blk c l')" "leaf_chain catalog_cfg c ((l', r', rs') # ns)"
    using F(4) [of l' r' rs' ns] unfolding n by blast+
  have "find P (xs @ ys) = (case find P xs of None \<Rightarrow> find P ys | Some x \<Rightarrow> Some x)" for P :: "catalog_record \<Rightarrow> bool" and xs ys
    by (induction xs) auto
  then show ?case
    using F(1) lr nx Cons.IH [OF nx(3)] by (subst find_leaves.simps) (simp add: n split: option.split)
qed

lemma catalog_find_records:
  assumes h: "catalog_holds b c lv own fl rs"
  shows "obmafs3_catalog_find_by_inode c ino = answer (find (\<lambda>x. cat_inode_id x = ino) (map catalog_dec rs))"
proof (cases "root_node_lba (catalog_hdr c) = 0")
  case True
  then show ?thesis using catalog_empty [OF h] by (simp add: obmafs3_catalog_find_by_inode_def)
next
  case False
  obtain t where t: "recs t = rs" "leaf_chain catalog_cfg c (lnodes t)" "heap_ok c" "dev_ok c"
    "\<And>k. k \<in> set (lbas t) \<Longrightarrow> in_vol c k" "rep catalog_cfg (bsz c) (blk c) lv t"
    "kinv catalog_cfg key_ok b (hole_lo catalog_cfg []) (hole_hi catalog_cfg []) t" "root_node_lba (catalog_hdr c) = tlba t"
    using catalog_tree [OF h False] by metis
  obtain l r ls ns where L: "lnodes t = (l, r, ls) # ns" "leftmost_leaf c (tlba t) = Some (Inr (blk c l))"
    using leftmost_leaf_first [OF t(4,5,6,7)] by blast
  have "node_recs ((l, r, ls) # ns) = rs" using lnodes_recs(1) [of t] t(1) L(1) by simp
  then show ?thesis
    using False t(3,8) L find_leaves_chain [OF t(2) [unfolded L(1)], of ino] by (simp add: obmafs3_catalog_find_by_inode_def)
qed

section \<open>Paths\<close>

text \<open>Following names down from a directory.\<close>

fun walk :: "ctx \<Rightarrow> u64 \<Rightarrow> bytes list \<Rightarrow> u64 option" where
  "walk c d [] = Some d"
| "walk c d (n # ns) =
     (case obmafs3_catalog_lookup c d n of
        Some (Inr r) \<Rightarrow> walk c (cat_inode_id r) ns
      | _ \<Rightarrow> None)"

lemma walk_append: "walk c d (xs @ ys) = (case walk c d xs of None \<Rightarrow> None | Some e \<Rightarrow> walk c e ys)"
  by (induction xs arbitrary: d) (auto split: option.splits sum.splits)

lemma find_found: "find P xs = Some x \<Longrightarrow> x \<in> set xs \<and> P x"
  by (induction xs) (auto split: if_splits)

lemma find_none: "find P xs = None \<Longrightarrow> x \<in> set xs \<Longrightarrow> \<not> P x"
  by (induction xs) (auto split: if_splits)

lemma catalog_find_sound:
  assumes h: "catalog_holds b c lv own fl rs" and f: "obmafs3_catalog_find_by_inode c ino = Some (Inr r)"
  shows "cat_inode_id r = ino" "obmafs3_catalog_lookup c (cat_parent_id r) (cstr (cat_name r)) = Some (Inr r)"
proof -
  have "find (\<lambda>x. cat_inode_id x = ino) (map catalog_dec rs) = Some r" using f catalog_find_records [OF h] by simp
  from find_found [OF this] show "cat_inode_id r = ino" "obmafs3_catalog_lookup c (cat_parent_id r) (cstr (cat_name r)) = Some (Inr r)"
    using catalog_lookup_iff [OF h] by (auto simp: catalog_dec_fields)
qed

text \<open>The way up always ends: at the root, after \<open>n\<close> steps, or with a missing inode.\<close>

lemma path_up_total:
  assumes h: "catalog_holds b c lv own fl rs"
  shows "path_up c n ino = Some (Inl OBMAFS3_ERR_NOTFOUND) \<or>
    (\<exists>ns. path_up c n ino = Some (Inr ns) \<and> length ns \<le> n \<and> (length ns < n \<longrightarrow> walk c OBMAFS3_ROOT_INODE_ID (rev ns) = Some ino))"
proof (induction n arbitrary: ino)
  case (Suc n)
  show ?case
  proof (cases "ino = OBMAFS3_ROOT_INODE_ID")
    case False
    then consider (none) "obmafs3_catalog_find_by_inode c ino = Some (Inl OBMAFS3_ERR_NOTFOUND)"
      | (some) r where "obmafs3_catalog_find_by_inode c ino = Some (Inr r)"
      using catalog_find_records [OF h, of ino] by (cases "find (\<lambda>x. cat_inode_id x = ino) (map catalog_dec rs)") auto
    then show ?thesis
    proof cases
      case none
      then show ?thesis using False by simp
    next
      case (some r)
      then show ?thesis using False Suc [of "cat_parent_id r"] catalog_find_sound [OF h some] by (auto simp: walk_append)
    qed
  qed simp
qed simp

abbreviation slashed :: "bytes list \<Rightarrow> bytes" where "slashed ns \<equiv> concat (map (\<lambda>n. 47 # n) ns)"

lemma build_path_spec:
  "build_path sz ns p = (if ns = [] \<or> length p + length (slashed ns) + 1 \<le> sz then Inr (p @ slashed ns) else Inl OBMAFS3_ERR_NOMEM)"
  by (induction ns arbitrary: p) auto

section \<open>Properties\<close>

text \<open>
  C20: listing a directory returns exactly the records a lookup finds in it, each once, sorted
  by name, at whatever leaves of the tree they lie.
\<close>

theorem catalog_list_complete:
  assumes "catalog_holds b c lv own fl rs"
  shows "\<exists>es. obmafs3_catalog_list c p = Some (Inr es) \<and> sorted_wrt (<) (map (\<lambda>r. cstr (cat_name r)) es) \<and>
    (\<forall>r. r \<in> set es \<longleftrightarrow> obmafs3_catalog_lookup c p (cstr (cat_name r)) = Some (Inr r))"
proof -
  let ?es = "filter (\<lambda>r. cat_parent_id r = p) (map catalog_dec rs)"
  have "sorted_wrt (\<lambda>x y. rec_key catalog_cfg x < rec_key catalog_cfg y) (filter (\<lambda>x. fst (rec_key catalog_cfg x) = p) rs)"
    using catalog_sorted [OF assms] by (intro sorted_wrt_filter) (simp add: sorted_wrt_map)
  then have "sorted_wrt (\<lambda>x y. snd (rec_key catalog_cfg x) < snd (rec_key catalog_cfg y)) (filter (\<lambda>x. fst (rec_key catalog_cfg x) = p) rs)"
    by (rule sorted_wrt_mono_rel [rotated]) (auto simp: less_prod_def)
  then have "sorted_wrt (<) (map (\<lambda>r. cstr (cat_name r)) ?es)"
    by (simp add: filter_map sorted_wrt_map comp_def catalog_dec_fields)
  moreover have "r \<in> set ?es \<longleftrightarrow> obmafs3_catalog_lookup c p (cstr (cat_name r)) = Some (Inr r)" for r
  proof -
    have "r \<in> set ?es \<longleftrightarrow> (\<exists>x \<in> set rs. r = catalog_dec x \<and> fst (rec_key catalog_cfg x) = p)" by (auto simp: catalog_dec_fields)
    also have "\<dots> \<longleftrightarrow> (\<exists>x \<in> set rs. r = catalog_dec x \<and> rec_key catalog_cfg x = (p, cstr (cat_name r)))"
      by (intro bex_cong refl) (auto simp: catalog_dec_fields prod_eq_iff)
    finally show ?thesis by (simp only: catalog_lookup_iff [OF assms])
  qed
  ultimately show ?thesis using catalog_list_records [OF assms] by blast
qed

definition demo_entry :: catalog_record where
  "demo_entry = \<lparr>cat_inode_id = 7, cat_parent_id = 2, directory_flag = 0, cat_name = 97 # replicate 255 0\<rparr>"

lemma demo_entry_facts: "catalog_ok demo_entry" "catalog_key demo_entry = (2, [97])" "cat_inode_id demo_entry = 7" "cat_parent_id demo_entry = 2"
  "cstr (cat_name demo_entry) = [97]"
proof -
  have "cstr (97 # replicate 255 0) = [97]" using cstr_strncpy [of "[97]" 256 "[]"] by (simp add: strncpy_def)
  then show "catalog_ok demo_entry" "catalog_key demo_entry = (2, [97])" "cat_inode_id demo_entry = 7" "cat_parent_id demo_entry = 2"
    "cstr (cat_name demo_entry) = [97]"
    by (simp_all add: demo_entry_def catalog_ok_def catalog_key_def NAME_SIZE_def)
qed

definition catalog_ctx :: "btree_header \<Rightarrow> ctx" where
  "catalog_ctx h = reserve_ctx\<lparr>catalog_hdr := h, sb := (sb reserve_ctx)\<lparr>catalog_lba := 1\<rparr>\<rparr>"

lemma catalog_ctx_facts: "reserve_volume (catalog_ctx h)" "fits_reserve catalog_cfg" "catalog_hdr (catalog_ctx h) = h"
  "catalog_lba (sb (catalog_ctx h)) = 1" "heap_ok (catalog_ctx h)"
  by (simp_all add: reserve_volume_def catalog_ctx_def same_volume_def reserve_ctx_def blank_ctx_def fits_reserve_def catalog_cfg_def nh_size_def)

lemma catalog_ctx_holds: "catalog_holds b (catalog_ctx reserve_hdr) 0 {} [2, 3] []"
  using reserve_world(1) [OF catalog_ctx_facts(1,2)]
  by (simp add: catalog_holds_def slot_holds_def holds_def catalog_slot_def catalog_ctx_facts) (simp add: reserve_hdr_def zero_hdr_def)

text \<open>A catalog of one leaf with one entry in the root directory.\<close>

definition catalog_one :: ctx where
  "catalog_one = wrote (catalog_ctx (zero_hdr\<lparr>root_node_lba := 2, total_nodes := 1\<rparr>)) 2
     (fresh_image catalog_cfg (catalog_ctx (zero_hdr\<lparr>root_node_lba := 2, total_nodes := 1\<rparr>)) 0 1 (rec_sz catalog_cfg) 0 0 (catalog_enc demo_entry))"

lemma catalog_one_dholds: "catalog_dholds True catalog_one 0 {2} [] [catalog_enc demo_entry]"
proof -
  let ?h = "zero_hdr\<lparr>root_node_lba := 2, total_nodes := 1\<rparr>"
  have w: "world catalog_cfg (catalog_ctx ?h) ?h 1 {2} []" using reserve_world(2) [OF catalog_ctx_facts(1,2), of 1 "{2}" ?h 1 2] by simp
  have k: "key_ok (rec_key catalog_cfg (catalog_enc demo_entry))"
    using catalog.enc_key [OF demo_entry_facts(1)] catalog.enc_valid [OF demo_entry_facts(1)] by simp
  from one_leaf [where vk = key_ok and b = True, OF w _ catalog.enc_size [OF demo_entry_facts(1)] k] show ?thesis
    by (simp add: catalog_dholds_def slot_dholds_def catalog_slot_def catalog_one_def wrote_def catalog_ctx_facts)
qed

lemma catalog_one_holds: "catalog_holds True catalog_one 0 {2} [] [catalog_enc demo_entry]" "heap_ok catalog_one"
  using catalog.holds_of_dholds catalog_one_dholds unfolding catalog_dholds_def catalog_holds_def
  by (blast, simp add: catalog_one_def catalog_ctx_facts)

lemma catalog_one_lookup: "obmafs3_catalog_lookup catalog_one 2 [97] = Some (Inr demo_entry)"
  using catalog_lookup_iff [OF catalog_one_holds(1), of 2 "[97]" demo_entry] catalog.enc_key [OF demo_entry_facts(1)]
    catalog_dec_enc [OF demo_entry_facts(1)] demo_entry_facts(2) by simp

theorem catalog_list_complete_witness:
  "\<exists>es. obmafs3_catalog_list catalog_one 2 = Some (Inr es) \<and> demo_entry \<in> set es"
  using catalog_list_complete [OF catalog_one_holds(1), of 2] catalog_one_lookup demo_entry_facts(5) by auto

text \<open>
  C21: inserting a record either succeeds, and then a lookup of its parent and name returns it
  while every other name is as before, or reports a full volume, which happens only when the
  reserve of nodes is shorter than a split needs.
\<close>

theorem catalog_insert_lookup:
  assumes "catalog_holds b c lv own fl rs" "lv \<le> 8" "b \<or> lv \<le> 1" "catalog_ok r"
  shows "(\<exists>c'. obmafs3_catalog_insert c r = (OBMAFS3_OK, c') \<and>
      (\<forall>p n. obmafs3_catalog_lookup c' p n = (if p = cat_parent_id r \<and> n = cstr (cat_name r) then Some (Inr r) else obmafs3_catalog_lookup c p n))) \<or>
    (\<exists>c'. obmafs3_catalog_insert c r = (OBMAFS3_ERR_NOSPC, c') \<and> length fl < lv + 2)"
  using catalog.put_outcome [OF assms(1) [unfolded catalog_holds_def] assms(2-4)]
  by cases (auto simp: obmafs3_catalog_insert_def catalog_lookup_eq catalog_key_def)

theorem catalog_insert_lookup_witness:
  "\<exists>c'. obmafs3_catalog_insert (catalog_ctx reserve_hdr) demo_entry = (OBMAFS3_OK, c') \<and>
     obmafs3_catalog_lookup c' 2 [97] = Some (Inr demo_entry)"
  using catalog_insert_lookup [OF catalog_ctx_holds [of True] _ _ demo_entry_facts(1)] demo_entry_facts(4,5) by auto



text \<open>
  C23: the search by inode number always returns. What it finds is an entry of that inode
  which a lookup of its parent and name finds as well; it reports a missing entry only when
  no name in any directory leads to the inode.
\<close>

theorem catalog_find_by_inode_correct:
  assumes "catalog_holds b c lv own fl rs"
  shows "(\<exists>r. obmafs3_catalog_find_by_inode c ino = Some (Inr r) \<and> cat_inode_id r = ino \<and>
      obmafs3_catalog_lookup c (cat_parent_id r) (cstr (cat_name r)) = Some (Inr r)) \<or>
    (obmafs3_catalog_find_by_inode c ino = Some (Inl OBMAFS3_ERR_NOTFOUND) \<and>
      (\<forall>p n r. obmafs3_catalog_lookup c p n = Some (Inr r) \<longrightarrow> cat_inode_id r \<noteq> ino))"
proof (cases "find (\<lambda>x. cat_inode_id x = ino) (map catalog_dec rs)")
  case None
  then show ?thesis using catalog_find_records [OF assms, of ino] catalog_lookup_iff [OF assms] find_none [OF None] by fastforce
next
  case (Some r)
  then have "obmafs3_catalog_find_by_inode c ino = Some (Inr r)" using catalog_find_records [OF assms] by simp
  then show ?thesis using catalog_find_sound [OF assms] by blast
qed

theorem catalog_find_by_inode_correct_witness:
  "\<exists>r. obmafs3_catalog_find_by_inode catalog_one 7 = Some (Inr r) \<and> cat_inode_id r = 7"
proof -
  have "cat_inode_id demo_entry = 7" by (rule demo_entry_facts(3))
  then show ?thesis using catalog_find_by_inode_correct [OF catalog_one_holds(1), of 7] catalog_one_lookup by metis
qed


lemma catalog_one_resolve: "obmafs3_resolve_inode_path catalog_one 7 10 = Some (Inr [47, 97])"
proof -
  have "obmafs3_catalog_find_by_inode catalog_one 7 = Some (Inr demo_entry)"
    using catalog_find_records [OF catalog_one_holds(1), of 7] catalog_dec_enc [OF demo_entry_facts(1)] demo_entry_facts(3) by simp
  then have "path_up catalog_one (Suc (Suc n)) 7 = Some (Inr [[97]])" for n
    using demo_entry_facts(4,5) by (simp add: OBMAFS3_ROOT_INODE_ID_def)
  from this [of 254] have "path_up catalog_one 256 7 = Some (Inr [[97]])" by simp
  then show ?thesis using catalog_one_holds(2) by (simp add: obmafs3_resolve_inode_path_def OBMAFS3_ROOT_INODE_ID_def)
qed


end
