(* ===== verification/MediaTag.thy ===== *)
theory MediaTag
  imports Catalog
begin

text \<open>
  Media tags, src/src/lib/media\_tag.c: the tags of a disc image under its inode number and
  the tag type. Tags of at most 512 bytes lie in the record of the tree, longer ones in blocks
  of their own, which the record names.
\<close>

section \<open>The record\<close>

text \<open>struct media\_tag\_record (btree.h).\<close>

record media_tag_record =
  mt_inode_id :: u64
  tag_type :: u16
  data_length :: u32
  mt_flags :: u8
  data_lba :: u64
  data_blocks :: u64
  inline_data :: bytes

definition MEDIA_TAG_INLINE_MAX :: nat where "MEDIA_TAG_INLINE_MAX = 512"
definition MEDIA_TAG_FLAG_INLINE :: u8 where "MEDIA_TAG_FLAG_INLINE = 1"

definition media_tag_enc :: "media_tag_record \<Rightarrow> bytes" where
  "media_tag_enc r = le_enc 8 (mt_inode_id r) @ le_enc 2 (tag_type r) @ le_enc 4 (data_length r) @ le_enc 1 (mt_flags r) @
     le_enc 8 (data_lba r) @ le_enc 8 (data_blocks r) @ inline_data r"

definition media_tag_dec :: "bytes \<Rightarrow> media_tag_record" where
  "media_tag_dec b = \<lparr>mt_inode_id = u64at 0 b, tag_type = u16at 8 b, data_length = u32at 10 b, mt_flags = u8at 14 b,
     data_lba = u64at 15 b, data_blocks = u64at 23 b, inline_data = fld 31 MEDIA_TAG_INLINE_MAX b\<rparr>"

type_synonym media_tag_key = "u64 \<times> u16"

text \<open>struct media\_tag\_index\_entry; the keys compare as media\_tag\_key\_cmp does.\<close>

definition media_tag_cfg :: "media_tag_key tree_cfg" where
  "media_tag_cfg = \<lparr>rec_sz = 543, ie_sz = 18, rec_key = (\<lambda>r. (u64at 0 r, u16at 8 r)), ie_key = (\<lambda>e. (u64at 0 e, u16at 8 e)),
     ie_child = (\<lambda>e. u64at 10 e), mk_ie = (\<lambda>k l. le_enc 8 (fst k) @ le_enc 2 (snd k) @ le_enc 8 l),
     set_ie_key = (\<lambda>k e. put 0 (le_enc 8 (fst k) @ le_enc 2 (snd k)) e), cfg_type = 5\<rparr>"

definition media_tag_slot :: hdr_slot where
  "media_tag_slot = \<lparr>hget = media_tag_hdr, hset = (\<lambda>h c. c\<lparr>media_tag_hdr := h\<rparr>), hlba = media_tag_lba\<rparr>"

section \<open>External data\<close>

definition is_external :: "media_tag_record \<Rightarrow> bool" where
  "is_external r \<longleftrightarrow> mt_flags r AND MEDIA_TAG_FLAG_INLINE = 0"

definition media_tag_free_external :: "ctx \<Rightarrow> media_tag_record \<Rightarrow> ctx" where
  "media_tag_free_external c r =
     (if is_external r \<and> data_lba r \<noteq> 0 \<and> data_blocks r \<noteq> 0
      then snd (obmafs3_free_blocks c (data_lba r) (data_blocks r)) else c)"

text \<open>The loop that writes \<open>n\<close> blocks from \<open>lba\<close> on, each padded with zeros.\<close>

fun write_data :: "ctx \<Rightarrow> u64 \<Rightarrow> nat \<Rightarrow> bytes \<Rightarrow> rc \<times> ctx" where
  "write_data c lba 0 src = (OBMAFS3_OK, c)"
| "write_data c lba (Suc n) src =
     (case obmafs3_block_write c lba (put 0 (take (bsz c) src) (replicate (bsz c) 0)) of
        (OBMAFS3_OK, c1) \<Rightarrow> write_data c1 (lba + 1) n (drop (bsz c) src)
      | (e, c1) \<Rightarrow> (e, c1))"

definition media_tag_write_external :: "ctx \<Rightarrow> bytes \<Rightarrow> (rc + u64 \<times> u64) \<times> ctx" where
  "media_tag_write_external c data =
     (let blocks = (of_nat (length data) + block_size (sb c) - 1) div block_size (sb c) in
      case obmafs3_alloc_blocks c blocks of
        (Inl e, c1) \<Rightarrow> (Inl e, c1)
      | (Inr start_lba, c1) \<Rightarrow>
          if \<not> heap_ok c1 then (Inl OBMAFS3_ERR_NOMEM, snd (obmafs3_free_blocks c1 start_lba blocks))
          else (case write_data c1 start_lba (unat blocks) data of
                  (OBMAFS3_OK, c2) \<Rightarrow> (Inr (start_lba, blocks), c2)
                | (e, c2) \<Rightarrow> (Inl e, snd (obmafs3_free_blocks c2 start_lba blocks))))"

definition media_tag_build_record :: "ctx \<Rightarrow> u64 \<Rightarrow> u16 \<Rightarrow> bytes \<Rightarrow> (rc + media_tag_record) \<times> ctx" where
  "media_tag_build_record c ino ty data =
     (let r = \<lparr>mt_inode_id = ino, tag_type = ty, data_length = of_nat (length data), mt_flags = 0, data_lba = 0, data_blocks = 0,
               inline_data = replicate MEDIA_TAG_INLINE_MAX 0\<rparr>
      in if length data \<le> MEDIA_TAG_INLINE_MAX
         then (Inr (r\<lparr>mt_flags := MEDIA_TAG_FLAG_INLINE, inline_data := put 0 data (replicate MEDIA_TAG_INLINE_MAX 0)\<rparr>), c)
         else (case media_tag_write_external c data of
                 (Inl e, c1) \<Rightarrow> (Inl e, c1)
               | (Inr (l, n), c1) \<Rightarrow> (Inr (r\<lparr>data_lba := l, data_blocks := n\<rparr>), c1)))"

text \<open>
  The loop that reads at most \<open>n\<close> blocks. What it does not fill of the allocated buffer keeps
  the contents of the heap, here the function \<open>heap_past\<close>.
\<close>

fun read_data :: "ctx \<Rightarrow> u64 \<Rightarrow> nat \<Rightarrow> nat \<Rightarrow> rc + bytes" where
  "read_data c lba n remaining =
     (if n = 0 \<or> remaining = 0 then Inr (map (heap_past c) [0..<remaining])
      else case obmafs3_block_read c lba (bsz c) of
        Inl e \<Rightarrow> Inl e
      | Inr b \<Rightarrow>
          (case read_data c (lba + 1) (n - 1) (remaining - min remaining (bsz c)) of
             Inl e \<Rightarrow> Inl e
           | Inr rest \<Rightarrow> Inr (take remaining b @ rest)))"

declare read_data.simps [simp del]

section \<open>The API\<close>

definition media_tag_tree_lookup :: "ctx \<Rightarrow> u64 \<Rightarrow> u16 \<Rightarrow> (rc + media_tag_record) option" where
  "media_tag_tree_lookup c ino ty =
     (case slot_lookup media_tag_slot media_tag_cfg c (ino, ty) of
        None \<Rightarrow> None
      | Some (Inl e) \<Rightarrow> Some (Inl e)
      | Some (Inr (_, _, r)) \<Rightarrow> Some (Inr (media_tag_dec r)))"

definition media_tag_tree_put :: "ctx \<Rightarrow> media_tag_record \<Rightarrow> rc \<times> ctx" where
  "media_tag_tree_put c r = slot_put media_tag_slot media_tag_cfg c (media_tag_enc r)"

definition media_tag_tree_delete :: "ctx \<Rightarrow> u64 \<Rightarrow> u16 \<Rightarrow> rc \<times> ctx" where
  "media_tag_tree_delete c ino ty =
     (case slot_remove media_tag_slot media_tag_cfg c (ino, ty) of
        (None, r, c1) \<Rightarrow> (r, c1)
      | (Some del, r, c1) \<Rightarrow> (r, media_tag_free_external c1 (media_tag_dec del)))"

definition tag_data :: "ctx \<Rightarrow> media_tag_record \<Rightarrow> rc + bytes" where
  "tag_data c r =
     (let n = unat (data_length r) in
      if \<not> heap_ok c then Inl OBMAFS3_ERR_NOMEM
      else if is_external r then read_data c (data_lba r) (unat (data_blocks r)) n
      else Inr (take n (inline_data r) @ map (heap_past c) [0..<n - MEDIA_TAG_INLINE_MAX]))"

definition obmafs3_media_tag_get :: "ctx \<Rightarrow> u64 \<Rightarrow> u16 \<Rightarrow> (rc + bytes) option" where
  "obmafs3_media_tag_get c ino ty =
     (if media_tag_lba (sb c) = 0 then Some (Inl OBMAFS3_ERR_NOTFOUND)
      else case media_tag_tree_lookup c ino ty of
        None \<Rightarrow> None
      | Some (Inl e) \<Rightarrow> Some (Inl e)
      | Some (Inr r) \<Rightarrow> Some (tag_data c r))"

definition obmafs3_media_tag_put :: "ctx \<Rightarrow> u64 \<Rightarrow> u16 \<Rightarrow> bytes \<Rightarrow> (rc \<times> ctx) option" where
  "obmafs3_media_tag_put c ino ty data =
     (if media_tag_lba (sb c) = 0 then Some (OBMAFS3_ERR_INVAL, c)
      else
        let store = (\<lambda>c1. case media_tag_build_record c1 ino ty data of
                       (Inl e, c2) \<Rightarrow> (e, c2)
                     | (Inr r, c2) \<Rightarrow> media_tag_tree_put c2 r)
        in case media_tag_tree_lookup c ino ty of
             None \<Rightarrow> None
           | Some (Inr old) \<Rightarrow> Some (store (media_tag_free_external c old))
           | Some (Inl e) \<Rightarrow> if e = OBMAFS3_ERR_NOTFOUND then Some (store c) else Some (e, c))"

definition obmafs3_media_tag_delete :: "ctx \<Rightarrow> u64 \<Rightarrow> u16 \<Rightarrow> rc \<times> ctx" where
  "obmafs3_media_tag_delete c ino ty =
     (if media_tag_lba (sb c) = 0 then (OBMAFS3_ERR_NOTFOUND, c) else media_tag_tree_delete c ino ty)"

text \<open>The listing: the types of the inode, up to the first record of a later inode (True).\<close>

fun collect_types :: "u64 \<Rightarrow> media_tag_record list \<Rightarrow> u16 list \<times> bool" where
  "collect_types ino [] = ([], False)"
| "collect_types ino (r # rs) =
     (if mt_inode_id r = ino then (case collect_types ino rs of (ts, stop) \<Rightarrow> (tag_type r # ts, stop))
      else if ino < mt_inode_id r then ([], True)
      else collect_types ino rs)"

partial_function (option) list_tags :: "ctx \<Rightarrow> u64 \<Rightarrow> bytes \<Rightarrow> u16 list \<Rightarrow> (rc + u16 list) option" where
  [code]: "list_tags c ino buf acc =
     (case collect_types ino (map media_tag_dec (slots 543 (unat (node_keys (nh_dec buf))) (ndata buf))) of (ts, stop) \<Rightarrow>
        if stop \<or> right_link (nh_dec buf) = 0 then Some (Inr (acc @ ts))
        else case obmafs3_block_read c (right_link (nh_dec buf)) (bsz c) of
          Inl e \<Rightarrow> Some (Inl e)
        | Inr buf' \<Rightarrow> list_tags c ino buf' (acc @ ts))"

definition obmafs3_media_tag_list :: "ctx \<Rightarrow> u64 \<Rightarrow> (rc + u16 list) option" where
  "obmafs3_media_tag_list c ino =
     (if media_tag_lba (sb c) = 0 then Some (Inr [])
      else if root_node_lba (media_tag_hdr c) = 0 then Some (Inr [])
      else if \<not> heap_ok c then Some (Inl OBMAFS3_ERR_NOMEM)
      else case tree_descend media_tag_cfg c (root_node_lba (media_tag_hdr c)) (ino, 0) of
        None \<Rightarrow> None
      | Some (Inl e) \<Rightarrow> Some (Inl e)
      | Some (Inr (_, buf)) \<Rightarrow> list_tags c ino buf [])"

partial_function (option) delete_tags :: "ctx \<Rightarrow> u64 \<Rightarrow> (rc \<times> ctx) option" where
  [code]: "delete_tags c ino =
     (case obmafs3_media_tag_list c ino of
        None \<Rightarrow> None
      | Some (Inl e) \<Rightarrow> Some (e, c)
      | Some (Inr []) \<Rightarrow> Some (OBMAFS3_OK, c)
      | Some (Inr (first_type # _)) \<Rightarrow>
          (case media_tag_tree_delete c ino first_type of
             (OBMAFS3_OK, c1) \<Rightarrow> delete_tags c1 ino
           | (e, c1) \<Rightarrow> Some (e, c1)))"

definition obmafs3_media_tag_delete_all :: "ctx \<Rightarrow> u64 \<Rightarrow> (rc \<times> ctx) option" where
  "obmafs3_media_tag_delete_all c ino =
     (if media_tag_lba (sb c) = 0 then Some (OBMAFS3_OK, c) else delete_tags c ino)"

section \<open>The contract\<close>

definition tag_enc_ok :: "media_tag_record \<Rightarrow> bool" where
  "tag_enc_ok r \<longleftrightarrow> length (inline_data r) = MEDIA_TAG_INLINE_MAX"

lemma media_tag_dec_enc: "tag_enc_ok r \<Longrightarrow> media_tag_dec (media_tag_enc r) = r"
  by (simp add: tag_enc_ok_def media_tag_enc_def media_tag_dec_def codec_simps MEDIA_TAG_INLINE_MAX_def del: le_enc.simps One_nat_def)

lemma media_tag_layout: "tree_layout media_tag_cfg (\<lambda>_. True)"
  by unfold_locales (auto simp: media_tag_cfg_def codec_simps fld_put_same fld_put_other put_def fld_def simp del: le_enc.simps)

interpretation media_tag: record_store media_tag_cfg "\<lambda>_. True" media_tag_slot media_tag_enc media_tag_dec "\<lambda>r. (mt_inode_id r, tag_type r)" id tag_enc_ok
proof -
  have T: "tree_store media_tag_cfg (\<lambda>_. True) media_tag_slot"
    by (rule tree_store.intro [OF media_tag_layout]) (unfold_locales, simp_all add: media_tag_slot_def same_volume_def)
  have c: "length (media_tag_enc r) = 543" "rec_key media_tag_cfg (media_tag_enc r) = (mt_inode_id r, tag_type r)" if "tag_enc_ok r" for r
    using that by (auto simp: tag_enc_ok_def media_tag_cfg_def media_tag_enc_def codec_simps MEDIA_TAG_INLINE_MAX_def simp del: le_enc.simps One_nat_def)
  show "record_store media_tag_cfg (\<lambda>_. True) media_tag_slot media_tag_enc media_tag_dec (\<lambda>r. (mt_inode_id r, tag_type r)) id tag_enc_ok"
    by (rule record_store.intro [OF T], unfold_locales)
      (use c media_tag_dec_enc in \<open>auto simp: media_tag_slot_def\<close>, simp add: media_tag_cfg_def)
qed

lemma tree_lookup_eq: "media_tag_tree_lookup c i t = slot_get media_tag_slot media_tag_cfg media_tag_dec c (i, t)"
  by (auto simp: media_tag_tree_lookup_def slot_get_def split: option.splits sum.splits)

section \<open>Data in blocks\<close>

text \<open>The blocks \<open>lba\<close>, \<open>lba + 1\<close>, ... as one array.\<close>

definition data_area :: "ctx \<Rightarrow> u64 \<Rightarrow> nat \<Rightarrow> bytes" where
  "data_area c lba n = concat (map (\<lambda>i. blk c (lba + of_nat i)) [0..<n])"

definition area_in :: "ctx \<Rightarrow> u64 \<Rightarrow> nat \<Rightarrow> bool" where
  "area_in c lba n \<longleftrightarrow> unat lba + n \<le> unat (max_lba c)"

lemma area_in_Suc:
  assumes "area_in c lba (Suc n)"
  shows "in_vol c lba" "area_in c (lba + 1) n" "unat (lba + 1) = unat lba + 1"
proof -
  have u: "unat lba + Suc n \<le> unat (max_lba c)" using assms by (simp add: area_in_def)
  then have "unat lba + 1 < 2 ^ 64 \<or> n = 0 \<and> unat lba + 1 \<le> unat (max_lba c)" using unat_u64 [of "max_lba c"] by linarith
  then have lt: "unat lba + 1 < 2 ^ 64" using unat_u64 [of "max_lba c"] by linarith
  show v: "unat (lba + 1) = unat lba + 1" using unat_add_of_nat [of lba 1] lt by simp
  show "in_vol c lba" using u by (simp add: in_vol_def word_less_nat_alt)
  show "area_in c (lba + 1) n" using u v by (simp add: area_in_def)
qed

lemma data_area_Suc: "data_area c lba (Suc n) = blk c lba @ data_area c (lba + 1) n"
proof -
  have "map (\<lambda>i. blk c (lba + of_nat i)) [0..<Suc n] = blk c lba # map (\<lambda>i. blk c (lba + of_nat (Suc i))) [0..<n]"
    by (simp add: upt_conv_Cons map_Suc_upt [symmetric] comp_def del: upt_Suc map_Suc_upt)
  then show ?thesis by (simp add: data_area_def algebra_simps del: upt_Suc)
qed

lemma data_area_cong: "(\<And>k. unat lba \<le> unat k \<Longrightarrow> unat k < unat lba + n \<Longrightarrow> blk c' k = blk c k) \<Longrightarrow> unat lba + n \<le> 2 ^ 64 \<Longrightarrow>
   data_area c' lba n = data_area c lba n"
  unfolding data_area_def by (intro arg_cong [where f = concat] map_cong refl) (simp add: unat_add_of_nat)

lemma read_data_area:
  assumes "dev_ok c" "area_in c lba n" "m \<le> n * bsz c" "0 < bsz c"
  shows "read_data c lba n m = Inr (take m (data_area c lba n))"
  using assms
proof (induction n arbitrary: lba m)
  case 0
  then show ?case by (simp add: read_data.simps)
next
  case (Suc n)
  note A = area_in_Suc [OF Suc.prems(2)]
  have rd: "obmafs3_block_read c lba (bsz c) = Inr (blk c lba)" and lb: "length (blk c lba) = bsz c"
    using Suc.prems(1) A(1) block_read_blk length_blk by blast+
  show ?case
  proof (cases "m = 0")
    case True
    then show ?thesis by (simp add: read_data.simps)
  next
    case False
    have "m - min m (bsz c) \<le> n * bsz c" using Suc.prems(3) by auto
    from Suc.IH [OF Suc.prems(1) A(2) this Suc.prems(4)] show ?thesis
      using False rd lb by (subst read_data.simps) (simp add: data_area_Suc min_def)
  qed
qed

text \<open>Writing an array block by block.\<close>

lemma write_data_area:
  assumes "dev_ok c" "area_in c lba n" "length src \<le> n * bsz c" "0 < bsz c"
  shows "\<exists>c'. write_data c lba n src = (OBMAFS3_OK, c') \<and> (\<exists>d. c' = c\<lparr>dev := d\<rparr>) \<and> dev_ok c' \<and>
     take (length src) (data_area c' lba n) = src \<and>
     (\<forall>k. in_vol c k \<longrightarrow> \<not> (unat lba \<le> unat k \<and> unat k < unat lba + n) \<longrightarrow> blk c' k = blk c k)"
  using assms
proof (induction n arbitrary: c lba src)
  case 0
  have "\<exists>d. c = c\<lparr>dev := d\<rparr>" by (rule exI [of _ "dev c"]) simp
  then show ?case using 0 by (simp add: data_area_def)
next
  case (Suc n)
  note A = area_in_Suc [OF Suc.prems(2)]
  let ?b = "put 0 (take (bsz c) src) (replicate (bsz c) 0)"
  have lb: "length ?b = bsz c" by simp
  let ?c = "wrote c lba ?b"
  have w: "obmafs3_block_write c lba ?b = (OBMAFS3_OK, ?c)" using block_write_eq [OF Suc.prems(1) A(1) lb] .
  have d1: "\<exists>d. ?c = c\<lparr>dev := d\<rparr>" by (auto simp: wrote_def)
  have "dev_ok ?c" "area_in ?c (lba + 1) n" "length (drop (bsz c) src) \<le> n * bsz ?c" "0 < bsz ?c"
    using Suc.prems A(2) by (auto simp: area_in_def)
  from Suc.IH [OF this] obtain c' d where IH: "write_data ?c (lba + 1) n (drop (bsz c) src) = (OBMAFS3_OK, c')" "c' = ?c\<lparr>dev := d\<rparr>" "dev_ok c'"
     "take (length (drop (bsz c) src)) (data_area c' (lba + 1) n) = drop (bsz c) src"
     "\<forall>k. in_vol ?c k \<longrightarrow> \<not> (unat (lba + 1) \<le> unat k \<and> unat k < unat (lba + 1) + n) \<longrightarrow> blk c' k = blk ?c k" by blast
  have b0: "blk c' lba = ?b" using IH(5) A(1,3) blk_wrote [OF Suc.prems(1) A(1) _ lb] by simp
  have "take (length src) (data_area c' lba (Suc n)) = src"
  proof (cases "length src \<le> bsz c")
    case True
    then show ?thesis using lb by (simp add: data_area_Suc b0) (simp add: put_def)
  next
    case False
    then have "?b = take (bsz c) src" by (simp add: put_def)
    then show ?thesis using IH(4) False by (simp add: data_area_Suc b0)
  qed
  moreover have "blk c' k = blk c k" if "in_vol c k" "\<not> (unat lba \<le> unat k \<and> unat k < unat lba + Suc n)" for k
  proof -
    have "k \<noteq> lba" using that(2) by auto
    then have "blk ?c k = blk c k" using blk_wrote [OF Suc.prems(1) A(1) _ lb] that(1) by simp
    then show ?thesis using IH(5) that A(3) by auto
  qed
  moreover have "write_data c lba (Suc n) src = (OBMAFS3_OK, c')" using w IH(1) by simp
  moreover have "\<exists>d. c' = c\<lparr>dev := d\<rparr>" using IH(2) by (auto simp: wrote_def)
  ultimately show ?case using IH(3) by blast
qed

section \<open>Tags with external data\<close>

text \<open>The blocks of a tag.\<close>

definition ext_of :: "media_tag_record \<Rightarrow> nat set" where
  "ext_of r = (if is_external r then {unat (data_lba r) ..< unat (data_lba r) + unat (data_blocks r)} else {})"

text \<open>
  A record is sound: inline data fit, and external data lie in blocks of the volume that are in
  use, outside the set \<open>B\<close> of the blocks of the tree.
\<close>

definition tag_ok :: "ctx \<Rightarrow> u64 set \<Rightarrow> media_tag_record \<Rightarrow> bool" where
  "tag_ok c B r \<longleftrightarrow>
     (if is_external r then area_in c (data_lba r) (unat (data_blocks r)) \<and> unat (data_length r) \<le> unat (data_blocks r) * bsz c
      else unat (data_length r) \<le> MEDIA_TAG_INLINE_MAX) \<and>
     (\<forall>p \<in> ext_of r. used c p \<and> p \<notin> unat ` B)"

definition tags_ok :: "ctx \<Rightarrow> u64 set \<Rightarrow> bytes list \<Rightarrow> bool" where
  "tags_ok c B rs \<longleftrightarrow> (\<forall>r \<in> set rs. tag_ok c B (media_tag_dec r)) \<and>
     (\<forall>r \<in> set rs. \<forall>r' \<in> set rs. rec_key media_tag_cfg r \<noteq> rec_key media_tag_cfg r' \<longrightarrow>
        ext_of (media_tag_dec r) \<inter> ext_of (media_tag_dec r') = {})"

lemma tag_ok_apart: "tag_ok c B r \<Longrightarrow> T \<subseteq> B \<Longrightarrow> ext_of r \<inter> unat ` T = {}"
  unfolding tag_ok_def by blast

lemma tag_data_ok:
  assumes "tag_ok c B r" "dev_ok c" "heap_ok c" "0 < bsz c"
  shows "tag_data c r = Inr (take (unat (data_length r)) (if is_external r then data_area c (data_lba r) (unat (data_blocks r)) else inline_data r))"
  using assms read_data_area [OF assms(2), of "data_lba r" "unat (data_blocks r)" "unat (data_length r)"]
  by (auto simp: tag_data_def tag_ok_def Let_def)

lemma tag_data_frame:
  assumes "tag_ok c B r" "tag_ok c' B' r" "dev_ok c" "dev_ok c'" "heap_ok c" "heap_ok c'" "0 < bsz c" "sb c' = sb c"
    and "\<And>k. unat k \<in> ext_of r \<Longrightarrow> blk c' k = blk c k"
  shows "tag_data c' r = tag_data c r"
proof -
  have "data_area c' (data_lba r) (unat (data_blocks r)) = data_area c (data_lba r) (unat (data_blocks r))" if "is_external r"
  proof (rule data_area_cong)
    have "area_in c (data_lba r) (unat (data_blocks r))" using assms(1) that by (simp add: tag_ok_def)
    then show "unat (data_lba r) + unat (data_blocks r) \<le> 2 ^ 64" using unat_u64 [of "max_lba c"] by (simp add: area_in_def)
    fix k :: u64 assume "unat (data_lba r) \<le> unat k" "unat k < unat (data_lba r) + unat (data_blocks r)"
    then show "blk c' k = blk c k" using assms(9) that by (simp add: ext_of_def)
  qed
  moreover have "0 < bsz c'" using assms(7,8) by simp
  ultimately show ?thesis
    using tag_data_ok [OF assms(1,3,5,7)] tag_data_ok [OF assms(2,4,6)] by auto
qed

lemma free_external_spec:
  assumes "tag_ok c B r" "0 \<in> B" "bm_ok c"
  shows "\<exists>bm. media_tag_free_external c r = c\<lparr>bitmap := bm\<rparr>" "bm_ok (media_tag_free_external c r)"
    "used (media_tag_free_external c r) p \<longleftrightarrow> used c p \<and> p \<notin> ext_of r"
proof -
  have id: "\<exists>bm. c = c\<lparr>bitmap := bm\<rparr>" by (rule exI [of _ "bitmap c"]) simp
  show "\<exists>bm. media_tag_free_external c r = c\<lparr>bitmap := bm\<rparr>"
    using id bitmap_clear_eq [of c "data_lba r" "data_blocks r"] by (auto simp: media_tag_free_external_def obmafs3_free_blocks_def)
  show "bm_ok (media_tag_free_external c r)" using assms(3) by (simp add: media_tag_free_external_def obmafs3_free_blocks_def)
  have r: "unat (data_lba r) + unat (data_blocks r) \<le> 2 ^ 64" if "is_external r"
    using assms(1) that unat_u64 [of "max_lba c"] by (simp add: tag_ok_def area_in_def)
  have z: "0 \<notin> ext_of r" using assms(1,2) by (force simp: tag_ok_def)
  show "used (media_tag_free_external c r) p \<longleftrightarrow> used c p \<and> p \<notin> ext_of r"
  proof (cases "is_external r \<and> data_lba r \<noteq> 0 \<and> data_blocks r \<noteq> 0")
    case True
    then show ?thesis using used_clear [OF assms(3) r, of p] by (auto simp: media_tag_free_external_def obmafs3_free_blocks_def ext_of_def)
  next
    case False
    then have "ext_of r = {}" using z by (auto simp: ext_of_def unat_eq_0)
    then show ?thesis using False by (auto simp: media_tag_free_external_def)
  qed
qed

lemma alloc_blocks_frame: "obmafs3_alloc_blocks c n = (r, c') \<Longrightarrow> alloc_frame c c' \<and> dev c' = dev c"
  by (auto simp: obmafs3_alloc_blocks_def alloc_frame_def obmafs3_bitmap_set_def Let_def split: sum.splits option.splits if_splits)

lemma build_record_spec:
  assumes ok: "dev_ok c" "bm_ok c" "heap_ok c" "0 < bsz c" "bsz c \<le> 65536" and len: "length data < 2 ^ 32"
  obtains (full) "media_tag_build_record c ino ty data = (Inl OBMAFS3_ERR_NOSPC, c)" "MEDIA_TAG_INLINE_MAX < length data"
  | (built) r c' where "media_tag_build_record c ino ty data = (Inr r, c')" "tag_enc_ok r" "(mt_inode_id r, tag_type r) = (ino, ty)"
      "outside {} c c'" "dev_ok c'" "bm_ok c'" "tag_data c' r = Inr data" "\<And>p. p \<in> ext_of r \<Longrightarrow> \<not> used c p"
      "\<And>B. unat ` B \<inter> ext_of r = {} \<Longrightarrow> tag_ok c' B r"
proof (cases "length data \<le> MEDIA_TAG_INLINE_MAX")
  case True
  define r where "r = \<lparr>mt_inode_id = ino, tag_type = ty, data_length = of_nat (length data), mt_flags = MEDIA_TAG_FLAG_INLINE, data_lba = 0, data_blocks = 0,
    inline_data = put 0 data (replicate MEDIA_TAG_INLINE_MAX 0)\<rparr>"
  have b: "media_tag_build_record c ino ty data = (Inr r, c)" using True by (simp add: media_tag_build_record_def r_def)
  have ul: "unat (data_length r) = length data" using len by (simp add: r_def unat_of_nat take_bit_nat_eq_self)
  have ne: "\<not> is_external r" by (simp add: r_def is_external_def MEDIA_TAG_FLAG_INLINE_def)
  have ok1: "tag_ok c B r" for B using ul True ne by (simp add: tag_ok_def ext_of_def)
  have "tag_data c r = Inr data" using tag_data_ok [OF ok1 ok(1,3,4)] ul ne True by (simp add: r_def put_def)
  then show ?thesis using built [OF b] ok ok1 ne True by (simp add: r_def tag_enc_ok_def ext_of_def)
next
  case False
  define n where "n = (of_nat (length data) + block_size (sb c) - 1) div block_size (sb c)"
  have un: "unat n = (length data + bsz c - 1) div bsz c"
  proof -
    have "unat (of_nat (length data) + block_size (sb c)) = length data + bsz c"
      using len ok(5) by (simp add: unat_word_ariths unat_of_nat take_bit_nat_eq_self)
    moreover have "of_nat (length data) + block_size (sb c) \<noteq> 0" using calculation ok(4) by (metis add_is_0 unat_0 not_gr_zero)
    ultimately have "unat (of_nat (length data) + block_size (sb c) - 1) = length data + bsz c - 1" by (simp add: unat_minus_one)
    then show ?thesis by (simp add: n_def unat_div)
  qed
  have fits: "length data \<le> unat n * bsz c"
    unfolding un using dividend_less_div_times [OF ok(4), of "length data + bsz c - 1"] ok(4) by linarith
  have n0: "0 < n" using fits False by (auto simp: word_gt_0)
  obtain r0 c1 where al: "obmafs3_alloc_blocks c n = (r0, c1)" by fastforce
  show ?thesis
  proof (cases r0)
    case (Inl e)
    then have "e = OBMAFS3_ERR_NOSPC" "c1 = c" using alloc_blocks_err [OF ok(2)] al by auto
    then show ?thesis using full False al Inl by (simp add: media_tag_build_record_def media_tag_write_external_def Let_def n_def)
  next
    case (Inr l)
    note A = ba.alloc_in [OF ok(2) n0 al [unfolded Inr]] ba.alloc_fresh [OF ok(2) n0 al [unfolded Inr]] ba.alloc_occ [OF ok(2) n0 al [unfolded Inr]]
    have fr: "alloc_frame c c1" "dev c1 = dev c" using alloc_blocks_frame [OF al] by auto
    have sb1: "sb c1 = sb c" "heap_ok c1" using alloc_frame_fields [OF fr(1)] ok(3) by auto
    have d1: "dev_ok c1" using ok(1) fr(2) sb1 by (simp add: dev_ok_def)
    have bm1: "bm_ok c1" using ba.alloc_ok [OF ok(2) al] by simp
    have ar: "area_in c1 l (unat n)" using A(1) sb1 by (simp add: area_in_def)
    have "length data \<le> unat n * bsz c1" "0 < bsz c1" using fits ok(4) sb1 by simp_all
    from write_data_area [OF d1 ar this] obtain c' d where W: "write_data c1 l (unat n) data = (OBMAFS3_OK, c')" "c' = c1\<lparr>dev := d\<rparr>" "dev_ok c'"
      "take (length data) (data_area c' l (unat n)) = data"
      "\<forall>k. in_vol c1 k \<longrightarrow> \<not> (unat l \<le> unat k \<and> unat k < unat l + unat n) \<longrightarrow> blk c' k = blk c1 k" by blast
    define r where "r = \<lparr>mt_inode_id = ino, tag_type = ty, data_length = of_nat (length data), mt_flags = 0, data_lba = l, data_blocks = n,
      inline_data = replicate MEDIA_TAG_INLINE_MAX 0\<rparr>"
    have b: "media_tag_build_record c ino ty data = (Inr r, c')"
      using False al Inr sb1 W(1) by (simp add: media_tag_build_record_def media_tag_write_external_def Let_def n_def [symmetric] r_def)
    have ul: "unat (data_length r) = length data" using len by (simp add: r_def unat_of_nat take_bit_nat_eq_self)
    have ex: "is_external r" "ext_of r = {unat l ..< unat l + unat n}" by (simp_all add: r_def is_external_def ext_of_def)
    have B1: "blk c1 = blk c" using block_read_cong [of c1 c] fr(2) sb1 by (simp add: blk_def fun_eq_iff)
    have u': "used c' p = used c1 p" for p by (simp add: W(2))
    have "alloc_frame c c'" using fr(1) by (cases c; cases c1) (simp add: alloc_frame_def W(2))
    moreover have "blk c' k = blk c k" if "in_vol c k" "used c (unat k)" for k
    proof -
      have "\<not> (unat l \<le> unat k \<and> unat k < unat l + unat n)" using A(2) that(2) by blast
      then show ?thesis using W(5) that(1) sb1 B1 by (simp add: in_vol_def)
    qed
    ultimately have out: "outside {} c c'" using A(3) u' by (auto simp: outside_def)
    have ok1: "tag_ok c' B r" if "unat ` B \<inter> ext_of r = {}" for B
      using ex ul fits ar A(3) u' that sb1 by (auto simp: tag_ok_def area_in_def W(2)) (auto simp: r_def)
    have "heap_ok c'" "0 < bsz c'" using sb1 ok(4) by (simp_all add: W(2))
    then have "tag_data c' r = Inr data" using tag_data_ok [OF ok1 [of "{}"] W(3)] ul ex(1) W(4) by (simp add: r_def)
    moreover have "\<not> used c p" if "p \<in> ext_of r" for p using A(2) that ex(2) by simp
    moreover have "bm_ok c'" using bm1 by (simp add: W(2))
    moreover have "tag_enc_ok r" "(mt_inode_id r, tag_type r) = (ino, ty)" by (simp_all add: r_def tag_enc_ok_def)
    ultimately show ?thesis using built [OF b] out W(3) ok1 by blast
  qed
qed

text \<open>The data of a tag stay when its blocks are left alone.\<close>

lemma tag_keep:
  assumes t: "tag_ok c B r" and o: "outside T c c1" and sv: "same_volume c1 c'" and d: "dev_ok c" "dev_ok c1" and h: "heap_ok c" "0 < bsz c"
    and T: "ext_of r \<inter> unat ` T = {}"
  shows "tag_data c' r = tag_data c r" "ext_of r \<inter> unat ` B' = {} \<Longrightarrow> tag_ok c' B' r"
proof -
  have sb: "sb c1 = sb c" "heap_ok c1" using maxes_frame [OF o, of media_tag_cfg] h by auto
  note V = same_volume_blocks [OF sv]
  have sb': "sb c' = sb c" "heap_ok c'" "dev_ok c'" using sb sv d(2) V(5,8) by (auto simp: same_volume_def)
  have us: "used c' p" if "p \<in> ext_of r" for p using t o that V(3) by (auto simp: tag_ok_def outside_def)
  show ok: "tag_ok c' B' r" if "ext_of r \<inter> unat ` B' = {}" for B' using t us sb' that by (auto simp: tag_ok_def area_in_def split: if_splits)
  have bl: "blk c' k = blk c k" if k: "unat k \<in> ext_of r" for k
  proof -
    have "in_vol c k" using t k unat_u64 [of "max_lba c"]
      by (auto simp: tag_ok_def ext_of_def area_in_def in_vol_def word_less_nat_alt split: if_splits)
    moreover have "used c (unat k)" "k \<notin> T" using t k T by (auto simp: tag_ok_def)
    ultimately show ?thesis using o V(2) by (simp add: outside_def)
  qed
  from tag_data_frame [OF t ok [of "{}"] d(1) sb'(3) h(1) sb'(2) h(2) sb'(1) bl] show "tag_data c' r = tag_data c r" by simp
qed

section \<open>The tree with the data\<close>

abbreviation tag_tree_blocks :: "ctx \<Rightarrow> u64 set \<Rightarrow> u64 list \<Rightarrow> u64 set" where
  "tag_tree_blocks c own fl \<equiv> {0, media_tag_lba (sb c)} \<union> own \<union> set fl"

definition tag_holds :: "bool \<Rightarrow> ctx \<Rightarrow> nat \<Rightarrow> u64 set \<Rightarrow> u64 list \<Rightarrow> bytes list \<Rightarrow> bool" where
  "tag_holds b c lv own fl rs \<longleftrightarrow> slot_holds media_tag_slot media_tag_cfg (\<lambda>_. True) b c lv own fl rs \<and> media_tag_lba (sb c) \<noteq> 0 \<and>
     tags_ok c (tag_tree_blocks c own fl) rs"

lemma tag_env:
  assumes "slot_holds media_tag_slot media_tag_cfg (\<lambda>_. True) b c lv own fl rs"
  shows "dev_ok c" "bm_ok c" "heap_ok c" "0 < bsz c" "bsz c \<le> 65536" "sorted_wrt (<) (map (rec_key media_tag_cfg) rs)"
    "l \<in> tag_tree_blocks c own fl \<Longrightarrow> used c (unat l)"
  using slot_env [OF assms] by (auto simp: slot_blocks_def media_tag_slot_def)

lemma media_tag_get_holds:
  assumes "slot_holds media_tag_slot media_tag_cfg (\<lambda>_. True) b c lv own fl rs" "media_tag_lba (sb c) \<noteq> 0"
  shows "obmafs3_media_tag_get c i t =
     (case rmap media_tag_cfg rs (i, t) of None \<Rightarrow> Some (Inl OBMAFS3_ERR_NOTFOUND) | Some x \<Rightarrow> Some (tag_data c (media_tag_dec x)))"
  using media_tag.get_holds [OF assms(1), of "(i, t)"] assms(2) by (simp add: obmafs3_media_tag_get_def tree_lookup_eq split: option.split)

text \<open>Storing the new record once the blocks of the old one are free.\<close>

lemma store_tag:
  assumes sh: "slot_holds media_tag_slot media_tag_cfg (\<lambda>_. True) b c lv own fl rs" and lv: "lv \<le> 8" "b \<or> lv \<le> 1" and ne: "media_tag_lba (sb c) \<noteq> 0"
    and oth: "\<And>x. x \<in> set rs \<Longrightarrow> rec_key media_tag_cfg x \<noteq> (ino, ty) \<Longrightarrow> tag_ok c (tag_tree_blocks c own fl) (media_tag_dec x)"
    and len: "length data < 2 ^ 32"
    and st: "(case media_tag_build_record c ino ty data of (Inl e, c2) \<Rightarrow> (e, c2) | (Inr r, c2) \<Rightarrow> media_tag_tree_put c2 r) = (res, c')"
  shows "(res = OBMAFS3_ERR_NOSPC \<and> (length fl < lv + 2 \<or> MEDIA_TAG_INLINE_MAX < length data)) \<or>
    (res = OBMAFS3_OK \<and> obmafs3_media_tag_get c' ino ty = Some (Inr data) \<and>
     (\<forall>j t. (j, t) \<noteq> (ino, ty) \<longrightarrow> obmafs3_media_tag_get c' j t = obmafs3_media_tag_get c j t))"
proof -
  note E = tag_env [OF sh]
  from E(1-5) len show ?thesis
  proof (cases rule: build_record_spec [where ino = ino and ty = ty])
    case full
    then show ?thesis using st by simp
  next
    case (built r c2)
    have sb2: "sb c2 = sb c" "heap_ok c2" using maxes_frame [OF built(4), of media_tag_cfg] E(3) by auto
    have hg: "media_tag_hdr c2 = media_tag_hdr c" using outside_fields(4) [OF built(4)] .
    have sh2: "slot_holds media_tag_slot media_tag_cfg (\<lambda>_. True) b c2 lv own fl rs"
      using holds_beside [OF sh [unfolded slot_holds_def] built(4-6)] hg sb2 by (simp add: slot_holds_def media_tag_slot_def)
    have st2: "slot_put media_tag_slot media_tag_cfg c2 (media_tag_enc r) = (res, c')" using st built(1) by (simp add: media_tag_tree_put_def)
    from sh2 lv built(2) show ?thesis
    proof (cases rule: media_tag.put_outcome)
      case (full c3)
      then show ?thesis using st2 by simp
    next
      case (stored c3 lv3 own3 fl3)
      have c3: "c3 = c'" "res = OBMAFS3_OK" using stored(1) st2 by simp_all
      obtain c4 where c4: "outside (slot_blocks media_tag_slot c2 own fl) c2 c4" "c3 = hset media_tag_slot (hget media_tag_slot c3) c4"
        using stored(2) by (auto simp: touches_def)
      have sv: "same_volume c4 c3" using media_tag.set_volume c4(2) by metis
      note E3 = tag_env [OF stored(3)]
      have d4: "dev_ok c4" using E3(1) same_volume_blocks(5) [OF sv] by simp
      have T: "slot_blocks media_tag_slot c2 own fl \<subseteq> tag_tree_blocks c own fl" by (auto simp: slot_blocks_def media_tag_slot_def sb2)
      have b2: "0 < bsz c2" using E(4) sb2 by simp
      have ne3: "media_tag_lba (sb c3) \<noteq> 0" using ne stored(5) sb2 by simp
      have rm: "rmap media_tag_cfg (ins_rec (rec_key media_tag_cfg) (media_tag_enc r) rs) = (rmap media_tag_cfg rs)((ino, ty) \<mapsto> media_tag_enc r)"
        using media_tag.slot_rmap_put [OF sh2, of "media_tag_enc r"] media_tag.enc_key [OF built(2)] built(3) by simp
      note G3 = media_tag_get_holds [OF stored(3) ne3] and G = media_tag_get_holds [OF sh ne]
      have "ext_of r \<inter> unat ` slot_blocks media_tag_slot c2 own fl = {}" using built(8) E(7) T by blast
      from tag_keep(1) [OF built(9) [of "{}"] c4(1) sv built(5) d4 sb2(2) b2 this] built(7)
      have "obmafs3_media_tag_get c3 ino ty = Some (Inr data)" using G3 [of ino ty] rm media_tag_dec_enc [OF built(2)] by simp
      moreover have "obmafs3_media_tag_get c3 j t = obmafs3_media_tag_get c j t" if jt: "(j, t) \<noteq> (ino, ty)" for j t
      proof (cases "rmap media_tag_cfg rs (j, t)")
        case None
        then show ?thesis using G3 [of j t] G [of j t] rm jt by auto
      next
        case (Some x)
        then have x: "x \<in> set rs" "rec_key media_tag_cfg x = (j, t)" using rmap_Some [OF E(6)] by auto
        have t: "tag_ok c (tag_tree_blocks c own fl) (media_tag_dec x)" using oth x jt by simp
        have sv2: "same_volume c2 c2" by (simp add: same_volume_def)
        note K = tag_keep [OF t built(4) sv2 E(1) built(5) E(3,4)]
        have ex: "ext_of (media_tag_dec x) \<inter> unat ` slot_blocks media_tag_slot c2 own fl = {}" using tag_ok_apart [OF t T] .
        have k2: "tag_data c2 (media_tag_dec x) = tag_data c (media_tag_dec x)" "tag_ok c2 {} (media_tag_dec x)" using K(1) K(2) [of "{}"] by simp_all
        have "tag_data c3 (media_tag_dec x) = tag_data c2 (media_tag_dec x)"
          by (rule tag_keep(1) [OF k2(2) c4(1) sv built(5) d4 sb2(2) b2 ex])
        then show ?thesis using G3 [of j t] G [of j t] rm jt Some k2(1) by auto
      qed
      ultimately show ?thesis using c3 by simp
    qed
  qed
qed

section \<open>Listing\<close>

lemma collect_types_append:
  "collect_types i (xs @ ys) = (case collect_types i xs of (as, True) \<Rightarrow> (as, True) | (as, False) \<Rightarrow> (case collect_types i ys of (bs, s) \<Rightarrow> (as @ bs, s)))"
  by (induction xs) (auto split: prod.splits bool.splits)

lemma collect_types_filter:
  "sorted (map mt_inode_id rs) \<Longrightarrow> fst (collect_types i rs) = map tag_type (filter (\<lambda>r. mt_inode_id r = i) rs)"
proof (induction rs)
  case (Cons r rs)
  show ?case
  proof (cases "i < mt_inode_id r")
    case True
    then have "filter (\<lambda>r. mt_inode_id r = i) (r # rs) = []" using Cons.prems by (auto simp: filter_empty_conv)
    then show ?thesis using True by auto
  next
    case False
    then show ?thesis using Cons by (auto split: prod.splits)
  qed
qed simp

lemma list_tags_chain:
  assumes "leaf_chain media_tag_cfg c ((l, r, rs) # ns)"
  shows "list_tags c i (blk c l) acc = Some (Inr (acc @ fst (collect_types i (map media_tag_dec (node_recs ((l, r, rs) # ns))))))"
  using assms
proof (induction ns arbitrary: l r rs acc)
  case Nil
  note F = leaf_chain_first [OF Nil]
  have "rec_sz media_tag_cfg = 543" by (simp add: media_tag_cfg_def)
  then show ?case using F(1-3) by (subst list_tags.simps) (simp split: prod.split)
next
  case (Cons n ns)
  obtain l' r' rs' where n: "n = (l', r', rs')" by (cases n) auto
  note F = leaf_chain_first [OF Cons.prems]
  have sz: "rec_sz media_tag_cfg = 543" by (simp add: media_tag_cfg_def)
  have nx: "r \<noteq> 0" "obmafs3_block_read c r (bsz c) = Inr (blk c l')" "leaf_chain media_tag_cfg c ((l', r', rs') # ns)"
    using F(4) [of l' r' rs' ns] unfolding n by blast+
  obtain as s where co: "collect_types i (map media_tag_dec rs) = (as, s)" by fastforce
  show ?case
  proof (cases s)
    case True
    then show ?thesis using F(1,2) sz co collect_types_append [of i "map media_tag_dec rs"] by (subst list_tags.simps) simp
  next
    case False
    then have "list_tags c i (blk c l) acc = list_tags c i (blk c l') (acc @ as)"
      using F(1,2) sz co nx by (subst list_tags.simps) simp
    then show ?thesis
      using Cons.IH [OF nx(3), of "acc @ as"] False co collect_types_append [of i "map media_tag_dec rs"] by (simp add: n case_prod_beta)
  qed
qed

lemma media_tag_fields: "(mt_inode_id (media_tag_dec x), tag_type (media_tag_dec x)) = rec_key media_tag_cfg x"
  by (simp add: media_tag_dec_def media_tag_cfg_def)

text \<open>The types of an inode in the order of the tree.\<close>

definition types_of :: "u64 \<Rightarrow> bytes list \<Rightarrow> u16 list" where
  "types_of i rs = map (snd \<circ> rec_key media_tag_cfg) (filter (\<lambda>x. fst (rec_key media_tag_cfg x) = i) rs)"

lemma media_tag_list_types:
  assumes h: "slot_holds media_tag_slot media_tag_cfg (\<lambda>_. True) b c lv own fl rs" and ne: "media_tag_lba (sb c) \<noteq> 0"
  shows "obmafs3_media_tag_list c i = Some (Inr (types_of i rs))"
proof (cases "root_node_lba (media_tag_hdr c) = 0")
  case True
  then have "rs = []" using h tree_ok_root [of media_tag_cfg] unfolding slot_holds_def holds_def media_tag_slot_def by (simp, blast)
  then show ?thesis using True by (simp add: obmafs3_media_tag_list_def types_of_def)
next
  case False
  have hs: "holds media_tag_cfg (\<lambda>_. True) b c (media_tag_hdr c) (media_tag_lba (sb c)) lv own fl rs"
    using h by (simp add: slot_holds_def media_tag_slot_def)
  obtain l r ls ns left where D: "tree_descend media_tag_cfg c (root_node_lba (media_tag_hdr c)) (i, 0) = Some (Inr (l, blk c l))"
    "leaf_chain media_tag_cfg c ((l, r, ls) # ns)" "rs = left @ node_recs ((l, r, ls) # ns)" "\<And>x. x \<in> set left \<Longrightarrow> rec_key media_tag_cfg x < (i, 0)"
    by (rule descend_chain [OF hs False, of "(i, 0)"]) blast
  have left: "fst (rec_key media_tag_cfg x) < i" if "x \<in> set left" for x
    using D(4) [OF that] by (cases "rec_key media_tag_cfg x") auto
  have f: "mt_inode_id (media_tag_dec x) = fst (rec_key media_tag_cfg x)" "tag_type (media_tag_dec x) = snd (rec_key media_tag_cfg x)" for x
    using media_tag_fields [of x] by (auto simp: prod_eq_iff)
  have "sorted_wrt (<) (map (rec_key media_tag_cfg) (node_recs ((l, r, ls) # ns)))" using tag_env(6) [OF h] by (simp add: D(3) sorted_wrt_append)
  then have "sorted (map mt_inode_id (map media_tag_dec (node_recs ((l, r, ls) # ns))))"
    unfolding sorted_map sorted_wrt_map by (rule sorted_wrt_mono_rel [rotated]) (auto simp: f less_prod_def)
  note F = collect_types_filter [OF this, of i]
  have "filter (\<lambda>x. fst (rec_key media_tag_cfg x) = i) left = []" using left by (fastforce simp: filter_empty_conv)
  then have "types_of i rs = types_of i (node_recs ((l, r, ls) # ns))" by (simp add: types_of_def D(3))
  moreover have "types_of i xs = map tag_type (filter (\<lambda>r. mt_inode_id r = i) (map media_tag_dec xs))" for xs
    by (simp add: types_of_def filter_map comp_def f)
  ultimately show ?thesis
    using False ne tag_env(3) [OF h] D(1) list_tags_chain [OF D(2), of i "[]"] F by (simp add: obmafs3_media_tag_list_def)
qed

section \<open>Deleting\<close>

lemma del_rec_subset: "set (del_rec f k xs) \<subseteq> set xs" "x \<in> set (del_rec f k xs) \<Longrightarrow> f x \<noteq> k"
  by (auto simp: del_rec_def)

lemma delete_tag:
  assumes sd: "slot_dholds media_tag_slot media_tag_cfg (\<lambda>_. True) b c lv own fl rs" "lv \<le> 1" "length fl + 2 < 2 ^ 32"
    and tg: "tags_ok c (tag_tree_blocks c own fl) rs" "media_tag_lba (sb c) \<noteq> 0" and x: "rmap media_tag_cfg rs (i, t) = Some x"
  obtains c' lv' own' fl' where "media_tag_tree_delete c i t = (OBMAFS3_OK, c')"
    "slot_dholds media_tag_slot media_tag_cfg (\<lambda>_. True) False c' lv' own' fl' (del_rec (rec_key media_tag_cfg) (i, t) rs)" "lv' \<le> lv"
    "own' \<union> set fl' = own \<union> set fl" "sb c' = sb c" "tags_ok c' (tag_tree_blocks c' own' fl') (del_rec (rec_key media_tag_cfg) (i, t) rs)"
    "\<And>p. used c' p \<longleftrightarrow> used c p \<and> p \<notin> ext_of (media_tag_dec x)"
    "\<And>j s. obmafs3_media_tag_get c' j s = (if (j, s) = (i, t) then Some (Inl OBMAFS3_ERR_NOTFOUND) else obmafs3_media_tag_get c j s)"
proof -
  let ?B = "tag_tree_blocks c own fl" and ?rs = "del_rec (rec_key media_tag_cfg) (i, t) rs"
  have sh: "slot_holds media_tag_slot media_tag_cfg (\<lambda>_. True) b c lv own fl rs" by (rule media_tag.holds_of_dholds [OF sd(1)])
  note E = tag_env [OF sh]
  obtain c1 lv1 own1 fl1 where R: "slot_remove media_tag_slot media_tag_cfg c (i, t) = (Some x, OBMAFS3_OK, c1)"
    "touches media_tag_slot (own \<union> {hlba media_tag_slot (sb c)}) c c1" "slot_dholds media_tag_slot media_tag_cfg (\<lambda>_. True) False c1 lv1 own1 fl1 ?rs"
    "own1 \<union> set fl1 = own \<union> set fl" "lv1 \<le> lv"
    using media_tag.slot_remove_removes [OF sd x] by blast
  have sb1: "sb c1 = sb c" by (rule media_tag.touches_sb [OF R(2)])
  note sh1 = media_tag.holds_of_dholds [OF R(3)]
  note E1 = tag_env [OF sh1]
  have "bitmap c1 = bitmap c"
    using bitmap_tree_remove [of media_tag_cfg c "media_tag_hdr c" "media_tag_lba (sb c)" "(i, t)"] R(1)
    by (auto simp: slot_remove_def media_tag_slot_def split: prod.splits)
  then have U: "used c1 p = used c p" for p by (simp add: used_def)
  obtain c0 where c0: "outside (own \<union> {hlba media_tag_slot (sb c)}) c c0" "c1 = hset media_tag_slot (hget media_tag_slot c1) c0"
    using R(2) by (auto simp: touches_def)
  have sv: "same_volume c0 c1" using media_tag.set_volume c0(2) by metis
  have d0: "dev_ok c0" using E1(1) same_volume_blocks(5) [OF sv] by simp
  have B1: "tag_tree_blocks c1 own1 fl1 = ?B" using R(4) sb1 by auto
  have keep: "tag_data c1 (media_tag_dec y) = tag_data c (media_tag_dec y) \<and> tag_ok c1 ?B (media_tag_dec y)" if "y \<in> set rs" for y
  proof -
    have ok: "tag_ok c ?B (media_tag_dec y)" using tg(1) that by (simp add: tags_ok_def)
    have "own \<union> {hlba media_tag_slot (sb c)} \<subseteq> ?B" by (auto simp: media_tag_slot_def)
    from tag_ok_apart [OF ok this] tag_ok_apart [OF ok subset_refl]
    have "ext_of (media_tag_dec y) \<inter> unat ` (own \<union> {hlba media_tag_slot (sb c)}) = {}" "ext_of (media_tag_dec y) \<inter> unat ` ?B = {}" .
    with tag_keep [OF ok c0(1) sv E(1) d0 E(3,4)] show ?thesis by blast
  qed
  have xr: "x \<in> set rs" "rec_key media_tag_cfg x = (i, t)" using x rmap_Some [OF E(6)] by auto
  let ?c = "media_tag_free_external c1 (media_tag_dec x)"
  have okx: "tag_ok c1 ?B (media_tag_dec x)" using keep xr(1) by blast
  note Fx = free_external_spec [OF okx _ E1(2)]
  obtain bm where bm: "?c = c1\<lparr>bitmap := bm\<rparr>" using Fx(1) by auto
  have used': "used ?c p \<longleftrightarrow> used c p \<and> p \<notin> ext_of (media_tag_dec x)" for p using Fx(3) U by simp
  have d: "media_tag_tree_delete c i t = (OBMAFS3_OK, ?c)" using R(1) by (simp add: media_tag_tree_delete_def)
  have "used ?c (unat l)" if "l \<in> insert 0 (insert (media_tag_lba (sb c1)) (own1 \<union> set fl1))" for l
  proof -
    have l: "l \<in> ?B" using that B1 by auto
    then have "unat l \<notin> ext_of (media_tag_dec x)" using okx by (auto simp: tag_ok_def)
    then show ?thesis using used' E(7) l by blast
  qed
  then have dh: "slot_dholds media_tag_slot media_tag_cfg (\<lambda>_. True) False ?c lv1 own1 fl1 ?rs"
    using R(3) Fx(2) unfolding slot_dholds_def bm by (intro dholds_released) (auto simp: media_tag_slot_def)
  have sv': "same_volume c1 (?c\<lparr>bitmap := bitmap c1\<rparr>)" by (simp add: bm same_volume_def)
  have keep': "tag_data ?c (media_tag_dec y) = tag_data c (media_tag_dec y) \<and> tag_ok ?c ?B (media_tag_dec y)" if y: "y \<in> set ?rs" for y
  proof -
    have yr: "y \<in> set rs" "rec_key media_tag_cfg y \<noteq> (i, t)" using y by (simp_all add: del_rec_def)
    have "ext_of (media_tag_dec y) \<inter> ext_of (media_tag_dec x) = {}" using tg(1) yr xr by (simp add: tags_ok_def)
    then have ok2: "tag_ok ?c ?B (media_tag_dec y)"
      using keep [OF yr(1)] used' U by (auto simp: tag_ok_def area_in_def bm split: if_splits)
    have "tag_data ?c (media_tag_dec y) = tag_data c1 (media_tag_dec y)"
      using keep [OF yr(1)] ok2 E1 by (intro tag_data_frame [of c1 ?B _ _ ?B]) (auto simp: bm dev_ok_def)
    then show ?thesis using keep [OF yr(1)] ok2 by simp
  qed
  have sbc: "sb ?c = sb c" by (simp add: bm sb1)
  have "tag_tree_blocks ?c own1 fl1 = ?B" using B1 sb1 sbc by simp
  moreover have "tags_ok ?c ?B ?rs"
    using keep' tg(1) del_rec_subset(1) [of "rec_key media_tag_cfg" "(i, t)" rs] unfolding tags_ok_def by blast
  ultimately have tg': "tags_ok ?c (tag_tree_blocks ?c own1 fl1) ?rs" by simp
  have rm: "rmap media_tag_cfg ?rs = (rmap media_tag_cfg rs)((i, t) := None)" by (rule rmap_del_rec [OF E(6)])
  have ne': "media_tag_lba (sb ?c) \<noteq> 0" using tg(2) sbc by simp
  note G = media_tag_get_holds [OF sh tg(2)] and G' = media_tag_get_holds [OF media_tag.holds_of_dholds [OF dh] ne']
  have srt': "sorted_wrt (<) (map (rec_key media_tag_cfg) ?rs)" by (rule tag_env(6) [OF media_tag.holds_of_dholds [OF dh]])
  have "obmafs3_media_tag_get ?c j s = (if (j, s) = (i, t) then Some (Inl OBMAFS3_ERR_NOTFOUND) else obmafs3_media_tag_get c j s)" for j s
  proof (cases "rmap media_tag_cfg ?rs (j, s)")
    case None
    then show ?thesis using G [of j s] G' [of j s] rm by (auto split: if_splits)
  next
    case (Some y)
    then have "y \<in> set ?rs" using rmap_Some [OF srt'] by blast
    then show ?thesis using Some keep' [of y] G [of j s] G' [of j s] rm by (auto split: if_splits)
  qed
  then show ?thesis using that [OF d dh R(5,4) sbc tg' used'] by blast
qed

text \<open>The blocks of all tags of an inode.\<close>

definition exts :: "u64 \<Rightarrow> bytes list \<Rightarrow> nat set" where
  "exts i rs = (\<Union>x \<in> {x \<in> set rs. fst (rec_key media_tag_cfg x) = i}. ext_of (media_tag_dec x))"

lemma delete_tags_all:
  assumes "slot_dholds media_tag_slot media_tag_cfg (\<lambda>_. True) b c lv own fl rs" "lv \<le> 1" "card (own \<union> set fl) + 2 < 2 ^ 32"
    and "tags_ok c (tag_tree_blocks c own fl) rs" "media_tag_lba (sb c) \<noteq> 0"
  shows "\<exists>c'. delete_tags c i = Some (OBMAFS3_OK, c') \<and>
     (\<forall>j s. obmafs3_media_tag_get c' j s = (if j = i then Some (Inl OBMAFS3_ERR_NOTFOUND) else obmafs3_media_tag_get c j s)) \<and>
     (\<forall>p. used c' p \<longleftrightarrow> used c p \<and> p \<notin> exts i rs)"
  using assms
proof (induction "length (types_of i rs)" arbitrary: b c lv own fl rs rule: less_induct)
  case less
  note sh = media_tag.holds_of_dholds [OF less.prems(1)]
  note L = media_tag_list_types [OF sh less.prems(5), of i] and G = media_tag_get_holds [OF sh less.prems(5)]
  note srt = tag_env(6) [OF sh]
  have fin: "distinct fl" "finite own" using holds_reserve sh unfolding slot_holds_def by blast+
  show ?case
  proof (cases "types_of i rs")
    case Nil
    then have no: "\<not> (x \<in> set rs \<and> fst (rec_key media_tag_cfg x) = i)" for x by (auto simp: types_of_def filter_empty_conv)
    then have "exts i rs = {}" by (auto simp: exts_def)
    moreover have "rmap media_tag_cfg rs (i, s) = None" for s using no by (fastforce simp: rmap_None)
    moreover have "delete_tags c i = Some (OBMAFS3_OK, c)" using L Nil by (subst delete_tags.simps) simp
    ultimately show ?thesis using G by simp
  next
    case (Cons t ts)
    then have "t \<in> set (types_of i rs)" by simp
    then obtain x where "x \<in> set rs" "fst (rec_key media_tag_cfg x) = i" "snd (rec_key media_tag_cfg x) = t" unfolding types_of_def by auto
    then have x: "x \<in> set rs" "rec_key media_tag_cfg x = (i, t)" by auto
    then have rx: "rmap media_tag_cfg rs (i, t) = Some x" using rmap_Some [OF srt] by simp
    have "length fl \<le> card (own \<union> set fl)" using fin by (metis card_mono distinct_card finite_Un finite_set sup_ge2)
    then have lf: "length fl + 2 < 2 ^ 32" using less.prems(3) by linarith
    let ?rs = "del_rec (rec_key media_tag_cfg) (i, t) rs"
    obtain c1 lv1 own1 fl1 where D: "media_tag_tree_delete c i t = (OBMAFS3_OK, c1)"
      "slot_dholds media_tag_slot media_tag_cfg (\<lambda>_. True) False c1 lv1 own1 fl1 ?rs" "lv1 \<le> lv"
      "own1 \<union> set fl1 = own \<union> set fl" "sb c1 = sb c" "tags_ok c1 (tag_tree_blocks c1 own1 fl1) ?rs"
      "\<And>p. used c1 p \<longleftrightarrow> used c p \<and> p \<notin> ext_of (media_tag_dec x)"
      "\<And>j s. obmafs3_media_tag_get c1 j s = (if (j, s) = (i, t) then Some (Inl OBMAFS3_ERR_NOTFOUND) else obmafs3_media_tag_get c j s)"
      by (rule delete_tag [OF less.prems(1,2) lf less.prems(4,5) rx]) blast
    have "length (filter (\<lambda>y. fst (rec_key media_tag_cfg y) = i) ?rs) < length (filter (\<lambda>y. fst (rec_key media_tag_cfg y) = i) rs)"
    proof -
      have eq: "filter (\<lambda>y. fst (rec_key media_tag_cfg y) = i) ?rs = filter (\<lambda>y. rec_key media_tag_cfg y \<noteq> (i, t)) (filter (\<lambda>y. fst (rec_key media_tag_cfg y) = i) rs)"
        by (simp add: del_rec_def conj_commute)
      show ?thesis unfolding eq using x by (intro length_filter_less [of x]) simp_all
    qed
    then have sm: "length (types_of i ?rs) < length (types_of i rs)" by (simp add: types_of_def)
    have p: "lv1 \<le> 1" "card (own1 \<union> set fl1) + 2 < 2 ^ 32" "media_tag_lba (sb c1) \<noteq> 0" using D(3-5) less.prems(2,3,5) by simp_all
    obtain c2 where IH: "delete_tags c1 i = Some (OBMAFS3_OK, c2)"
      "\<forall>j s. obmafs3_media_tag_get c2 j s = (if j = i then Some (Inl OBMAFS3_ERR_NOTFOUND) else obmafs3_media_tag_get c1 j s)"
      "\<forall>p. used c2 p \<longleftrightarrow> used c1 p \<and> p \<notin> exts i ?rs"
      using less.hyps [OF sm D(2) p(1,2) D(6) p(3)] by blast
    have e: "exts i rs = ext_of (media_tag_dec x) \<union> exts i ?rs"
    proof -
      have fx: "fst (rec_key media_tag_cfg x) = i" using x(2) by simp
      have "y = x" if "y \<in> set rs" "rec_key media_tag_cfg y = (i, t)" for y
        using rmap_Some [OF srt, of "(i, t)" y] rx that by simp
      then have "{y \<in> set rs. fst (rec_key media_tag_cfg y) = i} = insert x {y \<in> set ?rs. fst (rec_key media_tag_cfg y) = i}"
        unfolding del_rec_def set_filter using x(1) fx by blast
      then show ?thesis by (simp add: exts_def)
    qed
    have "delete_tags c i = delete_tags c1 i" using L Cons D(1) by (subst delete_tags.simps) simp
    then show ?thesis using IH D(7,8) e by (intro exI [of _ c2]) auto
  qed
qed

section \<open>Properties\<close>

text \<open>
  C25: storing a tag of any length below 4 GiB, inline or in blocks of its own, either reports
  a full volume, which happens only when the reserve of nodes is short or the data need blocks
  of their own, or succeeds; then the tag reads back byte for byte, and every other tag,
  including those whose data lie in other blocks of the volume, reads as before.
\<close>

theorem media_tag_put_get:
  assumes "tag_holds b c lv own fl rs" "lv \<le> 8" "b \<or> lv \<le> 1" "length data < 2 ^ 32"
  shows "\<exists>res c'. obmafs3_media_tag_put c ino ty data = Some (res, c') \<and> ((res = OBMAFS3_ERR_NOSPC \<and> (length fl < lv + 2 \<or> MEDIA_TAG_INLINE_MAX < length data)) \<or>
    (res = OBMAFS3_OK \<and>
     (\<forall>j t. obmafs3_media_tag_get c' j t = (if (j, t) = (ino, ty) then Some (Inr data) else obmafs3_media_tag_get c j t))))"
proof -
  have sh: "slot_holds media_tag_slot media_tag_cfg (\<lambda>_. True) b c lv own fl rs" and ne: "media_tag_lba (sb c) \<noteq> 0"
    and tg: "tags_ok c (tag_tree_blocks c own fl) rs" using assms(1) by (simp_all add: tag_holds_def)
  note E = tag_env [OF sh]
  define store where "store = (\<lambda>c1. case media_tag_build_record c1 ino ty data of (Inl e, c2) \<Rightarrow> (e, c2) | (Inr r, c2) \<Rightarrow> media_tag_tree_put c2 r)"
  have lk: "media_tag_tree_lookup c ino ty = answer (map_option media_tag_dec (rmap media_tag_cfg rs (ino, ty)))"
    using media_tag.get_holds [OF sh] by (simp add: tree_lookup_eq)
  have put: "obmafs3_media_tag_put c ino ty data = Some (store (case rmap media_tag_cfg rs (ino, ty) of None \<Rightarrow> c | Some x \<Rightarrow> media_tag_free_external c (media_tag_dec x)))"
    using lk ne by (simp add: obmafs3_media_tag_put_def store_def Let_def split: option.split)
  show ?thesis
  proof (cases "rmap media_tag_cfg rs (ino, ty)")
    case None
    obtain res c' where st: "store c = (res, c')" by fastforce
    have "tag_ok c (tag_tree_blocks c own fl) (media_tag_dec x)" if "x \<in> set rs" for x using tg that by (simp add: tags_ok_def)
    from store_tag [OF sh assms(2,3) ne this assms(4) st [unfolded store_def]] show ?thesis using put None st by auto
  next
    case (Some x)
    let ?c = "media_tag_free_external c (media_tag_dec x)"
    have xr: "x \<in> set rs" "rec_key media_tag_cfg x = (ino, ty)" using Some rmap_Some [OF E(6)] by auto
    have okx: "tag_ok c (tag_tree_blocks c own fl) (media_tag_dec x)" using tg xr by (simp add: tags_ok_def)
    note Fx = free_external_spec [OF okx _ E(2)]
    obtain bm where bm: "?c = c\<lparr>bitmap := bm\<rparr>" using Fx(1) by auto
    have us: "used ?c (unat l)" if l: "l \<in> insert 0 (insert (media_tag_lba (sb c)) (own \<union> set fl))" for l
      using E(7) [of l] okx l Fx(3) by (auto simp: tag_ok_def)
    have sh': "slot_holds media_tag_slot media_tag_cfg (\<lambda>_. True) b ?c lv own fl rs"
      using sh Fx(2) us unfolding slot_holds_def bm by (intro holds_released) (auto simp: media_tag_slot_def)
    have sbc: "sb ?c = sb c" "heap_ok ?c = heap_ok c" "dev_ok ?c = dev_ok c" by (simp_all add: bm dev_ok_def)
    have oth: "tag_ok ?c (tag_tree_blocks ?c own fl) (media_tag_dec y) \<and> tag_data ?c (media_tag_dec y) = tag_data c (media_tag_dec y)"
      if y: "y \<in> set rs" "rec_key media_tag_cfg y \<noteq> (ino, ty)" for y
    proof -
      have ok: "tag_ok c (tag_tree_blocks c own fl) (media_tag_dec y)" using tg y by (simp add: tags_ok_def)
      have "ext_of (media_tag_dec y) \<inter> ext_of (media_tag_dec x) = {}" using tg y xr by (simp add: tags_ok_def)
      then have ok2: "tag_ok ?c (tag_tree_blocks ?c own fl) (media_tag_dec y)"
        using ok Fx(3) unfolding tag_ok_def area_in_def sbc by (auto split: if_splits)
      then show ?thesis using ok E sbc by (intro conjI tag_data_frame [OF ok ok2]) (auto simp: bm)
    qed
    obtain res c' where st: "store ?c = (res, c')" by fastforce
    have ne': "media_tag_lba (sb ?c) \<noteq> 0" using ne sbc by simp
    have "obmafs3_media_tag_get ?c j t = obmafs3_media_tag_get c j t" if "(j, t) \<noteq> (ino, ty)" for j t
    proof (cases "rmap media_tag_cfg rs (j, t)")
      case (Some y)
      then show ?thesis using rmap_Some [OF E(6), of "(j, t)" y] oth [of y] that media_tag_get_holds [OF sh ne, of j t] media_tag_get_holds [OF sh' ne', of j t] by auto
    qed (use media_tag_get_holds [OF sh ne, of j t] media_tag_get_holds [OF sh' ne', of j t] in simp)
    with store_tag [OF sh' assms(2,3) ne' _ assms(4) st [unfolded store_def]] oth show ?thesis using put Some st by auto
  qed
qed

definition tag_ctx :: "btree_header \<Rightarrow> ctx" where
  "tag_ctx h = reserve_ctx\<lparr>media_tag_hdr := h, sb := (sb reserve_ctx)\<lparr>media_tag_lba := 1\<rparr>\<rparr>"

lemma tag_ctx_facts: "reserve_volume (tag_ctx h)" "fits_reserve media_tag_cfg" "media_tag_hdr (tag_ctx h) = h" "media_tag_lba (sb (tag_ctx h)) = 1"
  by (simp_all add: reserve_volume_def tag_ctx_def same_volume_def reserve_ctx_def blank_ctx_def fits_reserve_def media_tag_cfg_def nh_size_def)

lemma tag_ctx_holds: "tag_holds b (tag_ctx reserve_hdr) 0 {} [2, 3] []"
  using reserve_world(1) [OF tag_ctx_facts(1,2)]
  by (simp add: tag_holds_def tags_ok_def slot_holds_def holds_def media_tag_slot_def tag_ctx_facts) (simp add: reserve_hdr_def zero_hdr_def)

theorem media_tag_put_get_witness:
  "\<exists>c'. obmafs3_media_tag_put (tag_ctx reserve_hdr) 7 4 [1, 2, 3] = Some (OBMAFS3_OK, c') \<and> obmafs3_media_tag_get c' 7 4 = Some (Inr [1, 2, 3])"
  using media_tag_put_get [OF tag_ctx_holds [of True], of "[1, 2, 3]" 7 4] by (auto simp: MEDIA_TAG_INLINE_MAX_def)

text \<open>
  C26: listing the tags of an inode returns exactly the types for which a lookup finds a tag,
  each once, in ascending order.
\<close>

theorem media_tag_list_complete:
  assumes "tag_holds b c lv own fl rs"
  shows "\<exists>ts. obmafs3_media_tag_list c ino = Some (Inr ts) \<and> sorted_wrt (<) ts \<and>
    (\<forall>t. t \<in> set ts \<longleftrightarrow> obmafs3_media_tag_get c ino t \<noteq> Some (Inl OBMAFS3_ERR_NOTFOUND))"
proof -
  have sh: "slot_holds media_tag_slot media_tag_cfg (\<lambda>_. True) b c lv own fl rs" and ne: "media_tag_lba (sb c) \<noteq> 0"
    and tg: "tags_ok c (tag_tree_blocks c own fl) rs" using assms(1) by (simp_all add: tag_holds_def)
  note E = tag_env [OF sh]
  have "sorted_wrt (\<lambda>x y. rec_key media_tag_cfg x < rec_key media_tag_cfg y) (filter (\<lambda>x. fst (rec_key media_tag_cfg x) = ino) rs)"
    using E(6) by (intro sorted_wrt_filter) (simp add: sorted_wrt_map)
  then have "sorted_wrt (\<lambda>x y. snd (rec_key media_tag_cfg x) < snd (rec_key media_tag_cfg y)) (filter (\<lambda>x. fst (rec_key media_tag_cfg x) = ino) rs)"
    by (rule sorted_wrt_mono_rel [rotated]) (auto simp: less_prod_def)
  then have srt: "sorted_wrt (<) (types_of ino rs)" by (simp add: types_of_def sorted_wrt_map)
  have "t \<in> set (types_of ino rs) \<longleftrightarrow> obmafs3_media_tag_get c ino t \<noteq> Some (Inl OBMAFS3_ERR_NOTFOUND)" for t
  proof (cases "rmap media_tag_cfg rs (ino, t)")
    case None
    then have "t \<notin> set (types_of ino rs)" by (auto simp: rmap_None types_of_def prod_eq_iff)
    then show ?thesis using media_tag_get_holds [OF sh ne, of ino t] None by simp
  next
    case (Some x)
    then have x: "x \<in> set rs" "rec_key media_tag_cfg x = (ino, t)" using rmap_Some [OF E(6)] by auto
    then have "t \<in> set (types_of ino rs)" by (force simp: types_of_def)
    moreover have "tag_ok c (tag_tree_blocks c own fl) (media_tag_dec x)" using tg x by (simp add: tags_ok_def)
    ultimately show ?thesis using media_tag_get_holds [OF sh ne, of ino t] Some tag_data_ok [OF _ E(1,3,4)] by auto
  qed
  then show ?thesis using media_tag_list_types [OF sh ne] srt by blast
qed

text \<open>A tree of one leaf with one tag, whose 600 bytes lie in block 3.\<close>

definition demo_tag :: media_tag_record where
  "demo_tag = \<lparr>mt_inode_id = 7, tag_type = 4, data_length = 600, mt_flags = 0, data_lba = 3, data_blocks = 1,
     inline_data = replicate MEDIA_TAG_INLINE_MAX 0\<rparr>"

definition tag_one :: ctx where
  "tag_one = wrote (tag_ctx (zero_hdr\<lparr>root_node_lba := 2, total_nodes := 1\<rparr>)) 2
     (fresh_image media_tag_cfg (tag_ctx (zero_hdr\<lparr>root_node_lba := 2, total_nodes := 1\<rparr>)) 0 1 (rec_sz media_tag_cfg) 0 0 (media_tag_enc demo_tag))"

lemma demo_tag_facts: "tag_enc_ok demo_tag" "ext_of demo_tag = {3}" "rec_key media_tag_cfg (media_tag_enc demo_tag) = (7, 4)"
  "media_tag_dec (media_tag_enc demo_tag) = demo_tag"
proof -
  show ok: "tag_enc_ok demo_tag" by (simp add: demo_tag_def tag_enc_ok_def)
  show "ext_of demo_tag = {3}" by (auto simp: demo_tag_def ext_of_def is_external_def)
  show "rec_key media_tag_cfg (media_tag_enc demo_tag) = (7, 4)" using media_tag.enc_key [OF ok] by (simp add: demo_tag_def)
  show "media_tag_dec (media_tag_enc demo_tag) = demo_tag" by (rule media_tag_dec_enc [OF ok])
qed

lemma tag_one_dholds: "slot_dholds media_tag_slot media_tag_cfg (\<lambda>_. True) True tag_one 0 {2} [] [media_tag_enc demo_tag]"
proof -
  let ?h = "zero_hdr\<lparr>root_node_lba := 2, total_nodes := 1\<rparr>"
  have w: "world media_tag_cfg (tag_ctx ?h) ?h 1 {2} []" using reserve_world(2) [OF tag_ctx_facts(1,2), of 1 "{2}" ?h 1 2] by simp
  from one_leaf [where vk = "\<lambda>_. True" and b = True, OF w _ media_tag.enc_size [OF demo_tag_facts(1)]] show ?thesis
    by (simp add: slot_dholds_def media_tag_slot_def tag_one_def wrote_def tag_ctx_facts)
qed

lemma tag_one_tags: "media_tag_lba (sb tag_one) = 1" "used tag_one 3" "tags_ok tag_one (tag_tree_blocks tag_one {2} []) [media_tag_enc demo_tag]"
proof -
  note F = reserve_facts [OF tag_ctx_facts(1)]
  show l: "media_tag_lba (sb tag_one) = 1" by (simp add: tag_one_def tag_ctx_facts)
  show u: "used tag_one 3" using F(5) by (simp add: tag_one_def)
  have "unat (max_lba tag_one) = 16" "bsz tag_one = 1024"
    using tag_ctx_facts(1) by (simp_all add: tag_one_def reserve_volume_def)
  then have "area_in tag_one 3 1" "bsz tag_one = 1024" by (simp_all add: area_in_def)
  then show "tags_ok tag_one (tag_tree_blocks tag_one {2} []) [media_tag_enc demo_tag]"
    using u by (simp add: tags_ok_def tag_ok_def demo_tag_facts l) (simp add: demo_tag_def is_external_def)
qed

theorem media_tag_list_complete_witness:
  "\<exists>ts. obmafs3_media_tag_list tag_one 7 = Some (Inr ts) \<and> 4 \<in> set ts"
proof -
  have h: "tag_holds True tag_one 0 {2} [] [media_tag_enc demo_tag]"
    using media_tag.holds_of_dholds [OF tag_one_dholds] tag_one_tags by (simp add: tag_holds_def)
  have "rmap media_tag_cfg [media_tag_enc demo_tag] (7, 4) = Some (media_tag_enc demo_tag)" by (simp add: rmap_def demo_tag_facts)
  moreover have "tag_data tag_one demo_tag \<noteq> Inl OBMAFS3_ERR_NOTFOUND"
  proof -
    have "tag_ok tag_one (tag_tree_blocks tag_one {2} []) demo_tag" using tag_one_tags(3) by (simp add: tags_ok_def demo_tag_facts)
    from tag_data_ok [OF this] show ?thesis using tag_env(1,3,4) [OF media_tag.holds_of_dholds [OF tag_one_dholds]] by simp
  qed
  ultimately have "obmafs3_media_tag_get tag_one 7 4 \<noteq> Some (Inl OBMAFS3_ERR_NOTFOUND)"
    using media_tag_get_holds [OF media_tag.holds_of_dholds [OF tag_one_dholds], of 7 4] tag_one_tags(1) by (simp add: demo_tag_facts)
  then show ?thesis using media_tag_list_complete [OF h, of 7] by auto
qed



end
