(* ===== verification/Overflow.thy ===== *)
theory Overflow
  imports MediaTag
begin

text \<open>
  The overflow tree of src/src/lib/block.c: the extents of a file beyond the eight its inode
  holds, under the inode number and the first logical block they cover. Searches go to the
  leftmost leaf that can hold the inode and follow the chain of leaves.
\<close>

section \<open>The record\<close>

text \<open>struct overflow\_extent and struct extent\_descriptor.\<close>

record overflow_extent =
  oe_inode_id :: u64
  logical_offset :: u64
  oe_start_block :: u64
  oe_block_count :: u64
  oe_logical_count :: u64

record extent_descriptor =
  logical_start :: u64
  logical_count :: u64
  phys_start :: u64
  phys_count :: u64

definition overflow_enc :: "overflow_extent \<Rightarrow> bytes" where
  "overflow_enc r = le_enc 8 (oe_inode_id r) @ le_enc 8 (logical_offset r) @ le_enc 8 (oe_start_block r) @
     le_enc 8 (oe_block_count r) @ le_enc 8 (oe_logical_count r)"

definition overflow_dec :: "bytes \<Rightarrow> overflow_extent" where
  "overflow_dec b = \<lparr>oe_inode_id = u64at 0 b, logical_offset = u64at 8 b, oe_start_block = u64at 16 b,
     oe_block_count = u64at 24 b, oe_logical_count = u64at 32 b\<rparr>"

definition descr :: "overflow_extent \<Rightarrow> extent_descriptor" where
  "descr oe = \<lparr>logical_start = logical_offset oe, logical_count = oe_logical_count oe,
     phys_start = oe_start_block oe, phys_count = oe_block_count oe\<rparr>"

text \<open>struct overflow\_index\_entry; the keys compare by inode, then by logical offset.\<close>

definition overflow_cfg :: "(u64 \<times> u64) tree_cfg" where
  "overflow_cfg = \<lparr>rec_sz = 40, ie_sz = 24, rec_key = (\<lambda>r. (u64at 0 r, u64at 8 r)), ie_key = (\<lambda>e. (u64at 0 e, u64at 8 e)),
     ie_child = (\<lambda>e. u64at 16 e), mk_ie = (\<lambda>k l. le_enc 8 (fst k) @ le_enc 8 (snd k) @ le_enc 8 l),
     set_ie_key = (\<lambda>k e. put 0 (le_enc 8 (fst k) @ le_enc 8 (snd k)) e), cfg_type = 2\<rparr>"

definition overflow_slot :: hdr_slot where
  "overflow_slot = \<lparr>hget = overflow_hdr, hset = (\<lambda>h c. c\<lparr>overflow_hdr := h\<rparr>), hlba = overflow_lba\<rparr>"

definition overflow_insert :: "ctx \<Rightarrow> overflow_extent \<Rightarrow> rc \<times> ctx" where
  "overflow_insert c entry = slot_put overflow_slot overflow_cfg c (overflow_enc entry)"

section \<open>Searching\<close>

text \<open>The rightmost child whose key has a smaller inode.\<close>

function find_left_loop :: "bytes \<Rightarrow> u64 \<Rightarrow> nat \<Rightarrow> int \<Rightarrow> int \<Rightarrow> nat" where
  "find_left_loop dat ino result lo hi =
     (if lo \<le> hi then
        let mid = lo + (hi - lo) div 2
        in if u64at 0 (slot 24 (nat mid) dat) < ino then find_left_loop dat ino (nat mid) (mid + 1) hi
           else find_left_loop dat ino result lo (mid - 1)
      else result)"
  by pat_completeness auto
termination
  by (relation "measure (\<lambda>(_, _, _, lo, hi). nat (hi - lo + 1))") auto

declare find_left_loop.simps [simp del]

definition overflow_index_find_left :: "bytes \<Rightarrow> u16 \<Rightarrow> u64 \<Rightarrow> nat" where
  "overflow_index_find_left buf nk ino = find_left_loop (ndata buf) ino 0 0 (int (unat nk) - 1)"

text \<open>
  The descent to the first leaf of an inode. The searches check the magic number of the nodes
  on the way (\<open>chk\<close>), the collecting and clearing functions do not.
\<close>

partial_function (option) overflow_descend :: "bool \<Rightarrow> ctx \<Rightarrow> u64 \<Rightarrow> u64 \<Rightarrow> (rc + u64) option" where
  [code]: "overflow_descend chk c lba ino =
     (case obmafs3_block_read c lba (bsz c) of
        Inl e \<Rightarrow> Some (Inl e)
      | Inr buf \<Rightarrow>
          if chk \<and> nh_magic (nh_dec buf) \<noteq> OBMAFS3_BTREE_NODE_MAGIC then Some (Inl OBMAFS3_ERR_BADMAGIC)
          else if level (nh_dec buf) = 0 then Some (Inr lba)
          else overflow_descend chk c (u64at 16 (slot 24 (overflow_index_find_left buf (node_keys (nh_dec buf)) ino) (ndata buf))) ino)"

definition leaf_extents :: "bytes \<Rightarrow> overflow_extent list" where
  "leaf_extents buf = map overflow_dec (slots 40 (unat (node_keys (nh_dec buf))) (ndata buf))"

text \<open>
  The walk along the leaves from \<open>lba\<close>. The work on a leaf gives the new result and whether to
  stop; an unreadable leaf ends the walk with what has been found so far.
\<close>

partial_function (option) walk_leaves :: "(bytes \<Rightarrow> 'a \<Rightarrow> 'a \<times> bool) \<Rightarrow> ctx \<Rightarrow> u64 \<Rightarrow> 'a \<Rightarrow> 'a option" where
  [code]: "walk_leaves work c lba s =
     (if lba = 0 then Some s
      else case obmafs3_block_read c lba (bsz c) of
        Inl e \<Rightarrow> Some s
      | Inr buf \<Rightarrow>
          (case work buf s of (s', stop) \<Rightarrow>
             if stop then Some s' else walk_leaves work c (right_link (nh_dec buf)) s'))"

fun find_in :: "u64 \<Rightarrow> u64 \<Rightarrow> overflow_extent list \<Rightarrow> extent_descriptor option \<times> bool" where
  "find_in ino lb [] = (None, False)"
| "find_in ino lb (oe # oes) =
     (if oe_inode_id oe < ino then find_in ino lb oes
      else if ino < oe_inode_id oe then (None, True)
      else if logical_offset oe \<le> lb \<and> lb < logical_offset oe + oe_logical_count oe then (Some (descr oe), True)
      else find_in ino lb oes)"

definition overflow_find_extent :: "ctx \<Rightarrow> u64 \<Rightarrow> u64 \<Rightarrow> extent_descriptor option option" where
  "overflow_find_extent c ino lb =
     (if root_node_lba (overflow_hdr c) = 0 then Some None
      else case overflow_descend True c (root_node_lba (overflow_hdr c)) ino of
        None \<Rightarrow> None
      | Some (Inl e) \<Rightarrow> Some None
      | Some (Inr lba) \<Rightarrow> walk_leaves (\<lambda>buf s. find_in ino lb (leaf_extents buf)) c lba None)"

fun count_in :: "u64 \<Rightarrow> overflow_extent list \<Rightarrow> u64 \<Rightarrow> u64 \<times> bool" where
  "count_in ino [] tot = (tot, False)"
| "count_in ino (oe # oes) tot =
     (if oe_inode_id oe < ino then count_in ino oes tot
      else if ino < oe_inode_id oe then (tot, True)
      else count_in ino oes (tot + oe_logical_count oe))"

definition overflow_count_logical :: "ctx \<Rightarrow> u64 \<Rightarrow> u64 option" where
  "overflow_count_logical c ino =
     (if root_node_lba (overflow_hdr c) = 0 then Some 0
      else case overflow_descend True c (root_node_lba (overflow_hdr c)) ino of
        None \<Rightarrow> None
      | Some (Inl e) \<Rightarrow> Some 0
      | Some (Inr lba) \<Rightarrow>
          walk_leaves (\<lambda>buf tot. if nh_magic (nh_dec buf) \<noteq> OBMAFS3_BTREE_NODE_MAGIC then (tot, True)
                                   else count_in ino (leaf_extents buf) tot) c lba 0)"

fun collect_in :: "u64 \<Rightarrow> overflow_extent list \<Rightarrow> extent_descriptor list \<times> bool" where
  "collect_in ino [] = ([], False)"
| "collect_in ino (oe # oes) =
     (if oe_inode_id oe < ino then collect_in ino oes
      else if ino < oe_inode_id oe then ([], True)
      else (case collect_in ino oes of (ds, past) \<Rightarrow> (descr oe # ds, past)))"

text \<open>The growing array of the code is a list; \<open>heap_ok\<close> says whether it can be allocated.\<close>

definition overflow_collect_extents :: "ctx \<Rightarrow> u64 \<Rightarrow> (rc + extent_descriptor list) option" where
  "overflow_collect_extents c ino =
     (if root_node_lba (overflow_hdr c) = 0 then Some (Inr [])
      else if \<not> heap_ok c then Some (Inl OBMAFS3_ERR_NOMEM)
      else case overflow_descend False c (root_node_lba (overflow_hdr c)) ino of
        None \<Rightarrow> None
      | Some (Inl e) \<Rightarrow> Some (Inl e)
      | Some (Inr lba) \<Rightarrow>
          map_option Inr (walk_leaves (\<lambda>buf exts. case collect_in ino (leaf_extents buf) of (ds, past) \<Rightarrow> (exts @ ds, past)) c lba []))"

text \<open>
  Clearing: the records of other inodes move up in their leaf, the room behind them is zeroed.
  \<open>shrunk_image\<close> of one record less is here the image of any smaller number of records.
\<close>

definition compact_leaf :: "ctx \<Rightarrow> bytes \<Rightarrow> u64 \<Rightarrow> bytes" where
  "compact_leaf c buf ino =
     (let old = slots 40 (unat (node_keys (nh_dec buf))) (ndata buf);
          keep = filter (\<lambda>r. oe_inode_id (overflow_dec r) \<noteq> ino) old;
          wp = length keep;
          body = put nh_size (concat keep @ replicate ((length old - wp) * 40) 0) buf;
          nhdr = (nh_dec buf)\<lparr>node_keys := of_nat wp, keys_length := of_nat (wp * 40)\<rparr>
      in compute_node_checksum (xxh64 c) (put 0 (nh_enc nhdr) body))"

partial_function (option) clear_leaves :: "ctx \<Rightarrow> u64 \<Rightarrow> u64 \<Rightarrow> (rc \<times> ctx) option" where
  [code]: "clear_leaves c lba ino =
     (if lba = 0 then Some (OBMAFS3_OK, c)
      else case obmafs3_block_read c lba (bsz c) of
        Inl e \<Rightarrow> Some (e, c)
      | Inr buf \<Rightarrow>
          let oes = leaf_extents buf;
              (rc, c1) = (if \<exists>oe \<in> set oes. oe_inode_id oe = ino then obmafs3_block_write c lba (compact_leaf c buf ino)
                          else (OBMAFS3_OK, c))
          in if rc \<noteq> OBMAFS3_OK then Some (rc, c1)
             else if \<exists>oe \<in> set oes. ino < oe_inode_id oe then Some (OBMAFS3_OK, c1)
             else clear_leaves c1 (right_link (nh_dec buf)) ino)"

definition overflow_clear_inode :: "ctx \<Rightarrow> u64 \<Rightarrow> (rc \<times> ctx) option" where
  "overflow_clear_inode c ino =
     (if root_node_lba (overflow_hdr c) = 0 then Some (OBMAFS3_OK, c)
      else if \<not> heap_ok c then Some (OBMAFS3_ERR_NOMEM, c)
      else case overflow_descend False c (root_node_lba (overflow_hdr c)) ino of
        None \<Rightarrow> None
      | Some (Inl e) \<Rightarrow> Some (e, c)
      | Some (Inr lba) \<Rightarrow> clear_leaves c lba ino)"

section \<open>The contract\<close>

lemma overflow_dec_enc: "overflow_dec (overflow_enc r) = r"
  by (simp add: overflow_enc_def overflow_dec_def codec_simps del: le_enc.simps)

lemma overflow_layout: "tree_layout overflow_cfg (\<lambda>_. True)"
  by unfold_locales (auto simp: overflow_cfg_def codec_simps fld_put_same fld_put_other put_def fld_def simp del: le_enc.simps)

interpretation overflow: record_store overflow_cfg "\<lambda>_. True" overflow_slot overflow_enc overflow_dec "\<lambda>r. (oe_inode_id r, logical_offset r)" id "\<lambda>_. True"
proof -
  have T: "tree_store overflow_cfg (\<lambda>_. True) overflow_slot"
    by (rule tree_store.intro [OF overflow_layout]) (unfold_locales, simp_all add: overflow_slot_def same_volume_def)
  have c: "length (overflow_enc r) = 40" "rec_key overflow_cfg (overflow_enc r) = (oe_inode_id r, logical_offset r)" for r
    by (auto simp: overflow_cfg_def overflow_enc_def codec_simps simp del: le_enc.simps)
  show "record_store overflow_cfg (\<lambda>_. True) overflow_slot overflow_enc overflow_dec (\<lambda>r. (oe_inode_id r, logical_offset r)) id (\<lambda>_. True)"
    by (rule record_store.intro [OF T], unfold_locales)
      (use c overflow_dec_enc in \<open>auto simp: overflow_slot_def\<close>, simp add: overflow_cfg_def)
qed

section \<open>The descent\<close>

lemma key_below_inode: "ino \<noteq> 0 \<Longrightarrow> (a, b) \<le> (ino - 1, - 1 :: u64) \<longleftrightarrow> a < (ino :: u64)"
proof -
  assume "ino \<noteq> 0"
  then have "a \<le> ino - 1 \<longleftrightarrow> a < ino" by (simp add: word_le_nat_alt word_less_nat_alt unat_minus_one) (metis Suc_pred less_Suc_eq_le unat_gt_0 word_gt_0)
  then show ?thesis by (auto simp: less_eq_prod_def)
qed

lemma find_left_loop_eq: "ino \<noteq> 0 \<Longrightarrow> find_left_loop dat ino r lo hi = index_loop overflow_cfg dat (ino - 1, -1) r lo hi"
proof (induction dat ino r lo hi rule: find_left_loop.induct)
  case (1 dat ino r lo hi)
  let ?mid = "lo + (hi - lo) div 2"
  have k: "ie_key overflow_cfg (slot (ie_sz overflow_cfg) (nat ?mid) dat) \<le> (ino - 1, -1) \<longleftrightarrow> u64at 0 (slot 24 (nat ?mid) dat) < ino"
    using key_below_inode [OF 1(3)] by (simp add: overflow_cfg_def)
  show ?case
    by (subst find_left_loop.simps, subst index_loop.simps) (use 1 k in \<open>auto simp: Let_def\<close>)
qed

lemma find_left_eq: "ino \<noteq> 0 \<Longrightarrow> overflow_index_find_left buf nk ino = index_find overflow_cfg buf nk (ino - 1, -1)"
  by (simp add: overflow_index_find_left_def index_find_def find_left_loop_eq)

lemma overflow_descend_same:
  assumes "tree_descend overflow_cfg c cur (ino - 1, -1) = Some (Inr (l, buf))" "ino \<noteq> 0"
  shows "overflow_descend chk c cur ino = Some (Inr l)"
proof -
  have "tree_descend g c cur k = Some y \<Longrightarrow> g = overflow_cfg \<and> k = (ino - 1, -1) \<and> y = Inr (l, buf) \<longrightarrow> overflow_descend chk c cur ino = Some (Inr l)" for g k y
  proof (erule tree_descend.raw_induct [rotated])
    fix td g c cur k y
    assume IH: "\<And>g c cur k y. td g c cur k = Some y \<Longrightarrow> g = overflow_cfg \<and> k = (ino - 1, -1) \<and> y = Inr (l, buf) \<longrightarrow> overflow_descend chk c cur ino = Some (Inr l)"
      and step: "(case obmafs3_block_read c cur (bsz c) of Inl e \<Rightarrow> Some (Inl e)
        | Inr buf \<Rightarrow> if nh_magic (nh_dec buf) \<noteq> OBMAFS3_BTREE_NODE_MAGIC then Some (Inl OBMAFS3_ERR_BADMAGIC)
            else if 0 < level (nh_dec buf) then td g c (ie_child g (slot (ie_sz g) (index_find g buf (node_keys (nh_dec buf)) k) (ndata buf))) k
            else Some (Inr (cur, buf))) = Some y"
    show "g = overflow_cfg \<and> k = (ino - 1, -1) \<and> y = Inr (l, buf) \<longrightarrow> overflow_descend chk c cur ino = Some (Inr l)"
    proof
      assume a: "g = overflow_cfg \<and> k = (ino - 1, -1) \<and> y = Inr (l, buf)"
      obtain b where b: "obmafs3_block_read c cur (bsz c) = Inr b" "nh_magic (nh_dec b) = OBMAFS3_BTREE_NODE_MAGIC"
        using step a by (auto split: sum.splits if_splits)
      have ie: "ie_child overflow_cfg (slot (ie_sz overflow_cfg) i d) = u64at 16 (slot 24 i d)" for i d by (simp add: overflow_cfg_def)
      show "overflow_descend chk c cur ino = Some (Inr l)"
        using step a b IH [of overflow_cfg c _ "(ino - 1, -1)" y]
        by (subst overflow_descend.simps) (auto simp: find_left_eq [OF assms(2)] ie word_gt_0 split: if_splits)
    qed
  qed
  then show ?thesis using assms(1) by blast
qed

section \<open>The walk along the leaves\<close>

fun walk_list :: "(bytes list \<Rightarrow> 'a \<Rightarrow> 'a \<times> bool) \<Rightarrow> bytes list list \<Rightarrow> 'a \<Rightarrow> 'a" where
  "walk_list w [] s = s"
| "walk_list w (rs # rss) s = (case w rs s of (s', stop) \<Rightarrow> if stop then s' else walk_list w rss s')"

lemma leaf_extents_node: "node_is bs buf lv r (rec_sz overflow_cfg) rs \<Longrightarrow> leaf_extents buf = map overflow_dec rs"
  by (simp add: leaf_extents_def node_is_def overflow_cfg_def)

lemma walk_leaves_chain:
  assumes "leaf_chain overflow_cfg c ((l, r, rs) # ns)"
    and work: "\<And>buf r rs s. node_is (bsz c) buf 0 r (rec_sz overflow_cfg) rs \<Longrightarrow> work buf s = w rs s"
  shows "walk_leaves work c l s = Some (walk_list w (map (\<lambda>(l, r, rs). rs) ((l, r, rs) # ns)) s)"
  using assms(1)
proof (induction ns arbitrary: l r rs s)
  case Nil
  note F = leaf_chain_first [OF Nil]
  have "dev_ok c" "in_vol c l" "l \<noteq> 0" and nd: "node_is (bsz c) (blk c l) 0 r (rec_sz overflow_cfg) rs" using Nil by (auto simp: leaf_chain_def)
  then have "obmafs3_block_read c l (bsz c) = Inr (blk c l)" "l \<noteq> 0" using block_read_blk by auto
  moreover have "walk_leaves work c 0 s' = Some s'" for s' by (subst walk_leaves.simps) simp
  ultimately show ?case using F(1,3) work [OF nd] by (subst walk_leaves.simps) (simp split: prod.split)
next
  case (Cons n ns)
  obtain l' r' rs' where n: "n = (l', r', rs')" by (cases n) auto
  note F = leaf_chain_first [OF Cons.prems]
  have "dev_ok c" "in_vol c l" "l \<noteq> 0" and nd: "node_is (bsz c) (blk c l) 0 r (rec_sz overflow_cfg) rs" using Cons.prems by (auto simp: leaf_chain_def)
  then have "obmafs3_block_read c l (bsz c) = Inr (blk c l)" "l \<noteq> 0" using block_read_blk by auto
  moreover have nx: "r = l'" "leaf_chain overflow_cfg c ((l', r', rs') # ns)" using F(4) [of l' r' rs' ns] unfolding n by blast+
  ultimately show ?case using F(1) work [OF nd] Cons.IH [OF nx(2)]
    by (subst walk_leaves.simps) (simp add: n split: prod.split)
qed

definition covers :: "u64 \<Rightarrow> extent_descriptor \<Rightarrow> bool" where
  "covers lb d \<longleftrightarrow> logical_start d \<le> lb \<and> lb < logical_start d + logical_count d"

lemma collect_in_append: "collect_in ino (xs @ ys) =
    (case collect_in ino xs of (ds, past) \<Rightarrow> if past then (ds, past) else (case collect_in ino ys of (es, p) \<Rightarrow> (ds @ es, p)))"
  by (induction xs) (auto split: prod.splits)

lemma walk_collect: "walk_list (\<lambda>rs exts. case collect_in ino (map overflow_dec rs) of (ds, past) \<Rightarrow> (exts @ ds, past)) rss acc =
    acc @ fst (collect_in ino (map overflow_dec (concat rss)))"
  by (induction rss arbitrary: acc) (auto simp: collect_in_append split: prod.splits)

lemma find_in_collect: "find_in ino lb oes =
    (find (covers lb) (fst (collect_in ino oes)), find (covers lb) (fst (collect_in ino oes)) \<noteq> None \<or> snd (collect_in ino oes))"
  by (induction oes) (auto simp: covers_def descr_def split: prod.splits)

lemma find_append: "find p (xs @ ys) = (case find p xs of None \<Rightarrow> find p ys | Some x \<Rightarrow> Some x)"
  by (induction xs) auto

lemma walk_find: "walk_list (\<lambda>rs s. find_in ino lb (map overflow_dec rs)) rss None =
    find (covers lb) (fst (collect_in ino (map overflow_dec (concat rss))))"
  by (induction rss) (auto simp: collect_in_append find_in_collect find_append split: prod.splits option.splits)

lemma count_in_collect: "count_in ino oes n = (n + sum_list (map logical_count (fst (collect_in ino oes))), snd (collect_in ino oes))"
  by (induction oes arbitrary: n) (auto simp: descr_def add.assoc split: prod.splits)

lemma walk_count: "walk_list (\<lambda>rs n. count_in ino (map overflow_dec rs) n) rss n =
    n + sum_list (map logical_count (fst (collect_in ino (map overflow_dec (concat rss)))))"
  by (induction rss arbitrary: n) (auto simp: collect_in_append count_in_collect add.assoc split: prod.splits)

lemma collect_in_filter:
  "sorted (map oe_inode_id oes) \<Longrightarrow> fst (collect_in ino oes) = map descr (filter (\<lambda>oe. oe_inode_id oe = ino) oes)"
proof (induction oes)
  case (Cons oe oes)
  show ?case
  proof (cases "ino < oe_inode_id oe")
    case True
    then have "filter (\<lambda>oe. oe_inode_id oe = ino) (oe # oes) = []" using Cons.prems by (auto simp: filter_empty_conv)
    then show ?thesis using True by auto
  next
    case False
    then show ?thesis using Cons by (auto split: prod.splits)
  qed
qed simp

section \<open>The extents of an inode\<close>

definition extents_of :: "u64 \<Rightarrow> bytes list \<Rightarrow> extent_descriptor list" where
  "extents_of ino rs = map descr (filter (\<lambda>oe. oe_inode_id oe = ino) (map overflow_dec rs))"

lemma overflow_fields: "rec_key overflow_cfg x = (oe_inode_id (overflow_dec x), logical_offset (overflow_dec x))"
  by (simp add: overflow_dec_def overflow_cfg_def)

abbreviation overflow_holds :: "bool \<Rightarrow> ctx \<Rightarrow> nat \<Rightarrow> u64 set \<Rightarrow> u64 list \<Rightarrow> bytes list \<Rightarrow> bool" where
  "overflow_holds \<equiv> slot_holds overflow_slot overflow_cfg (\<lambda>_. True)"

text \<open>What a descent reaches: the chain of leaves with all records of the inode.\<close>

lemma overflow_chain:
  assumes h: "overflow_holds b c lv own fl rs" and ino: "ino \<noteq> 0" and ne: "root_node_lba (overflow_hdr c) \<noteq> 0"
  obtains l r ls ns where "\<And>chk. overflow_descend chk c (root_node_lba (overflow_hdr c)) ino = Some (Inr l)"
    "leaf_chain overflow_cfg c ((l, r, ls) # ns)"
    "extents_of ino rs = fst (collect_in ino (map overflow_dec (node_recs ((l, r, ls) # ns))))"
proof -
  have hs: "holds overflow_cfg (\<lambda>_. True) b c (overflow_hdr c) (overflow_lba (sb c)) lv own fl rs"
    using h by (simp add: slot_holds_def overflow_slot_def)
  obtain l r ls ns left where D: "tree_descend overflow_cfg c (root_node_lba (overflow_hdr c)) (ino - 1, -1) = Some (Inr (l, blk c l))"
    "leaf_chain overflow_cfg c ((l, r, ls) # ns)" "rs = left @ node_recs ((l, r, ls) # ns)"
    "\<And>x. x \<in> set left \<Longrightarrow> rec_key overflow_cfg x < (ino - 1, -1)"
    by (rule descend_chain [OF hs ne, of "(ino - 1, -1)"]) blast
  have left: "oe_inode_id (overflow_dec x) < ino" if "x \<in> set left" for x
    using less_imp_le [OF D(4) [OF that]] key_below_inode [OF ino] by (simp add: overflow_fields)
  have "sorted_wrt (<) (map (rec_key overflow_cfg) (node_recs ((l, r, ls) # ns)))" using slot_env(6) [OF h] by (simp add: D(3) sorted_wrt_append)
  then have "sorted (map oe_inode_id (map overflow_dec (node_recs ((l, r, ls) # ns))))"
    unfolding sorted_map sorted_wrt_map by (rule sorted_wrt_mono_rel [rotated]) (auto simp: overflow_fields less_prod_def)
  note F = collect_in_filter [OF this, of ino]
  have "filter (\<lambda>oe. oe_inode_id oe = ino) (map overflow_dec left) = []" using left by (fastforce simp: filter_empty_conv)
  then have "extents_of ino rs = extents_of ino (node_recs ((l, r, ls) # ns))" by (simp add: extents_of_def D(3))
  then show ?thesis using that overflow_descend_same [OF D(1) ino] D(2) F by (simp add: extents_of_def)
qed

lemma overflow_empty: "overflow_holds b c lv own fl rs \<Longrightarrow> root_node_lba (overflow_hdr c) = 0 \<Longrightarrow> rs = []"
  using tree_ok_root [of overflow_cfg] unfolding slot_holds_def holds_def overflow_slot_def by (simp, blast)

lemma overflow_searches:
  assumes h: "overflow_holds b c lv own fl rs" and ino: "ino \<noteq> 0"
  shows "overflow_collect_extents c ino = Some (Inr (extents_of ino rs))"
    and "overflow_find_extent c ino lb = Some (find (covers lb) (extents_of ino rs))"
    and "overflow_count_logical c ino = Some (sum_list (map logical_count (extents_of ino rs)))"
proof -
  have "overflow_collect_extents c ino = Some (Inr (extents_of ino rs)) \<and> overflow_find_extent c ino lb = Some (find (covers lb) (extents_of ino rs)) \<and>
    overflow_count_logical c ino = Some (sum_list (map logical_count (extents_of ino rs)))"
  proof (cases "root_node_lba (overflow_hdr c) = 0")
    case True
    then show ?thesis using overflow_empty [OF h]
      by (simp add: overflow_collect_extents_def overflow_find_extent_def overflow_count_logical_def extents_of_def)
  next
    case False
    obtain l r ls ns where D: "\<And>chk. overflow_descend chk c (root_node_lba (overflow_hdr c)) ino = Some (Inr l)"
      "leaf_chain overflow_cfg c ((l, r, ls) # ns)" "extents_of ino rs = fst (collect_in ino (map overflow_dec (node_recs ((l, r, ls) # ns))))"
      by (rule overflow_chain [OF h ino False]) blast
    have mg: "nh_magic (nh_dec buf) = OBMAFS3_BTREE_NODE_MAGIC" if "node_is (bsz c) buf 0 r (rec_sz overflow_cfg) rs" for buf r rs
      using that by (simp add: node_is_def)
    show ?thesis
      using False slot_env(3) [OF h] D(1,3)
        walk_leaves_chain [OF D(2), where work = "\<lambda>buf s. find_in ino lb (leaf_extents buf)" and w = "\<lambda>rs s. find_in ino lb (map overflow_dec rs)"]
        walk_leaves_chain [OF D(2), where work = "\<lambda>buf exts. case collect_in ino (leaf_extents buf) of (ds, past) \<Rightarrow> (exts @ ds, past)"
          and w = "\<lambda>rs exts. case collect_in ino (map overflow_dec rs) of (ds, past) \<Rightarrow> (exts @ ds, past)"]
        walk_leaves_chain [OF D(2), where work = "\<lambda>buf n. if nh_magic (nh_dec buf) \<noteq> OBMAFS3_BTREE_NODE_MAGIC then (n, True) else count_in ino (leaf_extents buf) n"
          and w = "\<lambda>rs n. count_in ino (map overflow_dec rs) n"]
      by (simp add: overflow_collect_extents_def overflow_find_extent_def overflow_count_logical_def leaf_extents_node mg walk_find walk_collect walk_count del: list.map)
  qed
  then show "overflow_collect_extents c ino = Some (Inr (extents_of ino rs))"
    "overflow_find_extent c ino lb = Some (find (covers lb) (extents_of ino rs))"
    "overflow_count_logical c ino = Some (sum_list (map logical_count (extents_of ino rs)))" by blast+
qed

section \<open>Clearing\<close>

abbreviation others :: "u64 \<Rightarrow> bytes \<Rightarrow> bool" where
  "others ino r \<equiv> oe_inode_id (overflow_dec r) \<noteq> ino"

lemma compact_leaf_is:
  assumes nd: "node_is (bsz c) buf 0 r 40 ls"
  shows "node_is (bsz c) (compact_leaf c buf ino) 0 r 40 (filter (others ino) ls)"
proof -
  let ?k = "filter (others ino) ls"
  have buf: "length buf = bsz c" "nh_size \<le> bsz c" "unat (node_keys (nh_dec buf)) = length ls" "nh_size + length ls * 40 \<le> bsz c"
    "slots 40 (length ls) (ndata buf) = ls" using nd by (simp_all add: node_is_def)
  have lk: "length ?k \<le> length ls" by simp
  have sz: "length x = 40" if "x \<in> set ls" for x
    using that node_is_elem [OF nd that] by simp
  have lc: "length (concat ?k) = length ?k * 40" using sz by (intro length_concat_eq) simp
  let ?p = "concat ?k @ replicate ((length ls - length ?k) * 40) 0"
  have lp: "length ?p = length ls * 40" using lc lk by (simp add: algebra_simps flip: add_mult_distrib2)
  let ?n = "(nh_dec buf)\<lparr>node_keys := of_nat (length ?k), keys_length := of_nat (length ?k * 40)\<rparr>"
  let ?b = "put 0 (nh_enc ?n) (put nh_size ?p buf)"
  have ck: "length (nh_checksum ?n) = 32" using buf by simp
  have lb: "length ?b = bsz c" using buf lp ck by simp
  have "ndata ?b = put 0 ?p (ndata buf)" using nh_dec_put_header(2) [OF ck] drop_put [of nh_size 0 buf ?p] buf by simp
  then have nb: "ndata ?b = concat ?k @ replicate ((length ls - length ?k) * 40) 0 @ drop (length ?p) (ndata buf)" by (simp add: put_def)
  have "slots 40 (length ?k) (ndata ?b) = ?k" unfolding nb by (rule slots_append_concat) (use sz in simp)
  moreover have "unat (node_keys (nh_dec buf)) < 2 ^ LENGTH(16)" by (rule unsigned_less)
  then have "length ?k < 65536" using le_less_trans [OF lk] buf(3) by simp
  then have "unat (of_nat (length ?k) :: u16) = length ?k" by (rule unat_of_nat_u16)
  moreover have "nh_size + length ?k * 40 \<le> bsz c" using lk buf(4) by linarith
  ultimately have "node_is (bsz c) ?b 0 r 40 ?k"
    using nd lb nh_dec_put_header(1) [OF ck, of "put nh_size ?p buf"] by (simp add: node_is_def)
  moreover have "nh_size \<le> length ?b" using lb buf(2) by simp
  ultimately show ?thesis using node_is_checksum [of ?b "bsz c" "xxh64 c"] buf(3,5) by (simp add: compact_leaf_def Let_def)
qed

text \<open>
  The walk takes the records of the inode out of every leaf it visits and stops at a leaf with
  a record of a later inode, behind which there is nothing to take out.
\<close>

lemma filter_others_id: "sorted_wrt (<) (map (rec_key overflow_cfg) (rs @ ys)) \<Longrightarrow> x \<in> set rs \<Longrightarrow> ino < oe_inode_id (overflow_dec x) \<Longrightarrow>
    filter (others ino) ys = ys"
proof (rule filter_True)
  assume s: "sorted_wrt (<) (map (rec_key overflow_cfg) (rs @ ys))" and x: "x \<in> set rs" "ino < oe_inode_id (overflow_dec x)"
  have "rec_key overflow_cfg x < rec_key overflow_cfg y" if "y \<in> set ys" for y using s x(1) that by (auto simp: sorted_wrt_append)
  then show "\<forall>y \<in> set ys. others ino y" using x(2) by (force simp: overflow_fields less_prod_def)
qed

lemma clear_leaf:
  assumes ok: "tree_ok overflow_cfg (\<lambda>_. True) False c h hl lv t fl" and ln: "lnodes t = xs @ (l, r, ls) # ns"
  obtains d t' where "(if \<exists>oe \<in> set (leaf_extents (blk c l)). oe_inode_id oe = ino then obmafs3_block_write c l (compact_leaf c (blk c l) ino)
      else (OBMAFS3_OK, c)) = (OBMAFS3_OK, c\<lparr>dev := d\<rparr>)" "tree_ok overflow_cfg (\<lambda>_. True) False (c\<lparr>dev := d\<rparr>) h hl lv t' fl"
    "set (lbas t') = set (lbas t)" "leaves t' = leaves t" "lnodes t' = xs @ (l, r, filter (others ino) ls) # ns"
    "outside (set (lbas t)) c (c\<lparr>dev := d\<rparr>)"
proof -
  obtain fs where fs: "t = plug fs (LeafN l r ls)" "\<And>rs'. lnodes (plug fs (LeafN l r rs')) = xs @ (l, r, rs') # ns"
    using lnodes_plugged [OF ln] by blast
  have nd: "node_is (bsz c) (blk c l) 0 r (rec_sz overflow_cfg) ls"
    using ok ln lnodes_rep(1) [of overflow_cfg "bsz c" "blk c" lv t l r ls] by (simp add: tree_ok_def)
  have sz: "rec_sz overflow_cfg = 40" by (simp add: overflow_cfg_def)
  have le: "leaf_extents (blk c l) = map overflow_dec ls" by (rule leaf_extents_node [OF nd])
  show ?thesis
  proof (cases "\<exists>oe \<in> set (leaf_extents (blk c l)). oe_inode_id oe = ino")
    case True
    let ?b = "compact_leaf c (blk c l) ino"
    have "node_is (bsz c) ?b 0 r (rec_sz overflow_cfg) (filter (others ino) ls)" unfolding sz by (rule compact_leaf_is [OF nd [unfolded sz]])
    note R = overflow.leaf_filtered [OF ok [unfolded fs(1)] this]
    obtain d where d: "wrote c l ?b = c\<lparr>dev := d\<rparr>" by (auto simp: wrote_def)
    have "outside (set (lbas t)) c (wrote c l ?b)" using R(3) by (rule outside_mono) (simp add: fs(1) set_lbas_plug)
    then show ?thesis
      using True R(1,2) fs d by (intro that [of d "plug fs (LeafN l r (filter (others ino) ls))"]) (simp_all add: set_lbas_plug leaves_plug)
  next
    case False
    then have "filter (others ino) ls = ls" by (intro filter_True) (auto simp: le)
    then show ?thesis using False ok ln by (intro that [of "dev c" t]) simp_all
  qed
qed

lemma clear_leaves_chain:
  assumes "tree_ok overflow_cfg (\<lambda>_. True) False c h hl lv t fl" "chained (leaves t)" "lnodes t = xs @ (l, r, ls) # ns"
  shows "\<exists>d t'. clear_leaves c l ino = Some (OBMAFS3_OK, c\<lparr>dev := d\<rparr>) \<and> tree_ok overflow_cfg (\<lambda>_. True) False (c\<lparr>dev := d\<rparr>) h hl lv t' fl \<and>
     set (lbas t') = set (lbas t) \<and> leaves t' = leaves t \<and> recs t' = node_recs xs @ filter (others ino) (node_recs ((l, r, ls) # ns)) \<and>
     outside (set (lbas t)) c (c\<lparr>dev := d\<rparr>)"
  using assms
proof (induction ns arbitrary: c t xs l r ls)
  case (Nil c t xs l r ls)
  note lc = leaf_chain_suffix [OF leaf_chain_tree [OF Nil(1,2), unfolded Nil(3)]]
  note F = leaf_chain_first [OF lc]
  have rd: "l \<noteq> 0" "obmafs3_block_read c l (bsz c) = Inr (blk c l)" using lc block_read_blk by (force simp: leaf_chain_def)+
  obtain d t' where S: "(if \<exists>oe \<in> set (leaf_extents (blk c l)). oe_inode_id oe = ino then obmafs3_block_write c l (compact_leaf c (blk c l) ino)
      else (OBMAFS3_OK, c)) = (OBMAFS3_OK, c\<lparr>dev := d\<rparr>)" "tree_ok overflow_cfg (\<lambda>_. True) False (c\<lparr>dev := d\<rparr>) h hl lv t' fl"
    "set (lbas t') = set (lbas t)" "leaves t' = leaves t" "lnodes t' = xs @ [(l, r, filter (others ino) ls)]"
    "outside (set (lbas t)) c (c\<lparr>dev := d\<rparr>)" by (rule clear_leaf [OF Nil(1,3), of ino])
  have z: "clear_leaves c' 0 ino = Some (OBMAFS3_OK, c')" for c' by (subst clear_leaves.simps) simp
  have "clear_leaves c l ino = Some (OBMAFS3_OK, c\<lparr>dev := d\<rparr>)"
    using rd S(1) F(1,3) z by (subst clear_leaves.simps) (simp add: Let_def del: if_image_distrib)
  moreover have "recs t' = node_recs xs @ filter (others ino) ls" using lnodes_recs(1) [of t'] S(5) by simp
  ultimately show ?case using S(2-4,6) by (intro exI [of _ d] exI [of _ t']) simp
next
  case (Cons n ns c t xs l r ls)
  obtain l' r' ls' where n: "n = (l', r', ls')" by (cases n) auto
  note lc = leaf_chain_suffix [OF leaf_chain_tree [OF Cons.prems(1,2), unfolded Cons.prems(3)]]
  note F = leaf_chain_first [OF lc]
  have rd: "l \<noteq> 0" "obmafs3_block_read c l (bsz c) = Inr (blk c l)" using lc block_read_blk by (force simp: leaf_chain_def)+
  have nx: "r = l'" using F(4) [of l' r' ls' ns] by (simp add: n)
  have nd: "node_is (bsz c) (blk c l) 0 r (rec_sz overflow_cfg) ls" using lc by (simp add: leaf_chain_def)
  obtain d t' where S: "(if \<exists>oe \<in> set (leaf_extents (blk c l)). oe_inode_id oe = ino then obmafs3_block_write c l (compact_leaf c (blk c l) ino)
      else (OBMAFS3_OK, c)) = (OBMAFS3_OK, c\<lparr>dev := d\<rparr>)" "tree_ok overflow_cfg (\<lambda>_. True) False (c\<lparr>dev := d\<rparr>) h hl lv t' fl"
    "set (lbas t') = set (lbas t)" "leaves t' = leaves t" "lnodes t' = xs @ (l, r, filter (others ino) ls) # n # ns"
    "outside (set (lbas t)) c (c\<lparr>dev := d\<rparr>)" by (rule clear_leaf [OF Cons.prems(1,3), of ino])
  show ?case
  proof (cases "\<exists>x \<in> set ls. ino < oe_inode_id (overflow_dec x)")
    case True
    then have cl: "clear_leaves c l ino = Some (OBMAFS3_OK, c\<lparr>dev := d\<rparr>)"
      using rd S(1) leaf_extents_node [OF nd] by (subst clear_leaves.simps) (simp add: Let_def)
    have "sorted_wrt (<) (map (rec_key overflow_cfg) (recs t))" using Cons.prems(1) kinv_recs(1) unfolding tree_ok_def by blast
    moreover have "recs t = node_recs xs @ ls @ node_recs (n # ns)" using lnodes_recs(1) [of t] Cons.prems(3) by simp
    ultimately have "sorted_wrt (<) (map (rec_key overflow_cfg) (ls @ node_recs (n # ns)))" using sorted_wrt_append by (simp only: map_append) blast
    then have "filter (others ino) (node_recs (n # ns)) = node_recs (n # ns)" using True filter_others_id by blast
    then have "recs t' = node_recs xs @ filter (others ino) (node_recs ((l, r, ls) # n # ns))" using lnodes_recs(1) [of t'] S(5) by simp
    then show ?thesis using cl S(2-4,6) by (intro exI [of _ d] exI [of _ t']) simp
  next
    case False
    have "chained (leaves t')" using S(4) Cons.prems(2) by simp
    from Cons.IH [OF S(2) this, of "xs @ [(l, r, filter (others ino) ls)]" l' r' ls'] S(5)
    obtain d' t2 where I: "clear_leaves (c\<lparr>dev := d\<rparr>) l' ino = Some (OBMAFS3_OK, c\<lparr>dev := d'\<rparr>)"
      "tree_ok overflow_cfg (\<lambda>_. True) False (c\<lparr>dev := d'\<rparr>) h hl lv t2 fl" "set (lbas t2) = set (lbas t')" "leaves t2 = leaves t'"
      "recs t2 = node_recs (xs @ [(l, r, filter (others ino) ls)]) @ filter (others ino) (node_recs ((l', r', ls') # ns))"
      "outside (set (lbas t')) (c\<lparr>dev := d\<rparr>) (c\<lparr>dev := d'\<rparr>)" by (auto simp: n)
    have "clear_leaves c l ino = Some (OBMAFS3_OK, c\<lparr>dev := d'\<rparr>)"
      using False rd S(1) F(1) nx I(1) leaf_extents_node [OF nd] by (subst clear_leaves.simps) (simp add: Let_def)
    moreover have "outside (set (lbas t)) c (c\<lparr>dev := d'\<rparr>)" using outside_trans [OF S(6) I(6)] S(3) by simp
    ultimately show ?thesis using I(2-5) S(3,4) by (intro exI [of _ d'] exI [of _ t2]) (simp add: n)
  qed
qed

lemma overflow_clear_spec:
  assumes h: "overflow_holds b c lv own fl rs" and ino: "ino \<noteq> 0"
  obtains d where "overflow_clear_inode c ino = Some (OBMAFS3_OK, c\<lparr>dev := d\<rparr>)"
    "overflow_holds False (c\<lparr>dev := d\<rparr>) lv own fl (filter (others ino) rs)" "outside own c (c\<lparr>dev := d\<rparr>)"
proof (cases "root_node_lba (overflow_hdr c) = 0")
  case True
  then have "rs = []" using overflow_empty [OF h] by blast
  moreover have "overflow_holds False c lv own fl rs" using h holds_loose by (auto simp: slot_holds_def)
  ultimately show ?thesis using True by (intro that [of "dev c"]) (simp_all add: overflow_clear_inode_def)
next
  case False
  have hs: "holds overflow_cfg (\<lambda>_. True) b c (overflow_hdr c) (overflow_lba (sb c)) lv own fl rs"
    using h by (simp add: slot_holds_def overflow_slot_def)
  obtain t where t: "tree_ok overflow_cfg (\<lambda>_. True) b c (overflow_hdr c) (overflow_lba (sb c)) lv t fl" "own = set (lbas t)" "recs t = rs" "chained (leaves t)"
    using hs False by (auto simp: holds_def)
  obtain xs l r ls ns where L: "lnodes t = xs @ (l, r, ls) # ns" "\<And>chk. overflow_descend chk c (root_node_lba (overflow_hdr c)) ino = Some (Inr l)"
    "\<And>x. x \<in> set (node_recs xs) \<Longrightarrow> rec_key overflow_cfg x < (ino - 1, -1)"
    by (rule descend_leaf [OF t(1), of "(ino - 1, -1)"]) (use overflow_descend_same ino in blast)
  have "oe_inode_id (overflow_dec x) < ino" if "x \<in> set (node_recs xs)" for x
    using less_imp_le [OF L(3) [OF that]] key_below_inode [OF ino] by (simp add: overflow_fields)
  then have keep: "filter (others ino) (node_recs xs) = node_recs xs" by (intro filter_True) force
  have "rs = node_recs xs @ node_recs ((l, r, ls) # ns)" using lnodes_recs(1) [of t] L(1) t(3) by simp
  then have fr: "filter (others ino) rs = node_recs xs @ filter (others ino) (node_recs ((l, r, ls) # ns))" using keep by simp
  obtain d t' where C: "clear_leaves c l ino = Some (OBMAFS3_OK, c\<lparr>dev := d\<rparr>)"
    "tree_ok overflow_cfg (\<lambda>_. True) False (c\<lparr>dev := d\<rparr>) (overflow_hdr c) (overflow_lba (sb c)) lv t' fl"
    "set (lbas t') = set (lbas t)" "leaves t' = leaves t" "recs t' = node_recs xs @ filter (others ino) (node_recs ((l, r, ls) # ns))"
    "outside (set (lbas t)) c (c\<lparr>dev := d\<rparr>)"
    using clear_leaves_chain [OF tree_ok_loose [OF t(1)] t(4) L(1), of ino] by blast
  have "overflow_holds False (c\<lparr>dev := d\<rparr>) lv own fl (filter (others ino) rs)"
    unfolding slot_holds_def holds_def using C(2-5) t(2,4) fr by (intro disjI2 exI [of _ t']) (simp add: overflow_slot_def)
  moreover have "overflow_clear_inode c ino = Some (OBMAFS3_OK, c\<lparr>dev := d\<rparr>)"
    using False L(2) C(1) slot_env(3) [OF h] by (simp add: overflow_clear_inode_def)
  ultimately show ?thesis using that C(6) t(2) by blast
qed

section \<open>Properties\<close>

lemma extents_of_append: "extents_of ino (xs @ ys) = extents_of ino xs @ extents_of ino ys"
  by (simp add: extents_of_def)

lemma extents_of_sorted:
  assumes "sorted_wrt (<) (map (rec_key overflow_cfg) rs)"
  shows "sorted_wrt (<) (map logical_start (extents_of ino rs))"
proof -
  have "sorted_wrt (\<lambda>x y. rec_key overflow_cfg x < rec_key overflow_cfg y) (filter (\<lambda>x. oe_inode_id (overflow_dec x) = ino) rs)"
    using assms by (intro sorted_wrt_filter) (simp add: sorted_wrt_map)
  then have "sorted_wrt (\<lambda>x y. logical_offset (overflow_dec x) < logical_offset (overflow_dec y)) (filter (\<lambda>x. oe_inode_id (overflow_dec x) = ino) rs)"
    by (rule sorted_wrt_mono_rel [rotated]) (auto simp: overflow_fields less_prod_def)
  then show ?thesis by (simp add: extents_of_def sorted_wrt_map filter_map comp_def descr_def)
qed

lemma extents_of_ins:
  assumes "sorted_wrt (<) (map (rec_key overflow_cfg) rs)"
  shows "extents_of j (ins_rec (rec_key overflow_cfg) (overflow_enc e) rs) =
     (if j = oe_inode_id e then ins_rec logical_start (descr e) (extents_of j rs) else extents_of j rs)"
  using assms
proof (induction rs)
  case Nil
  then show ?case by (simp add: extents_of_def overflow_dec_enc)
next
  case (Cons x rs)
  have ke: "rec_key overflow_cfg (overflow_enc e) = (oe_inode_id e, logical_offset e)" by (simp add: overflow_fields overflow_dec_enc)
  have cons: "extents_of i (y # ys) = (if oe_inode_id (overflow_dec y) = i then descr (overflow_dec y) # extents_of i ys else extents_of i ys)" for i y ys
    by (simp add: extents_of_def)
  have st: "logical_start (descr o1) = logical_offset o1" for o1 by (simp add: descr_def)
  consider (lt) "rec_key overflow_cfg x < rec_key overflow_cfg (overflow_enc e)" | (eq) "rec_key overflow_cfg x = rec_key overflow_cfg (overflow_enc e)"
    | (gt) "rec_key overflow_cfg (overflow_enc e) < rec_key overflow_cfg x" by fastforce
  then show ?case
  proof cases
    case lt
    then have "oe_inode_id (overflow_dec x) = oe_inode_id e \<Longrightarrow> logical_offset (overflow_dec x) < logical_offset e"
      by (simp add: ke overflow_fields [of x] less_prod_def)
    then show ?thesis using lt Cons by (auto simp: cons st)
  next
    case eq
    then have "oe_inode_id (overflow_dec x) = oe_inode_id e" "logical_offset (overflow_dec x) = logical_offset e" by (simp_all add: ke overflow_fields [of x])
    then show ?thesis using eq by (auto simp: cons st overflow_dec_enc)
  next
    case gt
    have "ins_rec logical_start (descr e) (extents_of (oe_inode_id e) (x # rs)) = descr e # extents_of (oe_inode_id e) (x # rs)"
    proof (cases "extents_of (oe_inode_id e) (x # rs)")
      case (Cons d ds)
      then have "d \<in> set (extents_of (oe_inode_id e) (x # rs))" by simp
      then obtain y where y: "y \<in> set (x # rs)" "d = descr (overflow_dec y)" "oe_inode_id (overflow_dec y) = oe_inode_id e"
        by (auto simp: extents_of_def split: if_splits)
      have "rec_key overflow_cfg x \<le> rec_key overflow_cfg y" using Cons.prems y(1) by (auto simp: less_imp_le)
      then have "(oe_inode_id e, logical_offset e) < rec_key overflow_cfg y" using gt ke by (simp add: less_le_trans)
      then have "logical_start (descr e) < logical_start d" using y(2,3) by (auto simp: overflow_fields [of y] less_prod_def st)
      then show ?thesis by (auto simp: Cons)
    qed simp
    then show ?thesis using gt by (auto simp: cons overflow_dec_enc)
  qed
qed


definition ovf_ctx :: "btree_header \<Rightarrow> ctx" where
  "ovf_ctx h = reserve_ctx\<lparr>overflow_hdr := h, sb := (sb reserve_ctx)\<lparr>overflow_lba := 1\<rparr>\<rparr>"

lemma ovf_ctx_facts: "reserve_volume (ovf_ctx h)" "fits_reserve overflow_cfg" "overflow_hdr (ovf_ctx h) = h" "overflow_lba (sb (ovf_ctx h)) = 1"
  by (simp_all add: reserve_volume_def ovf_ctx_def same_volume_def reserve_ctx_def blank_ctx_def fits_reserve_def overflow_cfg_def nh_size_def)

definition demo_extent :: overflow_extent where
  "demo_extent = \<lparr>oe_inode_id = 7, logical_offset = 100, oe_start_block = 9, oe_block_count = 4, oe_logical_count = 4\<rparr>"

definition ovf_one :: ctx where
  "ovf_one = wrote (ovf_ctx (zero_hdr\<lparr>root_node_lba := 2, total_nodes := 1\<rparr>)) 2
     (fresh_image overflow_cfg (ovf_ctx (zero_hdr\<lparr>root_node_lba := 2, total_nodes := 1\<rparr>)) 0 1 (rec_sz overflow_cfg) 0 0 (overflow_enc demo_extent))"

lemma ovf_one_holds: "overflow_holds True ovf_one 0 {2} [] [overflow_enc demo_extent]"
proof -
  let ?h = "zero_hdr\<lparr>root_node_lba := 2, total_nodes := 1\<rparr>"
  have w: "world overflow_cfg (ovf_ctx ?h) ?h 1 {2} []" using reserve_world(2) [OF ovf_ctx_facts(1,2), of 1 "{2}" ?h 1 2] by simp
  have "slot_dholds overflow_slot overflow_cfg (\<lambda>_. True) True ovf_one 0 {2} [] [overflow_enc demo_extent]"
    using one_leaf [where vk = "\<lambda>_. True" and b = True, OF w _ overflow.enc_size]
    by (simp add: slot_dholds_def overflow_slot_def ovf_one_def wrote_def ovf_ctx_facts)
  then show ?thesis by (rule overflow.holds_of_dholds)
qed

lemma ovf_one_extents: "extents_of 7 [overflow_enc demo_extent] = [descr demo_extent]"
  by (simp add: extents_of_def overflow_dec_enc demo_extent_def)


text \<open>
  C29: an inserted extent is found again. Inserting an extent either reports a full volume,
  which happens only when the reserve of free nodes is short, or puts it into the ordered list
  of its inode's extents, in place of one with the same first block, and leaves the extents of
  all other inodes alone.
\<close>

theorem overflow_insert_collects:
  assumes "overflow_holds b c lv own fl rs" "lv \<le> 8" "b \<or> lv \<le> 1" "overflow_insert c e = (r, c')"
  shows "r = OBMAFS3_ERR_NOSPC \<and> length fl < lv + 2 \<or>
     r = OBMAFS3_OK \<and> (\<forall>j es. j \<noteq> 0 \<longrightarrow> overflow_collect_extents c j = Some (Inr es) \<longrightarrow>
        overflow_collect_extents c' j = Some (Inr (if j = oe_inode_id e then ins_rec logical_start (descr e) es else es)))"
proof -
  note p = assms(4) [unfolded overflow_insert_def]
  show ?thesis
  proof (cases rule: overflow.put_outcome [OF assms(1-3) TrueI, of e, case_names full stored])
    case (full c1)
    then show ?thesis using p by simp
  next
    case (stored c1 lv' own' fl')
    then show ?thesis
      using p overflow_searches(1) [OF assms(1)] overflow_searches(1) [OF stored(3)] extents_of_ins [OF slot_env(6) [OF assms(1)], of _ e] by auto
  qed
qed

lemma ovf_ctx_holds: "overflow_holds b (ovf_ctx reserve_hdr) 0 {} [2, 3] []"
  using reserve_world(1) [OF ovf_ctx_facts(1,2)]
  by (simp add: slot_holds_def holds_def overflow_slot_def ovf_ctx_facts) (simp add: reserve_hdr_def zero_hdr_def)

theorem overflow_insert_collects_witness:
  "overflow_collect_extents (snd (overflow_insert (ovf_ctx reserve_hdr) demo_extent)) 7 = Some (Inr [descr demo_extent])"
proof -
  obtain r c' where p: "overflow_insert (ovf_ctx reserve_hdr) demo_extent = (r, c')" by fastforce
  have "overflow_collect_extents (ovf_ctx reserve_hdr) 7 = Some (Inr [])"
    by (simp add: overflow_collect_extents_def ovf_ctx_facts reserve_hdr_def zero_hdr_def)
  then show ?thesis using overflow_insert_collects [OF ovf_ctx_holds [of True] _ _ p] p by (auto simp: demo_extent_def)
qed

text \<open>
  C30: clearing an inode takes out exactly its extents. The operation returns and succeeds,
  afterwards the inode has no extents, those of other inodes are as before, and no block
  outside the nodes of the tree has changed.
\<close>

theorem overflow_clear_exact:
  assumes "overflow_holds b c lv own fl rs" "ino \<noteq> 0"
  shows "\<exists>c'. overflow_clear_inode c ino = Some (OBMAFS3_OK, c') \<and> overflow_collect_extents c' ino = Some (Inr []) \<and>
     (\<forall>j. j \<noteq> 0 \<longrightarrow> j \<noteq> ino \<longrightarrow> overflow_collect_extents c' j = overflow_collect_extents c j) \<and>
     outside own c c'"
proof -
  obtain d where C: "overflow_clear_inode c ino = Some (OBMAFS3_OK, c\<lparr>dev := d\<rparr>)"
    "overflow_holds False (c\<lparr>dev := d\<rparr>) lv own fl (filter (others ino) rs)" "outside own c (c\<lparr>dev := d\<rparr>)"
    by (rule overflow_clear_spec [OF assms])
  have "extents_of ino (filter (others ino) rs) = []" by (simp add: extents_of_def filter_map comp_def)
  moreover have "extents_of j (filter (others ino) rs) = extents_of j rs" if "j \<noteq> ino" for j
    using that by (induction rs) (auto simp: extents_of_def)
  ultimately show ?thesis
    using C overflow_searches(1) [OF assms(1)] overflow_searches(1) [OF C(2)] assms(2) by (intro exI [of _ "c\<lparr>dev := d\<rparr>"]) simp
qed

theorem overflow_clear_exact_witness:
  "\<exists>c'. overflow_clear_inode ovf_one 7 = Some (OBMAFS3_OK, c') \<and> overflow_collect_extents c' 7 = Some (Inr [])"
  using overflow_clear_exact [OF ovf_one_holds, of 7] by auto

end
