(* ===== verification/Extents.thy ===== *)
theory Extents
  imports Overflow Refcount
begin

text \<open>
  The extent map of a file, src/src/lib/block.c: the eight runs of the inode and the extents of
  the overflow tree behind them. The runs carry no position: each starts where the one before
  it ends.
\<close>

section \<open>Reading the map\<close>

definition count_inline_logical :: "inode_record \<Rightarrow> u64" where
  "count_inline_logical i = sum_list (map logical_blocks (extents i))"

definition unused_run :: "extent_run \<Rightarrow> bool" where
  "unused_run e \<longleftrightarrow> block_count e = 0 \<and> logical_blocks e = 0"

definition run_descr :: "u64 \<Rightarrow> extent_run \<Rightarrow> extent_descriptor" where
  "run_descr base e = \<lparr>logical_start = base, logical_count = logical_blocks e, phys_start = start_block e, phys_count = block_count e\<rparr>"

fun inline_find :: "u64 \<Rightarrow> u64 \<Rightarrow> extent_run list \<Rightarrow> extent_descriptor option" where
  "inline_find lb base [] = None"
| "inline_find lb base (e # es) =
     (if unused_run e then inline_find lb base es
      else if base \<le> lb \<and> lb < base + logical_blocks e then Some (run_descr base e)
      else inline_find lb (base + logical_blocks e) es)"

definition find_extent :: "ctx \<Rightarrow> inode_record \<Rightarrow> u64 \<Rightarrow> extent_descriptor option option" where
  "find_extent c i lb =
     (case inline_find lb 0 (extents i) of
        Some d \<Rightarrow> Some (Some d)
      | None \<Rightarrow> overflow_find_extent c (inode_id i) lb)"

fun inline_list :: "u64 \<Rightarrow> extent_run list \<Rightarrow> extent_descriptor list" where
  "inline_list base [] = []"
| "inline_list base (e # es) =
     (if unused_run e then inline_list base es else run_descr base e # inline_list (base + logical_blocks e) es)"

definition collect_all_extents :: "ctx \<Rightarrow> inode_record \<Rightarrow> (rc + extent_descriptor list) option" where
  "collect_all_extents c i =
     (case overflow_collect_extents c (inode_id i) of
        None \<Rightarrow> None
      | Some (Inl e) \<Rightarrow> Some (Inl e)
      | Some (Inr ovf) \<Rightarrow>
          let lst = inline_list 0 (extents i) @ ovf in
          if lst = [] then Some (Inr [])
          else if \<not> heap_ok c then Some (Inl OBMAFS3_ERR_NOMEM)
          else Some (Inr lst))"

section \<open>Writing the map\<close>

definition plain :: "extent_descriptor \<Rightarrow> bool" where
  "plain d \<longleftrightarrow> logical_count d = phys_count d"

text \<open>Merging neighbours; \<open>prev\<close> is the last entry of the merged array.\<close>

fun coalesce :: "extent_descriptor \<Rightarrow> extent_descriptor list \<Rightarrow> extent_descriptor list" where
  "coalesce prev [] = [prev]"
| "coalesce prev (d # ds) =
     (if plain prev \<and> plain d \<and> phys_start prev + phys_count prev = phys_start d \<and> logical_start prev + logical_count prev = logical_start d
      then coalesce (prev\<lparr>logical_count := logical_count prev + logical_count d, phys_count := phys_count prev + phys_count d\<rparr>) ds
      else prev # coalesce d ds)"

definition zero_run :: extent_run where
  "zero_run = \<lparr>start_block = 0, block_count = 0, logical_blocks = 0\<rparr>"

definition run_of :: "extent_descriptor \<Rightarrow> extent_run" where
  "run_of d = \<lparr>start_block = phys_start d, block_count = phys_count d, logical_blocks = logical_count d\<rparr>"

definition overflow_of :: "u64 \<Rightarrow> extent_descriptor \<Rightarrow> overflow_extent" where
  "overflow_of ino d = \<lparr>oe_inode_id = ino, logical_offset = logical_start d, oe_start_block = phys_start d,
     oe_block_count = phys_count d, oe_logical_count = logical_count d\<rparr>"

fun insert_all :: "ctx \<Rightarrow> u64 \<Rightarrow> extent_descriptor list \<Rightarrow> rc \<times> ctx" where
  "insert_all c ino [] = (OBMAFS3_OK, c)"
| "insert_all c ino (d # ds) =
     (case overflow_insert c (overflow_of ino d) of
        (OBMAFS3_OK, c1) \<Rightarrow> insert_all c1 ino ds
      | (e, c1) \<Rightarrow> (e, c1))"

text \<open>The inode is changed in place: it comes back on every path.\<close>

definition write_extent_list :: "ctx \<Rightarrow> inode_record \<Rightarrow> extent_descriptor list \<Rightarrow> (rc \<times> inode_record \<times> ctx) option" where
  "write_extent_list c i lst =
     (let i0 = i\<lparr>extents := replicate 8 zero_run\<rparr> in
      case overflow_clear_inode c (inode_id i) of
        None \<Rightarrow> None
      | Some (e, c1) \<Rightarrow>
          if e \<noteq> OBMAFS3_OK then Some (e, i0, c1)
          else (case lst of
                  [] \<Rightarrow> Some (OBMAFS3_OK, i0, c1)
                | d # ds \<Rightarrow>
                    if \<not> heap_ok c1 then Some (OBMAFS3_ERR_NOMEM, i0, c1)
                    else
                      let merged = coalesce d ds;
                          i1 = i\<lparr>extents := map run_of (take 8 merged) @ replicate (8 - length merged) zero_run\<rparr>;
                          (e2, c2) = insert_all c1 (inode_id i) (drop 8 merged)
                      in Some (e2, i1, c2)))"

section \<open>The two views of the map\<close>

lemma inline_find_list: "inline_find lb base es = find (covers lb) (inline_list base es)"
  by (induction es arbitrary: base) (auto simp: covers_def run_descr_def)

lemma collect_all_spec:
  assumes h: "overflow_holds b c lv own fl rs" and ino: "inode_id i \<noteq> 0"
  shows "collect_all_extents c i = Some (Inr (inline_list 0 (extents i) @ extents_of (inode_id i) rs))"
  using overflow_searches(1) [OF assms] slot_env(3) [OF h] by (simp add: collect_all_extents_def Let_def)

lemma find_extent_spec:
  assumes h: "overflow_holds b c lv own fl rs" and ino: "inode_id i \<noteq> 0"
  shows "find_extent c i lb = Some (find (covers lb) (inline_list 0 (extents i) @ extents_of (inode_id i) rs))"
  using overflow_searches(2) [OF assms, of lb] by (simp add: find_extent_def inline_find_list find_append split: option.split)

section \<open>Where a logical block lies\<close>

text \<open>A block of a plain extent lies in a physical block, the others in a compressed extent.\<close>

definition spot :: "u64 \<Rightarrow> extent_descriptor \<Rightarrow> u64 + extent_descriptor" where
  "spot lb d = (if plain d then Inl (phys_start d + (lb - logical_start d)) else Inr d)"

definition place :: "u64 \<Rightarrow> extent_descriptor list \<Rightarrow> (u64 + extent_descriptor) option" where
  "place lb ds = map_option (spot lb) (find (covers lb) ds)"

text \<open>The extents follow each other without gap from the logical block \<open>n\<close> on.\<close>

fun packed :: "nat \<Rightarrow> extent_descriptor list \<Rightarrow> bool" where
  "packed n [] \<longleftrightarrow> n < 2 ^ 64"
| "packed n (d # ds) \<longleftrightarrow> unat (logical_start d) = n \<and> 0 < logical_count d \<and> packed (n + unat (logical_count d)) ds"

lemma packed_less: "packed n ds \<Longrightarrow> n < 2 ^ 64"
  by (induction ds arbitrary: n) (auto dest: add_lessD1)

lemma unat_add_less: "unat (a :: u64) + unat b < 2 ^ 64 \<Longrightarrow> unat (a + b) = unat a + unat b"
  by (simp add: unat_word_ariths)

lemma packed_starts: "packed n ds \<Longrightarrow> d \<in> set ds \<Longrightarrow> n \<le> unat (logical_start d)"
  by (induction ds arbitrary: n) fastforce+

lemma packed_sorted: "packed n ds \<Longrightarrow> sorted_wrt (<) (map logical_start ds)"
proof (induction ds arbitrary: n)
  case (Cons d ds)
  then have "logical_start d < logical_start e" if "e \<in> set ds" for e
    using packed_starts [of "n + unat (logical_count d)" ds e] that by (auto simp: word_less_nat_alt)
  then show ?case using Cons by auto
qed simp

lemma packed_drop: "packed n ds \<Longrightarrow> \<exists>m. packed m (drop k ds)"
proof (induction ds arbitrary: n k)
  case (Cons d ds)
  then show ?case by (cases k) auto
qed auto

lemma covers_packed:
  assumes "packed n (d # ds)"
  shows "covers lb d \<longleftrightarrow> n \<le> unat lb \<and> unat lb < n + unat (logical_count d)"
proof -
  have "n + unat (logical_count d) < 2 ^ 64" "unat (logical_start d) = n" using assms packed_less by auto
  then have "unat (logical_start d + logical_count d) = n + unat (logical_count d)" by (subst unat_add_less) simp_all
  then show ?thesis using assms by (simp add: covers_def word_le_nat_alt word_less_nat_alt)
qed

lemma coalesce_place:
  assumes "packed n (p # ds)"
  shows "packed n (coalesce p ds)" "place lb (coalesce p ds) = place lb (p # ds)"
proof -
  have "packed n (coalesce p ds) \<and> place lb (coalesce p ds) = place lb (p # ds)"
    using assms
  proof (induction ds arbitrary: n p)
    case (Cons d ds)
    have pd: "packed (n + unat (logical_count p)) (d # ds)" using Cons.prems by simp
    show ?case
    proof (cases "plain p \<and> plain d \<and> phys_start p + phys_count p = phys_start d \<and> logical_start p + logical_count p = logical_start d")
      case True
      let ?p = "p\<lparr>logical_count := logical_count p + logical_count d, phys_count := phys_count p + phys_count d\<rparr>"
      have "unat (logical_count p) + unat (logical_count d) < 2 ^ 64" using packed_less [of "n + unat (logical_count p) + unat (logical_count d)" ds] Cons.prems by simp
      then have lc: "unat (logical_count p + logical_count d) = unat (logical_count p) + unat (logical_count d)" by (rule unat_add_less)
      then have "0 < logical_count p + logical_count d" using Cons.prems by (simp add: word_gt_0 flip: unat_gt_0)
      then have pp: "packed n (?p # ds)" using Cons.prems lc by (simp add: add.assoc)
      have pl: "plain ?p" using True by (simp add: plain_def)
      have "covers lb ?p \<longleftrightarrow> covers lb p \<or> covers lb d"
        unfolding covers_packed [OF pp] covers_packed [OF Cons.prems] covers_packed [OF pd] using lc by auto
      moreover have "phys_start d + (lb - logical_start d) = phys_start p + (lb - logical_start p)"
      proof -
        have "phys_start d = phys_start p + phys_count p" "logical_start d = logical_start p + phys_count p" using True by (auto simp: plain_def)
        then show ?thesis by simp
      qed
      then have "spot lb d = spot lb p" using True by (simp add: spot_def)
      moreover have "spot lb ?p = spot lb p" using True pl by (simp add: spot_def)
      ultimately have "place lb (?p # ds) = place lb (p # d # ds)" by (simp add: place_def)
      then show ?thesis using True Cons.IH [OF pp] by simp
    next
      case False
      then have "coalesce p (d # ds) = p # coalesce d ds" by auto
      then show ?thesis using Cons.IH [OF pd] Cons.prems by (simp add: place_def)
    qed
  qed (simp add: place_def)
  then show "packed n (coalesce p ds)" "place lb (coalesce p ds) = place lb (p # ds)" by blast+
qed

lemma length_coalesce: "length (coalesce p ds) \<le> Suc (length ds)"
  by (induction ds arbitrary: p) (auto intro: le_SucI)

lemma inline_list_runs:
  "packed n ds \<Longrightarrow> inline_list (of_nat n) (map run_of ds @ replicate k zero_run) = ds"
proof (induction ds arbitrary: n)
  case Nil
  show ?case by (induction k) (auto simp: unused_run_def zero_run_def)
next
  case (Cons d ds)
  have b: "of_nat n = logical_start d" using Cons.prems of_nat_unat_id [of "logical_start d"] by simp
  have "of_nat (n + unat (logical_count d)) = logical_start d + logical_count d" by (simp add: b of_nat_unat_id)
  then have "inline_list (logical_start d + logical_count d) (map run_of ds @ replicate k zero_run) = ds" using Cons.IH [of "n + unat (logical_count d)"] Cons.prems by simp
  moreover have "\<not> unused_run (run_of d)" using Cons.prems by (auto simp: unused_run_def run_of_def)
  moreover have "run_descr (logical_start d) (run_of d) = d" "logical_blocks (run_of d) = logical_count d" by (simp_all add: run_descr_def run_of_def)
  ultimately show ?case by (simp add: b)
qed

section \<open>Inserting into the overflow tree\<close>

lemma length_ins_rec: "length (ins_rec f r xs) \<le> Suc (length xs)"
  by (induction xs) auto

lemma ins_rec_last: "(\<And>x. x \<in> set xs \<Longrightarrow> f x < f r) \<Longrightarrow> ins_rec f r xs = xs @ [r]"
  using ins_rec_skip [of xs f r "[]"] by simp

text \<open>What an operation on the overflow tree leaves alone.\<close>

definition ovf_moved :: "ctx \<Rightarrow> u64 set \<Rightarrow> u64 list \<Rightarrow> ctx \<Rightarrow> u64 set \<Rightarrow> u64 list \<Rightarrow> bool" where
  "ovf_moved c own fl c' own' fl' \<longleftrightarrow> sb c' = sb c \<and> xxh64 c' = xxh64 c \<and> (\<forall>p. used c p \<longrightarrow> used c' p) \<and>
     (\<forall>k. in_vol c k \<longrightarrow> used c (unat k) \<longrightarrow> k \<notin> slot_blocks overflow_slot c own fl \<longrightarrow> blk c' k = blk c k) \<and>
     fresh_from (slot_blocks overflow_slot c own fl) c (own' \<union> set fl')"

lemma ovf_moved_refl: "ovf_moved c own fl c own fl"
  by (auto simp: ovf_moved_def fresh_from_def slot_blocks_def)

lemma ovf_moved_trans:
  assumes "ovf_moved c own fl c1 own1 fl1" "ovf_moved c1 own1 fl1 c2 own2 fl2"
  shows "ovf_moved c own fl c2 own2 fl2"
proof -
  have s: "sb c1 = sb c" "sb c2 = sb c1" using assms by (simp_all add: ovf_moved_def)
  then have hl: "hlba overflow_slot (sb c1) \<in> slot_blocks overflow_slot c own fl" by (simp add: slot_blocks_def)
  have fr: "k \<in> slot_blocks overflow_slot c own fl \<or> \<not> used c (unat k)" if "k \<in> slot_blocks overflow_slot c1 own1 fl1" for k
    using that assms(1) hl by (auto simp: ovf_moved_def fresh_from_def slot_blocks_def)
  have "blk c2 k = blk c k" if "in_vol c k" "used c (unat k)" "k \<notin> slot_blocks overflow_slot c own fl" for k
  proof -
    have "blk c1 k = blk c k" "used c1 (unat k)" "in_vol c1 k" using assms(1) that s by (auto simp: ovf_moved_def in_vol_def)
    moreover have "k \<notin> slot_blocks overflow_slot c1 own1 fl1" using fr that by blast
    ultimately show ?thesis using assms(2) by (simp add: ovf_moved_def)
  qed
  moreover have "fresh_from (slot_blocks overflow_slot c own fl) c (own2 \<union> set fl2)"
    using assms fr unfolding ovf_moved_def fresh_from_def by blast
  ultimately show ?thesis using assms s by (simp add: ovf_moved_def)
qed

lemma touches_moved:
  assumes "touches overflow_slot (slot_blocks overflow_slot c own fl) c c'" "fresh_from (slot_blocks overflow_slot c own fl) c (own' \<union> set fl')"
  shows "ovf_moved c own fl c' own' fl'"
proof -
  obtain c1 where c1: "outside (slot_blocks overflow_slot c own fl) c c1" "c' = hset overflow_slot (hget overflow_slot c') c1"
    using assms(1) by (auto simp: touches_def)
  have sv: "same_volume c1 c'" using overflow.set_volume c1(2) by metis
  have "xxh64 c' = xxh64 c" using sv maxes_frame [OF c1(1), of overflow_cfg] by (simp add: same_volume_def)
  then show ?thesis using c1(1) same_volume_blocks [OF sv] overflow.touches_sb [OF assms(1)] assms(2) by (simp add: ovf_moved_def outside_def)
qed

lemma insert_all_spec:
  assumes "overflow_holds b c lv own fl rs" "lv \<le> 8" "b \<or> lv \<le> 1" "length rs + length ds \<le> unat (leaf_max overflow_cfg c)"
    and "sorted_wrt (<) (map logical_start (extents_of ino rs @ ds))"
  obtains (full) c' where "insert_all c ino ds = (OBMAFS3_ERR_NOSPC, c')" "ds \<noteq> []"
  | (stored) c' own' fl' rs' where "insert_all c ino ds = (OBMAFS3_OK, c')" "overflow_holds b c' lv own' fl' rs'" "ovf_moved c own fl c' own' fl'"
      "extents_of ino rs' = extents_of ino rs @ ds" "\<And>j. j \<noteq> ino \<Longrightarrow> extents_of j rs' = extents_of j rs"
      "length rs' \<le> length rs + length ds"
  using assms
proof (induction ds arbitrary: c own fl rs thesis)
  case Nil
  then show ?case using Nil(2) [of c own fl rs] ovf_moved_refl by simp
next
  case (Cons d ds)
  have od: "descr (overflow_of ino d) = d" "oe_inode_id (overflow_of ino d) = ino" by (simp_all add: descr_def overflow_of_def)
  show ?case
  proof (cases rule: overflow.put_outcome [OF Cons.prems(3-5) TrueI, of "overflow_of ino d", case_names full stored])
    case (full c1)
    then show ?thesis using Cons.prems(1) by (simp add: overflow_insert_def)
  next
    case (stored c1 lv1 own1 fl1)
    let ?rs = "ins_rec (rec_key overflow_cfg) (overflow_enc (overflow_of ino d)) rs"
    have len: "length ?rs \<le> Suc (length rs)" by (rule length_ins_rec)
    then have lv1: "lv1 = lv" using stored(8) Cons.prems(6) by simp
    have ex: "extents_of ino ?rs = extents_of ino rs @ [d]"
      using extents_of_ins [OF slot_env(6) [OF Cons.prems(3)], of ino "overflow_of ino d"] ins_rec_last [of "extents_of ino rs" logical_start d] Cons.prems(7)
      by (simp add: od sorted_wrt_append)
    have oth: "extents_of j ?rs = extents_of j rs" if "j \<noteq> ino" for j
      using extents_of_ins [OF slot_env(6) [OF Cons.prems(3)], of j "overflow_of ino d"] that by (simp add: od)
    have "leaf_max overflow_cfg c1 = leaf_max overflow_cfg c" using stored(5) by (simp add: leaf_max_def)
    then have room: "length ?rs + length ds \<le> unat (leaf_max overflow_cfg c1)" using len Cons.prems(6) by simp
    have srt: "sorted_wrt (<) (map logical_start (extents_of ino ?rs @ ds))" using Cons.prems(7) by (simp add: ex)
    note mv = touches_moved [OF stored(2,7)]
    show ?thesis
    proof (rule Cons.IH [OF _ _ stored(3) [unfolded lv1] Cons.prems(4,5) room srt])
      fix c' assume "insert_all c1 ino ds = (OBMAFS3_ERR_NOSPC, c')"
      then show thesis using Cons.prems(1) stored(1) by (simp add: overflow_insert_def)
    next
      fix c' own' fl' rs' assume I: "insert_all c1 ino ds = (OBMAFS3_OK, c')" "overflow_holds b c' lv own' fl' rs'" "ovf_moved c1 own1 fl1 c' own' fl'"
        "extents_of ino rs' = extents_of ino ?rs @ ds" "\<And>j. j \<noteq> ino \<Longrightarrow> extents_of j rs' = extents_of j ?rs"
        "length rs' \<le> length ?rs + length ds"
      show thesis
        by (rule Cons.prems(2) [OF _ I(2) ovf_moved_trans [OF mv I(3)]]) (use I stored(1) ex oth len in \<open>simp_all add: overflow_insert_def\<close>)
    qed
  qed
qed

section \<open>Properties\<close>

text \<open>
  C31: the search for an extent and the collection of all extents agree. The extent the search
  returns for a logical block is the first one in the collected list that covers the block,
  over the runs of the inode and the overflow tree alike.
\<close>

theorem find_extent_in_collected:
  assumes "overflow_holds b c lv own fl rs" "inode_id i \<noteq> 0"
  shows "\<exists>es. collect_all_extents c i = Some (Inr es) \<and> (\<forall>lb. find_extent c i lb = Some (find (covers lb) es))"
  using collect_all_spec [OF assms] find_extent_spec [OF assms] by blast

definition demo_file :: inode_record where
  "demo_file = \<lparr>inode_id = 7, uid = 0, gid = 0, mode = 0, creation_time = 0, modification_time = 0, access_time = 0, file_size = 0,
     extents = run_of \<lparr>logical_start = 0, logical_count = 100, phys_start = 200, phys_count = 100\<rparr> # replicate 7 zero_run,
     file_type = 0, sector_count = 0, sector_map_size = 0, ref_count = 1\<rparr>"

theorem find_extent_in_collected_witness:
  "\<exists>es. collect_all_extents ovf_one demo_file = Some (Inr es) \<and> find_extent ovf_one demo_file 102 = Some (find (covers 102) es)"
  using find_extent_in_collected [OF ovf_one_holds, of demo_file] by (auto simp: demo_file_def)

text \<open>The list as it is written: neighbours merged.\<close>

definition merged :: "extent_descriptor list \<Rightarrow> extent_descriptor list" where
  "merged lst = (case lst of [] \<Rightarrow> [] | d # ds \<Rightarrow> coalesce d ds)"

lemma merged_facts:
  "packed 0 lst \<Longrightarrow> packed 0 (merged lst)" "packed 0 lst \<Longrightarrow> place lb (merged lst) = place lb lst" "length (merged lst) \<le> length lst"
  using coalesce_place [of 0 "hd lst" "tl lst"] length_coalesce [of "hd lst" "tl lst"] by (cases lst; simp add: merged_def)+

lemma write_extent_list_spec:
  assumes h: "overflow_holds b c lv own fl rs" "lv \<le> 1" "inode_id i \<noteq> 0" "packed 0 lst" "length rs + length lst \<le> unat (leaf_max overflow_cfg c)"
  obtains (full) i' c' where "write_extent_list c i lst = Some (OBMAFS3_ERR_NOSPC, i', c')" "8 < length lst"
  | (written) c' own' fl' rs' where
      "write_extent_list c i lst = Some (OBMAFS3_OK, i\<lparr>extents := map run_of (take 8 (merged lst)) @ replicate (8 - length (merged lst)) zero_run\<rparr>, c')"
      "overflow_holds False c' lv own' fl' rs'" "ovf_moved c own fl c' own' fl'" "extents_of (inode_id i) rs' = drop 8 (merged lst)"
      "\<And>j. j \<noteq> inode_id i \<Longrightarrow> extents_of j rs' = extents_of j rs"
proof -
  let ?ino = "inode_id i" and ?rs = "filter (others (inode_id i)) rs"
  obtain d0 where C: "overflow_clear_inode c ?ino = Some (OBMAFS3_OK, c\<lparr>dev := d0\<rparr>)"
    "overflow_holds False (c\<lparr>dev := d0\<rparr>) lv own fl ?rs" "outside own c (c\<lparr>dev := d0\<rparr>)" by (rule overflow_clear_spec [OF h(1,3)])
  have own0: "extents_of ?ino ?rs = []" by (simp add: extents_of_def filter_map comp_def)
  have oth0: "extents_of j ?rs = extents_of j rs" if "j \<noteq> ?ino" for j using that by (induction rs) (auto simp: extents_of_def)
  have mv0: "ovf_moved c own fl (c\<lparr>dev := d0\<rparr>) own fl"
    using C(3) maxes_frame [OF C(3), of overflow_cfg] by (auto simp: ovf_moved_def outside_def fresh_from_def slot_blocks_def)
  show ?thesis
  proof (cases lst)
    case Nil
    then show ?thesis
      by (intro written [of "c\<lparr>dev := d0\<rparr>" own fl ?rs]) (use C own0 oth0 mv0 in \<open>simp_all add: write_extent_list_def merged_def\<close>)
  next
    case (Cons d ds)
    define m where "m = coalesce d ds"
    have m: "merged lst = m" by (simp add: merged_def m_def Cons)
    note pm = merged_facts(1) [OF h(4), unfolded m] and lm = merged_facts(3) [of lst, unfolded m]
    have "sorted_wrt (<) (map logical_start (drop 8 m))" using packed_drop [OF pm, of 8] packed_sorted by blast
    then have srt: "sorted_wrt (<) (map logical_start (extents_of ?ino ?rs @ drop 8 m))" by (simp add: own0)
    have "length ?rs + length (drop 8 m) \<le> length rs + length lst" by (rule add_mono [OF length_filter_le]) (use lm in simp)
    then have "length ?rs + length (drop 8 m) \<le> unat (leaf_max overflow_cfg c)" using h(5) by (rule le_trans)
    then have room: "length ?rs + length (drop 8 m) \<le> unat (leaf_max overflow_cfg (c\<lparr>dev := d0\<rparr>))" by (simp add: leaf_max_def)
    have ok: "heap_ok c" using slot_env(3) [OF h(1)] .
    show ?thesis
    proof (cases rule: insert_all_spec [OF C(2) _ _ room srt, case_names lv lv1 full stored])
      case (full c')
      then have "8 < length lst" using lm by simp
      then show ?thesis using that(1) C(1) ok full(1) by (simp add: write_extent_list_def Cons m_def [symmetric])
    next
      case (stored c' own' fl' rs')
      have "write_extent_list c i lst = Some (OBMAFS3_OK, i\<lparr>extents := map run_of (take 8 m) @ replicate (8 - length m) zero_run\<rparr>, c')"
        using C(1) ok stored(1) by (simp add: write_extent_list_def Cons m_def [symmetric])
      then show ?thesis
        by (intro written [of c' own' fl' rs']) (use stored(2,4,5) ovf_moved_trans [OF mv0 stored(3)] own0 oth0 in \<open>simp_all add: m\<close>)
    qed (use h(2) in simp_all)
  qed
qed

lemma packed_prefix: "packed n (xs @ ys) \<Longrightarrow> packed n xs"
proof (induction xs arbitrary: n)
  case Nil
  then show ?case using packed_less by simp
qed simp



end
