(* ===== verification/FileRead.thy ===== *)
theory FileRead
  imports Extents
begin

text \<open>
  Reading file data, src/src/lib/block.c. A plain extent has one physical block per logical
  block; the blocks of any other extent hold a block header and the packed data of a group of
  logical blocks. The compression libraries are parameters.
\<close>

section \<open>Compression\<close>

text \<open>
  The compression settings of the context and the functions of the two libraries: the level,
  the source and the capacity of the destination give the output, or None for an error of the
  library, and \<open>zstd_compressBound\<close> is the capacity that suffices for a source of that size. LZMA output comes as the five bytes of properties and the payload.
\<close>

record codec =
  compression :: bool
  compression_algo :: u8
  zstd_level :: int
  lzma_level :: int
  lzma_dict_size :: u32
  zstd_compressBound :: "nat \<Rightarrow> nat"
  zstd_compress :: "int \<Rightarrow> bytes \<Rightarrow> nat \<Rightarrow> bytes option"
  zstd_decompress :: "bytes \<Rightarrow> nat \<Rightarrow> bytes option"
  lzma_compress :: "int \<Rightarrow> u32 \<Rightarrow> bytes \<Rightarrow> nat \<Rightarrow> (bytes \<times> bytes) option"
  lzma_uncompress :: "bytes \<Rightarrow> bytes \<Rightarrow> nat \<Rightarrow> bytes option"

definition kCompressionZstd :: u8 where "kCompressionZstd = 1"
definition kCompressionLzma :: u8 where "kCompressionLzma = 2"
definition LZMA_PROPS_SIZE :: nat where "LZMA_PROPS_SIZE = 5"

definition obmafs3_compress :: "codec \<Rightarrow> int \<Rightarrow> bytes \<Rightarrow> nat \<Rightarrow> rc + bytes" where
  "obmafs3_compress K lev src cap = (case zstd_compress K lev src cap of None \<Rightarrow> Inl OBMAFS3_ERR_IO | Some out \<Rightarrow> Inr out)"

definition obmafs3_decompress :: "codec \<Rightarrow> bytes \<Rightarrow> nat \<Rightarrow> rc + bytes" where
  "obmafs3_decompress K src cap = (case zstd_decompress K src cap of None \<Rightarrow> Inl OBMAFS3_ERR_IO | Some out \<Rightarrow> Inr out)"

definition compression_worthwhile :: "codec \<Rightarrow> bytes \<Rightarrow> nat \<Rightarrow> int \<Rightarrow> bool" where
  "compression_worthwhile K src cap lev =
     (if lev \<le> 3 then True
      else case zstd_compress K 1 src cap of None \<Rightarrow> False | Some out \<Rightarrow> length out < length src * 9 div 10)"

definition obmafs3_compress_lzma :: "codec \<Rightarrow> int \<Rightarrow> u32 \<Rightarrow> bytes \<Rightarrow> nat \<Rightarrow> rc + bytes" where
  "obmafs3_compress_lzma K lev dict src cap =
     (if cap < LZMA_PROPS_SIZE then Inl OBMAFS3_ERR_IO
      else case lzma_compress K lev dict src (cap - LZMA_PROPS_SIZE) of
        None \<Rightarrow> Inl OBMAFS3_ERR_IO
      | Some (props, out) \<Rightarrow> Inr (props @ out))"

definition obmafs3_decompress_lzma :: "codec \<Rightarrow> bytes \<Rightarrow> nat \<Rightarrow> rc + bytes" where
  "obmafs3_decompress_lzma K src cap =
     (if length src < LZMA_PROPS_SIZE then Inl OBMAFS3_ERR_IO
      else case lzma_uncompress K (take LZMA_PROPS_SIZE src) (drop LZMA_PROPS_SIZE src) cap of
        None \<Rightarrow> Inl OBMAFS3_ERR_IO
      | Some out \<Rightarrow> Inr out)"

definition obmafs3_compress_dispatch :: "codec \<Rightarrow> bytes \<Rightarrow> nat \<Rightarrow> rc + bytes" where
  "obmafs3_compress_dispatch K src cap =
     (if compression_algo K = kCompressionLzma then obmafs3_compress_lzma K (lzma_level K) (lzma_dict_size K) src cap
      else obmafs3_compress K (zstd_level K) src cap)"

definition obmafs3_decompress_dispatch :: "codec \<Rightarrow> u8 \<Rightarrow> bytes \<Rightarrow> nat \<Rightarrow> rc + bytes" where
  "obmafs3_decompress_dispatch K ctype src cap =
     (if ctype = kCompressionLzma then obmafs3_decompress_lzma K src cap else obmafs3_decompress K src cap)"

section \<open>Compressed extents\<close>

record block_header =
  bh_magic :: u64
  bh_flags :: u8
  compression_type :: u8
  original_size :: u64
  compressed_size :: u64
  bh_checksum :: bytes

definition OBMAFS3_BLOCK_MAGIC :: u64 where "OBMAFS3_BLOCK_MAGIC = 0x4B434C42414D424F"
definition OBMAFS3_BLOCK_FLAG_COMPRESSED :: u8 where "OBMAFS3_BLOCK_FLAG_COMPRESSED = 1"
definition OBMAFS3_COMPRESS_GROUP_BLOCKS :: u64 where "OBMAFS3_COMPRESS_GROUP_BLOCKS = 16"

definition bh_size :: nat where "bh_size = 58"

definition bh_enc :: "block_header \<Rightarrow> bytes" where
  "bh_enc h = le_enc 8 (bh_magic h) @ le_enc 1 (bh_flags h) @ le_enc 1 (compression_type h) @ le_enc 8 (original_size h) @
     le_enc 8 (compressed_size h) @ bh_checksum h"

definition bh_dec :: "bytes \<Rightarrow> block_header" where
  "bh_dec b = \<lparr>bh_magic = u64at 0 b, bh_flags = u8at 8 b, compression_type = u8at 9 b, original_size = u64at 10 b,
     compressed_size = u64at 18 b, bh_checksum = fld 26 32 b\<rparr>"

fun read_blocks :: "ctx \<Rightarrow> u64 \<Rightarrow> nat \<Rightarrow> rc + bytes" where
  "read_blocks c lba 0 = Inr []"
| "read_blocks c lba (Suc n) =
     (case obmafs3_block_read c lba (bsz c) of
        Inl e \<Rightarrow> Inl e
      | Inr b \<Rightarrow> (case read_blocks c (lba + 1) n of Inl e \<Rightarrow> Inl e | Inr rest \<Rightarrow> Inr (b @ rest)))"

definition group_blocks :: nat where "group_blocks = unat OBMAFS3_COMPRESS_GROUP_BLOCKS"

text \<open>
  Reading and unpacking the blocks of a compressed extent into a buffer of \<open>cap\<close> bytes. The
  physical blocks go to a buffer of one group. None stands for an access outside the buffers
  or to bytes that the extent does not define.
\<close>

definition read_compressed :: "codec \<Rightarrow> ctx \<Rightarrow> u64 \<Rightarrow> u64 \<Rightarrow> nat \<Rightarrow> (rc + block_header \<times> bytes) option" where
  "read_compressed K c start phys_n cap =
     (case read_blocks c start (min (unat phys_n) group_blocks) of
        Inl e \<Rightarrow> Some (Inl e)
      | Inr phys \<Rightarrow>
          if group_blocks < unat phys_n \<or> length phys < bh_size then None
          else
            let bhdr = bh_dec phys;
                compr = bh_flags bhdr AND OBMAFS3_BLOCK_FLAG_COMPRESSED \<noteq> 0;
                check_size = unat (if compr then compressed_size bhdr else original_size bhdr);
                body = take check_size (drop bh_size phys)
            in if bh_magic bhdr \<noteq> OBMAFS3_BLOCK_MAGIC then Some (Inl OBMAFS3_ERR_BADMAGIC)
               else if length phys < bh_size + check_size then None
               else if obmafs3_checksum_block (xxh64 c) body \<noteq> bh_checksum bhdr then Some (Inl OBMAFS3_ERR_CHECKSUM)
               else if cap < unat (original_size bhdr) then None
               else if compr then
                 (case obmafs3_decompress_dispatch K (compression_type bhdr) body (unat (original_size bhdr)) of
                    Inl e \<Rightarrow> Some (Inl e)
                  | Inr out \<Rightarrow> Some (Inr (bhdr, out)))
               else Some (Inr (bhdr, body)))"

text \<open>
  The bytes that a successful call stores from the start of \<open>out_buf\<close> on.
\<close>

definition read_extent_blocks :: "codec \<Rightarrow> ctx \<Rightarrow> extent_descriptor \<Rightarrow> u64 \<Rightarrow> u64 \<Rightarrow> (rc + bytes) option" where
  "read_extent_blocks K c ext first_logical n =
     (let offset_in_ext = first_logical - logical_start ext in
      if plain ext then Some (read_blocks c (phys_start ext + offset_in_ext) (unat n))
      else if offset_in_ext = 0 \<and> n = logical_count ext then
        (case read_compressed K c (phys_start ext) (phys_count ext) (unat n * bsz c) of
           None \<Rightarrow> None
         | Some (Inl e) \<Rightarrow> Some (Inl e)
         | Some (Inr (bhdr, out)) \<Rightarrow> Some (Inr out))
      else
        (case read_compressed K c (phys_start ext) (phys_count ext) (group_blocks * bsz c) of
           None \<Rightarrow> None
         | Some (Inl e) \<Rightarrow> Some (Inl e)
         | Some (Inr (bhdr, decomp)) \<Rightarrow>
             let start_off = unat (offset_in_ext * block_size (sb c));
                 copy_bytes = unat (n * block_size (sb c));
                 orig = unat (original_size bhdr);
                 avail = (if start_off + copy_bytes \<le> orig then copy_bytes else if start_off < orig then orig - start_off else 0)
             in if 0 < avail \<and> length decomp < start_off + avail then None
                else Some (Inr (take avail (drop start_off decomp) @ replicate (copy_bytes - avail) 0))))"

section \<open>Reading a file\<close>

text \<open>The part of a plain extent: whole blocks, the first and the last possibly in part; \<open>acc\<close> is what the output buffer holds.\<close>

partial_function (option) copy_plain :: "ctx \<Rightarrow> extent_descriptor \<Rightarrow> u64 \<Rightarrow> u64 \<Rightarrow> u64 \<Rightarrow> u64 \<Rightarrow> bytes \<Rightarrow> (rc + bytes) option" where
  [code]: "copy_plain c ext logical_blk off_in_block to_consume consumed acc =
     (if consumed < to_consume then
        let cur_blk = logical_blk + (off_in_block + consumed) div block_size (sb c);
            blk_off = (if consumed = 0 then off_in_block else 0);
            blk_avail = block_size (sb c) - blk_off;
            chunk = (if blk_avail < to_consume - consumed then blk_avail else to_consume - consumed);
            phys_lba = phys_start ext + (cur_blk - logical_start ext)
        in (case obmafs3_block_read c phys_lba (bsz c) of
              Inl e \<Rightarrow> Some (Inl e)
            | Inr b \<Rightarrow> copy_plain c ext logical_blk off_in_block to_consume (consumed + chunk) (acc @ take (unat chunk) (drop (unat blk_off) b)))
      else Some (Inr acc))"

text \<open>The data of the last unpacked extent are kept under the number of its first physical block.\<close>

definition cached_data :: "codec \<Rightarrow> ctx \<Rightarrow> extent_descriptor \<Rightarrow> (u64 \<times> bytes) option \<Rightarrow> (rc + bytes) option" where
  "cached_data K c ext cache =
     (case cache of
        Some (p, decomp) \<Rightarrow>
          if p = phys_start ext then Some (Inr decomp)
          else map_option (map_sum id snd) (read_compressed K c (phys_start ext) (phys_count ext) (group_blocks * bsz c))
      | None \<Rightarrow> map_option (map_sum id snd) (read_compressed K c (phys_start ext) (phys_count ext) (group_blocks * bsz c)))"

partial_function (option) read_loop ::
    "codec \<Rightarrow> ctx \<Rightarrow> inode_record \<Rightarrow> u64 \<Rightarrow> u64 \<Rightarrow> u64 \<Rightarrow> (u64 \<times> bytes) option \<Rightarrow> bytes \<Rightarrow> (rc + bytes) option" where
  [code]: "read_loop K c i offset sz bytes_read cache acc =
     (if bytes_read < sz then
        let read_pos = offset + bytes_read;
            logical_blk = read_pos div block_size (sb c);
            off_in_block = read_pos mod block_size (sb c);
            want = sz - bytes_read
        in (case find_extent c i logical_blk of
              None \<Rightarrow> None
            | Some None \<Rightarrow> Some (Inl OBMAFS3_ERR_IO)
            | Some (Some ext) \<Rightarrow>
                let blk_in_ext = logical_blk - logical_start ext in
                if plain ext then
                  let ext_avail = (logical_count ext - blk_in_ext) * block_size (sb c) - off_in_block;
                      to_consume = (if want < ext_avail then want else ext_avail)
                  in (case copy_plain c ext logical_blk off_in_block to_consume 0 acc of
                        None \<Rightarrow> None
                      | Some (Inl e) \<Rightarrow> Some (Inl e)
                      | Some (Inr acc') \<Rightarrow> read_loop K c i offset sz (bytes_read + to_consume) cache acc')
                else (case cached_data K c ext cache of
                        None \<Rightarrow> None
                      | Some (Inl e) \<Rightarrow> Some (Inl e)
                      | Some (Inr decomp) \<Rightarrow>
                          let decomp_offset = blk_in_ext * block_size (sb c) + off_in_block;
                              decomp_total = logical_count ext * block_size (sb c);
                              ext_avail = (if decomp_offset < decomp_total then decomp_total - decomp_offset else 0);
                              to_copy = (if want < ext_avail then want else ext_avail)
                          in if length decomp < unat decomp_offset + unat to_copy then None
                             else read_loop K c i offset sz (bytes_read + to_copy) (Some (phys_start ext, decomp))
                                    (acc @ take (unat to_copy) (drop (unat decomp_offset) decomp))))
      else Some (Inr acc))"

text \<open>The bytes that the call stores in the buffer of the caller.\<close>

definition obmafs3_read_file_data :: "codec \<Rightarrow> ctx \<Rightarrow> inode_record \<Rightarrow> u64 \<Rightarrow> u64 \<Rightarrow> (rc + bytes) option" where
  "obmafs3_read_file_data K c i offset sz =
     (if file_size i \<le> offset then Some (Inr [])
      else read_loop K c i offset (if file_size i < offset + sz then file_size i - offset else sz) 0 None [])"

section \<open>The blocks of an extent as an array\<close>

lemma length_data_area: "dev_ok c \<Longrightarrow> area_in c lba n \<Longrightarrow> length (data_area c lba n) = n * bsz c"
proof (induction n arbitrary: lba)
  case (Suc n)
  then show ?case using area_in_Suc [OF Suc.prems(2)] length_blk by (simp add: data_area_Suc)
qed (simp add: data_area_def)

lemma read_blocks_area: "dev_ok c \<Longrightarrow> area_in c lba n \<Longrightarrow> read_blocks c lba n = Inr (data_area c lba n)"
proof (induction n arbitrary: lba)
  case (Suc n)
  then show ?case using area_in_Suc [OF Suc.prems(2)] block_read_blk by (simp add: data_area_Suc)
qed (simp add: data_area_def)

lemma area_in_drop: "area_in c lba n \<Longrightarrow> j \<le> n \<Longrightarrow> j < 2 ^ 64 \<Longrightarrow> area_in c (lba + of_nat j) (n - j)"
  using unat_u64 [of "max_lba c"] by (cases "j = n \<and> unat lba + n = 2 ^ 64") (auto simp: area_in_def unat_add_of_nat)

lemma data_area_drop: "dev_ok c \<Longrightarrow> area_in c lba n \<Longrightarrow> j \<le> n \<Longrightarrow> drop (j * bsz c) (data_area c lba n) = data_area c (lba + of_nat j) (n - j)"
proof (induction j arbitrary: lba n)
  case (Suc j)
  then obtain m where n: "n = Suc m" by (cases n) auto
  note A = area_in_Suc [OF Suc.prems(2) [unfolded n]]
  have "drop (j * bsz c) (data_area c (lba + 1) m) = data_area c (lba + 1 + of_nat j) (m - j)" using Suc n A(2) by simp
  then show ?case using n A(1) length_blk [OF Suc.prems(1)] by (simp add: data_area_Suc drop_append add.assoc)
qed simp

lemma area_bytes: "dev_ok c \<Longrightarrow> area_in c lba n \<Longrightarrow> n * bsz c < 2 ^ 63"
proof -
  assume d: "dev_ok c" and a: "area_in c lba n"
  have "n * bsz c \<le> unat (max_lba c) * bsz c" using a by (simp add: area_in_def)
  also have "\<dots> \<le> unat (total_bytes (sb c))" by (simp add: unat_max_lba)
  finally show ?thesis using d by (simp add: dev_ok_def)
qed

lemma data_area_slice:
  assumes "dev_ok c" "area_in c lba n" "j < n" "q + m \<le> bsz c"
  shows "take m (drop (j * bsz c + q) (data_area c lba n)) = take m (drop q (blk c (lba + of_nat j)))"
    and "in_vol c (lba + of_nat j)"
proof -
  have "j * bsz c < 2 ^ 63" using area_bytes [OF assms(1,2)] assms(3) mult_le_mono1 [of j n "bsz c"] by linarith
  moreover have "j \<le> j * bsz c" using assms(1) by (auto simp: dev_ok_def)
  ultimately have "j < 2 ^ 63" by linarith
  then have "j < 2 ^ 64" by simp
  then have A: "area_in c (lba + of_nat j) (Suc (n - j - 1))" using area_in_drop [OF assms(2), of j] assms(3) by (simp add: Suc_diff_Suc)
  show v: "in_vol c (lba + of_nat j)" by (rule area_in_Suc(1) [OF A])
  have "drop (j * bsz c + q) (data_area c lba n) = drop q (drop (j * bsz c) (data_area c lba n))" by (simp add: add.commute)
  also have "drop (j * bsz c) (data_area c lba n) = data_area c (lba + of_nat j) (Suc (n - j - 1))"
    using data_area_drop [OF assms(1,2), of j] assms(3) by (simp add: Suc_diff_Suc)
  also have "\<dots> = blk c (lba + of_nat j) @ data_area c (lba + of_nat j + 1) (n - j - 1)" by (rule data_area_Suc)
  finally show "take m (drop (j * bsz c + q) (data_area c lba n)) = take m (drop q (blk c (lba + of_nat j)))"
    using assms(4) length_blk [OF assms(1) v] by simp
qed

lemma copy_plain_spec:
  assumes d: "dev_ok c" and a: "area_in c (phys_start ext) n" and k: "lb - logical_start ext = of_nat k"
    and off: "unat off < bsz c" and fit: "k * bsz c + unat off + unat to_consume \<le> n * bsz c"
    and st: "consumed \<le> to_consume" "consumed = 0 \<or> (unat off + unat consumed) mod bsz c = 0"
  shows "copy_plain c ext lb off to_consume consumed acc
    = Some (Inr (acc @ take (unat to_consume - unat consumed) (drop (k * bsz c + unat off + unat consumed) (data_area c (phys_start ext) n))))"
  using st
proof (induction "unat to_consume - unat consumed" arbitrary: consumed acc rule: less_induct)
  case less
  let ?bs = "bsz c"
  have b0: "0 < ?bs" using d by (simp add: dev_ok_def)
  have lim: "k * ?bs + unat off + unat to_consume < 2 ^ 63" using fit area_bytes [OF d a] by linarith
  show ?case
  proof (cases "consumed < to_consume")
    case False
    then have "consumed = to_consume" using less.prems by simp
    then show ?thesis by (simp add: copy_plain.simps)
  next
    case True
    then have ct: "unat consumed < unat to_consume" by (simp add: word_less_nat_alt)
    define blk_off where "blk_off = (if consumed = 0 then off else 0)"
    define chunk where "chunk = (if block_size (sb c) - blk_off < to_consume - consumed then block_size (sb c) - blk_off else to_consume - consumed)"
    define j where "j = k + (unat off + unat consumed) div ?bs"
    have oc: "unat (off + consumed) = unat off + unat consumed" using lim ct by (intro unat_add_less) simp
    have bo: "unat blk_off = (unat off + unat consumed) mod ?bs" "unat blk_off < ?bs" using less.prems(2) off b0 by (auto simp: blk_off_def)
    have ba: "unat (block_size (sb c) - blk_off) = ?bs - unat blk_off" using bo by (simp add: unat_sub word_le_nat_alt)
    have tc: "unat (to_consume - consumed) = unat to_consume - unat consumed" using True by (simp add: unat_sub)
    have ch: "unat chunk = min (?bs - unat blk_off) (unat to_consume - unat consumed)" by (auto simp: chunk_def word_less_nat_alt ba tc)
    have ch0: "0 < unat chunk" using ch bo ct by simp
    have pos: "k * ?bs + unat off + unat consumed = j * ?bs + unat blk_off" by (simp add: j_def bo(1) algebra_simps)
    have jn: "j < n"
    proof -
      have "j * ?bs < n * ?bs" using pos fit ct by linarith
      then show ?thesis by simp
    qed
    have "lb + (off + consumed) div block_size (sb c) - logical_start ext = of_nat j"
    proof -
      have "(off + consumed) div block_size (sb c) = of_nat ((unat off + unat consumed) div ?bs)" by (simp add: oc [symmetric] unat_div_distrib [symmetric])
      then show ?thesis using k by (simp add: j_def algebra_simps)
    qed
    note sl = data_area_slice [OF d a jn, of "unat blk_off" "unat chunk"]
    have qm: "unat blk_off + unat chunk \<le> ?bs" using ch bo by simp
    have rd: "obmafs3_block_read c (phys_start ext + (lb + (off + consumed) div block_size (sb c) - logical_start ext)) ?bs = Inr (blk c (phys_start ext + of_nat j))"
      unfolding \<open>lb + _ - _ = of_nat j\<close> using block_read_blk [OF d sl(2) [OF qm]] .
    have "unat consumed + unat chunk \<le> unat to_consume" using ch ct by simp
    moreover from this have cc: "unat (consumed + chunk) = unat consumed + unat chunk" using unat_u64 [of to_consume] by (intro unat_add_less) simp
    ultimately have p1: "consumed + chunk \<le> to_consume" by (simp add: word_le_nat_alt)
    have step: "unat to_consume - unat (consumed + chunk) < unat to_consume - unat consumed" using cc ch0 ct by simp
    have IH: "copy_plain c ext lb off to_consume (consumed + chunk) acc'
      = Some (Inr (acc' @ take (unat to_consume - unat (consumed + chunk)) (drop (k * ?bs + unat off + unat (consumed + chunk)) (data_area c (phys_start ext) n))))" for acc'
    proof (cases "unat chunk = ?bs - unat blk_off")
      case True
      have "(unat off + unat (consumed + chunk)) mod ?bs = ((unat off + unat consumed) mod ?bs + unat chunk) mod ?bs" by (simp add: cc mod_simps add.assoc)
      also have "\<dots> = 0" using True bo by simp
      finally show ?thesis by (intro less.hyps [OF step p1] disjI2)
    next
      case False
      then have "consumed + chunk = to_consume" using ch cc ct by (intro word_unat_eq_iff [THEN iffD2]) (simp add: min_def split: if_splits)
      then show ?thesis by (simp add: copy_plain.simps)
    qed
    have split: "take (unat to_consume - unat consumed) (drop (k * ?bs + unat off + unat consumed) xs)
      = take (unat chunk) (drop (k * ?bs + unat off + unat consumed) xs) @ take (unat to_consume - unat (consumed + chunk)) (drop (k * ?bs + unat off + unat (consumed + chunk)) xs)" for xs :: bytes
    proof -
      have "unat to_consume - unat consumed = unat chunk + (unat to_consume - unat (consumed + chunk))" using \<open>unat consumed + unat chunk \<le> _\<close> cc by simp
      then show ?thesis unfolding cc by (simp add: take_add ac_simps)
    qed
    have "copy_plain c ext lb off to_consume consumed acc
      = copy_plain c ext lb off to_consume (consumed + chunk) (acc @ take (unat chunk) (drop (unat blk_off) (blk c (phys_start ext + of_nat j))))"
      using True rd by (subst copy_plain.simps) (simp add: Let_def chunk_def [symmetric] blk_off_def [symmetric])
    also have "\<dots> = Some (Inr (acc @ take (unat to_consume - unat consumed) (drop (k * ?bs + unat off + unat consumed) (data_area c (phys_start ext) n))))"
      unfolding IH split using sl(1) [OF qm] pos by simp
    finally show ?thesis .
  qed
qed

section \<open>The contents of a file\<close>

text \<open>The bytes of an extent, and of the extents of a file one after the other.\<close>

definition ext_data :: "codec \<Rightarrow> ctx \<Rightarrow> extent_descriptor \<Rightarrow> bytes option" where
  "ext_data K c d =
     (let n = unat (logical_count d) in
      if plain d then (if area_in c (phys_start d) n then Some (data_area c (phys_start d) n) else None)
      else case read_compressed K c (phys_start d) (phys_count d) (group_blocks * bsz c) of
             Some (Inr (bhdr, out)) \<Rightarrow> if n * bsz c \<le> length out \<and> n \<le> group_blocks then Some (take (n * bsz c) out) else None
           | _ \<Rightarrow> None)"

fun file_image :: "codec \<Rightarrow> ctx \<Rightarrow> extent_descriptor list \<Rightarrow> bytes option" where
  "file_image K c [] = Some []"
| "file_image K c (d # ds) =
     (case ext_data K c d of None \<Rightarrow> None | Some x \<Rightarrow> map_option ((@) x) (file_image K c ds))"

lemma length_ext_data: "ext_data K c d = Some x \<Longrightarrow> dev_ok c \<Longrightarrow> length x = unat (logical_count d) * bsz c"
  by (auto simp: ext_data_def Let_def length_data_area split: if_splits option.splits sum.splits prod.splits)

lemma ext_data_bytes: "ext_data K c d = Some x \<Longrightarrow> dev_ok c \<Longrightarrow> bsz c \<le> 65536 \<Longrightarrow> length x < 2 ^ 63"
proof (cases "plain d")
  case True
  assume "ext_data K c d = Some x" "dev_ok c"
  then show ?thesis using area_bytes [of c "phys_start d"] True length_ext_data [of K c d x] by (auto simp: ext_data_def Let_def split: if_splits)
next
  case False
  assume e: "ext_data K c d = Some x" and d: "dev_ok c" "bsz c \<le> 65536"
  have "unat (logical_count d) \<le> 16" using e False
    by (auto simp: ext_data_def Let_def group_blocks_def OBMAFS3_COMPRESS_GROUP_BLOCKS_def split: if_splits option.splits sum.splits prod.splits)
  then have "unat (logical_count d) * bsz c \<le> 16 * 65536" using d by (intro mult_mono) auto
  then show ?thesis using length_ext_data [OF e d(1)] by simp
qed

text \<open>The extent of a position in the file.\<close>

lemma file_image_at:
  assumes "packed n ds" "file_image K c ds = Some img" "dev_ok c" "n * bsz c \<le> pos" "pos < n * bsz c + length img"
    and "unat lb = pos div bsz c"
  obtains d x pre post where "find (covers lb) ds = Some d" "d \<in> set ds" "ext_data K c d = Some x" "img = pre @ x @ post"
    "n * bsz c + length pre = unat (logical_start d) * bsz c" "unat (logical_start d) \<le> unat lb" "unat lb < unat (logical_start d) + unat (logical_count d)"
    "unat (logical_start d) + unat (logical_count d) < 2 ^ 64"
  using assms
proof (induction ds arbitrary: n img thesis)
  case (Cons d ds)
  let ?bs = "bsz c" and ?m = "unat (logical_count d)"
  have b0: "0 < ?bs" using Cons.prems(4) by (simp add: dev_ok_def)
  obtain x img' where x: "ext_data K c d = Some x" "file_image K c ds = Some img'" "img = x @ img'"
    using Cons.prems(3) by (auto split: option.splits)
  have lx: "length x = ?m * ?bs" using length_ext_data [OF x(1) Cons.prems(4)] .
  have pk: "packed (n + ?m) ds" "unat (logical_start d) = n" using Cons.prems(2) by simp_all
  have cov: "covers lb d \<longleftrightarrow> n \<le> unat lb \<and> unat lb < n + ?m" by (rule covers_packed [OF Cons.prems(2)])
  have le: "n \<le> unat lb" using Cons.prems(5,7) b0 by (simp add: less_eq_div_iff_mult_less_eq)
  show ?case
  proof (cases "pos < (n + ?m) * ?bs")
    case True
    then have "unat lb < n + ?m" using Cons.prems(7) b0 by (simp add: div_less_iff_less_mult)
    then show ?thesis using Cons.prems(1) [of d x "[]" img'] x le cov pk(2) packed_less [OF pk(1)] by simp
  next
    case False
    then have nc: "\<not> covers lb d" using cov Cons.prems(7) b0 by (simp add: div_less_iff_less_mult)
    have p: "(n + ?m) * ?bs \<le> pos" "pos < (n + ?m) * ?bs + length img'" using False Cons.prems(6) x(3) lx by (simp_all add: algebra_simps)
    show ?thesis
    proof (rule Cons.IH [OF _ pk(1) x(2) Cons.prems(4) p Cons.prems(7)])
      fix e y pre post
      assume e: "find (covers lb) ds = Some e" "e \<in> set ds" "ext_data K c e = Some y" "img' = pre @ y @ post"
        "(n + ?m) * ?bs + length pre = unat (logical_start e) * ?bs" "unat (logical_start e) \<le> unat lb" "unat lb < unat (logical_start e) + unat (logical_count e)"
        "unat (logical_start e) + unat (logical_count e) < 2 ^ 64"
      show thesis by (rule Cons.prems(1) [of e y "x @ pre" post]) (use e nc x(3) lx in \<open>simp_all add: algebra_simps\<close>)
    qed
  qed
qed simp

text \<open>Two compressed extents with the same first block are the same blocks, as clones have them.\<close>

definition clones_agree :: "extent_descriptor list \<Rightarrow> bool" where
  "clones_agree ds \<longleftrightarrow> (\<forall>d \<in> set ds. \<forall>e \<in> set ds. \<not> plain d \<longrightarrow> \<not> plain e \<longrightarrow> phys_start d = phys_start e \<longrightarrow> phys_count d = phys_count e)"

definition cache_ok :: "codec \<Rightarrow> ctx \<Rightarrow> extent_descriptor list \<Rightarrow> (u64 \<times> bytes) option \<Rightarrow> bool" where
  "cache_ok K c ds cache \<longleftrightarrow> (case cache of None \<Rightarrow> True | Some (p, out) \<Rightarrow>
     \<forall>d \<in> set ds. \<not> plain d \<longrightarrow> phys_start d = p \<longrightarrow> (\<exists>h. read_compressed K c p (phys_count d) (group_blocks * bsz c) = Some (Inr (h, out))))"

lemma cached_data_spec:
  assumes "cache_ok K c ds cache" "clones_agree ds" "d \<in> set ds" "\<not> plain d" "ext_data K c d = Some x"
  obtains out where "cached_data K c d cache = Some (Inr out)" "unat (logical_count d) * bsz c \<le> length out"
    "x = take (unat (logical_count d) * bsz c) out" "cache_ok K c ds (Some (phys_start d, out))"
proof -
  obtain h out where r: "read_compressed K c (phys_start d) (phys_count d) (group_blocks * bsz c) = Some (Inr (h, out))"
    "unat (logical_count d) * bsz c \<le> length out" "x = take (unat (logical_count d) * bsz c) out"
    using assms(4,5) by (auto simp: ext_data_def Let_def split: if_splits option.splits sum.splits prod.splits)
  have "cached_data K c d cache = Some (Inr out)"
  proof (cases cache)
    case (Some e)
    obtain p q where e: "e = (p, q)" by fastforce
    show ?thesis
    proof (cases "p = phys_start d")
      case True
      then have "\<exists>h. read_compressed K c (phys_start d) (phys_count d) (group_blocks * bsz c) = Some (Inr (h, q))"
        using assms(1,3,4) Some e by (simp add: cache_ok_def)
      then show ?thesis using r(1) True Some e by (simp add: cached_data_def)
    qed (use r(1) Some e in \<open>simp add: cached_data_def\<close>)
  qed (use r(1) in \<open>simp add: cached_data_def\<close>)
  moreover have "\<exists>h. read_compressed K c (phys_start d) (phys_count e) (group_blocks * bsz c) = Some (Inr (h, out))"
    if "e \<in> set ds" "\<not> plain e" "phys_start e = phys_start d" for e
  proof -
    have "phys_count e = phys_count d" using assms(2-4) that unfolding clones_agree_def by blast
    then show ?thesis using r(1) by simp
  qed
  then have "cache_ok K c ds (Some (phys_start d, out))" unfolding cache_ok_def by auto
  ultimately show thesis using that r by blast
qed

text \<open>The same, with the distance from the start of the extent in blocks and in bytes.\<close>

lemma file_image_here:
  assumes pk: "packed 0 ds" and img: "file_image K c ds = Some img" and dv: "dev_ok c" "bsz c \<le> 65536" and pos: "pos < length img"
    and lb: "unat lb = pos div bsz c" and off: "unat off = pos mod bsz c"
  obtains d x k n where "find (covers lb) ds = Some d" "d \<in> set ds" "ext_data K c d = Some x" "n = unat (logical_count d)"
    "lb - logical_start d = of_nat k" "unat (lb - logical_start d) = k" "k * bsz c + unat off < n * bsz c" "n * bsz c < 2 ^ 63" "length x = n * bsz c"
    "\<And>m. m \<le> n * bsz c - (k * bsz c + unat off) \<Longrightarrow> take m (drop pos img) = take m (drop (k * bsz c + unat off) x)"
proof -
  let ?bs = "bsz c"
  obtain d x pre post where D: "find (covers lb) ds = Some d" "d \<in> set ds" "ext_data K c d = Some x" "img = pre @ x @ post"
    "0 * ?bs + length pre = unat (logical_start d) * ?bs" "unat (logical_start d) \<le> unat lb" "unat lb < unat (logical_start d) + unat (logical_count d)"
    by (rule file_image_at [OF pk img dv(1), of pos lb]) (use pos lb in auto)
  define k where "k = unat lb - unat (logical_start d)"
  define n where "n = unat (logical_count d)"
  have lx: "length x = n * ?bs" "n * ?bs < 2 ^ 63" using length_ext_data [OF D(3) dv(1)] ext_data_bytes [OF D(3) dv] by (simp_all add: n_def)
  have "k * ?bs + unat off < Suc k * ?bs" using off dv(1) by (simp add: dev_ok_def)
  also have "\<dots> \<le> n * ?bs" using D(6,7) by (intro mult_le_mono1) (simp add: k_def n_def)
  finally have kb: "k * ?bs + unat off < n * ?bs" .
  have "unat (logical_start d) * ?bs + k * ?bs = pos div ?bs * ?bs" using D(6) lb by (simp add: k_def flip: distrib_right)
  then have pp: "pos = length pre + (k * ?bs + unat off)" using D(5) off div_mult_mod_eq [of pos ?bs] by linarith
  show thesis
  proof (rule that [OF D(1-3) n_def _ _ kb lx(2,1)])
    show "lb - logical_start d = of_nat k" using D(6) by (simp add: k_def of_nat_diff)
    show "unat (lb - logical_start d) = k" using D(6) by (simp add: k_def unat_sub word_le_nat_alt)
    show "take m (drop pos img) = take m (drop (k * ?bs + unat off) x)" if "m \<le> n * ?bs - (k * ?bs + unat off)" for m
      using that lx kb by (simp add: D(4) pp)
  qed
qed

text \<open>What is left of an extent, as the code computes it in 64 bits.\<close>

lemma avail_plain:
  assumes "unat w = k" "k * unat bw + unat off < unat lc * unat bw" "unat lc * unat bw < 2 ^ 63"
  shows "unat ((lc - w) * bw - off :: u64) = unat lc * unat bw - (k * unat bw + unat off)"
proof -
  have kn: "k \<le> unat lc" using assms(2) by (meson add_lessD1 mult_less_cancel2 less_imp_le)
  then have a: "unat (lc - w) = unat lc - k" using assms(1) by (simp add: unat_sub word_le_nat_alt)
  have "(unat lc - k) * unat bw \<le> unat lc * unat bw" by simp
  then have "(unat lc - k) * unat bw < 2 ^ 63" using assms(3) by linarith
  then have "(unat lc - k) * unat bw < 2 ^ 64" by simp
  then have "unat ((lc - w) * bw) = (unat lc - k) * unat bw" using a by (simp add: unat_word_ariths)
  moreover have "unat off \<le> (unat lc - k) * unat bw" using assms(2) by (simp add: diff_mult_distrib)
  ultimately have "unat ((lc - w) * bw - off) = (unat lc - k) * unat bw - unat off" by (simp add: unat_sub word_le_nat_alt)
  then show ?thesis by (simp add: diff_mult_distrib)
qed

lemma avail_compressed:
  assumes "unat w = k" "k * unat bw + unat off < unat lc * unat bw" "unat lc * unat bw < 2 ^ 63"
  shows "unat (w * bw + off :: u64) = k * unat bw + unat off"
    and "unat (if w * bw + off < lc * bw then lc * bw - (w * bw + off) else 0 :: u64) = unat lc * unat bw - (k * unat bw + unat off)"
proof -
  have "unat (w * bw) = k * unat bw" using assms by (simp add: unat_word_ariths)
  then show du: "unat (w * bw + off) = k * unat bw + unat off" using assms by (subst unat_add_less) simp_all
  have "unat (lc * bw) = unat lc * unat bw" using assms(3) by (simp add: unat_word_ariths)
  then show "unat (if w * bw + off < lc * bw then lc * bw - (w * bw + off) else 0) = unat lc * unat bw - (k * unat bw + unat off)"
    using du assms(2) by (auto simp: word_less_nat_alt unat_sub word_le_nat_alt)
qed

lemma unat_smaller: "unat (if (a :: u64) < e then a else e) = min (unat a) (unat e)"
  by (auto simp: word_less_nat_alt)

lemma read_loop_spec:
  assumes h: "overflow_holds b c lv own fl rs" "inode_id i \<noteq> 0" and ds: "ds = inline_list 0 (extents i) @ extents_of (inode_id i) rs"
    and pk: "packed 0 ds" "clones_agree ds" and img: "file_image K c ds = Some img" and fit: "unat offset + unat sz \<le> length img" "unat offset + unat sz < 2 ^ 64"
    and st: "bytes_read \<le> sz" "cache_ok K c ds cache"
  shows "read_loop K c i offset sz bytes_read cache acc = Some (Inr (acc @ take (unat sz - unat bytes_read) (drop (unat offset + unat bytes_read) img)))"
  using st
proof (induction "unat sz - unat bytes_read" arbitrary: bytes_read cache acc rule: less_induct)
  case less
  let ?bs = "bsz c"
  have dv: "dev_ok c" and b0: "0 < ?bs" "?bs \<le> 65536" using slot_env(1,4,5) [OF h(1)] .
  show ?case
  proof (cases "bytes_read < sz")
    case False
    then have "bytes_read = sz" using less.prems by simp
    then show ?thesis by (simp add: read_loop.simps)
  next
    case True
    then have lt: "unat bytes_read < unat sz" by (simp add: word_less_nat_alt)
    define pos where "pos = unat offset + unat bytes_read"
    define lb where "lb = (offset + bytes_read) div block_size (sb c)"
    define off where "off = (offset + bytes_read) mod block_size (sb c)"
    have "unat (offset + bytes_read) = pos" unfolding pos_def using fit(2) lt by (intro unat_add_less) simp
    then have lb: "unat lb = pos div ?bs" and off: "unat off = pos mod ?bs" by (simp_all add: lb_def off_def unat_div_distrib unat_mod_distrib)
    have "pos < length img" using lt fit(1) by (simp add: pos_def)
    then obtain d x k n where D: "find (covers lb) ds = Some d" "d \<in> set ds" "ext_data K c d = Some x" "n = unat (logical_count d)"
      "lb - logical_start d = of_nat k" "unat (lb - logical_start d) = k" "k * ?bs + unat off < n * ?bs" "n * ?bs < 2 ^ 63" "length x = n * ?bs"
      and mid: "\<And>m. m \<le> n * ?bs - (k * ?bs + unat off) \<Longrightarrow> take m (drop pos img) = take m (drop (k * ?bs + unat off) x)"
      using file_image_here [OF pk(1) img dv b0(2) _ lb off] by metis
    have fe: "find_extent c i lb = Some (Some d)" using find_extent_spec [OF h, of lb] D(1) ds by simp
    define m where "m = min (unat (sz - bytes_read)) (n * ?bs - (k * ?bs + unat off))"
    have want: "unat (sz - bytes_read) = unat sz - unat bytes_read" using True by (simp add: unat_sub)
    have m: "0 < m" "m \<le> n * ?bs - (k * ?bs + unat off)" "unat bytes_read + m \<le> unat sz" using D(7) lt by (simp_all add: m_def want)
    have rec: "read_loop K c i offset sz (bytes_read + w) cache' (acc @ take m (drop (k * ?bs + unat off) x))
        = Some (Inr (acc @ take (unat sz - unat bytes_read) (drop (unat offset + unat bytes_read) img)))"
      if w: "unat w = m" and ok: "cache_ok K c ds cache'" for w cache'
    proof -
      have u: "unat (bytes_read + w) = unat bytes_read + m" using m(3) unat_u64 [of sz] w by (subst unat_add_less) simp_all
      have IH: "unat sz - unat (bytes_read + w) < unat sz - unat bytes_read" "bytes_read + w \<le> sz" using u m by (simp_all add: word_le_nat_alt)
      have "unat sz - unat bytes_read = m + (unat sz - (unat bytes_read + m))" using m(3) by simp
      then have "take (unat sz - unat bytes_read) (drop pos img) = take m (drop pos img) @ take (unat sz - (unat bytes_read + m)) (drop m (drop pos img))" by (metis take_add)
      then show ?thesis using less.hyps [OF IH ok] mid [OF m(2)] u by (simp add: pos_def ac_simps)
    qed
    show ?thesis
    proof (cases "plain d")
      case True
      define to_consume where "to_consume = (let e = (logical_count d - (lb - logical_start d)) * block_size (sb c) - off in if sz - bytes_read < e then sz - bytes_read else e)"
      have tc: "unat to_consume = m" unfolding to_consume_def Let_def unat_smaller m_def using avail_plain [OF D(6), of "block_size (sb c)" off "logical_count d"] D(4,7,8) by simp
      have xa: "area_in c (phys_start d) n" "x = data_area c (phys_start d) n" using D(3,4) True by (auto simp: ext_data_def Let_def split: if_splits)
      have "k * ?bs + unat off + unat to_consume \<le> n * ?bs" "unat off < ?bs" using tc m(2) D(7) off b0 by simp_all
      then have cp: "copy_plain c d lb off to_consume 0 acc = Some (Inr (acc @ take m (drop (k * ?bs + unat off) x)))"
        using copy_plain_spec [OF dv xa(1) D(5), of off to_consume 0 acc] tc xa(2) by simp
      have "read_loop K c i offset sz bytes_read cache acc
          = read_loop K c i offset sz (bytes_read + to_consume) cache (acc @ take m (drop (k * ?bs + unat off) x))"
        using True \<open>bytes_read < sz\<close> fe cp by (subst read_loop.simps) (simp add: Let_def lb_def [symmetric] off_def [symmetric] to_consume_def [unfolded Let_def, symmetric])
      then show ?thesis using rec [OF tc less.prems(2)] by simp
    next
      case False
      obtain out where O: "cached_data K c d cache = Some (Inr out)" "n * ?bs \<le> length out" "x = take (n * ?bs) out" "cache_ok K c ds (Some (phys_start d, out))"
        by (rule cached_data_spec [OF less.prems(2) pk(2) D(2) False D(3)]) (auto simp: D(4))
      define dof where "dof = (lb - logical_start d) * block_size (sb c) + off"
      define to_copy where "to_copy = (let e = (if dof < logical_count d * block_size (sb c) then logical_count d * block_size (sb c) - dof else 0) in
        if sz - bytes_read < e then sz - bytes_read else e)"
      note av = avail_compressed [OF D(6), of "block_size (sb c)" off "logical_count d", folded D(4) dof_def, OF D(7,8)]
      have tc: "unat to_copy = m" unfolding to_copy_def Let_def unat_smaller m_def av(2) by simp
      have ln: "\<not> length out < unat dof + unat to_copy" using av(1) tc O(2) m(2) D(7) by simp
      have eq: "take (unat to_copy) (drop (unat dof) out) = take m (drop (k * ?bs + unat off) x)"
        using tc av(1) O(3) m(2) by (simp add: drop_take min_absorb1)
      have "read_loop K c i offset sz bytes_read cache acc
          = read_loop K c i offset sz (bytes_read + to_copy) (Some (phys_start d, out)) (acc @ take m (drop (k * ?bs + unat off) x))"
        using False \<open>bytes_read < sz\<close> fe O(1) ln unfolding eq [symmetric]
        by (subst read_loop.simps) (auto simp: Let_def lb_def [symmetric] off_def [symmetric] dof_def [symmetric] to_copy_def)
      then show ?thesis using rec [OF tc O(4)] by simp
    qed
  qed
qed

section \<open>Properties\<close>

text \<open>The extents of a file in the order of their logical blocks.\<close>

definition file_extents :: "inode_record \<Rightarrow> bytes list \<Rightarrow> extent_descriptor list" where
  "file_extents i rs = inline_list 0 (extents i) @ extents_of (inode_id i) rs"

lemma read_range:
  assumes "overflow_holds b c lv own fl rs" "inode_id i \<noteq> 0" "packed 0 (file_extents i rs)" "clones_agree (file_extents i rs)"
    and "file_image K c (file_extents i rs) = Some img" "unat (file_size i) \<le> length img" "unat offset + unat sz < 2 ^ 64"
  shows "obmafs3_read_file_data K c i offset sz = Some (Inr (take (unat sz) (drop (unat offset) (take (unat (file_size i)) img))))"
proof (cases "file_size i \<le> offset")
  case True
  then show ?thesis by (simp add: obmafs3_read_file_data_def word_le_nat_alt)
next
  case False
  define n where "n = (if file_size i < offset + sz then file_size i - offset else sz)"
  have "unat (offset + sz) = unat offset + unat sz" by (rule unat_add_less [OF assms(7)])
  then have n: "unat n = min (unat sz) (unat (file_size i) - unat offset)" using False by (auto simp: n_def word_less_nat_alt word_le_nat_alt unat_sub)
  have "unat offset + unat n \<le> length img" "unat offset + unat n < 2 ^ 64" using n assms(6,7) False by (auto simp: word_le_nat_alt)
  from read_loop_spec [OF assms(1,2) file_extents_def assms(3-5) this, of 0 None "[]"] show ?thesis
    using False n by (simp add: obmafs3_read_file_data_def n_def [symmetric] cache_ok_def drop_take)
qed

text \<open>
  C33: reading returns the contents of the file. When the extents lie one behind the other and
  every extent can be unpacked to its logical blocks, a read of any range returns, and gives
  the bytes of that range cut off at the file size, whatever mixture of plain and compressed
  extents holds them and although only the last unpacked extent is remembered by its first
  block. No access leaves a buffer.
\<close>

theorem read_file_data_correct:
  assumes "overflow_holds b c lv own fl rs" "inode_id i \<noteq> 0" "packed 0 (file_extents i rs)" "clones_agree (file_extents i rs)"
    and "file_image K c (file_extents i rs) = Some img" "unat (file_size i) \<le> length img" "unat offset + unat sz < 2 ^ 64"
  shows "obmafs3_read_file_data K c i offset sz = Some (Inr (take (unat sz) (drop (unat offset) (take (unat (file_size i)) img))))"
  using assms by (rule read_range)

text \<open>A codec that stores the data as they are, and a file of two blocks.\<close>

definition copy_codec :: codec where
  "copy_codec = \<lparr>compression = True, compression_algo = kCompressionZstd, zstd_level = 3, lzma_level = 0, lzma_dict_size = 0,
     zstd_compressBound = id, zstd_compress = (\<lambda>lev src cap. if length src \<le> cap then Some src else None),
     zstd_decompress = (\<lambda>src cap. if length src \<le> cap then Some src else None),
     lzma_compress = (\<lambda>lev dict src cap. None), lzma_uncompress = (\<lambda>props src cap. None)\<rparr>"

definition two_block_file :: inode_record where
  "two_block_file = demo_file\<lparr>inode_id := 9, file_size := 1500,
     extents := run_of \<lparr>logical_start = 0, logical_count = 2, phys_start = 5, phys_count = 2\<rparr> # replicate 7 zero_run\<rparr>"

lemma two_block_file_facts:
  "file_extents two_block_file [overflow_enc demo_extent] = [\<lparr>logical_start = 0, logical_count = 2, phys_start = 5, phys_count = 2\<rparr>]"
  "file_image K ovf_one [\<lparr>logical_start = 0, logical_count = 2, phys_start = 5, phys_count = 2\<rparr>] = Some (data_area ovf_one 5 2)"
  "length (data_area ovf_one 5 2) = 2048" "inode_id two_block_file = 9" "file_size two_block_file = 1500"
proof -
  have "inline_list (of_nat 0) (map run_of [\<lparr>logical_start = 0, logical_count = 2, phys_start = 5, phys_count = 2\<rparr>] @ replicate 7 zero_run)
    = [\<lparr>logical_start = 0, logical_count = 2, phys_start = 5, phys_count = 2\<rparr>]" by (rule inline_list_runs) simp
  then show "file_extents two_block_file [overflow_enc demo_extent] = [\<lparr>logical_start = 0, logical_count = 2, phys_start = 5, phys_count = 2\<rparr>]"
    by (simp add: file_extents_def two_block_file_def extents_of_def overflow_dec_enc demo_extent_def)
  have a: "area_in ovf_one 5 2" by (simp add: area_in_def ovf_one_def ovf_ctx_def reserve_ctx_def blank_ctx_def)
  show "file_image K ovf_one [\<lparr>logical_start = 0, logical_count = 2, phys_start = 5, phys_count = 2\<rparr>] = Some (data_area ovf_one 5 2)"
    using a by (simp add: ext_data_def plain_def)
  show "length (data_area ovf_one 5 2) = 2048" using length_data_area [OF slot_env(1) [OF ovf_one_holds] a] by (simp add: ovf_one_def ovf_ctx_def reserve_ctx_def blank_ctx_def)
qed (simp_all add: two_block_file_def)

theorem read_file_data_correct_witness:
  "\<exists>bs. obmafs3_read_file_data copy_codec ovf_one two_block_file 1000 600 = Some (Inr bs) \<and> length bs = 500"
  using read_file_data_correct [OF ovf_one_holds, of two_block_file copy_codec "data_area ovf_one 5 2" 1000 600] two_block_file_facts
  by (simp add: clones_agree_def plain_def)

end
