(* ===== verification/FileWrite.thy ===== *)
theory FileWrite
  imports FileRead
begin

text \<open>
  Writing file data, src/src/lib/block.c: appending, rewriting groups of blocks in place,
  truncating, cloning and freeing.
\<close>

section \<open>Giving blocks back\<close>

text \<open>A failed lookup leaves \<open>ref\<close> at 1.\<close>

definition free_single_phys_block :: "ctx \<Rightarrow> u64 \<Rightarrow> ctx option" where
  "free_single_phys_block c lba =
     (case obmafs3_refcount_get c lba of
        None \<Rightarrow> None
      | Some (r, c1) \<Rightarrow>
          let ref = (case r of Inl e \<Rightarrow> 1 | Inr n \<Rightarrow> n) in
          if 1 < ref then map_option (\<lambda>(e, n, c2). c2) (obmafs3_refcount_dec c1 lba)
          else Some (snd (obmafs3_free_block c1 lba)))"

fun free_run :: "ctx \<Rightarrow> u64 \<Rightarrow> nat \<Rightarrow> ctx option" where
  "free_run c lba 0 = Some c"
| "free_run c lba (Suc n) = (case free_single_phys_block c lba of None \<Rightarrow> None | Some c1 \<Rightarrow> free_run c1 (lba + 1) n)"

definition free_extent_phys :: "ctx \<Rightarrow> extent_descriptor \<Rightarrow> ctx option" where
  "free_extent_phys c ext = free_run c (phys_start ext) (unat (phys_count ext))"

fun free_extents_phys :: "ctx \<Rightarrow> extent_descriptor list \<Rightarrow> ctx option" where
  "free_extents_phys c [] = Some c"
| "free_extents_phys c (d # ds) = (case free_extent_phys c d of None \<Rightarrow> None | Some c1 \<Rightarrow> free_extents_phys c1 ds)"

fun free_inline :: "ctx \<Rightarrow> extent_run list \<Rightarrow> ctx option" where
  "free_inline c [] = Some c"
| "free_inline c (e # es) = (case free_run c (start_block e) (unat (block_count e)) of None \<Rightarrow> None | Some c1 \<Rightarrow> free_inline c1 es)"

definition obmafs3_free_file_blocks :: "ctx \<Rightarrow> inode_record \<Rightarrow> (rc \<times> inode_record \<times> ctx) option" where
  "obmafs3_free_file_blocks c i =
     (case free_inline c (extents i) of
        None \<Rightarrow> None
      | Some c1 \<Rightarrow>
          let i1 = i\<lparr>extents := replicate 8 zero_run\<rparr> in
          (case overflow_collect_extents c1 (inode_id i) of
             None \<Rightarrow> None
           | Some (Inl e) \<Rightarrow> Some (e, i1, c1)
           | Some (Inr ovf) \<Rightarrow>
               (case free_extents_phys c1 ovf of
                  None \<Rightarrow> None
                | Some c2 \<Rightarrow>
                    if ovf = [] then Some (OBMAFS3_OK, i1, c2)
                    else map_option (\<lambda>(e, c3). (OBMAFS3_OK, i1, c3)) (overflow_clear_inode c2 (inode_id i)))))"

section \<open>Packing and storing a group\<close>

fun write_blocks :: "ctx \<Rightarrow> u64 \<Rightarrow> nat \<Rightarrow> bytes \<Rightarrow> rc \<times> ctx" where
  "write_blocks c lba 0 src = (OBMAFS3_OK, c)"
| "write_blocks c lba (Suc n) src =
     (case obmafs3_block_write c lba (take (bsz c) src) of
        (OBMAFS3_OK, c1) \<Rightarrow> write_blocks c1 (lba + 1) n (drop (bsz c) src)
      | (e, c1) \<Rightarrow> (e, c1))"

text \<open>
  A compression job: the blocks to store for a full group, or None when the group is stored as
  it is. \<open>cap\<close> is the room behind the block header in the output buffer.
\<close>

definition compress_job :: "codec \<Rightarrow> ctx \<Rightarrow> nat \<Rightarrow> bytes \<Rightarrow> u64 \<Rightarrow> bytes option" where
  "compress_job K c cap data grp_count =
     (let lev = (if compression_algo K = kCompressionLzma then lzma_level K else zstd_level K) in
      if \<not> compression_worthwhile K data cap lev then None
      else case obmafs3_compress_dispatch K data cap of
        Inl e \<Rightarrow> None
      | Inr out \<Rightarrow>
          let total_on_disk = of_nat (bh_size + length out);
              phys_needed = (total_on_disk + block_size (sb c) - 1) div block_size (sb c);
              bhdr = \<lparr>bh_magic = OBMAFS3_BLOCK_MAGIC, bh_flags = OBMAFS3_BLOCK_FLAG_COMPRESSED, compression_type = compression_algo K,
                original_size = of_nat (length data), compressed_size = of_nat (length out),
                bh_checksum = obmafs3_checksum_block (xxh64 c) out\<rparr>
          in if grp_count \<le> phys_needed then None
             else Some (bh_enc bhdr @ out @ replicate (unat phys_needed * bsz c - (bh_size + length out)) 0))"

definition OBMAFS3_INCOMPAT_LZMA :: u64 where "OBMAFS3_INCOMPAT_LZMA = 1"

definition mark_lzma :: "codec \<Rightarrow> ctx \<Rightarrow> ctx" where
  "mark_lzma K c =
     (if compression_algo K = kCompressionLzma \<and> incompatible_flags (sb c) AND OBMAFS3_INCOMPAT_LZMA = 0 then
        let s = (sb c)\<lparr>incompatible_flags := incompatible_flags (sb c) OR OBMAFS3_INCOMPAT_LZMA\<rparr>
        in c\<lparr>sb := s, dev := snd (obmafs3_sb_write (xxh64 c) (dev c) s)\<rparr>
      else c)"

definition store_blocks :: "ctx \<Rightarrow> u64 \<Rightarrow> bytes \<Rightarrow> (ctx \<Rightarrow> ctx) \<Rightarrow> (rc + u64) \<times> ctx" where
  "store_blocks c n data mark =
     (case obmafs3_alloc_blocks c n of
        (Inl e, c1) \<Rightarrow> (Inl e, c1)
      | (Inr start, c1) \<Rightarrow>
          (case write_blocks (mark c1) start (unat n) data of
             (OBMAFS3_OK, c2) \<Rightarrow> (Inr start, c2)
           | (e, c2) \<Rightarrow> (Inl e, c2)))"

text \<open>The packed blocks of the job, or the group as it is; the result is the first block and the number of blocks.\<close>

definition store_group :: "ctx \<Rightarrow> bytes option \<Rightarrow> bytes \<Rightarrow> u64 \<Rightarrow> (ctx \<Rightarrow> ctx) \<Rightarrow> (rc + u64 \<times> u64) \<times> ctx" where
  "store_group c job data grp_count mark =
     (case job of
        Some img \<Rightarrow>
          let phys_needed = of_nat (length img) div block_size (sb c) in
          (case store_blocks c phys_needed img mark of
             (Inl e, c1) \<Rightarrow> (Inl e, c1)
           | (Inr start, c1) \<Rightarrow> (Inr (start, phys_needed), c1))
      | None \<Rightarrow>
          (case store_blocks c grp_count data id of
             (Inl e, c1) \<Rightarrow> (Inl e, c1)
           | (Inr start, c1) \<Rightarrow> (Inr (start, grp_count), c1)))"

definition grp_bounds :: "u64 \<Rightarrow> u64 \<Rightarrow> u64 \<times> u64" where
  "grp_bounds total_logical g =
     (let grp_end = (g + 1) * OBMAFS3_COMPRESS_GROUP_BLOCKS
      in (g * OBMAFS3_COMPRESS_GROUP_BLOCKS, if total_logical < grp_end then total_logical else grp_end))"

text \<open>The new bytes over the buffer of the group that starts at block \<open>grp_start\<close>.\<close>

definition overlay :: "ctx \<Rightarrow> u64 \<Rightarrow> bytes \<Rightarrow> u64 \<Rightarrow> bytes \<Rightarrow> bytes" where
  "overlay c offset buf grp_start data =
     (let grp_byte_start = grp_start * block_size (sb c);
          grp_byte_end = grp_byte_start + of_nat (length data);
          end = offset + of_nat (length buf);
          write_start = (if grp_byte_start < offset then offset else grp_byte_start);
          write_end = (if end < grp_byte_end then end else grp_byte_end)
      in if write_start < write_end
         then put (unat (write_start - grp_byte_start)) (take (unat (write_end - write_start)) (drop (unat (write_start - offset)) buf)) data
         else data)"

section \<open>Appending\<close>

definition append_job :: "codec \<Rightarrow> ctx \<Rightarrow> bytes \<Rightarrow> u64 \<Rightarrow> bytes option" where
  "append_job K c data grp_count =
     (if compression K \<and> grp_count = OBMAFS3_COMPRESS_GROUP_BLOCKS \<and> length data \<noteq> 0
      then compress_job K c (zstd_compressBound K (unat (block_size (sb c) * OBMAFS3_COMPRESS_GROUP_BLOCKS))) data grp_count
      else None)"

definition append_store :: "codec \<Rightarrow> ctx \<Rightarrow> bytes \<Rightarrow> u64 \<Rightarrow> (rc + u64 \<times> u64) \<times> ctx" where
  "append_store K c data grp_count =
     (let job = append_job K c data grp_count in
      case store_group c job data grp_count id of
        (Inl e, c1) \<Rightarrow> (Inl e, c1)
      | (Inr r, c1) \<Rightarrow> (Inr r, if job = None then c1 else mark_lzma K c1))"

text \<open>The groups \<open>(grp_start, grp_count, data)\<close> are stored one after the other; the inode is changed in place.\<close>

fun append_groups :: "codec \<Rightarrow> ctx \<Rightarrow> inode_record \<Rightarrow> nat \<Rightarrow> (u64 \<times> u64 \<times> bytes) list \<Rightarrow> rc \<times> inode_record \<times> ctx" where
  "append_groups K c i inline_used [] = (OBMAFS3_OK, i, c)"
| "append_groups K c i inline_used ((grp_start, grp_count, data) # grps) =
     (case append_store K c data grp_count of
        (Inl e, c1) \<Rightarrow> (e, i, c1)
      | (Inr (start, n), c1) \<Rightarrow>
          let d = \<lparr>logical_start = grp_start, logical_count = grp_count, phys_start = start, phys_count = n\<rparr> in
          if inline_used < 8
          then append_groups K c1 (i\<lparr>extents := (extents i)[inline_used := run_of d]\<rparr>) (Suc inline_used) grps
          else (case overflow_insert c1 (overflow_of (inode_id i) d) of
                  (OBMAFS3_OK, c2) \<Rightarrow> append_groups K c2 i inline_used grps
                | (e, c2) \<Rightarrow> (e, i, c2)))"

definition blocks_of :: "ctx \<Rightarrow> u64 \<Rightarrow> u64" where
  "blocks_of c n = (n + block_size (sb c) - 1) div block_size (sb c)"

definition last_block :: "ctx \<Rightarrow> u64 \<Rightarrow> u64 \<Rightarrow> u64" where
  "last_block c offset sz = (if 0 < offset + sz then (offset + sz - 1) div block_size (sb c) else offset div block_size (sb c))"

definition append_group :: "ctx \<Rightarrow> u64 \<Rightarrow> bytes \<Rightarrow> u64 \<Rightarrow> u64 \<Rightarrow> u64 \<times> u64 \<times> bytes" where
  "append_group c offset buf total_logical g =
     (case grp_bounds total_logical g of (grp_start, grp_end) \<Rightarrow>
        let grp_count = grp_end - grp_start in
        (grp_start, grp_count, overlay c offset buf grp_start (replicate (unat (grp_count * block_size (sb c))) 0)))"

text \<open>\<open>num_groups\<close> is an \<open>int\<close> of 32 bits.\<close>

definition write_file_data_append :: "codec \<Rightarrow> ctx \<Rightarrow> inode_record \<Rightarrow> u64 \<Rightarrow> bytes \<Rightarrow> rc \<times> inode_record \<times> ctx" where
  "write_file_data_append K c i offset buf =
     (let sz = of_nat (length buf);
          i1 = (if file_size i < offset + sz then i\<lparr>file_size := offset + sz\<rparr> else i);
          total_logical = blocks_of c (file_size i1);
          first_group = offset div block_size (sb c) div OBMAFS3_COMPRESS_GROUP_BLOCKS;
          last_group = last_block c offset sz div OBMAFS3_COMPRESS_GROUP_BLOCKS;
          num_groups = nat (sint (ucast (last_group - first_group + 1) :: 32 word));
          inline_used = length (filter (\<lambda>e. \<not> unused_run e) (extents i))
      in if \<not> heap_ok c then (OBMAFS3_ERR_NOMEM, i1, c)
         else append_groups K c i1 inline_used
                (map (\<lambda>gi. append_group c offset buf total_logical (first_group + of_nat gi)) [0..<num_groups]))"

section \<open>Writing in place\<close>

text \<open>Reading what the extents hold of the group into its buffer. None: an access outside it.\<close>

fun fill_group :: "codec \<Rightarrow> ctx \<Rightarrow> u64 \<Rightarrow> u64 \<Rightarrow> extent_descriptor list \<Rightarrow> bytes \<Rightarrow> (rc + bytes) option" where
  "fill_group K c grp_start grp_end [] data = Some (Inr data)"
| "fill_group K c grp_start grp_end (e # es) data =
     (let e_end = logical_start e + logical_count e in
      if e_end \<le> grp_start \<or> grp_end \<le> logical_start e then fill_group K c grp_start grp_end es data
      else
        let overlap_start = (if grp_start < logical_start e then logical_start e else grp_start);
            overlap_end = (if e_end < grp_end then e_end else grp_end);
            off = unat ((overlap_start - grp_start) * block_size (sb c))
        in (case read_extent_blocks K c e overlap_start (overlap_end - overlap_start) of
              None \<Rightarrow> None
            | Some (Inl err) \<Rightarrow> Some (Inl err)
            | Some (Inr bs) \<Rightarrow>
                if length data < off + length bs then None else fill_group K c grp_start grp_end es (put off bs data)))"

text \<open>Cutting the group out of the extents.\<close>

fun cut_group :: "ctx \<Rightarrow> u64 \<Rightarrow> u64 \<Rightarrow> extent_descriptor list \<Rightarrow> (extent_descriptor list \<times> ctx) option" where
  "cut_group c grp_start grp_end [] = Some ([], c)"
| "cut_group c grp_start grp_end (e # es) =
     (let e_start = logical_start e;
          e_end = e_start + logical_count e;
          cons = (\<lambda>ds. map_option (\<lambda>(r, c'). (ds @ r, c')))
      in if e_end \<le> grp_start \<or> grp_end \<le> e_start then cons [e] (cut_group c grp_start grp_end es)
      else if grp_start \<le> e_start \<and> e_end \<le> grp_end then
        (case free_extent_phys c e of None \<Rightarrow> None | Some c1 \<Rightarrow> cut_group c1 grp_start grp_end es)
      else if e_start < grp_start \<and> e_end \<le> grp_end \<and> plain e then
        let keep = grp_start - e_start in
        (case free_run c (phys_start e + keep) (unat (phys_count e) - unat keep) of
           None \<Rightarrow> None
         | Some c1 \<Rightarrow> cons [e\<lparr>logical_count := keep, phys_count := keep\<rparr>] (cut_group c1 grp_start grp_end es))
      else if grp_start \<le> e_start \<and> grp_end < e_end \<and> plain e then
        let skip = grp_end - e_start in
        (case free_run c (phys_start e) (unat skip) of
           None \<Rightarrow> None
         | Some c1 \<Rightarrow> cons [\<lparr>logical_start = e_start + skip, logical_count = logical_count e - skip, phys_start = phys_start e + skip, phys_count = phys_count e - skip\<rparr>]
                       (cut_group c1 grp_start grp_end es))
      else if e_start < grp_start \<and> grp_end < e_end \<and> plain e then
        let left_count = grp_start - e_start;
            right_count = e_end - grp_end;
            right_phys = phys_start e + (grp_end - e_start)
        in (case free_run c (phys_start e + left_count) (unat (left_count + (grp_end - grp_start)) - unat left_count) of
              None \<Rightarrow> None
            | Some c1 \<Rightarrow> cons [e\<lparr>logical_count := left_count, phys_count := left_count\<rparr>,
                                \<lparr>logical_start = grp_end, logical_count = right_count, phys_start = right_phys, phys_count = right_count\<rparr>]
                          (cut_group c1 grp_start grp_end es))
      else (case free_extent_phys c e of None \<Rightarrow> None | Some c1 \<Rightarrow> cut_group c1 grp_start grp_end es))"

definition rewrite_store :: "codec \<Rightarrow> ctx \<Rightarrow> bytes \<Rightarrow> u64 \<Rightarrow> (rc + u64 \<times> u64) \<times> ctx" where
  "rewrite_store K c data grp_count =
     (let group_bytes = unat (block_size (sb c)) * group_blocks;
          comp_need = max (bh_size + zstd_compressBound K group_bytes) group_bytes;
          job = (if compression K \<and> grp_count = OBMAFS3_COMPRESS_GROUP_BLOCKS \<and> 0 < length data
                 then compress_job K c (comp_need - bh_size) data grp_count else None)
      in store_group c job data grp_count (mark_lzma K))"

fun insert_extent :: "extent_descriptor \<Rightarrow> extent_descriptor list \<Rightarrow> extent_descriptor list" where
  "insert_extent d [] = [d]"
| "insert_extent d (e # es) = (if logical_start e < logical_start d then e # insert_extent d es else d # e # es)"

definition rewrite_group :: "codec \<Rightarrow> ctx \<Rightarrow> u64 \<Rightarrow> bytes \<Rightarrow> u64 \<Rightarrow> extent_descriptor list \<Rightarrow> u64 \<Rightarrow> ((rc + extent_descriptor list) \<times> ctx) option" where
  "rewrite_group K c offset buf total_logical es g =
     (case grp_bounds total_logical g of (grp_start, grp_end) \<Rightarrow>
        let grp_count = grp_end - grp_start in
        (case fill_group K c grp_start grp_end es (replicate (unat (grp_count * block_size (sb c))) 0) of
           None \<Rightarrow> None
         | Some (Inl e) \<Rightarrow> Some (Inl e, c)
         | Some (Inr old) \<Rightarrow>
             let data = overlay c offset buf grp_start old in
             (case cut_group c grp_start grp_end es of
                None \<Rightarrow> None
              | Some (es1, c1) \<Rightarrow>
                  (case rewrite_store K c1 data grp_count of
                     (Inl e, c2) \<Rightarrow> Some (Inl e, c2)
                   | (Inr (start, n), c2) \<Rightarrow>
                       Some (Inr (insert_extent \<lparr>logical_start = grp_start, logical_count = grp_count, phys_start = start, phys_count = n\<rparr> es1), c2)))))"

fun rewrite_groups :: "codec \<Rightarrow> ctx \<Rightarrow> u64 \<Rightarrow> bytes \<Rightarrow> u64 \<Rightarrow> extent_descriptor list \<Rightarrow> u64 list \<Rightarrow> ((rc + extent_descriptor list) \<times> ctx) option" where
  "rewrite_groups K c offset buf total_logical es [] = Some (Inr es, c)"
| "rewrite_groups K c offset buf total_logical es (g # gs) =
     (case rewrite_group K c offset buf total_logical es g of
        None \<Rightarrow> None
      | Some (Inl e, c1) \<Rightarrow> Some (Inl e, c1)
      | Some (Inr es1, c1) \<Rightarrow> rewrite_groups K c1 offset buf total_logical es1 gs)"

definition obmafs3_write_file_data :: "codec \<Rightarrow> ctx \<Rightarrow> inode_record \<Rightarrow> u64 \<Rightarrow> bytes \<Rightarrow> (rc \<times> inode_record \<times> ctx) option" where
  "obmafs3_write_file_data K c i offset buf =
     (let sz = of_nat (length buf);
          old_total_blocks = blocks_of c (file_size i);
          old_groups = (old_total_blocks + OBMAFS3_COMPRESS_GROUP_BLOCKS - 1) div OBMAFS3_COMPRESS_GROUP_BLOCKS;
          first_group = offset div block_size (sb c) div OBMAFS3_COMPRESS_GROUP_BLOCKS
      in if file_size i \<le> offset \<and> (old_total_blocks = 0 \<or> old_groups \<le> first_group)
         then Some (write_file_data_append K c i offset buf)
         else
           let i1 = (if file_size i < offset + sz then i\<lparr>file_size := offset + sz\<rparr> else i);
               total_logical = blocks_of c (file_size i1);
               last_group = last_block c offset sz div OBMAFS3_COMPRESS_GROUP_BLOCKS
           in (case collect_all_extents c i1 of
                 None \<Rightarrow> None
               | Some (Inl e) \<Rightarrow> Some (e, i1, c)
               | Some (Inr es) \<Rightarrow>
                   if \<not> heap_ok c then Some (OBMAFS3_ERR_NOMEM, i1, c)
                   else (case rewrite_groups K c offset buf total_logical es (map of_nat [unat first_group..<Suc (unat last_group)]) of
                           None \<Rightarrow> None
                         | Some (Inl e, c1) \<Rightarrow> Some (e, i1, c1)
                         | Some (Inr es1, c1) \<Rightarrow> write_extent_list c1 i1 es1)))"

section \<open>Storing blocks\<close>

lemma write_blocks_data: "length src = n * bsz c \<Longrightarrow> write_blocks c lba n src = write_data c lba n src"
proof (induction n arbitrary: c lba src)
  case (Suc n)
  have t: "put 0 (take (bsz c) src) (replicate (bsz c) 0) = take (bsz c) src" using Suc.prems by (simp add: put_def)
  have "write_blocks c1 (lba + 1) n (drop (bsz c) src) = write_data c1 (lba + 1) n (drop (bsz c) src)"
    if "obmafs3_block_write c lba (take (bsz c) src) = (e, c1)" for e c1
  proof -
    have "bsz c1 = bsz c" using that by (auto simp: obmafs3_block_write_def split: option.splits)
    then show ?thesis using Suc by simp
  qed
  then show ?case unfolding write_blocks.simps write_data.simps t by (auto split: prod.splits rc.splits)
qed simp

lemma store_blocks_spec:
  assumes ok: "dev_ok c" "bm_ok c" and n: "0 < n" and len: "length data = unat n * bsz c" and mk: "\<And>x. sb x = sb c \<Longrightarrow> mark x = x"
  obtains (full) "store_blocks c n data mark = (Inl OBMAFS3_ERR_NOSPC, c)"
  | (stored) l c' where "store_blocks c n data mark = (Inr l, c')" "outside {} c c'" "dev_ok c'" "bm_ok c'" "area_in c' l (unat n)"
      "data_area c' l (unat n) = data" "\<And>p. p \<in> {unat l ..< unat l + unat n} \<Longrightarrow> \<not> used c p \<and> used c' p"
proof -
  obtain r c1 where al: "obmafs3_alloc_blocks c n = (r, c1)" by fastforce
  show thesis
  proof (cases r)
    case (Inl e)
    then have "e = OBMAFS3_ERR_NOSPC" "c1 = c" using alloc_blocks_err [OF ok(2)] al by auto
    then show ?thesis using full al Inl by (simp add: store_blocks_def)
  next
    case (Inr l)
    note A = ba.alloc_in [OF ok(2) n al [unfolded Inr]] ba.alloc_fresh [OF ok(2) n al [unfolded Inr]] ba.alloc_occ [OF ok(2) n al [unfolded Inr]]
    have fr: "alloc_frame c c1" "dev c1 = dev c" using alloc_blocks_frame [OF al] by auto
    have sb1: "sb c1 = sb c" using alloc_frame_fields [OF fr(1)] by auto
    have d1: "dev_ok c1" using ok(1) fr(2) sb1 by (simp add: dev_ok_def)
    have bm1: "bm_ok c1" using ba.alloc_ok [OF ok(2) al] by simp
    have ar: "area_in c1 l (unat n)" using A(1) sb1 by (simp add: area_in_def)
    have b: "length data \<le> unat n * bsz c1" "0 < bsz c1" "length data = unat n * bsz c1" using len ok(1) sb1 by (simp_all add: dev_ok_def)
    from write_data_area [OF d1 ar b(1,2)] obtain c' d where W: "write_data c1 l (unat n) data = (OBMAFS3_OK, c')" "c' = c1\<lparr>dev := d\<rparr>" "dev_ok c'"
      "take (length data) (data_area c' l (unat n)) = data"
      "\<forall>k. in_vol c1 k \<longrightarrow> \<not> (unat l \<le> unat k \<and> unat k < unat l + unat n) \<longrightarrow> blk c' k = blk c1 k" by blast
    have st: "store_blocks c n data mark = (Inr l, c')"
      using al Inr mk [OF sb1] W(1) write_blocks_data [OF b(3)] by (simp add: store_blocks_def)
    have ar': "area_in c' l (unat n)" using ar by (simp add: area_in_def W(2))
    have da: "data_area c' l (unat n) = data" using W(4) length_data_area [OF W(3) ar'] b(3) by (simp add: W(2))
    have B1: "blk c1 = blk c" using block_read_cong [of c1 c] fr(2) sb1 by (simp add: blk_def fun_eq_iff)
    have u': "used c' p = used c1 p" for p by (simp add: W(2))
    have "alloc_frame c c'" using fr(1) by (cases c; cases c1) (simp add: alloc_frame_def W(2))
    moreover have "blk c' k = blk c k" if "in_vol c k" "used c (unat k)" for k
    proof -
      have "\<not> (unat l \<le> unat k \<and> unat k < unat l + unat n)" using A(2) that(2) by blast
      then show ?thesis using W(5) that(1) sb1 B1 by (simp add: in_vol_def)
    qed
    ultimately have out: "outside {} c c'" using A(3) u' by (auto simp: outside_def)
    show ?thesis by (rule stored [OF st out W(3) _ ar' da]) (use bm1 A(2,3) u' in \<open>auto simp: W(2)\<close>)
  qed
qed

section \<open>Extents that stay\<close>

definition ext_blocks :: "extent_descriptor \<Rightarrow> nat set" where
  "ext_blocks d = {unat (phys_start d) ..< unat (phys_start d) + unat (phys_count d)}"

text \<open>The blocks of the extent lie in the volume, are in use and not among the blocks \<open>B\<close>.\<close>

definition ext_safe :: "ctx \<Rightarrow> u64 set \<Rightarrow> extent_descriptor \<Rightarrow> bool" where
  "ext_safe c B d \<longleftrightarrow> area_in c (phys_start d) (unat (phys_count d)) \<and> (\<forall>p \<in> ext_blocks d. used c p \<and> p \<notin> unat ` B)"

text \<open>Nothing in use outside \<open>B\<close> has changed.\<close>

definition undisturbed :: "u64 set \<Rightarrow> ctx \<Rightarrow> ctx \<Rightarrow> bool" where
  "undisturbed B c c' \<longleftrightarrow> sb c' = sb c \<and> xxh64 c' = xxh64 c \<and> (\<forall>p. used c p \<longrightarrow> used c' p) \<and>
     (\<forall>k. in_vol c k \<longrightarrow> used c (unat k) \<longrightarrow> k \<notin> B \<longrightarrow> blk c' k = blk c k)"

lemma outside_undisturbed: "outside T c c' \<Longrightarrow> T \<subseteq> B \<Longrightarrow> undisturbed B c c'"
  using maxes_frame [of T c c' overflow_cfg] by (auto simp: undisturbed_def outside_def)

lemma moved_undisturbed: "ovf_moved c own fl c' own' fl' \<Longrightarrow> undisturbed (slot_blocks overflow_slot c own fl) c c'"
  by (simp add: ovf_moved_def undisturbed_def)

lemma read_blocks_cong:
  assumes "dev_ok c" "dev_ok c'" "sb c' = sb c" "area_in c lba n" "\<And>k. unat k \<in> {unat lba ..< unat lba + n} \<Longrightarrow> blk c' k = blk c k"
  shows "read_blocks c' lba n = read_blocks c lba n" "data_area c' lba n = data_area c lba n"
proof -
  have "unat lba + n \<le> 2 ^ 64" using assms(4) unat_u64 [of "max_lba c"] by (simp add: area_in_def)
  then show d: "data_area c' lba n = data_area c lba n" using assms(5) by (intro data_area_cong) auto
  have "area_in c' lba n" using assms(3,4) by (simp add: area_in_def)
  then show "read_blocks c' lba n = read_blocks c lba n" using d read_blocks_area assms(1,2,4) by simp
qed

lemma area_in_le: "area_in c lba n \<Longrightarrow> m \<le> n \<Longrightarrow> area_in c lba m"
  by (simp add: area_in_def)

lemma ext_data_cong:
  assumes c: "dev_ok c" "dev_ok c'" "sb c' = sb c" "xxh64 c' = xxh64 c" and a: "area_in c (phys_start d) (unat (phys_count d))"
    and b: "\<And>k. unat k \<in> ext_blocks d \<Longrightarrow> blk c' k = blk c k"
  shows "ext_data K c' d = ext_data K c d" "read_compressed K c' (phys_start d) (phys_count d) cap = read_compressed K c (phys_start d) (phys_count d) cap"
proof -
  have R: "read_blocks c' (phys_start d) (min (unat (phys_count d)) group_blocks) = read_blocks c (phys_start d) (min (unat (phys_count d)) group_blocks)"
    using b by (intro read_blocks_cong(1) [OF c(1-3) area_in_le [OF a]]) (auto simp: ext_blocks_def)
  show rc: "read_compressed K c' (phys_start d) (phys_count d) cap = read_compressed K c (phys_start d) (phys_count d) cap" for cap
    unfolding read_compressed_def R c(4) by (rule refl)
  have "data_area c' (phys_start d) (unat (logical_count d)) = data_area c (phys_start d) (unat (logical_count d))" if "plain d"
    using b that by (intro read_blocks_cong(2) [OF c(1-3)]) (use a in \<open>auto simp: ext_blocks_def plain_def\<close>)
  moreover have "area_in c' = area_in c" by (simp add: area_in_def c(3) fun_eq_iff)
  ultimately show "ext_data K c' d = ext_data K c d" unfolding ext_data_def rc c(3) by (simp add: Let_def)
qed

lemma ext_keep:
  assumes s: "ext_safe c B d" and k: "undisturbed B c c'" and dv: "dev_ok c" "dev_ok c'"
  shows "ext_data K c' d = ext_data K c d" "ext_blocks d \<inter> unat ` B' = {} \<Longrightarrow> ext_safe c' B' d"
proof -
  have a: "area_in c (phys_start d) (unat (phys_count d))" using s by (simp add: ext_safe_def)
  have "blk c' k = blk c k" if "unat k \<in> ext_blocks d" for k
  proof -
    have "in_vol c k" using a that by (auto simp: ext_blocks_def area_in_def in_vol_def word_less_nat_alt)
    moreover have "used c (unat k)" "k \<notin> B" using s that by (auto simp: ext_safe_def)
    ultimately show ?thesis using k by (simp add: undisturbed_def)
  qed
  then show "ext_data K c' d = ext_data K c d" using ext_data_cong(1) [OF dv _ _ a] k by (simp add: undisturbed_def)
  show "ext_safe c' B' d" if "ext_blocks d \<inter> unat ` B' = {}" using s k that by (auto simp: ext_safe_def undisturbed_def area_in_def)
qed

lemma file_image_cong: "(\<And>d. d \<in> set ds \<Longrightarrow> ext_data K c' d = ext_data K c d) \<Longrightarrow> file_image K c' ds = file_image K c ds"
  by (induction ds) (auto split: option.splits)

lemma file_image_append:
  "file_image K c (xs @ ys) = (case file_image K c xs of None \<Rightarrow> None | Some a \<Rightarrow> map_option ((@) a) (file_image K c ys))"
  by (cases "file_image K c ys"; induction xs) (auto split: option.splits)

section \<open>Packed groups\<close>

text \<open>
  What the code relies on of the compression libraries: the output fits the destination, also
  when decompressing, and
  decompressing it with room for the source gives the source back; the bound for the size of
  the output is of the order of the source.
\<close>

definition codec_ok :: "codec \<Rightarrow> bool" where
  "codec_ok K \<longleftrightarrow>
     (\<forall>n. zstd_compressBound K n \<le> 2 * n + 64) \<and>
     (\<forall>lev src cap out. zstd_compress K lev src cap = Some out \<longrightarrow> length out \<le> cap \<and> zstd_decompress K out (length src) = Some src) \<and>
     (\<forall>lev dict src cap props out. lzma_compress K lev dict src cap = Some (props, out) \<longrightarrow>
        length props = LZMA_PROPS_SIZE \<and> length out \<le> cap \<and> lzma_uncompress K props out (length src) = Some src) \<and>
     (\<forall>src cap out. zstd_decompress K src cap = Some out \<longrightarrow> length out \<le> cap) \<and>
     (\<forall>props src cap out. lzma_uncompress K props src cap = Some out \<longrightarrow> length out \<le> cap)"

lemma dispatch_inverse:
  assumes "codec_ok K" "obmafs3_compress_dispatch K src cap = Inr out"
  shows "obmafs3_decompress_dispatch K (compression_algo K) out (length src) = Inr src" "length out \<le> cap"
proof -
  have "obmafs3_decompress_dispatch K (compression_algo K) out (length src) = Inr src \<and> length out \<le> cap"
  proof (cases "compression_algo K = kCompressionLzma")
    case True
    then obtain props body where c: "lzma_compress K (lzma_level K) (lzma_dict_size K) src (cap - LZMA_PROPS_SIZE) = Some (props, body)" "out = props @ body"
      "\<not> cap < LZMA_PROPS_SIZE"
      using assms(2) by (auto simp: obmafs3_compress_dispatch_def obmafs3_compress_lzma_def split: if_splits option.splits)
    then have "length props = LZMA_PROPS_SIZE" "length body \<le> cap - LZMA_PROPS_SIZE" "lzma_uncompress K props body (length src) = Some src"
      using assms(1) unfolding codec_ok_def by blast+
    then show ?thesis using c True by (simp add: obmafs3_decompress_dispatch_def obmafs3_decompress_lzma_def)
  next
    case False
    then have c: "zstd_compress K (zstd_level K) src cap = Some out"
      using assms(2) by (auto simp: obmafs3_compress_dispatch_def obmafs3_compress_def split: option.splits)
    then have "length out \<le> cap" "zstd_decompress K out (length src) = Some src" using assms(1) unfolding codec_ok_def by blast+
    then show ?thesis using False by (simp add: obmafs3_decompress_dispatch_def obmafs3_decompress_def)
  qed
  then show "obmafs3_decompress_dispatch K (compression_algo K) out (length src) = Inr src" "length out \<le> cap" by blast+
qed

lemma bh_dec_enc: "length (bh_checksum h) = 32 \<Longrightarrow> bh_dec (bh_enc h @ rest) = h"
  by (simp add: bh_enc_def bh_dec_def codec_simps del: le_enc.simps)

lemma length_bh_enc: "length (bh_checksum h) = 32 \<Longrightarrow> length (bh_enc h) = bh_size"
  by (simp add: bh_enc_def bh_size_def)

lemma blocks_up: "0 < b \<Longrightarrow> n \<le> (n + b - 1) div b * (b :: nat)" "0 < b \<Longrightarrow> (n + b - 1) div b * b < n + b"
  using dividend_less_div_times [of b "n + b - 1"] div_times_less_eq_dividend [of "n + b - 1" b] by linarith+

lemma unat_blocks_up: "n + unat b < 2 ^ 64 \<Longrightarrow> 0 < unat b \<Longrightarrow> unat ((of_nat n + b - 1) div b :: u64) = (n + unat b - 1) div unat b"
proof -
  assume a: "n + unat b < 2 ^ 64" "0 < unat b"
  have n: "unat (of_nat n :: u64) = n" using a by (simp add: unat_of_nat take_bit_nat_eq_self)
  then have u: "unat (of_nat n + b) = n + unat b" using a by (subst unat_add_less) simp_all
  then have "of_nat n + b \<noteq> 0" using a(2) by (metis add_is_0 unat_0 not_gr_zero)
  then have "unat (of_nat n + b - 1) = n + unat b - 1" using u by (simp add: unat_minus_one)
  then show ?thesis by (simp add: unat_div)
qed

text \<open>The blocks a job gives unpack to the group again, wherever they are stored.\<close>

lemma compress_job_unpacks:
  assumes K: "codec_ok K" and j: "compress_job K c cap data gc = Some img" and b: "0 < bsz c" "bsz c \<le> 65536" and cap: "cap < 2 ^ 60"
    and ld: "length data = unat gc * bsz c" "unat gc = group_blocks"
  obtains n where "length img = n * bsz c" "0 < n" "n < group_blocks"
    "\<And>c' start. dev_ok c' \<Longrightarrow> sb c' = sb c \<Longrightarrow> xxh64 c' = xxh64 c \<Longrightarrow> area_in c' start n \<Longrightarrow> data_area c' start n = img \<Longrightarrow>
       \<exists>h. read_compressed K c' start (of_nat n) (group_blocks * bsz c') = Some (Inr (h, data))"
proof -
  obtain out where out: "obmafs3_compress_dispatch K data cap = Inr out"
    using j by (auto simp: compress_job_def Let_def split: if_splits sum.splits)
  note inv = dispatch_inverse [OF K out]
  define need where "need = (of_nat (bh_size + length out) + block_size (sb c) - 1) div block_size (sb c)"
  define h where "h = \<lparr>bh_magic = OBMAFS3_BLOCK_MAGIC, bh_flags = OBMAFS3_BLOCK_FLAG_COMPRESSED, compression_type = compression_algo K,
    original_size = of_nat (length data), compressed_size = of_nat (length out), bh_checksum = obmafs3_checksum_block (xxh64 c) out\<rparr>"
  define n where "n = unat need"
  have big: "bh_size + length out < 2 ^ 61" using inv(2) cap by (simp add: bh_size_def)
  have un: "n = (bh_size + length out + bsz c - 1) div bsz c"
    unfolding n_def need_def using b big by (subst unat_blocks_up) simp_all
  have fit: "bh_size + length out \<le> n * bsz c" unfolding un using blocks_up(1) b(1) by blast
  have img: "img = bh_enc h @ out @ replicate (n * bsz c - (bh_size + length out)) 0" "need < gc"
    using j out by (auto simp: compress_job_def Let_def need_def h_def n_def not_le split: if_splits)
  have l32: "length (bh_checksum h) = 32" by (simp add: h_def)
  have li: "length img = n * bsz c" using fit by (simp add: img(1) length_bh_enc [OF l32])
  have n0: "0 < n" using fit by (cases n) (simp_all add: bh_size_def)
  have n16: "n < group_blocks" using img(2) ld(2) by (simp add: n_def word_less_nat_alt)
  have lo: "unat (compressed_size h) = length out" using big by (simp add: h_def unat_of_nat take_bit_nat_eq_self bh_size_def)
  have "length data \<le> 16 * 65536" unfolding ld using b(2) by (intro mult_mono) (simp_all add: group_blocks_def OBMAFS3_COMPRESS_GROUP_BLOCKS_def)
  then have ldu: "unat (original_size h) = length data" by (simp add: h_def unat_of_nat take_bit_nat_eq_self)
  have body: "take (length out) (drop bh_size img) = out" by (simp add: img(1) length_bh_enc [OF l32, symmetric])
  have dec: "bh_dec img = h" using bh_dec_enc [OF l32] by (simp add: img(1))
  have fl: "bh_flags h AND OBMAFS3_BLOCK_FLAG_COMPRESSED \<noteq> 0" "bh_magic h = OBMAFS3_BLOCK_MAGIC" "compression_type h = compression_algo K"
    by (simp_all add: h_def OBMAFS3_BLOCK_FLAG_COMPRESSED_def)
  show thesis
  proof (rule that [OF li n0 n16], rule exI [of _ h])
    fix c' start assume c': "dev_ok c'" "sb c' = sb c" "xxh64 c' = xxh64 c" "area_in c' start n" "data_area c' start n = img"
    have "unat (of_nat n :: u64) = n" using n16 by (simp add: unat_of_nat take_bit_nat_eq_self group_blocks_def OBMAFS3_COMPRESS_GROUP_BLOCKS_def)
    moreover have "read_blocks c' start n = Inr img" using read_blocks_area [OF c'(1,4)] c'(5) by simp
    moreover have "min n group_blocks = n" using n16 by simp
    ultimately show "read_compressed K c' start (of_nat n) (group_blocks * bsz c') = Some (Inr (h, data))"
      using n16 fit li lo ldu body fl inv(1) ld c'(2,3)
      by (simp add: read_compressed_def Let_def dec) (simp add: h_def)
  qed
qed

text \<open>Storing a group, packed or not, gives an extent with the data of the group in fresh blocks.\<close>

lemma store_group_spec:
  assumes ok: "dev_ok c" "bm_ok c" "bsz c \<le> 65536" and K: "codec_ok K" and mk: "\<And>x. sb x = sb c \<Longrightarrow> mark x = x"
    and job: "\<And>img. job = Some img \<Longrightarrow> compress_job K c cap data gc = Some img \<and> unat gc = group_blocks" and cap: "cap < 2 ^ 60"
    and ld: "length data = unat gc * bsz c" "0 < gc"
  obtains (full) "store_group c job data gc mark = (Inl OBMAFS3_ERR_NOSPC, c)"
  | (stored) start n c' where "store_group c job data gc mark = (Inr (start, n), c')" "outside {} c c'" "dev_ok c'" "bm_ok c'"
      "\<And>gs. ext_data K c' \<lparr>logical_start = gs, logical_count = gc, phys_start = start, phys_count = n\<rparr> = Some data"
      "area_in c' start (unat n)" "0 < unat n" "\<And>p. p \<in> {unat start ..< unat start + unat n} \<Longrightarrow> \<not> used c p \<and> used c' p"
proof (cases job)
  case None
  from ok(1,2) ld(2,1) show ?thesis
  proof (cases rule: store_blocks_spec [where mark = id, case_names id full stored])
    case full
    then show ?thesis using that(1) None by (simp add: store_group_def)
  next
    case (stored l c')
    have "ext_data K c' \<lparr>logical_start = gs, logical_count = gc, phys_start = l, phys_count = gc\<rparr> = Some data" for gs
      using stored(5,6) by (simp add: ext_data_def plain_def)
    then show ?thesis using that(2) [of l gc c'] stored None ld(2) by (simp add: store_group_def word_gt_0 unat_gt_0)
  qed simp
next
  case (Some img)
  have j: "compress_job K c cap data gc = Some img" "unat gc = group_blocks" using job [OF Some] by auto
  have b0: "0 < bsz c" using ok(1) by (simp add: dev_ok_def)
  obtain m where m: "length img = m * bsz c" "0 < m" "m < group_blocks"
    and un: "\<And>c' start. dev_ok c' \<Longrightarrow> sb c' = sb c \<Longrightarrow> xxh64 c' = xxh64 c \<Longrightarrow> area_in c' start m \<Longrightarrow> data_area c' start m = img \<Longrightarrow>
       \<exists>h. read_compressed K c' start (of_nat m) (group_blocks * bsz c') = Some (Inr (h, data))"
    using compress_job_unpacks [OF K j(1) b0 ok(3) cap ld(1) j(2)] by metis
  define n where "n = of_nat (length img) div block_size (sb c)"
  have "m * bsz c \<le> 16 * 65536" using m(3) ok(3) by (intro mult_mono) (simp_all add: group_blocks_def OBMAFS3_COMPRESS_GROUP_BLOCKS_def)
  then have "unat (of_nat (length img) :: u64) = m * bsz c" unfolding unat_of_nat m(1) by simp
  then have nm: "unat n = m" using b0 by (simp add: n_def unat_div)
  then have nn: "of_nat m = n" "0 < n" using m(2) by (auto simp: word_gt_0)
  have ln: "length img = unat n * bsz c" using m(1) nm by simp
  from ok(1,2) nn(2) ln show ?thesis
  proof (cases rule: store_blocks_spec [where mark = mark, case_names mk full stored])
    case full
    then show ?thesis using that(1) Some by (simp add: store_group_def n_def [symmetric])
  next
    case (stored l c')
    have sx: "sb c' = sb c" "xxh64 c' = xxh64 c" using maxes_frame [OF stored(2), of overflow_cfg] by auto
    obtain h where h: "read_compressed K c' l n (group_blocks * bsz c') = Some (Inr (h, data))"
      using un [OF stored(3) sx] stored(5,6) nm nn(1) by auto
    have "ext_data K c' \<lparr>logical_start = gs, logical_count = gc, phys_start = l, phys_count = n\<rparr> = Some data" for gs
    proof -
      have "gc \<noteq> n" using j(2) m(3) nm by auto
      then show ?thesis using h ld(1) sx j(2) by (simp add: ext_data_def plain_def)
    qed
    then show ?thesis using that(2) [of l n c'] stored Some m(2) nm by (simp add: store_group_def n_def [symmetric])
  qed (use mk in simp)
qed

section \<open>Growing a file\<close>

text \<open>
  A file with contents \<open>img\<close>: the runs of the inode are used from the first on, the overflow tree
  is used when they are full, the extents follow each other, and their blocks are safe from the
  blocks \<open>B\<close>.
\<close>

definition file_state :: "codec \<Rightarrow> ctx \<Rightarrow> u64 set \<Rightarrow> inode_record \<Rightarrow> bytes list \<Rightarrow> extent_descriptor list \<Rightarrow> bytes \<Rightarrow> bool" where
  "file_state K c B i rs inl img \<longleftrightarrow>
     extents i = map run_of inl @ replicate (8 - length inl) zero_run \<and> length inl \<le> 8 \<and>
     (length inl < 8 \<longrightarrow> extents_of (inode_id i) rs = []) \<and> packed 0 (inl @ extents_of (inode_id i) rs) \<and>
     file_image K c (inl @ extents_of (inode_id i) rs) = Some img \<and> clones_agree (inl @ extents_of (inode_id i) rs) \<and>
     (\<forall>d \<in> set (inl @ extents_of (inode_id i) rs). ext_safe c B d)"

lemma file_state_extents: "file_state K c B i rs inl img \<Longrightarrow> file_extents i rs = inl @ extents_of (inode_id i) rs"
  using inline_list_runs [OF packed_prefix, of 0 inl "extents_of (inode_id i) rs" "8 - length inl"] by (simp add: file_state_def file_extents_def)

lemma file_state_keep:
  assumes "file_state K c B i rs inl img" "undisturbed B c c'" "dev_ok c" "dev_ok c'" "fresh_from B c B'"
  shows "file_state K c' B' i rs inl img"
proof -
  have d: "ext_blocks d \<inter> unat ` B' = {}" if "ext_safe c B d" for d
    using that assms(5) by (force simp: ext_safe_def fresh_from_def)
  have "ext_data K c' d = ext_data K c d \<and> ext_safe c' B' d" if "ext_safe c B d" for d
    by (intro conjI ext_keep(1) [OF that assms(2-4)] ext_keep(2) [OF that assms(2-4) d [OF that]])
  then show ?thesis using assms(1) file_image_cong [of "inl @ extents_of (inode_id i) rs" K c' c] by (simp add: file_state_def)
qed

lemma length_file_image: "file_image K c ds = Some img \<Longrightarrow> dev_ok c \<Longrightarrow> length img = sum_list (map (\<lambda>d. unat (logical_count d)) ds) * bsz c"
  by (induction ds arbitrary: img) (auto simp: length_ext_data algebra_simps split: option.splits)

lemma packed_snoc:
  "packed n (ds @ [d]) \<longleftrightarrow> packed n ds \<and> unat (logical_start d) = n + sum_list (map (\<lambda>d. unat (logical_count d)) ds) \<and>
     0 < logical_count d \<and> unat (logical_start d) + unat (logical_count d) < 2 ^ 64"
proof (induction ds arbitrary: n)
  case Nil
  show ?case using unat_u64 [of "logical_start d"] by auto
qed (auto simp: add.assoc)

lemma compressed_count: "ext_data K c d = Some x \<Longrightarrow> \<not> plain d \<Longrightarrow> 0 < unat (phys_count d)"
  by (rule ccontr) (simp add: ext_data_def read_compressed_def bh_size_def)

lemma file_image_defined: "file_image K c ds = Some img \<Longrightarrow> d \<in> set ds \<Longrightarrow> \<exists>x. ext_data K c d = Some x"
  by (induction ds arbitrary: img) (auto split: option.splits)

lemma clones_agree_snoc:
  assumes "clones_agree ds" "\<And>e. e \<in> set ds \<Longrightarrow> ext_blocks e \<inter> ext_blocks d = {} \<and> (\<not> plain e \<longrightarrow> 0 < unat (phys_count e))" "0 < unat (phys_count d)"
  shows "clones_agree (ds @ [d])"
proof -
  have "phys_start e \<noteq> phys_start d" if "e \<in> set ds" "\<not> plain e" for e
  proof
    assume p: "phys_start e = phys_start d"
    have "0 < unat (phys_count e)" using assms(2) [OF that(1)] that(2) by simp
    then have "unat (phys_start d) \<in> ext_blocks e \<inter> ext_blocks d" using assms(3) p by (simp add: ext_blocks_def)
    then show False using assms(2) [OF that(1)] by blast
  qed
  note ne = this
  show ?thesis unfolding clones_agree_def
  proof (intro ballI impI)
    fix a b assume ab: "a \<in> set (ds @ [d])" "b \<in> set (ds @ [d])" "\<not> plain a" "\<not> plain b" "phys_start a = phys_start b"
    show "phys_count a = phys_count b"
    proof (cases "a = b")
      case False
      then have "a \<in> set ds \<and> b \<in> set ds" using ab ne [of a] ne [of b] by auto
      then show ?thesis using assms(1) ab(3-5) unfolding clones_agree_def by blast
    qed simp
  qed
qed

text \<open>One more extent behind the others, in the inode or in the overflow tree.\<close>

lemma file_state_grow:
  assumes st: "file_state K c B i rs inl img" and dv: "dev_ok c" and d: "ext_data K c d = Some x" "ext_safe c B d" "0 < unat (phys_count d)"
    and pos: "unat (logical_start d) * bsz c = length img" "0 < logical_count d" "unat (logical_start d) + unat (logical_count d) < 2 ^ 64"
    and dis: "\<And>e. e \<in> set (inl @ extents_of (inode_id i) rs) \<Longrightarrow> ext_blocks e \<inter> ext_blocks d = {}"
  shows "length inl < 8 \<Longrightarrow> file_state K c B (i\<lparr>extents := (extents i)[length inl := run_of d]\<rparr>) rs (inl @ [d]) (img @ x)"
    and "length inl = 8 \<Longrightarrow> extents_of (inode_id i) rs' = extents_of (inode_id i) rs @ [d] \<Longrightarrow> file_state K c B i rs' inl (img @ x)"
proof -
  let ?ds = "inl @ extents_of (inode_id i) rs"
  have s: "packed 0 ?ds" "file_image K c ?ds = Some img" "clones_agree ?ds" using st by (simp_all add: file_state_def)
  have "0 < bsz c" using dv by (simp add: dev_ok_def)
  then have "unat (logical_start d) = sum_list (map (\<lambda>d. unat (logical_count d)) ?ds)" using length_file_image [OF s(2) dv] pos(1) by simp
  then have pk: "packed 0 (?ds @ [d])" unfolding packed_snoc using s(1) pos by simp
  have im: "file_image K c (?ds @ [d]) = Some (img @ x)" unfolding file_image_append [of K c ?ds] using s(2) d(1) by simp
  have ca: "clones_agree (?ds @ [d])" using clones_agree_snoc [OF s(3) _ d(3)] dis compressed_count file_image_defined [OF s(2)] by metis
  show "file_state K c B (i\<lparr>extents := (extents i)[length inl := run_of d]\<rparr>) rs (inl @ [d]) (img @ x)" if l: "length inl < 8"
  proof -
    have e: "extents_of (inode_id i) rs = []" using st l by (simp add: file_state_def)
    have "replicate (8 - length inl) zero_run = zero_run # replicate (7 - length inl) zero_run" using l by (simp add: Suc_diff_le flip: replicate_Suc)
    then have "(extents i)[length inl := run_of d] = map run_of (inl @ [d]) @ replicate (8 - length (inl @ [d])) zero_run"
      using st by (simp add: file_state_def list_update_append)
    then show ?thesis using st l pk im ca d(2) e by (simp add: file_state_def)
  qed
  show "file_state K c B i rs' inl (img @ x)" if "length inl = 8" "extents_of (inode_id i) rs' = extents_of (inode_id i) rs @ [d]"
    using st pk im ca d(2) that by (auto simp: file_state_def)
qed

end
