(* ===== verification/FileAppend.thy ===== *)
theory FileAppend
  imports FileWrite
begin

text \<open>
  Appending to a file, src/src/lib/block.c write\_file\_data\_append: what is appended is read back
  behind the old contents.
\<close>

section \<open>Storing the groups\<close>

text \<open>The groups from block \<open>n\<close> on, without gap.\<close>

fun grps_ok :: "ctx \<Rightarrow> nat \<Rightarrow> (u64 \<times> u64 \<times> bytes) list \<Rightarrow> bool" where
  "grps_ok c n [] \<longleftrightarrow> n < 2 ^ 64"
| "grps_ok c n ((gs, gc, data) # grps) \<longleftrightarrow>
     unat gs = n \<and> 0 < gc \<and> unat gc \<le> group_blocks \<and> length data = unat gc * bsz c \<and> grps_ok c (n + unat gc) grps"

abbreviation grp_data :: "(u64 \<times> u64 \<times> bytes) list \<Rightarrow> bytes" where
  "grp_data grps \<equiv> concat (map (\<lambda>(gs, gc, data). data) grps)"

text \<open>The volume needs no new feature flag for what the codec produces.\<close>

definition flag_set :: "codec \<Rightarrow> ctx \<Rightarrow> bool" where
  "flag_set K c \<longleftrightarrow> compression_algo K \<noteq> kCompressionLzma \<or> incompatible_flags (sb c) AND OBMAFS3_INCOMPAT_LZMA \<noteq> 0"

lemma mark_lzma_id: "flag_set K c \<Longrightarrow> sb x = sb c \<Longrightarrow> mark_lzma K x = x"
  by (auto simp: mark_lzma_def flag_set_def)

lemma grps_ok_cong: "bsz c' = bsz c \<Longrightarrow> grps_ok c' n grps = grps_ok c n grps"
  by (induction c n grps rule: grps_ok.induct) auto

lemma grps_ok_less: "grps_ok c n grps \<Longrightarrow> n < 2 ^ 64"
  by (induction c n grps rule: grps_ok.induct) auto

lemma append_store_spec:
  assumes ok: "dev_ok c" "bm_ok c" "bsz c \<le> 65536" and K: "codec_ok K" "flag_set K c" and ld: "length data = unat gc * bsz c" "0 < gc"
  obtains (full) "append_store K c data gc = (Inl OBMAFS3_ERR_NOSPC, c)"
  | (stored) start n c' where "append_store K c data gc = (Inr (start, n), c')" "outside {} c c'" "dev_ok c'" "bm_ok c'"
      "\<And>gs. ext_data K c' \<lparr>logical_start = gs, logical_count = gc, phys_start = start, phys_count = n\<rparr> = Some data"
      "area_in c' start (unat n)" "0 < unat n" "\<And>p. p \<in> {unat start ..< unat start + unat n} \<Longrightarrow> \<not> used c p \<and> used c' p"
proof -
  define cap where "cap = zstd_compressBound K (unat (block_size (sb c) * OBMAFS3_COMPRESS_GROUP_BLOCKS))"
  have "unat (block_size (sb c) * OBMAFS3_COMPRESS_GROUP_BLOCKS) \<le> bsz c * 16"
    by (simp add: unat_word_ariths OBMAFS3_COMPRESS_GROUP_BLOCKS_def)
  then have "unat (block_size (sb c) * OBMAFS3_COMPRESS_GROUP_BLOCKS) \<le> 1048576" using ok(3) by linarith
  moreover have "cap \<le> 2 * unat (block_size (sb c) * OBMAFS3_COMPRESS_GROUP_BLOCKS) + 64" using K(1) unfolding codec_ok_def cap_def by blast
  ultimately have cap: "cap < 2 ^ 60" by simp
  have job: "compress_job K c cap data gc = Some img \<and> unat gc = group_blocks" if "append_job K c data gc = Some img" for img
    using that by (auto simp: append_job_def cap_def group_blocks_def split: if_splits)
  show thesis
  proof (cases rule: store_group_spec [OF ok K(1) _ job cap ld, where mark = id and job = "append_job K c data gc", case_names id job full stored])
    case full
    then show ?thesis using that(1) by (simp add: append_store_def Let_def)
  next
    case (stored start n c')
    have "mark_lzma K c' = c'" using mark_lzma_id [OF K(2)] maxes_frame [OF stored(2), of overflow_cfg] by simp
    then show ?thesis using that(2) [of start n c'] stored by (simp add: append_store_def Let_def)
  qed simp_all
qed

text \<open>Storing the data of one more extent leaves the tree and the file as they are.\<close>

abbreviation ovf_blocks :: "ctx \<Rightarrow> u64 set \<Rightarrow> u64 list \<Rightarrow> u64 set" where
  "ovf_blocks c own fl \<equiv> slot_blocks overflow_slot c own fl"

definition next_extent :: "codec \<Rightarrow> ctx \<Rightarrow> u64 set \<Rightarrow> extent_descriptor list \<Rightarrow> bytes \<Rightarrow> bytes \<Rightarrow> extent_descriptor \<Rightarrow> bool" where
  "next_extent K c B ds img data d \<longleftrightarrow> ext_data K c d = Some data \<and> ext_safe c B d \<and> 0 < unat (phys_count d) \<and>
     unat (logical_start d) * bsz c = length img \<and> 0 < logical_count d \<and> unat (logical_start d) + unat (logical_count d) < 2 ^ 64 \<and>
     (\<forall>e \<in> set ds. ext_blocks e \<inter> ext_blocks d = {})"

lemma append_extent:
  assumes oh: "overflow_holds b c lv own fl rs" and K: "codec_ok K" "flag_set K c" and st: "file_state K c (ovf_blocks c own fl) i rs inl img"
    and g: "length data = unat gc * bsz c" "0 < gc" "unat gs * bsz c = length img" "unat gs + unat gc < 2 ^ 64"
  obtains (full) "append_store K c data gc = (Inl OBMAFS3_ERR_NOSPC, c)"
  | (stored) d c1 where "append_store K c data gc = (Inr (phys_start d, phys_count d), c1)" "d = \<lparr>logical_start = gs, logical_count = gc, phys_start = phys_start d, phys_count = phys_count d\<rparr>"
      "overflow_holds b c1 lv own fl rs" "sb c1 = sb c" "file_state K c1 (ovf_blocks c1 own fl) i rs inl img"
      "next_extent K c1 (ovf_blocks c1 own fl) (inl @ extents_of (inode_id i) rs) img data d"
proof -
  note E = slot_env [OF oh]
  let ?B = "ovf_blocks c own fl"
  show ?thesis
  proof (cases rule: append_store_spec [OF E(1,2,5) K g(1,2), case_names full stored])
    case full
    then show ?thesis by (rule that(1))
  next
    case (stored start m c1)
    define d where "d = \<lparr>logical_start = gs, logical_count = gc, phys_start = start, phys_count = m\<rparr>"
    have sx: "sb c1 = sb c" using maxes_frame [OF stored(2), of overflow_cfg] by auto
    have oh1: "overflow_holds b c1 lv own fl rs"
      using holds_beside [OF oh [unfolded slot_holds_def] stored(2-4)] outside_fields(3) [OF stored(2)] sx
      by (simp add: slot_holds_def overflow_slot_def)
    have B1: "ovf_blocks c1 own fl = ?B" by (simp add: slot_blocks_def sx)
    have "fresh_from ?B c ?B" by (simp add: fresh_from_def)
    then have st1: "file_state K c1 ?B i rs inl img" using file_state_keep [OF st outside_undisturbed [OF stored(2)] E(1) stored(3)] by simp
    have fr: "\<not> used c p" "used c1 p" if "p \<in> ext_blocks d" for p using stored(8) that by (simp_all add: ext_blocks_def d_def)
    have "p \<notin> unat ` ?B" if "p \<in> ext_blocks d" for p using fr(1) [OF that] E(7) by auto
    then have "ext_safe c1 ?B d" using stored(6) fr(2) by (auto simp: ext_safe_def d_def)
    moreover have "ext_blocks e \<inter> ext_blocks d = {}" if "e \<in> set (inl @ extents_of (inode_id i) rs)" for e
      using st that fr(1) by (auto simp: file_state_def ext_safe_def)
    ultimately have "next_extent K c1 ?B (inl @ extents_of (inode_id i) rs) img data d"
      using stored(5,7) g sx by (simp add: next_extent_def d_def)
    then show ?thesis using that(2) [of d c1] stored(1) oh1 sx st1 B1 by (simp add: d_def)
  qed
qed

text \<open>Recording the extent in the overflow tree.\<close>

lemma overflow_extent_added:
  assumes oh: "overflow_holds b c lv own fl rs" "lv \<le> 8" "b \<or> lv \<le> 1" "length rs < unat (leaf_max overflow_cfg c)"
    and st: "file_state K c (ovf_blocks c own fl) i rs inl img" "length inl = 8"
    and d: "next_extent K c (ovf_blocks c own fl) (inl @ extents_of (inode_id i) rs) img data d"
  obtains (full) c' where "overflow_insert c (overflow_of (inode_id i) d) = (OBMAFS3_ERR_NOSPC, c')"
  | (stored) c' own' fl' rs' where "overflow_insert c (overflow_of (inode_id i) d) = (OBMAFS3_OK, c')" "overflow_holds b c' lv own' fl' rs'" "sb c' = sb c"
      "file_state K c' (ovf_blocks c' own' fl') i rs' inl (img @ data)" "\<And>j. j \<noteq> inode_id i \<Longrightarrow> extents_of j rs' = extents_of j rs"
      "length rs' \<le> Suc (length rs)"
proof -
  note E = slot_env [OF oh(1)]
  note D = d [unfolded next_extent_def]
  let ?B = "ovf_blocks c own fl" and ?ds = "inl @ extents_of (inode_id i) rs"
  have "file_image K c ?ds = Some img" "packed 0 ?ds" using st(1) by (simp_all add: file_state_def)
  then have "packed 0 (?ds @ [d])" unfolding packed_snoc using length_file_image [OF _ E(1), of K ?ds img] D E(4) by simp
  then have srt: "sorted_wrt (<) (map logical_start (extents_of (inode_id i) rs @ [d]))" using packed_sorted by (fastforce simp: sorted_wrt_append)
  have room: "length rs + length [d] \<le> unat (leaf_max overflow_cfg c)" using oh(4) by simp
  have ins: "insert_all c (inode_id i) [d] = (e, c2) \<Longrightarrow> overflow_insert c (overflow_of (inode_id i) d) = (e, c2)" for e c2
    by (auto split: prod.splits rc.splits)
  show ?thesis
  proof (cases rule: insert_all_spec [OF oh(1-3) room srt, case_names full stored])
    case (full c2)
    then show ?thesis using that(1) ins by blast
  next
    case (stored c2 own2 fl2 rs2)
    let ?B2 = "ovf_blocks c2 own2 fl2"
    note E2 = slot_env [OF stored(2)]
    have sb2: "sb c2 = sb c" using stored(3) by (simp add: ovf_moved_def)
    have fr2: "fresh_from ?B c ?B2" using stored(3) by (auto simp: ovf_moved_def fresh_from_def slot_blocks_def)
    note un = moved_undisturbed [OF stored(3)]
    have st2: "file_state K c2 ?B2 i rs inl img" by (rule file_state_keep [OF st(1) un E(1) E2(1) fr2])
    have sd: "ext_safe c ?B d" using D by simp
    note kd = ext_keep [OF sd un E(1) E2(1)]
    have "ext_blocks d \<inter> unat ` ?B2 = {}" using sd fr2 by (force simp: ext_safe_def fresh_from_def)
    then have sd2: "ext_safe c2 ?B2 d" by (rule kd(2))
    have "file_state K c2 ?B2 i rs2 inl (img @ data)"
      by (rule file_state_grow(2) [OF st2 E2(1) _ sd2 _ _ _ _ _ st(2) stored(4)]) (use D kd(1) sb2 in auto)
    then show ?thesis using that(2) [of c2 own2 fl2 rs2] stored ins sb2 by simp
  qed
qed

lemma append_groups_spec:
  assumes "overflow_holds b c lv own fl rs" "lv \<le> 8" "b \<or> lv \<le> 1" "length rs + length grps \<le> unat (leaf_max overflow_cfg c)"
    and "codec_ok K" "flag_set K c" "file_state K c (ovf_blocks c own fl) i rs inl img" "grps_ok c n grps" "n * bsz c = length img"
  obtains (full) i' c' where "append_groups K c i (length inl) grps = (OBMAFS3_ERR_NOSPC, i', c')"
  | (stored) i' c' own' fl' rs' inl' where "append_groups K c i (length inl) grps = (OBMAFS3_OK, i', c')" "overflow_holds b c' lv own' fl' rs'"
      "file_state K c' (ovf_blocks c' own' fl') i' rs' inl' (img @ grp_data grps)" "i' = i\<lparr>extents := extents i'\<rparr>"
      "\<And>j. j \<noteq> inode_id i \<Longrightarrow> extents_of j rs' = extents_of j rs"
  using assms
proof (induction grps arbitrary: c own fl rs i inl img n thesis)
  case Nil
  then show ?case using Nil(2) [of i c own fl rs inl] by simp
next
  case (Cons grp grps)
  obtain gs gc data where grp: "grp = (gs, gc, data)" by (cases grp)
  have g: "length data = unat gc * bsz c" "0 < gc" "unat gs * bsz c = length img" "unat gs + unat gc < 2 ^ 64" "grps_ok c (n + unat gc) grps"
    using Cons.prems(10,11) grps_ok_less [of c "n + unat gc" grps] by (auto simp: grp)
  have nxt: "grps_ok c' (n + unat gc) grps" "(n + unat gc) * bsz c' = length (img @ data)" "flag_set K c'" "leaf_max overflow_cfg c' = leaf_max overflow_cfg c"
    if "sb c' = sb c" for c'
    using that Cons.prems(8,11) g(1,5) grps_ok_cong [of c' c] by (simp_all add: flag_set_def leaf_max_def algebra_simps)
  show ?case
  proof (cases rule: append_extent [OF Cons.prems(3,7,8,9) g(1-4), case_names full stored])
    case full
    then show ?thesis using Cons.prems(1) by (simp add: grp)
  next
    case (stored d c1)
    have D: "\<lparr>logical_start = gs, logical_count = gc, phys_start = phys_start d, phys_count = phys_count d\<rparr> = d" using stored(2) by simp
    note N1 = nxt [OF stored(4)]
    show ?thesis
    proof (cases "length inl < 8")
      case True
      let ?i = "i\<lparr>extents := (extents i)[length inl := run_of d]\<rparr>"
      have eq: "append_groups K c i (length inl) (grp # grps) = append_groups K c1 ?i (length (inl @ [d])) grps"
        using stored(1) True by (simp add: grp D)
      have "dev_ok c1" using slot_env(1) [OF stored(3)] .
      then have st2: "file_state K c1 (ovf_blocks c1 own fl) ?i rs (inl @ [d]) (img @ data)"
        using file_state_grow(1) [OF stored(5)] stored(6) True by (simp add: next_extent_def)
      have room: "length rs + length grps \<le> unat (leaf_max overflow_cfg c1)" using Cons.prems(6) N1 by simp
      show ?thesis
        by (rule Cons.IH [OF _ _ stored(3) Cons.prems(4,5) room Cons.prems(7) N1(3) st2 N1(1,2)])
          (use Cons.prems(1,2) eq in \<open>auto simp: grp\<close>)
    next
      case False
      then have l8: "length inl = 8" using Cons.prems(9) by (simp add: file_state_def)
      have eq: "append_groups K c i (length inl) (grp # grps) = (case overflow_insert c1 (overflow_of (inode_id i) d) of
          (OBMAFS3_OK, c2) \<Rightarrow> append_groups K c2 i 8 grps | (e, c2) \<Rightarrow> (e, i, c2))"
        using stored(1) l8 by (simp add: grp D)
      have room1: "length rs < unat (leaf_max overflow_cfg c1)" using Cons.prems(6) N1 by simp
      show ?thesis
      proof (cases rule: overflow_extent_added [OF stored(3) Cons.prems(4,5) room1 stored(5) l8 stored(6), case_names full stored])
        case (full c2)
        then show ?thesis using Cons.prems(1) eq by simp
      next
        case (stored c2 own2 fl2 rs2)
        have "sb c2 = sb c" using stored(3) \<open>sb c1 = sb c\<close> by simp
        note N2 = nxt [OF this]
        have len: "length rs2 + length grps \<le> unat (leaf_max overflow_cfg c2)" using stored(6) Cons.prems(6) N2 by simp
        have oth: "\<And>j. j \<noteq> inode_id i \<Longrightarrow> extents_of j rs2 = extents_of j rs" by (rule stored(5))
        show ?thesis
          by (rule Cons.IH [OF _ _ stored(2) Cons.prems(4,5) len Cons.prems(7) N2(3) stored(4) N2(1,2)])
            (use Cons.prems(1,2) eq l8 stored(1) oth in \<open>auto simp: grp\<close>)
      qed
    qed
  qed
qed

section \<open>The groups of a write\<close>

text \<open>The overlay, byte by byte: the new byte where the write reaches, else the old one.\<close>

lemma overlay_spec:
  assumes "unat gs * bsz c + length data < 2 ^ 63" "unat offset + length buf < 2 ^ 63"
  shows "length (overlay c offset buf gs data) = length data"
    and "j < length data \<Longrightarrow> overlay c offset buf gs data ! j =
      (if unat offset \<le> unat gs * bsz c + j \<and> unat gs * bsz c + j < unat offset + length buf then buf ! (unat gs * bsz c + j - unat offset) else data ! j)"
proof -
  define a where "a = unat gs * bsz c"
  have ua: "unat (gs * block_size (sb c)) = a" using assms(1) by (simp add: unat_word_ariths a_def)
  have "unat (of_nat (length data) :: u64) = length data" using assms(1) by (simp add: unat_of_nat take_bit_nat_eq_self)
  then have ue: "unat (gs * block_size (sb c) + of_nat (length data)) = a + length data" using assms(1) ua by (subst unat_add_less) (simp_all add: a_def)
  have "unat (of_nat (length buf) :: u64) = length buf" using assms(2) by (simp add: unat_of_nat take_bit_nat_eq_self)
  then have uo: "unat (offset + of_nat (length buf)) = unat offset + length buf" using assms(2) by (subst unat_add_less) simp_all
  define ws where "ws = max (unat offset) a"
  define we where "we = min (unat offset + length buf) (a + length data)"
  have ov: "overlay c offset buf gs data = (if ws < we then put (ws - a) (take (we - ws) (drop (ws - unat offset) buf)) data else data)"
    unfolding overlay_def Let_def ws_def we_def
    by (auto simp: word_less_nat_alt ua ue uo unat_sub word_le_nat_alt max_def min_def)
      (simp flip: length_greater_0_conv)
  have ln: "length (take (we - ws) (drop (ws - unat offset) buf)) = we - ws" if "ws < we" using that by (simp add: we_def ws_def)
  have fit: "ws - a + (we - ws) \<le> length data" if "ws < we" using that by (simp add: we_def ws_def)
  show "length (overlay c offset buf gs data) = length data" using ln fit by (simp add: ov)
  show "overlay c offset buf gs data ! j =
      (if unat offset \<le> unat gs * bsz c + j \<and> unat gs * bsz c + j < unat offset + length buf then buf ! (unat gs * bsz c + j - unat offset) else data ! j)"
    if j: "j < length data"
  proof (cases "ws < we")
    case True
    have "overlay c offset buf gs data ! j = (if ws - a \<le> j \<and> j < ws - a + (we - ws) then take (we - ws) (drop (ws - unat offset) buf) ! (j - (ws - a)) else data ! j)"
      using True nth_put [of "ws - a" "take (we - ws) (drop (ws - unat offset) buf)" data j] ln fit j by (simp add: ov)
    then show ?thesis using j True by (auto simp: ws_def we_def a_def [symmetric] nth_drop add.commute)
  next
    case False
    then show ?thesis using j by (auto simp: ov ws_def we_def a_def [symmetric])
  qed
qed

lemma chunks_concat: "length P \<le> num * S \<Longrightarrow> concat (map (\<lambda>i. take S (drop (i * S) P)) [0..<num]) = P"
proof (induction num arbitrary: P)
  case (Suc num)
  have "map (\<lambda>i. take S (drop (i * S) P)) [0..<Suc num] = take S P # map (\<lambda>i. take S (drop (i * S) (drop S P))) [0..<num]"
    by (simp add: upt_conv_Cons map_Suc_upt [symmetric] comp_def algebra_simps del: upt_Suc map_Suc_upt)
  then show ?case using Suc.IH [of "drop S P"] Suc.prems by (simp add: algebra_simps del: upt_Suc)
qed simp

lemma group_word: "unat OBMAFS3_COMPRESS_GROUP_BLOCKS = 16" "group_blocks = 16"
  by (simp_all add: OBMAFS3_COMPRESS_GROUP_BLOCKS_def group_blocks_def)

text \<open>The bounds of group \<open>g\<close> as natural numbers.\<close>

lemma grp_bounds_eq:
  assumes "16 * g < 2 ^ 62" "unat tot < 2 ^ 62"
  shows "grp_bounds tot (of_nat g) = (of_nat (16 * g), of_nat (min (unat tot) (16 * g + 16)))"
proof -
  have "g < 2 ^ 62" using assms(1) by simp
  then have g: "unat (of_nat g :: u64) = g" by (simp add: unat_of_nat take_bit_nat_eq_self)
  have "unat (of_nat g + 1 :: u64) = g + 1" using unat_add_of_nat [of "of_nat g" 1] g \<open>g < 2 ^ 62\<close> by simp
  then have e: "unat ((of_nat g + 1) * OBMAFS3_COMPRESS_GROUP_BLOCKS) = 16 * g + 16" using assms(1) by (simp add: unat_word_ariths group_word)
  have s: "of_nat g * OBMAFS3_COMPRESS_GROUP_BLOCKS = of_nat (16 * g)" by (simp add: OBMAFS3_COMPRESS_GROUP_BLOCKS_def)
  have "(if tot < (of_nat g + 1) * OBMAFS3_COMPRESS_GROUP_BLOCKS then tot else (of_nat g + 1) * OBMAFS3_COMPRESS_GROUP_BLOCKS)
      = of_nat (min (unat tot) (16 * g + 16))"
    using e by (auto simp: word_less_nat_alt min_def simp flip: e)
  then show ?thesis using s by (simp add: grp_bounds_def Let_def)
qed

lemma factor_less: "n * b < L \<Longrightarrow> 0 < b \<Longrightarrow> n < (L :: nat)"
  using le_less_trans [of n "n * b" L] by simp

lemma append_group_eq:
  assumes off: "unat offset = G * 16 * bsz c" and fit: "unat offset + length buf < 2 ^ 61" and b: "0 < bsz c" "bsz c \<le> 65536"
    and T: "T = (length buf + bsz c - 1) div bsz c" and tot: "unat tot = G * 16 + T" and gi: "gi * 16 < T"
  shows "append_group c offset buf tot (of_nat (G + gi)) = (of_nat (16 * (G + gi)), of_nat (min 16 (T - 16 * gi)),
      take (16 * bsz c) (drop (gi * (16 * bsz c)) (buf @ replicate (T * bsz c - length buf) 0)))"
    and "length (take (16 * bsz c) (drop (gi * (16 * bsz c)) (buf @ replicate (T * bsz c - length buf) 0))) = min 16 (T - 16 * gi) * bsz c"
proof -
  let ?bs = "bsz c" and ?P = "buf @ replicate (T * bsz c - length buf) 0"
  have Tb: "length buf \<le> T * ?bs" "T * ?bs < length buf + ?bs" using blocks_up [OF b(1)] T by blast+
  then have lP: "length ?P = T * ?bs" by simp
  define m where "m = min 16 (T - 16 * gi)"
  have mb: "m * ?bs = min (16 * ?bs) (T * ?bs - gi * (16 * ?bs))" unfolding m_def nat_mult_min_left diff_mult_distrib by (simp add: ac_simps)
  show len: "length (take (16 * ?bs) (drop (gi * (16 * ?bs)) ?P)) = min 16 (T - 16 * gi) * ?bs"
    unfolding length_take length_drop lP m_def [symmetric] mb by (rule min.commute)
  have gT: "16 * (G + gi) + m \<le> G * 16 + T" using gi by (simp add: m_def)
  have lim: "(G * 16 + T) * ?bs < 2 ^ 62" using off fit Tb(2) b(2) by (simp add: algebra_simps)
  have small: "G * 16 + T < 2 ^ 62" "(16 * (G + gi) + m) * ?bs < 2 ^ 62"
    using factor_less [OF lim b(1)] le_less_trans [OF mult_le_mono1 [OF gT, of ?bs] lim] by simp_all
  have gb: "grp_bounds tot (of_nat (G + gi)) = (of_nat (16 * (G + gi)), of_nat (16 * (G + gi) + m))"
  proof -
    have "min (unat tot) (16 * (G + gi) + 16) = 16 * (G + gi) + m" using tot gi by (simp add: m_def)
    then show ?thesis using grp_bounds_eq [of "G + gi" tot] small(1) tot gT by simp
  qed
  have us: "unat (of_nat (16 * (G + gi)) :: u64) = 16 * (G + gi)" unfolding unat_of_nat using small(1) gT by simp
  have um: "unat (of_nat m :: u64) = m" unfolding unat_of_nat by (simp add: m_def)
  have cb: "unat (of_nat m * block_size (sb c)) = m * ?bs" using um small(2) by (simp add: unat_word_ariths add_mult_distrib)
  have fit1: "unat (of_nat (16 * (G + gi)) :: u64) * ?bs + length (replicate (m * ?bs) (0 :: u8)) < 2 ^ 63" using us small(2) by (simp add: add_mult_distrib)
  have fit2: "unat offset + length buf < 2 ^ 63" using fit by simp
  note ov = overlay_spec [OF fit1 fit2]
  have "overlay c offset buf (of_nat (16 * (G + gi))) (replicate (m * ?bs) 0) = take (16 * ?bs) (drop (gi * (16 * ?bs)) ?P)" (is "?l = ?r")
  proof (rule nth_equalityI)
    show ll: "length ?l = length ?r" using ov(1) len by (simp add: m_def)
    fix j assume "j < length ?l"
    then have j: "j < m * ?bs" "j < 16 * ?bs" "j < T * ?bs - gi * (16 * ?bs)" using ov(1) mb by simp_all
    then have jT: "gi * (16 * ?bs) + j < T * ?bs" by linarith
    have p: "16 * (G + gi) * ?bs + j - unat offset = gi * (16 * ?bs) + j" "unat offset \<le> 16 * (G + gi) * ?bs + j" by (simp_all add: off algebra_simps)
    have "?r ! j = ?P ! (gi * (16 * ?bs) + j)" unfolding nth_take [OF j(2)] by (rule nth_drop) (use lP jT in linarith)
    also have "\<dots> = (if gi * (16 * ?bs) + j < length buf then buf ! (gi * (16 * ?bs) + j) else 0)"
      using jT Tb by (simp add: nth_append)
    finally have "?r ! j = (if gi * (16 * ?bs) + j < length buf then buf ! (gi * (16 * ?bs) + j) else 0)" .
    moreover have "?l ! j = (if 16 * (G + gi) * ?bs + j < unat offset + length buf then buf ! (gi * (16 * ?bs) + j) else 0)"
      using ov(2) [of j] j(1) us p by simp
    ultimately show "?l ! j = ?r ! j" using p by auto
  qed
  note ov_eq = this
  have df: "of_nat (16 * (G + gi) + m) - of_nat (16 * (G + gi)) = (of_nat m :: u64)" by simp
  show "append_group c offset buf tot (of_nat (G + gi)) = (of_nat (16 * (G + gi)), of_nat (min 16 (T - 16 * gi)), ?r)"
    unfolding append_group_def gb prod.case Let_def df cb ov_eq m_def [symmetric] by (rule refl)
qed

text \<open>All groups of an append at a group boundary: they hold the data, padded to whole blocks.\<close>

lemma append_groups_data:
  assumes off: "unat offset = G * 16 * bsz c" and fit: "unat offset + length buf < 2 ^ 61" and b: "0 < bsz c" "bsz c \<le> 65536"
    and T: "T = (length buf + bsz c - 1) div bsz c" and tot: "unat tot = G * 16 + T" and num: "(num - 1) * 16 < T" "T \<le> num * 16"
  defines "grps \<equiv> map (\<lambda>gi. append_group c offset buf tot (of_nat (G + gi))) [0..<num]"
  shows "grps_ok c (16 * G) grps" "grp_data grps = buf @ replicate (T * bsz c - length buf) 0"
proof -
  let ?bs = "bsz c" and ?P = "buf @ replicate (T * bsz c - length buf) 0"
  have Tb: "length buf \<le> T * ?bs" "T * ?bs < length buf + ?bs" using blocks_up [OF b(1)] T by blast+
  have "(G * 16 + T) * ?bs < 2 ^ 62" using off fit Tb(2) b(2) by (simp add: algebra_simps)
  from factor_less [OF this b(1)] have small: "G * 16 + T < 2 ^ 62" .
  have in16: "gi * 16 < T" if "gi < num" for gi
  proof -
    have "gi * 16 \<le> (num - 1) * 16" using that by simp
    then show ?thesis using num(1) by linarith
  qed
  note G = append_group_eq [OF off fit b T tot in16]
  have gr: "grps_ok c (16 * (G + k)) (map (\<lambda>gi. append_group c offset buf tot (of_nat (G + gi))) [k..<num])" if "k < num" for k
    using that
  proof (induction "num - k" arbitrary: k)
    case (Suc d)
    let ?m = "min 16 (T - 16 * k)"
    have k: "k * 16 < T" using in16 Suc.prems by blast
    have us: "unat (of_nat (16 * (G + k)) :: u64) = 16 * (G + k)" unfolding unat_of_nat using small k by simp
    have um: "unat (of_nat ?m :: u64) = ?m" unfolding unat_of_nat by simp
    have m0: "0 < (of_nat ?m :: u64)" using um k by (simp add: word_gt_0 flip: unat_gt_0)
    have "grps_ok c (16 * (G + k) + ?m) (map (\<lambda>gi. append_group c offset buf tot (of_nat (G + gi))) [Suc k..<num])"
    proof (cases "Suc k < num")
      case True
      then have eq: "16 * (G + k) + ?m = 16 * (G + Suc k)" using in16 [of "Suc k"] by simp
      have "d = num - Suc k" using Suc.hyps(2) by simp
      from Suc.hyps(1) [OF this True] show ?thesis unfolding eq .
    next
      case False
      then show ?thesis using small k by simp
    qed
    then show ?case unfolding upt_conv_Cons [OF Suc.prems] list.map G(1) [OF Suc.prems] grps_ok.simps us um
      using m0 G(2) [OF Suc.prems] by (simp add: group_word)
  qed simp
  have lP: "length ?P \<le> num * (16 * ?bs)" using mult_le_mono1 [OF num(2), of ?bs] Tb by simp
  have "grp_data grps = concat (map (\<lambda>gi. take (16 * ?bs) (drop (gi * (16 * ?bs)) ?P)) [0..<num])"
    unfolding grps_def map_map by (intro arg_cong [where f = concat] map_cong refl) (use G(1) in \<open>simp del: of_nat_add\<close>)
  then show "grp_data grps = ?P" using chunks_concat [OF lP] by simp
  show "grps_ok c (16 * G) grps"
  proof (cases "num = 0")
    case False
    then show ?thesis using gr [of 0] by (simp add: grps_def)
  qed (use small in \<open>simp add: grps_def\<close>)
qed

section \<open>Properties\<close>

text \<open>The numbers the code computes for an append of \<open>len\<close> bytes at the group boundary \<open>G\<close>.\<close>

lemma append_numbers:
  assumes off: "unat offset = G * 16 * bsz c" and fit: "unat offset + len < 2 ^ 61" "0 < len" "len < 2 ^ 31" and b: "0 < bsz c" "bsz c \<le> 65536"
  defines "T \<equiv> (len + bsz c - 1) div bsz c" and "num \<equiv> (len - 1) div bsz c div 16 + 1"
  shows "unat (offset + of_nat len) = unat offset + len" "unat (blocks_of c (offset + of_nat len)) = G * 16 + T" "unat (blocks_of c offset) = G * 16"
    and "offset div block_size (sb c) div OBMAFS3_COMPRESS_GROUP_BLOCKS = of_nat G"
    and "nat (sint (ucast (last_block c offset (of_nat len) div OBMAFS3_COMPRESS_GROUP_BLOCKS - of_nat G + 1) :: 32 word)) = num"
    and "(num - 1) * 16 < T" "T \<le> num * 16"
proof -
  let ?bs = "bsz c"
  have ul: "unat (of_nat len :: u64) = len" using fit by (simp add: unat_of_nat take_bit_nat_eq_self)
  show uo: "unat (offset + of_nat len) = unat offset + len" using fit ul by (subst unat_add_less) simp_all
  have up: "unat (blocks_of c w) = (unat w + ?bs - 1) div ?bs" if "unat w < 2 ^ 62" for w
    using unat_blocks_up [of "unat w" "block_size (sb c)"] that b by (simp add: blocks_of_def)
  have T1: "T = (len - 1) div ?bs + 1" unfolding T_def using fit(2) b(1) by (metis Nat.add_diff_assoc2 Suc_leI add.commute div_add_self2 gr_implies_not0 One_nat_def)
  have "(unat offset + len + ?bs - 1) div ?bs = G * 16 + T"
    unfolding T_def off using b(1) fit(2) div_mult_self3 [of ?bs "G * 16" "len + ?bs - 1"] by (simp add: add.assoc)
  then show "unat (blocks_of c (offset + of_nat len)) = G * 16 + T" using up [of "offset + of_nat len"] uo fit(1) by simp
  have "(unat offset + ?bs - 1) div ?bs = G * 16"
    unfolding off using b(1) div_mult_self3 [of ?bs "G * 16" "?bs - 1"] by (simp add: add.assoc)
  then show "unat (blocks_of c offset) = G * 16" using up [of offset] fit(1) by simp
  have fg: "unat (offset div block_size (sb c) div OBMAFS3_COMPRESS_GROUP_BLOCKS) = G" using off b(1) by (simp add: unat_div group_word)
  then show fg': "offset div block_size (sb c) div OBMAFS3_COMPRESS_GROUP_BLOCKS = of_nat G" by (metis of_nat_unat_id)
  have "offset + of_nat len \<noteq> 0" using uo fit(2) by (metis add_is_0 gr_implies_not0 unat_0)
  then have "unat (last_block c offset (of_nat len)) = (unat offset + len - 1) div ?bs"
    using uo by (simp add: last_block_def word_gt_0 unat_div unat_minus_one)
  also have "\<dots> = G * 16 + (len - 1) div ?bs"
    unfolding off using b(1) fit(2) div_mult_self3 [of ?bs "G * 16" "len - 1"] by (simp add: add.assoc)
  finally have lg: "unat (last_block c offset (of_nat len) div OBMAFS3_COMPRESS_GROUP_BLOCKS) = G + (num - 1)" by (simp add: unat_div group_word num_def)
  have nl: "num \<le> len" "num < 2 ^ 31"
  proof -
    have "(len - 1) div ?bs div 16 \<le> len - 1" by (meson div_le_dividend le_trans)
    then show "num \<le> len" "num < 2 ^ 31" using fit(2,3) by (simp_all add: num_def)
  qed
  have "last_block c offset (of_nat len) div OBMAFS3_COMPRESS_GROUP_BLOCKS = of_nat (G + (num - 1))" using lg by (metis of_nat_unat_id)
  then have w: "last_block c offset (of_nat len) div OBMAFS3_COMPRESS_GROUP_BLOCKS - of_nat G + 1 = of_nat num" by (simp add: num_def)
  show "nat (sint (ucast (last_block c offset (of_nat len) div OBMAFS3_COMPRESS_GROUP_BLOCKS - of_nat G + 1) :: 32 word)) = num"
  proof -
    have "(ucast (of_nat num :: u64) :: 32 word) = of_nat num" using nl(2) by (simp add: unsigned_of_nat take_bit_nat_eq_self)
    moreover have "sint (of_nat num :: 32 word) = int num" using nl(2) by (simp add: signed_of_nat signed_take_bit_int_eq_self)
    ultimately show ?thesis unfolding w by simp
  qed
  show "(num - 1) * 16 < T" "T \<le> num * 16" using T1 by (simp_all add: num_def)
qed

text \<open>A write at the end of a file of whole groups stores the groups of the data.\<close>

lemma used_runs:
  assumes "file_state K c B i rs inl img"
  shows "length (filter (\<lambda>e. \<not> unused_run e) (extents i)) = length inl"
proof -
  have "packed n ds \<Longrightarrow> filter (\<lambda>e. \<not> unused_run e) (map run_of ds) = map run_of ds" for n ds
    by (induction ds arbitrary: n) (auto simp: unused_run_def run_of_def)
  moreover have "packed 0 inl" using assms packed_prefix by (auto simp: file_state_def)
  ultimately show ?thesis using assms by (simp add: file_state_def) (simp add: unused_run_def zero_run_def)
qed

lemma write_at_end:
  assumes st: "file_state K c B i rs inl img" and G: "unat (file_size i) = G * 16 * bsz c"
    and fit: "unat (file_size i) + length buf < 2 ^ 61" "0 < length buf" "length buf < 2 ^ 31" and E: "heap_ok c" "0 < bsz c" "bsz c \<le> 65536"
  shows "obmafs3_write_file_data K c i (file_size i) buf = Some (append_groups K c (i\<lparr>file_size := file_size i + of_nat (length buf)\<rparr>) (length inl)
     (map (\<lambda>gi. append_group c (file_size i) buf (blocks_of c (file_size i + of_nat (length buf))) (of_nat (G + gi)))
        [0..<(length buf - 1) div bsz c div 16 + 1]))"
proof -
  let ?o = "file_size i"
  note N = append_numbers [OF G fit E(2,3)]
  have "G * 16 < 2 ^ 61" using factor_less [of "G * 16" "bsz c" "2 ^ 61"] G fit E(2) by simp
  then have "unat (of_nat (G * 16) + OBMAFS3_COMPRESS_GROUP_BLOCKS - 1 :: u64) = G * 16 + 15" "unat (of_nat G :: u64) = G"
    by (simp_all add: unat_of_nat take_bit_nat_eq_self OBMAFS3_COMPRESS_GROUP_BLOCKS_def unat_word_ariths)
  moreover have "blocks_of c ?o = of_nat (G * 16)" using N(3) by (metis of_nat_unat_id)
  ultimately have "(blocks_of c ?o + OBMAFS3_COMPRESS_GROUP_BLOCKS - 1) div OBMAFS3_COMPRESS_GROUP_BLOCKS \<le> of_nat G"
    by (simp add: word_le_nat_alt unat_div group_word)
  moreover have "?o < ?o + of_nat (length buf)" using N(1) fit(2) by (simp add: word_less_nat_alt)
  ultimately show ?thesis using E(1) N(4,5) used_runs [OF st] by (simp add: obmafs3_write_file_data_def write_file_data_append_def Let_def)
qed

text \<open>The file as reads see it.\<close>

lemma file_state_reads:
  assumes "overflow_holds b c lv own fl rs" "inode_id i \<noteq> 0" "file_state K c B i rs inl img" "unat (file_size i) \<le> length img" "unat off + unat sz < 2 ^ 64"
  shows "obmafs3_read_file_data K c i off sz = Some (Inr (take (unat sz) (drop (unat off) (take (unat (file_size i)) img))))"
proof -
  note F = file_state_extents [OF assms(3)]
  have "packed 0 (file_extents i rs)" "clones_agree (file_extents i rs)" "file_image K c (file_extents i rs) = Some img"
    using assms(3) by (simp_all add: F file_state_def)
  from read_range [OF assms(1,2) this assms(4,5)] show ?thesis .
qed


text \<open>A codec that packs groups of zeros, and an empty file.\<close>

definition zero_codec :: codec where
  "zero_codec = copy_codec\<lparr>
     zstd_compress := (\<lambda>lev src cap. if src = replicate (length src) 0 \<and> 8 \<le> cap \<and> length src < 2 ^ 32 then Some (le_enc 8 (of_nat (length src) :: u64)) else None),
     zstd_decompress := (\<lambda>src cap. let n = unat (le_dec src :: u64) in if n \<le> cap then Some (replicate n 0) else None)\<rparr>"

lemma zero_codec_ok: "codec_ok zero_codec" "flag_set zero_codec c"
proof -
  have "zstd_decompress zero_codec out (length src) = Some src \<and> length out \<le> cap" if "zstd_compress zero_codec lev src cap = Some out" for lev src cap out
  proof -
    have s: "src = replicate (length src) 0" "out = le_enc 8 (of_nat (length src) :: u64)" "8 \<le> cap" "length src < 2 ^ 32"
      using that by (auto simp: zero_codec_def split: if_splits)
    then have "unat (le_dec out :: u64) = length src" by (simp add: unat_of_nat take_bit_nat_eq_self del: le_enc.simps)
    then show ?thesis using s by (simp add: zero_codec_def Let_def del: le_enc.simps)
  qed
  then show "codec_ok zero_codec" unfolding codec_ok_def by (auto simp: zero_codec_def copy_codec_def Let_def split: if_splits)
  show "flag_set zero_codec c" by (simp add: flag_set_def zero_codec_def copy_codec_def kCompressionZstd_def kCompressionLzma_def)
qed

definition empty_file :: inode_record where
  "empty_file = demo_file\<lparr>inode_id := 9, file_size := 0, extents := replicate 8 zero_run\<rparr>"

lemma empty_file_state: "file_state K ovf_one B empty_file [overflow_enc demo_extent] [] []" "file_size empty_file = 0" "inode_id empty_file = 9"
  "bsz ovf_one = 1024" "unat (leaf_max overflow_cfg ovf_one) = 23"
  by (simp_all add: file_state_def empty_file_def extents_of_def overflow_dec_enc demo_extent_def clones_agree_def
      ovf_one_def ovf_ctx_def reserve_ctx_def blank_ctx_def leaf_max_def overflow_cfg_def nh_size_def)


lemma covers_none: "packed n ds \<Longrightarrow> n + sum_list (map (\<lambda>d. unat (logical_count d)) ds) \<le> unat lb \<Longrightarrow> find (covers lb) ds = None"
proof (induction ds arbitrary: n)
  case (Cons d ds)
  have "\<not> covers lb d" using covers_packed [OF Cons.prems(1)] Cons.prems(2) by simp
  then show ?case using Cons.IH [of "n + unat (logical_count d)"] Cons.prems by (simp add: add.assoc)
qed simp

lemma read_past_extents:
  assumes oh: "overflow_holds b c lv own fl rs" and i: "inode_id i \<noteq> 0" and st: "file_state K c B i rs inl img" and p: "length img \<le> unat off" "off < file_size i"
    and s: "0 < sz" "unat off + unat sz < 2 ^ 64"
  shows "obmafs3_read_file_data K c i off sz = Some (Inl OBMAFS3_ERR_IO)"
proof -
  note E = slot_env [OF oh]
  let ?ds = "inl @ extents_of (inode_id i) rs" and ?lb = "off div block_size (sb c)"
  have "sum_list (map (\<lambda>d. unat (logical_count d)) ?ds) * bsz c \<le> unat off"
    using length_file_image [of K c ?ds img, OF _ E(1)] st p(1) by (simp add: file_state_def)
  then have "sum_list (map (\<lambda>d. unat (logical_count d)) ?ds) \<le> unat ?lb" using E(4) by (simp add: unat_div less_eq_div_iff_mult_less_eq)
  then have "find (covers ?lb) ?ds = None" using st by (intro covers_none [of 0]) (simp_all add: file_state_def)
  then have f: "find_extent c i ?lb = Some None"
    using find_extent_spec [OF oh i, of ?lb] file_state_extents [OF st] by (simp add: file_extents_def)
  define n where "n = (if file_size i < off + sz then file_size i - off else sz)"
  have "0 < n" using p(2) s(1) by (auto simp: n_def word_gt_0)
  then have "read_loop K c i off n 0 None [] = Some (Inl OBMAFS3_ERR_IO)" using f by (subst read_loop.simps) simp
  then show ?thesis using p(2) by (simp add: obmafs3_read_file_data_def n_def)
qed

text \<open>A group recorded in a run of the inode has lost its position.\<close>

lemma inline_position: "u < 8 \<Longrightarrow> append_groups K c i u [(gs, gc, data)] = append_groups K c i u [(gs', gc, data)]"
  by (cases "append_store K c data gc"; cases "fst (append_store K c data gc)") (auto simp: run_of_def Let_def)



end
