(* ===== verification/FileCut.thy ===== *)
theory FileCut
  imports FileAppend
begin

text \<open>
  Cutting a group of blocks out of the extents of a file, as obmafs3\_write\_file\_data of
  src/src/lib/block.c does before it stores the group anew.
\<close>

section \<open>Giving blocks back on a volume without shared blocks\<close>

text \<open>Without reference counts every block has one owner.\<close>

lemma free_single_unshared:
  assumes "root_node_lba (refcount_hdr c) = 0"
  shows "free_single_phys_block c lba = Some (obmafs3_bitmap_clear c lba 1)"
  using assms by (simp add: free_single_phys_block_def obmafs3_refcount_get_def obmafs3_free_block_def obmafs3_free_blocks_def)

lemma free_run_unshared:
  assumes "root_node_lba (refcount_hdr c) = 0" "bm_ok c" "unat lba + n \<le> 2 ^ 63"
  shows "\<exists>bm. free_run c lba n = Some (c\<lparr>bitmap := bm\<rparr>) \<and> bm_ok (c\<lparr>bitmap := bm\<rparr>) \<and>
     (\<forall>p. used (c\<lparr>bitmap := bm\<rparr>) p \<longleftrightarrow> used c p \<and> p \<notin> {unat lba ..< unat lba + n})"
  using assms
proof (induction n arbitrary: c lba)
  case 0
  have "c\<lparr>bitmap := bitmap c\<rparr> = c" by simp
  then show ?case using 0 by (intro exI [of _ "bitmap c"]) simp
next
  case (Suc n)
  let ?c = "obmafs3_bitmap_clear c lba 1"
  obtain b1 where b1: "?c = c\<lparr>bitmap := b1\<rparr>" using bitmap_clear_eq by blast
  have u1: "used ?c p \<longleftrightarrow> used c p \<and> p \<noteq> unat lba" for p
    using used_clear [OF Suc.prems(2), of lba 1 p] Suc.prems(3) by auto
  have l1: "unat (lba + 1) = unat lba + 1" using unat_add_of_nat [of lba 1] Suc.prems(3) by simp
  have bm1: "bm_ok ?c" using Suc.prems(2) by simp
  have "root_node_lba (refcount_hdr ?c) = 0" "unat (lba + 1) + n \<le> 2 ^ 63" using Suc.prems l1 b1 by simp_all
  from Suc.IH [OF this(1) bm1 this(2)] obtain bm where bm: "free_run ?c (lba + 1) n = Some (?c\<lparr>bitmap := bm\<rparr>)" "bm_ok (?c\<lparr>bitmap := bm\<rparr>)"
    "\<And>p. used (?c\<lparr>bitmap := bm\<rparr>) p \<longleftrightarrow> used ?c p \<and> p \<notin> {unat (lba + 1) ..< unat (lba + 1) + n}" by blast
  have "?c\<lparr>bitmap := bm\<rparr> = c\<lparr>bitmap := bm\<rparr>" by (simp add: b1)
  then show ?case using bm u1 l1 free_single_unshared [OF Suc.prems(1)] by (intro exI [of _ bm]) auto
qed

section \<open>Splitting extents\<close>

lemma data_area_append:
  assumes "dev_ok c" "area_in c lba (m + n)"
  shows "data_area c lba (m + n) = data_area c lba m @ data_area c (lba + of_nat m) n"
proof -
  have "drop (m * bsz c) (data_area c lba (m + n)) = data_area c (lba + of_nat m) n" using data_area_drop [OF assms, of m] by simp
  moreover have "take (m * bsz c) (data_area c lba (m + n)) = data_area c lba m"
  proof -
    have "data_area c lba (m + n) = data_area c lba m @ concat (map (\<lambda>i. blk c (lba + of_nat i)) [m..<m + n])"
      unfolding data_area_def upt_add_eq_append [OF le0] map_append concat_append by (rule refl)
    then show ?thesis using length_data_area [OF assms(1) area_in_le [OF assms(2), of m]] by simp
  qed
  ultimately show ?thesis by (metis append_take_drop_id)
qed

text \<open>The part of a plain extent from its block \<open>k\<close> on, \<open>m\<close> blocks long.\<close>

definition sub_extent :: "extent_descriptor \<Rightarrow> nat \<Rightarrow> nat \<Rightarrow> extent_descriptor" where
  "sub_extent d k m = \<lparr>logical_start = logical_start d + of_nat k, logical_count = of_nat m, phys_start = phys_start d + of_nat k, phys_count = of_nat m\<rparr>"

lemma sub_extent_facts:
  assumes p: "plain d" and dv: "dev_ok c" and e: "ext_data K c d = Some x" and km: "k + m \<le> unat (logical_count d)"
    and lim: "unat (logical_start d) + unat (logical_count d) < 2 ^ 64"
  shows "plain (sub_extent d k m)" "unat (logical_start (sub_extent d k m)) = unat (logical_start d) + k" "unat (logical_count (sub_extent d k m)) = m"
    "ext_data K c (sub_extent d k m) = Some (take (m * bsz c) (drop (k * bsz c) x))"
    "area_in c (phys_start (sub_extent d k m)) (unat (phys_count (sub_extent d k m)))"
    "m = 0 \<or> ext_blocks (sub_extent d k m) = {unat (phys_start d) + k ..< unat (phys_start d) + k + m}"
proof -
  let ?n = "unat (logical_count d)"
  have a: "area_in c (phys_start d) ?n" and x: "x = data_area c (phys_start d) ?n" using e p by (auto simp: ext_data_def Let_def split: if_splits)
  show pl: "plain (sub_extent d k m)" by (simp add: plain_def sub_extent_def)
  have m: "unat (of_nat m :: u64) = m" unfolding unat_of_nat using km lim by simp
  show "unat (logical_start (sub_extent d k m)) = unat (logical_start d) + k" using unat_add_of_nat [of "logical_start d" k] km lim by (simp add: sub_extent_def)
  show lc: "unat (logical_count (sub_extent d k m)) = m" by (simp add: sub_extent_def m)
  have k64: "k < 2 ^ 64" using km lim by simp
  have a1: "area_in c (phys_start d + of_nat k) (?n - k)" using area_in_drop [OF a _ k64] km by simp
  then have a2: "area_in c (phys_start d + of_nat k) m" by (rule area_in_le) (use km in simp)
  then show "area_in c (phys_start (sub_extent d k m)) (unat (phys_count (sub_extent d k m)))" by (simp add: sub_extent_def m)
  have "drop (k * bsz c) x = data_area c (phys_start d + of_nat k) (m + (?n - k - m))" unfolding x using data_area_drop [OF dv a, of k] km by simp
  also have "\<dots> = data_area c (phys_start d + of_nat k) m @ data_area c (phys_start d + of_nat k + of_nat m) (?n - k - m)"
    by (rule data_area_append [OF dv]) (use a1 km in simp)
  finally have "take (m * bsz c) (drop (k * bsz c) x) = data_area c (phys_start d + of_nat k) m" using length_data_area [OF dv a2] by simp
  then show "ext_data K c (sub_extent d k m) = Some (take (m * bsz c) (drop (k * bsz c) x))"
    using a2 pl lc by (simp add: ext_data_def Let_def) (simp add: sub_extent_def)
  have "unat (phys_start d + of_nat k) = unat (phys_start d) + k" if "0 < m"
    using a km that unat_u64 [of "max_lba c"] by (intro unat_add_of_nat) (simp add: area_in_def)
  then show "m = 0 \<or> ext_blocks (sub_extent d k m) = {unat (phys_start d) + k ..< unat (phys_start d) + k + m}"
    by (auto simp: ext_blocks_def sub_extent_def m)
qed

section \<open>Cutting a group out\<close>

lemma read_blocks_bitmap: "read_blocks (c\<lparr>bitmap := bm\<rparr>) lba n = read_blocks c lba n"
proof -
  have "obmafs3_block_read (c\<lparr>bitmap := bm\<rparr>) = obmafs3_block_read c" by (rule block_read_cong) simp_all
  then show ?thesis by (induction n arbitrary: lba) (auto split: sum.splits)
qed

lemma ext_data_bitmap [simp]:
  "read_compressed K (c\<lparr>bitmap := bm\<rparr>) l n cap = read_compressed K c l n cap" "area_in (c\<lparr>bitmap := bm\<rparr>) l m = area_in c l m"
  "ext_data K (c\<lparr>bitmap := bm\<rparr>) d = ext_data K c d" "dev_ok (c\<lparr>bitmap := bm\<rparr>) = dev_ok c"
proof -
  show rc: "read_compressed K (c\<lparr>bitmap := bm\<rparr>) l n cap = read_compressed K c l n cap" for l n cap
  proof -
    have x: "xxh64 (c\<lparr>bitmap := bm\<rparr>) = xxh64 c" by simp
    show ?thesis unfolding read_compressed_def read_blocks_bitmap x by (rule refl)
  qed
  show a: "area_in (c\<lparr>bitmap := bm\<rparr>) l m = area_in c l m" for l m by (simp add: area_in_def)
  have s: "sb (c\<lparr>bitmap := bm\<rparr>) = sb c" "data_area (c\<lparr>bitmap := bm\<rparr>) = data_area c" by (simp_all add: data_area_def fun_eq_iff)
  show "ext_data K (c\<lparr>bitmap := bm\<rparr>) d = ext_data K c d" unfolding ext_data_def a rc s by (rule refl)
  show "dev_ok (c\<lparr>bitmap := bm\<rparr>) = dev_ok c" by (simp add: dev_ok_def)
qed

lemma file_image_bitmap [simp]: "file_image K (c\<lparr>bitmap := bm\<rparr>) ds = file_image K c ds"
  by (rule file_image_cong) simp

text \<open>No two extents share a block.\<close>

definition apart :: "extent_descriptor list \<Rightarrow> bool" where
  "apart es \<longleftrightarrow> sorted_wrt (\<lambda>a b. ext_blocks a \<inter> ext_blocks b = {}) es"

abbreviation all_blocks :: "extent_descriptor list \<Rightarrow> nat set" where
  "all_blocks es \<equiv> \<Union> (ext_blocks ` set es)"

lemma apart_append: "apart (xs @ ys) \<longleftrightarrow> apart xs \<and> apart ys \<and> all_blocks xs \<inter> all_blocks ys = {}"
  unfolding apart_def sorted_wrt_append by auto

text \<open>A compressed extent does not straddle the bounds of the group.\<close>

definition whole :: "nat \<Rightarrow> nat \<Rightarrow> extent_descriptor \<Rightarrow> bool" where
  "whole a z d \<longleftrightarrow> plain d \<or> unat (logical_start d) + unat (logical_count d) \<le> a \<or> z \<le> unat (logical_start d) \<or>
     a \<le> unat (logical_start d) \<and> unat (logical_start d) + unat (logical_count d) \<le> z"

text \<open>
  What one extent contributes: the part before the group, the part behind it, and the blocks
  between them, which are given back.
\<close>

definition cut_before :: "nat \<Rightarrow> extent_descriptor \<Rightarrow> extent_descriptor list" where
  "cut_before a e =
     (let n = unat (logical_start e); m = unat (logical_count e) in
      if n + m \<le> a then [e] else if a \<le> n then [] else [sub_extent e 0 (a - n)])"

definition cut_after :: "nat \<Rightarrow> extent_descriptor \<Rightarrow> extent_descriptor list" where
  "cut_after z e =
     (let n = unat (logical_start e); m = unat (logical_count e) in
      if z \<le> n then [e] else if n + m \<le> z then [] else [sub_extent e (z - n) (n + m - z)])"

lemma word_part:
  assumes "unat (x :: u64) = n" "unat y = a" "n \<le> a"
  shows "y - x = of_nat (a - n)" "unat (y - x) = a - n"
proof -
  show u: "unat (y - x) = a - n" using assms by (simp add: unat_sub word_le_nat_alt)
  show "y - x = of_nat (a - n)" using u by (metis of_nat_unat_id)
qed

text \<open>An extent of the list at block \<open>n\<close>, with its data.\<close>

definition ext_at :: "codec \<Rightarrow> ctx \<Rightarrow> nat \<Rightarrow> extent_descriptor \<Rightarrow> bytes \<Rightarrow> bool" where
  "ext_at K c n e x \<longleftrightarrow> dev_ok c \<and> ext_data K c e = Some x \<and> unat (logical_start e) = n \<and> 0 < unat (logical_count e) \<and>
     n + unat (logical_count e) < 2 ^ 64 \<and> area_in c (phys_start e) (unat (phys_count e))"

lemma cut_sub:
  assumes "ext_at K c n e x" "plain e" "k + m \<le> unat (logical_count e)"
  shows "plain (sub_extent e k m)" "unat (logical_start (sub_extent e k m)) = n + k" "unat (logical_count (sub_extent e k m)) = m"
    "ext_data K c (sub_extent e k m) = Some (take (m * bsz c) (drop (k * bsz c) x))" "area_in c (phys_start (sub_extent e k m)) (unat (phys_count (sub_extent e k m)))"
    "m = 0 \<or> ext_blocks (sub_extent e k m) = {unat (phys_start e) + k ..< unat (phys_start e) + k + m}"
  using sub_extent_facts [OF assms(2) _ _ assms(3), of c K x] assms(1) by (simp_all add: ext_at_def)

lemma cut_images:
  assumes e: "ext_at K c n e x" and w: "whole a z e" "a \<le> z"
  shows "file_image K c (cut_before a e) = Some (take ((a - n) * bsz c) x)" "file_image K c (cut_after z e) = Some (drop ((z - n) * bsz c) x)"
proof -
  let ?m = "unat (logical_count e)"
  have lx: "length x = ?m * bsz c" and n: "unat (logical_start e) = n" "0 < ?m" "ext_data K c e = Some x" using e length_ext_data by (auto simp: ext_at_def)
  show "file_image K c (cut_before a e) = Some (take ((a - n) * bsz c) x)"
  proof (cases "n + ?m \<le> a \<or> a \<le> n")
    case True
    moreover have "?m * bsz c \<le> (a - n) * bsz c" if "n + ?m \<le> a" by (rule mult_le_mono1) (use that in linarith)
    ultimately show ?thesis using n lx by (auto simp: cut_before_def Let_def)
  next
    case False
    then have "plain e" using w n by (auto simp: whole_def)
    then show ?thesis using cut_sub [OF e, of 0 "a - n"] False n by (auto simp: cut_before_def Let_def)
  qed
  show "file_image K c (cut_after z e) = Some (drop ((z - n) * bsz c) x)"
  proof (cases "n + ?m \<le> z \<or> z \<le> n")
    case True
    moreover have "?m * bsz c \<le> (z - n) * bsz c" if "n + ?m \<le> z" by (rule mult_le_mono1) (use that in linarith)
    ultimately show ?thesis using n lx by (auto simp: cut_after_def Let_def)
  next
    case False
    then have "plain e" using w n by (auto simp: whole_def)
    moreover have "(n + ?m - z) * bsz c = length x - (z - n) * bsz c" using False lx by (simp add: add.commute flip: diff_mult_distrib)
    ultimately show ?thesis using cut_sub [OF e, of "z - n" "n + ?m - z"] False n by (auto simp: cut_after_def Let_def)
  qed
qed

lemma count_pos: "0 < unat (logical_count d) \<Longrightarrow> 0 < logical_count d"
  by (simp add: word_gt_0 unat_gt_0)

lemma cut_packed:
  assumes e: "ext_at K c n e x" and w: "whole a z e" "a \<le> z"
  shows "a < n + unat (logical_count e) \<Longrightarrow> packed n (cut_before a e)" "packed (n + unat (logical_count e)) es \<Longrightarrow> n + unat (logical_count e) \<le> a \<Longrightarrow> packed n (cut_before a e @ es)"
    "packed (max (n + unat (logical_count e)) z) es \<Longrightarrow> packed (max n z) (cut_after z e @ es)"
    "length (cut_before a e @ cut_after z e) \<le> 1 + (if n < a \<and> a < n + unat (logical_count e) then 1 else 0)"
proof -
  let ?m = "unat (logical_count e)"
  have n: "unat (logical_start e) = n" "0 < ?m" "0 < logical_count e" "n + ?m < 2 ^ 64" using e by (auto simp: ext_at_def count_pos)
  have pl: "plain e" if "n < b" "b < n + ?m" "b = a \<or> b = z" for b using that w n by (auto simp: whole_def)
  show "packed n (cut_before a e)" if l: "a < n + ?m"
  proof (cases "a \<le> n")
    case False
    then have "plain e" "a - n \<le> ?m" using pl [of a] l by simp_all
    note S = cut_sub [OF e this(1), of 0 "a - n"]
    have "0 < logical_count (sub_extent e 0 (a - n))" by (rule count_pos) (use S(3) False l in simp)
    then show ?thesis using S(2,3) False l n by (simp add: cut_before_def Let_def)
  qed (use n l in \<open>simp add: cut_before_def Let_def\<close>)
  show "packed n (cut_before a e @ es)" if "packed (n + ?m) es" "n + ?m \<le> a" using that n by (simp add: cut_before_def Let_def)
  show "packed (max n z) (cut_after z e @ es)" if p: "packed (max (n + ?m) z) es"
  proof (cases "z \<le> n \<or> n + ?m \<le> z")
    case True
    then show ?thesis using p n by (auto simp: cut_after_def Let_def max_def)
  next
    case False
    then have "plain e" "z - n + (n + ?m - z) \<le> ?m" using pl [of z] by simp_all
    note S = cut_sub [OF e this]
    have "0 < logical_count (sub_extent e (z - n) (n + ?m - z))" by (rule count_pos) (use S(3) False in simp)
    then show ?thesis using S(2,3) False p n by (simp add: cut_after_def Let_def max_def)
  qed
  show "length (cut_before a e @ cut_after z e) \<le> 1 + (if n < a \<and> a < n + ?m then 1 else 0)"
    using n w(2) by (auto simp: cut_before_def cut_after_def Let_def)
qed

text \<open>The parts before and behind the group, for a list of extents.\<close>

abbreviation before :: "nat \<Rightarrow> extent_descriptor list \<Rightarrow> extent_descriptor list" where
  "before a es \<equiv> concat (map (cut_before a) es)"

abbreviation after :: "nat \<Rightarrow> extent_descriptor list \<Rightarrow> extent_descriptor list" where
  "after z es \<equiv> concat (map (cut_after z) es)"

lemma before_none: "packed k es \<Longrightarrow> a \<le> k \<Longrightarrow> before a es = []"
proof (induction es arbitrary: k)
  case (Cons e es)
  then have "0 < unat (logical_count e)" "unat (logical_start e) = k" by (simp_all add: word_gt_0 unat_gt_0)
  then have "cut_before a e = []" using Cons.prems(2) by (simp add: cut_before_def Let_def)
  moreover have "before a es = []" by (rule Cons.IH [of "k + unat (logical_count e)"]) (use Cons.prems in simp_all)
  ultimately show ?case unfolding list.map concat.simps by simp
qed simp

lemma cut_list:
  assumes "packed n es" "file_image K c es = Some img" "dev_ok c" "a \<le> z" "z < 2 ^ 64"
    and "\<forall>e \<in> set es. area_in c (phys_start e) (unat (phys_count e)) \<and> whole a z e"
  shows "concat (map (\<lambda>e. cut_before a e @ cut_after z e) es) = before a es @ after z es"
    and "file_image K c (before a es) = Some (take ((a - n) * bsz c) img)" "file_image K c (after z es) = Some (drop ((z - n) * bsz c) img)"
    and "packed n (before a es)" "packed (max n z) (after z es)" "length (before a es @ after z es) \<le> length es + (if n < a then 1 else 0)"
proof -
  have "concat (map (\<lambda>e. cut_before a e @ cut_after z e) es) = before a es @ after z es \<and>
    file_image K c (before a es) = Some (take ((a - n) * bsz c) img) \<and> file_image K c (after z es) = Some (drop ((z - n) * bsz c) img) \<and>
    packed n (before a es) \<and> packed (max n z) (after z es) \<and> length (before a es @ after z es) \<le> length es + (if n < a then 1 else 0)"
    using assms
  proof (induction es arbitrary: n img)
    case (Cons e es)
    let ?m = "unat (logical_count e)"
    obtain x img' where x: "ext_data K c e = Some x" "file_image K c es = Some img'" "img = x @ img'" using Cons.prems(2) by (auto split: option.splits)
    have pk: "packed (n + ?m) es" "unat (logical_start e) = n" "0 < ?m" using Cons.prems(1) by (auto simp: word_gt_0 unat_gt_0)
    have at: "ext_at K c n e x" "whole a z e" using Cons.prems(3,6) x(1) pk packed_less [OF pk(1)] by (auto simp: ext_at_def)
    have lx: "length x = ?m * bsz c" using length_ext_data [OF x(1) Cons.prems(3)] .
    note I = cut_images [OF at Cons.prems(4)] cut_packed [OF at Cons.prems(4)]
    have IH: "concat (map (\<lambda>e. cut_before a e @ cut_after z e) es) = before a es @ after z es"
      "file_image K c (before a es) = Some (take ((a - (n + ?m)) * bsz c) img')" "file_image K c (after z es) = Some (drop ((z - (n + ?m)) * bsz c) img')"
      "packed (n + ?m) (before a es)" "packed (max (n + ?m) z) (after z es)" "length (before a es @ after z es) \<le> length es + (if n + ?m < a then 1 else 0)"
      using Cons.IH [OF pk(1) x(2) Cons.prems(3-5)] Cons.prems(6) by simp_all
    have mul: "(b - (n + ?m)) * bsz c = (b - n) * bsz c - length x" for b by (simp add: lx diff_mult_distrib add_mult_distrib)
    have nob: "before a es = []" if "a < n + ?m" by (rule before_none [OF pk(1)]) (use that in simp)
    have "concat (map (\<lambda>e. cut_before a e @ cut_after z e) (e # es)) = before a (e # es) @ after z (e # es)"
    proof (cases "a < n + ?m")
      case False
      then have "cut_after z e = []" using pk Cons.prems(4) by (simp add: cut_after_def Let_def)
      then show ?thesis using IH(1) by simp
    next
      case True
      show ?thesis unfolding list.map concat.simps IH(1) nob [OF True] by simp
    qed
    moreover have "file_image K c (before a (e # es)) = Some (take ((a - n) * bsz c) img)" "file_image K c (after z (e # es)) = Some (drop ((z - n) * bsz c) img)"
      using I(1,2) IH(2,3) x(3) mul by (simp_all add: file_image_append)
    moreover have "packed n (before a (e # es))" 
    proof (cases "a < n + ?m")
      case True
      show ?thesis unfolding list.map concat.simps nob [OF True] using I(3) [OF True] by simp
    qed (use I(4) [OF IH(4)] in simp)
    moreover have "packed (max n z) (after z (e # es))" using I(5) [OF IH(5)] by simp
    moreover have "length (before a (e # es) @ after z (e # es)) \<le> length (e # es) + (if n < a then 1 else 0)"
      using I(6) IH(6) pk(3) by (auto split: if_splits)
    ultimately show ?case by blast
  qed simp
  then show "concat (map (\<lambda>e. cut_before a e @ cut_after z e) es) = before a es @ after z es"
    "file_image K c (before a es) = Some (take ((a - n) * bsz c) img)" "file_image K c (after z es) = Some (drop ((z - n) * bsz c) img)"
    "packed n (before a es)" "packed (max n z) (after z es)" "length (before a es @ after z es) \<le> length es + (if n < a then 1 else 0)" by blast+
qed

text \<open>The blocks of an extent that are given back.\<close>

definition cut_blocks :: "nat \<Rightarrow> nat \<Rightarrow> extent_descriptor \<Rightarrow> nat set" where
  "cut_blocks a z e = ext_blocks e - all_blocks (cut_before a e @ cut_after z e)"

lemma residual_facts:
  assumes e: "ext_at K c n e x" and w: "whole a z e" "a < z" and d: "d \<in> set (cut_before a e @ cut_after z e)"
  shows "area_in c (phys_start d) (unat (phys_count d))" "plain d \<or> d = e" "ext_blocks d \<subseteq> ext_blocks e"
proof -
  let ?m = "unat (logical_count e)"
  have n: "unat (logical_start e) = n" "area_in c (phys_start e) (unat (phys_count e))" using e by (auto simp: ext_at_def)
  consider "d = e" | "n < a" "a < n + ?m" "d = sub_extent e 0 (a - n)" | "n < z" "z < n + ?m" "d = sub_extent e (z - n) (n + ?m - z)"
    using d n by (auto simp: cut_before_def cut_after_def Let_def split: if_splits)
  then have "area_in c (phys_start d) (unat (phys_count d)) \<and> (plain d \<or> d = e) \<and> ext_blocks d \<subseteq> ext_blocks e"
  proof cases
    case 2
    then have p: "plain e" using w n by (auto simp: whole_def)
    have "unat (phys_count e) = ?m" using p by (simp add: plain_def)
    then show ?thesis using cut_sub [OF e p, of 0 "a - n"] 2 by (auto simp: ext_blocks_def)
  next
    case 3
    then have p: "plain e" using w n by (auto simp: whole_def)
    have "unat (phys_count e) = ?m" using p by (simp add: plain_def)
    then show ?thesis using cut_sub [OF e p, of "z - n" "n + ?m - z"] 3 by (auto simp: ext_blocks_def)
  qed (use n in simp)
  then show "area_in c (phys_start d) (unat (phys_count d))" "plain d \<or> d = e" "ext_blocks d \<subseteq> ext_blocks e" by blast+
qed

lemma area_bound: "dev_ok c \<Longrightarrow> area_in c l n \<Longrightarrow> unat l + n \<le> 2 ^ 63"
proof -
  assume d: "dev_ok c" and a: "area_in c l n"
  have "unat (max_lba c) \<le> unat (max_lba c) * bsz c" using d by (simp add: dev_ok_def)
  also have "\<dots> \<le> unat (total_bytes (sb c))" by (simp add: unat_max_lba)
  finally show ?thesis using d a by (simp add: dev_ok_def area_in_def)
qed

lemma cut_group_step:
  assumes e: "ext_at K c n e x" and w: "whole a z e" "a < z" and g: "unat gs = a" "unat ge = z" and c: "root_node_lba (refcount_hdr c) = 0" "bm_ok c"
  shows "\<exists>bm. cut_group c gs ge (e # es) = map_option (\<lambda>(r, c'). ((cut_before a e @ cut_after z e) @ r, c')) (cut_group (c\<lparr>bitmap := bm\<rparr>) gs ge es) \<and>
    bm_ok (c\<lparr>bitmap := bm\<rparr>) \<and> (\<forall>p. used (c\<lparr>bitmap := bm\<rparr>) p \<longleftrightarrow> used c p \<and> p \<notin> cut_blocks a z e)"
proof -
  let ?m = "unat (logical_count e)" and ?s = "logical_start e" and ?p = "phys_start e"
  have n: "unat ?s = n" "0 < ?m" "n + ?m < 2 ^ 64" "dev_ok c" "area_in c ?p (unat (phys_count e))" using e by (auto simp: ext_at_def)
  have ue: "unat (?s + logical_count e) = n + ?m" using n by (subst unat_add_less) simp_all
  have free: "\<exists>bm. free_run c (?p + of_nat k) m = Some (c\<lparr>bitmap := bm\<rparr>) \<and> bm_ok (c\<lparr>bitmap := bm\<rparr>) \<and>
     (\<forall>q. used (c\<lparr>bitmap := bm\<rparr>) q \<longleftrightarrow> used c q \<and> q \<notin> {unat ?p + k ..< unat ?p + k + m})" if "k + m \<le> unat (phys_count e)" "0 < m" for k m
  proof -
    have b: "unat ?p + unat (phys_count e) \<le> 2 ^ 63" by (rule area_bound [OF n(4,5)])
    have "unat (?p + of_nat k) = unat ?p + k" using that b by (intro unat_add_of_nat) simp
    then show ?thesis using free_run_unshared [OF c, of "?p + of_nat k" m] that b by simp
  qed
  have pm: "unat (phys_count e) = ?m" if "plain e" using that by (simp add: plain_def)
  consider (no) "n + ?m \<le> a \<or> z \<le> n" | (inside) "a \<le> n" "n + ?m \<le> z" | (left) "n < a" "a < n + ?m" "n + ?m \<le> z"
    | (right) "a \<le> n" "n < z" "z < n + ?m" | (around) "n < a" "z < n + ?m" using n(2) w(2) by linarith
  then show ?thesis
  proof cases
    case no
    then have r: "cut_before a e @ cut_after z e = [e]" using n w(2) by (auto simp: cut_before_def cut_after_def Let_def)
    have "cut_group c gs ge (e # es) = map_option (\<lambda>(r, c'). ([e] @ r, c')) (cut_group (c\<lparr>bitmap := bitmap c\<rparr>) gs ge es)"
      using no n ue g by (auto simp: word_le_nat_alt Let_def)
    then show ?thesis unfolding cut_blocks_def r using c by (intro exI [of _ "bitmap c"]) simp
  next
    case inside
    then have r: "cut_before a e @ cut_after z e = []" using n w(2) by (auto simp: cut_before_def cut_after_def Let_def)
    have "\<exists>bm. free_run c ?p (unat (phys_count e)) = Some (c\<lparr>bitmap := bm\<rparr>) \<and> bm_ok (c\<lparr>bitmap := bm\<rparr>) \<and>
      (\<forall>q. used (c\<lparr>bitmap := bm\<rparr>) q \<longleftrightarrow> used c q \<and> q \<notin> ext_blocks e)"
      using free_run_unshared [OF c, of ?p "unat (phys_count e)"] area_bound [OF n(4,5)] by (simp add: ext_blocks_def)
    then obtain bm where bm: "free_extent_phys c e = Some (c\<lparr>bitmap := bm\<rparr>)" "bm_ok (c\<lparr>bitmap := bm\<rparr>)" "\<And>q. used (c\<lparr>bitmap := bm\<rparr>) q \<longleftrightarrow> used c q \<and> q \<notin> ext_blocks e"
      by (auto simp: free_extent_phys_def)
    have "cut_group c gs ge (e # es) = cut_group (c\<lparr>bitmap := bm\<rparr>) gs ge es"
      using inside n ue g w(2) bm(1) by (simp add: word_le_nat_alt Let_def)
    then show ?thesis unfolding cut_blocks_def r using bm by (intro exI [of _ bm]) (simp add: option.map_id0 [unfolded id_def] split_def)
  next
    case left
    then have p: "plain e" using w n by (auto simp: whole_def)
    have r: "cut_before a e @ cut_after z e = [sub_extent e 0 (a - n)]" using left n by (simp add: cut_before_def cut_after_def Let_def)
    have keep: "gs - ?s = of_nat (a - n)" "unat (gs - ?s) = a - n" by (rule word_part [OF n(1) g(1)]; use left in simp)+
    have se: "e\<lparr>logical_count := gs - ?s, phys_count := gs - ?s\<rparr> = sub_extent e 0 (a - n)" by (simp add: sub_extent_def keep(1))
    have km: "a - n + (n + ?m - a) \<le> unat (phys_count e)" "0 < n + ?m - a" using left pm [OF p] by simp_all
    obtain bm where bm: "free_run c (?p + of_nat (a - n)) (n + ?m - a) = Some (c\<lparr>bitmap := bm\<rparr>)" "bm_ok (c\<lparr>bitmap := bm\<rparr>)"
      "\<And>q. used (c\<lparr>bitmap := bm\<rparr>) q \<longleftrightarrow> used c q \<and> q \<notin> {unat ?p + (a - n) ..< unat ?p + (a - n) + (n + ?m - a)}" using free [OF km] by blast
    have cb: "cut_blocks a z e = {unat ?p + (a - n) ..< unat ?p + (a - n) + (n + ?m - a)}"
      unfolding cut_blocks_def r using cut_sub(6) [OF e p, of 0 "a - n"] left pm [OF p] by (auto simp: ext_blocks_def [of e])
    have cnt: "unat (phys_count e) - unat (gs - ?s) = n + ?m - a" using left keep pm [OF p] by simp
    have "cut_group c gs ge (e # es) = map_option (\<lambda>(r, c'). ([sub_extent e 0 (a - n)] @ r, c')) (cut_group (c\<lparr>bitmap := bm\<rparr>) gs ge es)"
      using left n ue g p bm(1) unfolding cut_group.simps Let_def cnt se by (simp add: word_le_nat_alt word_less_nat_alt keep(1))
    then show ?thesis unfolding r cb using bm by (intro exI [of _ bm]) simp
  next
    case right
    then have p: "plain e" using w n by (auto simp: whole_def)
    have r: "cut_before a e @ cut_after z e = [sub_extent e (z - n) (n + ?m - z)]" using right n by (simp add: cut_before_def cut_after_def Let_def)
    have skip: "ge - ?s = of_nat (z - n)" "unat (ge - ?s) = z - n" by (rule word_part [OF n(1) g(2)]; use right in simp)+
    have rest: "logical_count e - (ge - ?s) = of_nat (n + ?m - z)"
      using word_part(1) [OF skip(2) refl, of "logical_count e"] right by simp
    have se: "\<lparr>logical_start = ?s + (ge - ?s), logical_count = logical_count e - (ge - ?s), phys_start = ?p + (ge - ?s), phys_count = phys_count e - (ge - ?s)\<rparr>
      = sub_extent e (z - n) (n + ?m - z)" using p rest by (simp add: sub_extent_def plain_def skip(1) [symmetric])
    have km: "0 + (z - n) \<le> unat (phys_count e)" "0 < z - n" using right pm [OF p] by simp_all
    obtain bm where bm: "free_run c ?p (z - n) = Some (c\<lparr>bitmap := bm\<rparr>)" "bm_ok (c\<lparr>bitmap := bm\<rparr>)"
      "\<And>q. used (c\<lparr>bitmap := bm\<rparr>) q \<longleftrightarrow> used c q \<and> q \<notin> {unat ?p ..< unat ?p + (z - n)}" using free [OF km] by auto
    have cb: "cut_blocks a z e = {unat ?p ..< unat ?p + (z - n)}"
      unfolding cut_blocks_def r using cut_sub(6) [OF e p, of "z - n" "n + ?m - z"] right pm [OF p] by (auto simp: ext_blocks_def [of e])
    have "cut_group c gs ge (e # es) = map_option (\<lambda>(r, c'). ([sub_extent e (z - n) (n + ?m - z)] @ r, c')) (cut_group (c\<lparr>bitmap := bm\<rparr>) gs ge es)"
      using right n ue g p bm(1) unfolding cut_group.simps Let_def se skip(2) by (simp add: word_le_nat_alt word_less_nat_alt)
    then show ?thesis unfolding r cb using bm by (intro exI [of _ bm]) simp
  next
    case around
    then have p: "plain e" using w n by (auto simp: whole_def)
    have r: "cut_before a e @ cut_after z e = [sub_extent e 0 (a - n), sub_extent e (z - n) (n + ?m - z)]"
      using around n w(2) by (simp add: cut_before_def cut_after_def Let_def)
    have keep: "gs - ?s = of_nat (a - n)" "unat (gs - ?s) = a - n" by (rule word_part [OF n(1) g(1)]; use around in simp)+
    have skip: "ge - ?s = of_nat (z - n)" by (rule word_part(1) [OF n(1) g(2)]) (use around w(2) in simp)
    have rest: "?s + logical_count e - ge = of_nat (n + ?m - z)" by (rule word_part(1) [OF g(2) ue]) (use around in simp)
    have se: "e\<lparr>logical_count := gs - ?s, phys_count := gs - ?s\<rparr> = sub_extent e 0 (a - n)" by (simp add: sub_extent_def keep(1))
    have se2: "\<lparr>logical_start = ge, logical_count = ?s + logical_count e - ge, phys_start = ?p + (ge - ?s), phys_count = ?s + logical_count e - ge\<rparr>
      = sub_extent e (z - n) (n + ?m - z)" using rest by (simp add: sub_extent_def skip [symmetric])
    have sub: "unat (ge - gs) = z - a" using w(2) g by (simp add: unat_sub word_le_nat_alt)
    then have "unat (gs - ?s + (ge - gs)) = a - n + (z - a)" using keep(2) around w(2) n g unat_u64 [of ge] by (subst unat_add_less) simp_all
    then have cnt: "unat (gs - ?s + (ge - gs)) - unat (gs - ?s) = z - a" using keep(2) by simp
    have km: "a - n + (z - a) \<le> unat (phys_count e)" "0 < z - a" using around pm [OF p] w(2) by simp_all
    obtain bm where bm: "free_run c (?p + of_nat (a - n)) (z - a) = Some (c\<lparr>bitmap := bm\<rparr>)" "bm_ok (c\<lparr>bitmap := bm\<rparr>)"
      "\<And>q. used (c\<lparr>bitmap := bm\<rparr>) q \<longleftrightarrow> used c q \<and> q \<notin> {unat ?p + (a - n) ..< unat ?p + (a - n) + (z - a)}" using free [OF km] by blast
    have cb: "cut_blocks a z e = {unat ?p + (a - n) ..< unat ?p + (a - n) + (z - a)}"
      unfolding cut_blocks_def r using cut_sub(6) [OF e p, of 0 "a - n"] cut_sub(6) [OF e p, of "z - n" "n + ?m - z"] around w(2) pm [OF p]
      by (auto simp: ext_blocks_def [of e])
    have "cut_group c gs ge (e # es) = map_option (\<lambda>(r, c'). ([sub_extent e 0 (a - n), sub_extent e (z - n) (n + ?m - z)] @ r, c')) (cut_group (c\<lparr>bitmap := bm\<rparr>) gs ge es)"
      using around n ue g p w(2) bm(1) unfolding cut_group.simps Let_def cnt se se2 by (simp add: word_le_nat_alt word_less_nat_alt keep(1))
    then show ?thesis unfolding r cb using bm by (intro exI [of _ bm]) simp
  qed
qed

lemma cut_group_residual:
  assumes "packed n es" "file_image K c es = Some img" "dev_ok c" "a < z" "unat gs = a" "unat ge = z" "root_node_lba (refcount_hdr c) = 0" "bm_ok c"
    and "\<forall>e \<in> set es. area_in c (phys_start e) (unat (phys_count e)) \<and> whole a z e"
  shows "\<exists>bm. cut_group c gs ge es = Some (concat (map (\<lambda>e. cut_before a e @ cut_after z e) es), c\<lparr>bitmap := bm\<rparr>) \<and> bm_ok (c\<lparr>bitmap := bm\<rparr>) \<and>
    (\<forall>p. used (c\<lparr>bitmap := bm\<rparr>) p \<longleftrightarrow> used c p \<and> p \<notin> \<Union> (cut_blocks a z ` set es))"
  using assms
proof (induction es arbitrary: n img c)
  case Nil
  then show ?case by (intro exI [of _ "bitmap c"]) simp
next
  case (Cons e es)
  obtain x img' where x: "ext_data K c e = Some x" "file_image K c es = Some img'" using Cons.prems(2) by (auto split: option.splits)
  have pk: "packed (n + unat (logical_count e)) es" "unat (logical_start e) = n" "0 < unat (logical_count e)" using Cons.prems(1) by (auto simp: word_gt_0 unat_gt_0)
  have at: "ext_at K c n e x" "whole a z e" using Cons.prems(3,9) x(1) pk packed_less [OF pk(1)] by (auto simp: ext_at_def)
  obtain b1 where b1: "cut_group c gs ge (e # es) = map_option (\<lambda>(r, c'). ((cut_before a e @ cut_after z e) @ r, c')) (cut_group (c\<lparr>bitmap := b1\<rparr>) gs ge es)"
    "bm_ok (c\<lparr>bitmap := b1\<rparr>)" "\<And>p. used (c\<lparr>bitmap := b1\<rparr>) p \<longleftrightarrow> used c p \<and> p \<notin> cut_blocks a z e"
    using cut_group_step [OF at Cons.prems(4-8)] by blast
  have "file_image K (c\<lparr>bitmap := b1\<rparr>) es = Some img'" "dev_ok (c\<lparr>bitmap := b1\<rparr>)" "root_node_lba (refcount_hdr (c\<lparr>bitmap := b1\<rparr>)) = 0"
    using x(2) Cons.prems(3,7) by simp_all
  from Cons.IH [OF pk(1) this(1,2) Cons.prems(4-6) this(3) b1(2)] Cons.prems(9)
  obtain bm where bm: "cut_group (c\<lparr>bitmap := b1\<rparr>) gs ge es = Some (concat (map (\<lambda>e. cut_before a e @ cut_after z e) es), c\<lparr>bitmap := b1\<rparr>\<lparr>bitmap := bm\<rparr>)"
    "bm_ok (c\<lparr>bitmap := b1\<rparr>\<lparr>bitmap := bm\<rparr>)" "\<And>p. used (c\<lparr>bitmap := b1\<rparr>\<lparr>bitmap := bm\<rparr>) p \<longleftrightarrow> used (c\<lparr>bitmap := b1\<rparr>) p \<and> p \<notin> \<Union> (cut_blocks a z ` set es)"
    by auto
  have cc: "c\<lparr>bitmap := b1\<rparr>\<lparr>bitmap := bm\<rparr> = c\<lparr>bitmap := bm\<rparr>" by simp
  show ?case using b1 bm unfolding cc by (intro exI [of _ bm]) auto
qed

lemma residual_apart:
  assumes "ext_at K c n e x" "whole a z e" "a < z"
  shows "apart (cut_before a e @ cut_after z e)"
proof -
  let ?m = "unat (logical_count e)"
  have n: "unat (logical_start e) = n" "0 < ?m" using assms(1) by (auto simp: ext_at_def)
  show ?thesis
  proof (cases "n < a \<and> z < n + ?m")
    case True
    then have p: "plain e" using assms(2,3) n by (auto simp: whole_def)
    have "cut_before a e @ cut_after z e = [sub_extent e 0 (a - n), sub_extent e (z - n) (n + ?m - z)]"
      using True n assms(3) by (simp add: cut_before_def cut_after_def Let_def)
    then show ?thesis using cut_sub(6) [OF assms(1) p, of 0 "a - n"] cut_sub(6) [OF assms(1) p, of "z - n" "n + ?m - z"] True assms(3)
      by (auto simp: apart_def)
  next
    case False
    then have "length (cut_before a e @ cut_after z e) \<le> 1" using n assms(3) by (auto simp: cut_before_def cut_after_def Let_def)
    then show ?thesis unfolding apart_def by (cases "cut_before a e @ cut_after z e") auto
  qed
qed

text \<open>The extents that are left: inside the old ones, apart from each other and from the blocks given back.\<close>

lemma residual_list:
  assumes "packed n es" "file_image K c es = Some img" "dev_ok c" "a < z" "apart es"
    and "\<forall>e \<in> set es. area_in c (phys_start e) (unat (phys_count e)) \<and> whole a z e"
  defines "ks \<equiv> concat (map (\<lambda>e. cut_before a e @ cut_after z e) es)"
  shows "apart ks" "\<And>d. d \<in> set ks \<Longrightarrow> area_in c (phys_start d) (unat (phys_count d)) \<and> (plain d \<or> d \<in> set es)"
    "all_blocks ks \<subseteq> all_blocks es - \<Union> (cut_blocks a z ` set es)"
proof -
  have at: "\<exists>n x. ext_at K c n e x" if "e \<in> set es" for e using assms(1,2,6) that
  proof (induction es arbitrary: n img)
    case (Cons e' es)
    obtain x img' where x: "ext_data K c e' = Some x" "file_image K c es = Some img'" using Cons.prems(2) by (auto split: option.splits)
    have pk: "packed (n + unat (logical_count e')) es" "unat (logical_start e') = n" "0 < unat (logical_count e')" using Cons.prems(1) by (auto simp: word_gt_0 unat_gt_0)
    show ?case
    proof (cases "e = e'")
      case True
      then show ?thesis using x(1) pk packed_less [OF pk(1)] assms(3) Cons.prems(3) by (auto simp: ext_at_def)
    qed (use Cons.IH [OF pk(1) x(2)] Cons.prems(3,4) in auto)
  qed simp
  have sub: "all_blocks (cut_before a e @ cut_after z e) \<subseteq> ext_blocks e" and ap: "apart (cut_before a e @ cut_after z e)"
    and ar: "\<And>d. d \<in> set (cut_before a e @ cut_after z e) \<Longrightarrow> area_in c (phys_start d) (unat (phys_count d)) \<and> (plain d \<or> d = e)" if e: "e \<in> set es" for e
  proof -
    obtain n x where x: "ext_at K c n e x" using at [OF e] by blast
    have w: "whole a z e" using assms(6) e by blast
    note R = residual_facts [OF x w assms(4)]
    show "all_blocks (cut_before a e @ cut_after z e) \<subseteq> ext_blocks e" using R(3) by blast
    show "apart (cut_before a e @ cut_after z e)" by (rule residual_apart [OF x w assms(4)])
    show "area_in c (phys_start d) (unat (phys_count d)) \<and> (plain d \<or> d = e)" if "d \<in> set (cut_before a e @ cut_after z e)" for d using R(1,2) [OF that] by blast
  qed
  show "area_in c (phys_start d) (unat (phys_count d)) \<and> (plain d \<or> d \<in> set es)" if "d \<in> set ks" for d
    using that ar unfolding ks_def by fastforce
  have "apart (concat (map (\<lambda>e. cut_before a e @ cut_after z e) xs)) \<and> all_blocks (concat (map (\<lambda>e. cut_before a e @ cut_after z e) xs)) \<subseteq> all_blocks xs"
    if "apart xs" "set xs \<subseteq> set es" for xs using that
  proof (induction xs)
    case (Cons e xs)
    let ?r = "cut_before a e @ cut_after z e" and ?R = "concat (map (\<lambda>e. cut_before a e @ cut_after z e) xs)"
    have d: "ext_blocks e \<inter> all_blocks xs = {}" "apart xs" "e \<in> set es" "set xs \<subseteq> set es" using Cons.prems by (auto simp: apart_def)
    note IH = Cons.IH [OF d(2,4)]
    have "all_blocks ?r \<inter> all_blocks ?R = {}" using sub [OF d(3)] IH d(1) by blast
    then have A: "apart (?r @ ?R)" unfolding apart_append [of ?r] using ap [OF d(3)] IH by blast
    have "all_blocks (?r @ ?R) = all_blocks ?r \<union> all_blocks ?R" unfolding set_append [of ?r] image_Un Union_Un_distrib by (rule refl)
    moreover have "all_blocks (e # xs) = ext_blocks e \<union> all_blocks xs" by simp
    ultimately have "all_blocks (?r @ ?R) \<subseteq> all_blocks (e # xs)" using Un_mono [OF sub [OF d(3)] conjunct2 [OF IH]] by simp
    with A show ?case unfolding list.map concat.simps by (rule conjI)
  qed (simp add: apart_def)
  then have A: "apart ks" "all_blocks ks \<subseteq> all_blocks es" using assms(5) unfolding ks_def by blast+
  show "apart ks" by (rule A(1))
  have "p \<notin> cut_blocks a z e'" if p: "p \<in> ext_blocks d" "d \<in> set (cut_before a e @ cut_after z e)" "e \<in> set es" "e' \<in> set es" for p d e e'
  proof (cases "e = e'")
    case False
    have "ext_blocks e \<inter> ext_blocks e' = {}" using assms(5) p(3,4) False unfolding apart_def by (induction es) auto
    then show ?thesis using sub [OF p(3)] p(1,2) by (auto simp: cut_blocks_def)
  qed (use p in \<open>auto simp: cut_blocks_def\<close>)
  then have "all_blocks ks \<inter> \<Union> (cut_blocks a z ` set es) = {}" unfolding ks_def by auto
  then show "all_blocks ks \<subseteq> all_blocks es - \<Union> (cut_blocks a z ` set es)" using A(2) by blast
qed

end
