(* ===== verification/FileRewrite.thy ===== *)
theory FileRewrite
  imports FileCut
begin

text \<open>
  Writing into existing data, src/src/lib/block.c obmafs3\_write\_file\_data: every group the write
  reaches is read, overlaid, cut out of the extent list, stored anew and put back.
\<close>

section \<open>Reading the old contents of a group\<close>

text \<open>A compressed extent is a whole group.\<close>

definition grouped :: "extent_descriptor \<Rightarrow> bool" where
  "grouped d \<longleftrightarrow> plain d \<or> 16 dvd unat (logical_start d) \<and> unat (logical_count d) = 16"

lemma decompress_length:
  assumes "codec_ok K" "obmafs3_decompress_dispatch K t src cap = Inr out"
  shows "length out \<le> cap"
  using assms unfolding codec_ok_def obmafs3_decompress_dispatch_def obmafs3_decompress_def obmafs3_decompress_lzma_def
  by (auto split: if_splits option.splits)

lemma read_compressed_length:
  assumes "codec_ok K" "read_compressed K c l n cap = Some (Inr (h, out))"
  shows "length out \<le> cap"
  using assms(2) decompress_length [OF assms(1)]
  by (fastforce simp: read_compressed_def Let_def split: if_splits sum.splits)

text \<open>The overlap of an extent with the group is read as the part of its data.\<close>

lemma read_overlap:
  assumes e: "ext_at K c n e x" "whole a z e" "grouped e" and K: "codec_ok K"
    and o: "unat os = max a n" "m = min (n + unat (logical_count e)) z - max a n" "max a n < min (n + unat (logical_count e)) z"
    and w: "unat cnt = m"
  shows "read_extent_blocks K c e os cnt = Some (Inr (take (m * bsz c) (drop ((max a n - n) * bsz c) x)))"
proof -
  let ?m = "unat (logical_count e)"
  have n: "unat (logical_start e) = n" "dev_ok c" "ext_data K c e = Some x" "n + ?m < 2 ^ 64" "area_in c (phys_start e) (unat (phys_count e))"
    using e(1) by (auto simp: ext_at_def)
  have off: "os - logical_start e = of_nat (max a n - n)" "unat (os - logical_start e) = max a n - n"
    by (rule word_part [OF n(1) o(1)]; simp)+
  show ?thesis
  proof (cases "plain e")
    case True
    have km: "max a n - n + m \<le> ?m" using o by linarith
    have cm: "of_nat m = cnt" using w by (metis of_nat_unat_id)
    note S = cut_sub [OF e(1) True km]
    have "read_blocks c (phys_start e + of_nat (max a n - n)) m = Inr (data_area c (phys_start e + of_nat (max a n - n)) m)"
      by (rule read_blocks_area [OF n(2)]) (use S(5) in \<open>simp add: sub_extent_def cm w\<close>)
    moreover have "data_area c (phys_start e + of_nat (max a n - n)) m = take (m * bsz c) (drop ((max a n - n) * bsz c) x)"
      using S(4) S(1) w by (simp add: ext_data_def Let_def sub_extent_def cm split: if_splits)
    ultimately show ?thesis using True off w by (simp add: read_extent_blocks_def Let_def)
  next
    case False
    then have "a \<le> n" "n + ?m \<le> z" using e(2) o n(1) by (auto simp: whole_def)
    then have all: "max a n = n" "m = ?m" using o(2) by simp_all
    have m16: "?m = group_blocks" using e(3) False by (simp add: grouped_def group_blocks_def OBMAFS3_COMPRESS_GROUP_BLOCKS_def)
    obtain h out where h: "read_compressed K c (phys_start e) (phys_count e) (group_blocks * bsz c) = Some (Inr (h, out))" "group_blocks * bsz c \<le> length out"
      "x = take (group_blocks * bsz c) out"
      using n(3) False m16 by (auto simp: ext_data_def Let_def split: if_splits option.splits sum.splits prod.splits)
    have "x = out" using read_compressed_length [OF K h(1)] h(3) by simp
    moreover have "cnt = logical_count e" using w all(2) by (simp add: word_unat_eq_iff)
    moreover have "os - logical_start e = 0" using off all by simp
    moreover have "length x = ?m * bsz c" by (rule length_ext_data [OF n(3,2)])
    ultimately show ?thesis using False h(1) all m16 by (simp add: read_extent_blocks_def Let_def)
  qed
qed

lemma overlap_range:
  "(A :: nat) + pa = P \<Longrightarrow> qp + P = Q \<Longrightarrow> P = max A N \<Longrightarrow> Q = min (N + X) Z \<Longrightarrow> A + l = Z \<Longrightarrow> j < l \<Longrightarrow>
   pa \<le> j \<and> j < pa + qp \<longleftrightarrow> N \<le> A + j \<and> A + j < N + X"
  by (auto simp: max_def min_def split: if_splits)

lemma fill_group_spec:
  assumes "packed n es" "file_image K c es = Some img" "dev_ok c" "bsz c \<le> 65536" "codec_ok K"
    and "a < z" "z \<le> a + 16" "unat gs = a" "unat ge = z" "length data = (z - a) * bsz c"
    and "\<forall>e \<in> set es. area_in c (phys_start e) (unat (phys_count e)) \<and> whole a z e \<and> grouped e"
  shows "\<exists>d. fill_group K c gs ge es data = Some (Inr d) \<and> length d = length data \<and>
    (\<forall>j < length data. d ! j = (if n * bsz c \<le> a * bsz c + j \<and> a * bsz c + j < n * bsz c + length img then img ! (a * bsz c + j - n * bsz c) else data ! j))"
  using assms
proof (induction es arbitrary: n img data)
  case (Cons e es)
  let ?m = "unat (logical_count e)" and ?s = "logical_start e" and ?b = "bsz c"
  obtain x img' where x: "ext_data K c e = Some x" "file_image K c es = Some img'" "img = x @ img'" using Cons.prems(2) by (auto split: option.splits)
  have pk: "packed (n + ?m) es" "unat ?s = n" "0 < ?m" using Cons.prems(1) by (auto simp: word_gt_0 unat_gt_0)
  have at: "ext_at K c n e x" "whole a z e" "grouped e" using Cons.prems(3,11) x(1) pk packed_less [OF pk(1)] by (auto simp: ext_at_def)
  have lx: "length x = ?m * ?b" using length_ext_data [OF x(1) Cons.prems(3)] .
  have ue: "unat (?s + logical_count e) = n + ?m" using pk at by (subst unat_add_less) (simp_all add: ext_at_def)
  note IH = Cons.IH [OF pk(1) x(2) Cons.prems(3-9)]
  have tl: "\<forall>e \<in> set es. area_in c (phys_start e) (unat (phys_count e)) \<and> whole a z e \<and> grouped e" using Cons.prems(11) by simp
  show ?case
  proof (cases "n + ?m \<le> a \<or> z \<le> n")
    case True
    have "fill_group K c gs ge (e # es) data = fill_group K c gs ge es data" using True ue pk Cons.prems(8,9) by (auto simp: word_le_nat_alt Let_def)
    moreover obtain d where d: "fill_group K c gs ge es data = Some (Inr d)" "length d = length data"
      "\<And>j. j < length data \<Longrightarrow> d ! j = (if (n + ?m) * ?b \<le> a * ?b + j \<and> a * ?b + j < (n + ?m) * ?b + length img' then img' ! (a * ?b + j - (n + ?m) * ?b) else data ! j)"
      using IH [OF Cons.prems(10) tl] by blast
    moreover have "d ! j = (if n * ?b \<le> a * ?b + j \<and> a * ?b + j < n * ?b + length img then img ! (a * ?b + j - n * ?b) else data ! j)" if j: "j < length data" for j
    proof -
      have "(n + ?m) * ?b \<le> a * ?b + j \<or> a * ?b + j < n * ?b"
      proof (cases "n + ?m \<le> a")
        case True
        then have "(n + ?m) * ?b \<le> a * ?b" by simp
        then show ?thesis by linarith
      next
        case False
        then have "z * ?b \<le> n * ?b" using True by simp
        moreover have "a * ?b + length data = z * ?b" using Cons.prems(6,10) by (simp flip: distrib_right)
        ultimately show ?thesis using j by linarith
      qed
      then show ?thesis using d(3) [OF j] lx x(3) by (auto simp: nth_append add_mult_distrib)
    qed
    ultimately show ?thesis by auto
  next
    case False
    define os where "os = (if gs < ?s then ?s else gs)"
    define oe where "oe = (if ?s + logical_count e < ge then ?s + logical_count e else ge)"
    define p where "p = max a n"
    define q where "q = min (n + ?m) z"
    have pq: "p < q" "n \<le> p" "a \<le> p" "q \<le> n + ?m" "q \<le> z" using False Cons.prems(6) pk(3) by (simp_all add: p_def q_def)
    have uo: "unat os = p" "unat oe = q" using pk(2) ue Cons.prems(8,9) by (auto simp: os_def oe_def p_def q_def word_less_nat_alt)
    have cnt: "unat (oe - os) = q - p" by (rule word_part(2) [OF uo]) (use pq in simp)
    have rd: "read_extent_blocks K c e os (oe - os) = Some (Inr (take ((q - p) * ?b) (drop ((p - n) * ?b) x)))" (is "_ = Some (Inr ?y)")
      using read_overlap [OF at Cons.prems(5) uo(1) [unfolded p_def] refl _ cnt [unfolded p_def q_def]] pq unfolding p_def q_def by simp
    have og: "unat (os - gs) = p - a" by (rule word_part(2) [OF Cons.prems(8) uo(1)]) (use pq in simp)
    have "(p - a) * ?b \<le> 16 * 65536" using pq Cons.prems(4,7) by (intro mult_mono) auto
    then have off: "unat ((os - gs) * block_size (sb c)) = (p - a) * ?b" using og by (simp add: unat_word_ariths)
    have e4: "(n + ?m) * ?b = n * ?b + length x" using lx by (simp add: add_mult_distrib)
    have "a * ?b + (p - a) * ?b = p * ?b" "n * ?b + (p - n) * ?b = p * ?b" "(q - p) * ?b + p * ?b = q * ?b" "a * ?b + length data = z * ?b"
      using pq Cons.prems(6,10) by (simp_all flip: distrib_right)
    note eqs = this(1-3) e4 this(4)
    have "q * ?b \<le> (n + ?m) * ?b" by (rule mult_le_mono1) (rule pq(4))
    then have les: "q * ?b \<le> z * ?b" "q * ?b \<le> n * ?b + length x" "n * ?b \<le> p * ?b" using pq e4 by (simp_all add: mult_le_mono1)
    have ly: "length ?y = (q - p) * ?b" using eqs les by simp
    have fit: "(p - a) * ?b + length ?y \<le> length data" unfolding ly using eqs les by linarith
    have nol: "\<not> (?s + logical_count e \<le> gs \<or> ge \<le> ?s)" using False ue pk(2) Cons.prems(8,9) by (simp add: word_le_nat_alt)
    have fg: "fill_group K c gs ge (e # es) data = fill_group K c gs ge es (put ((p - a) * ?b) ?y data)"
      unfolding fill_group.simps Let_def if_not_P [OF nol] os_def [symmetric] oe_def [symmetric] rd off using fit by simp
    have "length (put ((p - a) * ?b) ?y data) = length data" using fit by simp
    then obtain d where d: "fill_group K c gs ge es (put ((p - a) * ?b) ?y data) = Some (Inr d)" "length d = length data"
      "\<And>j. j < length data \<Longrightarrow> d ! j = (if (n + ?m) * ?b \<le> a * ?b + j \<and> a * ?b + j < (n + ?m) * ?b + length img' then img' ! (a * ?b + j - (n + ?m) * ?b)
        else put ((p - a) * ?b) ?y data ! j)"
      using IH [of "put ((p - a) * ?b) ?y data", OF _ tl] Cons.prems(10) by auto
    have "d ! j = (if n * ?b \<le> a * ?b + j \<and> a * ?b + j < n * ?b + length img then img ! (a * ?b + j - n * ?b) else data ! j)" if j: "j < length data" for j
    proof -
      have pj: "put ((p - a) * ?b) ?y data ! j = (if (p - a) * ?b \<le> j \<and> j < (p - a) * ?b + (q - p) * ?b then ?y ! (j - (p - a) * ?b) else data ! j)"
        using nth_put [OF fit j] ly by simp
      have yj: "?y ! (j - (p - a) * ?b) = x ! (a * ?b + j - n * ?b)" if "(p - a) * ?b \<le> j" "j < (p - a) * ?b + (q - p) * ?b"
      proof -
        have "j - (p - a) * ?b < (q - p) * ?b" using that by linarith
        then have "?y ! (j - (p - a) * ?b) = x ! ((p - n) * ?b + (j - (p - a) * ?b))" using eqs les by (subst nth_take) (simp_all add: nth_drop)
        moreover have "(p - n) * ?b + (j - (p - a) * ?b) = a * ?b + j - n * ?b" using that eqs les by linarith
        ultimately show ?thesis by simp
      qed
      have in_iff: "(p - a) * ?b \<le> j \<and> j < (p - a) * ?b + (q - p) * ?b \<longleftrightarrow> n * ?b \<le> a * ?b + j \<and> a * ?b + j < n * ?b + length x"
      proof -
        have "p * ?b = max (a * ?b) (n * ?b)" "q * ?b = min (n * ?b + length x) (z * ?b)" unfolding p_def q_def nat_mult_max_left nat_mult_min_left e4 by (rule refl)+
        from overlap_range [OF eqs(1,3) this eqs(5) j] show ?thesis .
      qed
      show ?thesis using d(3) [OF j] pj yj in_iff x(3) eqs(4) by (auto simp: nth_append)
    qed
    then show ?thesis using fg d(1,2) by auto
  qed
qed simp

section \<open>Storing a group anew\<close>

text \<open>The extent list between two groups of the write; the blocks \<open>B\<close> belong to others.\<close>

definition rw_state :: "codec \<Rightarrow> ctx \<Rightarrow> u64 set \<Rightarrow> extent_descriptor list \<Rightarrow> bytes \<Rightarrow> bool" where
  "rw_state K c B es img \<longleftrightarrow> packed 0 es \<and> file_image K c es = Some img \<and> apart es \<and> (\<forall>d \<in> set es. ext_safe c B d \<and> grouped d)"

abbreviation counts :: "extent_descriptor list \<Rightarrow> nat" where
  "counts ds \<equiv> sum_list (map (\<lambda>d. unat (logical_count d)) ds)"

lemma packed_append: "packed n (xs @ ys) \<longleftrightarrow> packed n xs \<and> packed (n + counts xs) ys"
  by (induction xs arbitrary: n) (auto simp: add.assoc dest: packed_less)

lemma packed_inside: "packed n ds \<Longrightarrow> d \<in> set ds \<Longrightarrow> n \<le> unat (logical_start d) \<and> unat (logical_start d) + unat (logical_count d) \<le> n + counts ds \<and> 0 < unat (logical_count d)"
  by (induction ds arbitrary: n) (fastforce simp: word_gt_0 unat_gt_0)+

lemma apart_insert: "apart (xs @ ys) \<Longrightarrow> (\<And>e. e \<in> set (xs @ ys) \<Longrightarrow> ext_blocks e \<inter> ext_blocks d = {}) \<Longrightarrow> apart (xs @ d # ys)"
  unfolding apart_def sorted_wrt_append by (auto simp: Int_commute)

lemma whole_group:
  assumes "grouped e" "unat (logical_start e) + unat (logical_count e) \<le> T" "a = 16 * g" "z = min (16 * (g + 1)) T"
  shows "whole a z e"
proof (cases "plain e")
  case False
  then obtain k where k: "unat (logical_start e) = 16 * k" "unat (logical_count e) = 16" using assms(1) by (auto simp: grouped_def)
  consider "k < g" | "k = g" | "g < k" by linarith
  then show ?thesis using k assms(2-4) by cases (auto simp: whole_def)
qed (simp add: whole_def)

lemma cut_state:
  assumes st: "rw_state K c B es img" and E: "dev_ok c" "bm_ok c" "root_node_lba (refcount_hdr c) = 0" and w: "a < z" "unat gs = a" "unat ge = z"
    and wh: "\<forall>e \<in> set es. whole a z e"
  obtains bm xs ys where "cut_group c gs ge es = Some (xs @ ys, c\<lparr>bitmap := bm\<rparr>)" "bm_ok (c\<lparr>bitmap := bm\<rparr>)"
    "file_image K c xs = Some (take (a * bsz c) img)" "file_image K c ys = Some (drop (z * bsz c) img)" "packed 0 xs" "packed z ys"
    "apart (xs @ ys)" "\<And>d. d \<in> set (xs @ ys) \<Longrightarrow> ext_safe (c\<lparr>bitmap := bm\<rparr>) B d \<and> grouped d" "length (xs @ ys) \<le> length es + 1"
    "\<And>l. l \<in> B \<Longrightarrow> used c (unat l) \<Longrightarrow> used (c\<lparr>bitmap := bm\<rparr>) (unat l)"
proof -
  have s: "packed 0 es" "file_image K c es = Some img" "apart es" "\<And>d. d \<in> set es \<Longrightarrow> ext_safe c B d \<and> grouped d" using st by (auto simp: rw_state_def)
  have aw: "\<forall>e \<in> set es. area_in c (phys_start e) (unat (phys_count e)) \<and> whole a z e" using s(4) wh by (simp add: ext_safe_def)
  have zb: "z < 2 ^ 64" using w(3) unat_u64 [of ge] by simp
  note C = cut_list [OF s(1,2) E(1) less_imp_le [OF w(1)] zb aw]
  note R = residual_list [OF s(1,2) E(1) w(1) s(3) aw, unfolded C(1)]
  from cut_group_residual [OF s(1,2) E(1) w E(3,2) aw, unfolded C(1)] obtain bm where b: "cut_group c gs ge es = Some (before a es @ after z es, c\<lparr>bitmap := bm\<rparr>) \<and>
    bm_ok (c\<lparr>bitmap := bm\<rparr>) \<and> (\<forall>p. used (c\<lparr>bitmap := bm\<rparr>) p \<longleftrightarrow> used c p \<and> p \<notin> \<Union> (cut_blocks a z ` set es))" by (rule exE)
  note bm = conjunct1 [OF b] conjunct1 [OF conjunct2 [OF b]] conjunct2 [OF conjunct2 [OF b], rule_format]
  have cb: "cut_blocks a z e \<subseteq> ext_blocks e" for e by (auto simp: cut_blocks_def)
  have safe: "ext_safe (c\<lparr>bitmap := bm\<rparr>) B d \<and> grouped d" if d: "d \<in> set (before a es @ after z es)" for d
  proof -
    have sub: "ext_blocks d \<subseteq> all_blocks es - \<Union> (cut_blocks a z ` set es)" by (rule subset_trans [OF Union_upper [OF imageI [OF d]] R(3)])
    have old: "used c p \<and> p \<notin> unat ` B" if "p \<in> all_blocks es" for p using s(4) that by (auto simp: ext_safe_def)
    have "used (c\<lparr>bitmap := bm\<rparr>) p \<and> p \<notin> unat ` B" if p: "p \<in> ext_blocks d" for p
    proof -
      have "p \<in> all_blocks es" "p \<notin> \<Union> (cut_blocks a z ` set es)" using DiffD1 DiffD2 subsetD [OF sub p] by fast+
      then show ?thesis using bm(3) [of p] old [of p] by simp
    qed
    then show ?thesis using R(2) [OF d] s(4) by (auto simp: ext_safe_def grouped_def)
  qed
  have "used (c\<lparr>bitmap := bm\<rparr>) (unat l)" if "l \<in> B" "used c (unat l)" for l
  proof -
    have "unat l \<notin> cut_blocks a z e" if "e \<in> set es" for e using cb [of e] s(4) [OF that] \<open>l \<in> B\<close> by (auto simp: ext_safe_def)
    then show ?thesis using bm(3) [of "unat l"] that(2) by simp
  qed
  note u = this
  show thesis
  proof (rule that [OF bm(1,2) C(2,3) [unfolded diff_zero] C(4) C(5) [unfolded max_0L] R(1)])
    show "ext_safe (c\<lparr>bitmap := bm\<rparr>) B d \<and> grouped d" if "d \<in> set (before a es @ after z es)" for d by (rule safe [OF that])
    show "length (before a es @ after z es) \<le> length es + 1" by (rule le_trans [OF C(6)]) simp
    show "used (c\<lparr>bitmap := bm\<rparr>) (unat l)" if "l \<in> B" "used c (unat l)" for l by (rule u [OF that])
  qed
qed

lemma rewrite_store_spec:
  assumes ok: "dev_ok c" "bm_ok c" "bsz c \<le> 65536" and K: "codec_ok K" "flag_set K c" and ld: "length data = unat gc * bsz c" "0 < gc" and al: "unat gc = 16 \<Longrightarrow> 16 dvd unat gs"
  obtains (full) "rewrite_store K c data gc = (Inl OBMAFS3_ERR_NOSPC, c)"
  | (stored) d c' where "rewrite_store K c data gc = (Inr (phys_start d, phys_count d), c')" "outside {} c c'" "dev_ok c'" "bm_ok c'"
      "d = \<lparr>logical_start = gs, logical_count = gc, phys_start = phys_start d, phys_count = phys_count d\<rparr>"
      "ext_data K c' d = Some data" "grouped d" "area_in c' (phys_start d) (unat (phys_count d))" "\<And>p. p \<in> ext_blocks d \<Longrightarrow> \<not> used c p \<and> used c' p"
proof -
  define gb where "gb = unat (block_size (sb c)) * group_blocks"
  define cap where "cap = max (bh_size + zstd_compressBound K gb) gb - bh_size"
  have g16: "group_blocks = 16" by (simp add: group_blocks_def OBMAFS3_COMPRESS_GROUP_BLOCKS_def)
  have "gb \<le> 1048576" using ok(3) by (simp add: gb_def g16)
  moreover have "zstd_compressBound K gb \<le> 2 * gb + 64" using K(1) unfolding codec_ok_def by blast
  ultimately have cap: "cap < 2 ^ 60" by (simp add: cap_def bh_size_def)
  define job where "job = (if compression K \<and> gc = OBMAFS3_COMPRESS_GROUP_BLOCKS \<and> 0 < length data then compress_job K c cap data gc else None)"
  have job: "compress_job K c cap data gc = Some img \<and> unat gc = group_blocks" if "job = Some img" for img
    using that by (auto simp: job_def group_blocks_def split: if_splits)
  have eq: "rewrite_store K c data gc = store_group c job data gc (mark_lzma K)" by (simp add: rewrite_store_def Let_def job_def cap_def gb_def)
  show thesis
  proof (cases rule: store_group_spec [OF ok K(1) _ job cap ld, where mark = "mark_lzma K" and job = job, case_names id job full stored])
    case full
    then show ?thesis using that(1) eq by simp
  next
    case (stored start n c')
    let ?d = "\<lparr>logical_start = gs, logical_count = gc, phys_start = start, phys_count = n\<rparr>"
    have "grouped ?d"
    proof (cases job)
      case None
      then have "n = gc" using stored(1) by (auto simp: store_group_def split: sum.splits prod.splits)
      then show ?thesis by (simp add: grouped_def plain_def)
    next
      case (Some img)
      then show ?thesis using job al by (simp add: grouped_def g16)
    qed
    then show ?thesis using that(2) [of ?d c'] stored eq by (simp add: ext_blocks_def)
  qed (use mark_lzma_id [OF K(2)] in simp_all)
qed

text \<open>The byte at position \<open>k\<close> after writing \<open>buf\<close> at \<open>off\<close> over \<open>img\<close>.\<close>

definition written :: "nat \<Rightarrow> bytes \<Rightarrow> bytes \<Rightarrow> nat \<Rightarrow> u8" where
  "written off buf img k = (if off \<le> k \<and> k < off + length buf then buf ! (k - off) else if k < length img then img ! k else 0)"

lemma insert_extent_between:
  assumes "\<And>e. e \<in> set xs \<Longrightarrow> logical_start e < logical_start d" "\<And>e. e \<in> set ys \<Longrightarrow> logical_start d \<le> logical_start e"
  shows "insert_extent d (xs @ ys) = xs @ d # ys"
  using assms
proof (induction xs)
  case Nil
  show ?case
  proof (cases ys)
    case (Cons y l)
    then have "\<not> logical_start y < logical_start d" using Nil.prems(2) by (simp add: leD)
    then show ?thesis using Cons by simp
  qed simp
qed simp

lemma grp_bounds_nat:
  assumes "unat tot = T" "unat gw = g" "a = 16 * g" "z = min (16 * (g + 1)) T" "a < z" "T < 2 ^ 62"
  obtains gs ge where "grp_bounds tot gw = (gs, ge)" "unat gs = a" "unat ge = z" "unat (ge - gs) = z - a"
proof -
  have u: "unat (gw * 16) = 16 * g" "unat ((gw + 1) * 16) = 16 * (g + 1)" using assms by (simp_all add: unat_word_ariths)
  define ge where "ge = (if tot < (gw + 1) * 16 then tot else (gw + 1) * 16)"
  have ge: "unat ge = z" using u assms(1,4) by (simp add: ge_def word_less_nat_alt)
  have gs: "unat (gw * 16) = a" using u assms(3) by simp
  show thesis by (rule that [of "gw * 16" ge, OF _ gs ge word_part(2) [OF gs ge]])
    (use assms(5) in \<open>simp_all add: grp_bounds_def OBMAFS3_COMPRESS_GROUP_BLOCKS_def ge_def\<close>)
qed

lemma outside_holds:
  assumes oh: "overflow_holds b c lv own fl rs" and o: "outside {} c c'" "dev_ok c'" "bm_ok c'"
  shows "overflow_holds b c' lv own fl rs"
  using holds_beside [OF oh [unfolded slot_holds_def] o] outside_fields(3) [OF o(1)] maxes_frame(1) [OF o(1), of overflow_cfg]
  by (simp add: slot_holds_def overflow_slot_def)

lemma rewrite_group_spec:
  assumes oh: "overflow_holds b c lv own fl rs" and ref: "root_node_lba (refcount_hdr c) = 0" and K: "codec_ok K" "flag_set K c"
    and B: "B = insert 0 (ovf_blocks c own fl)" and st: "rw_state K c B es img"
    and T: "unat tot = T" "unat gw = g" "a = 16 * g" "z = min (16 * (g + 1)) T" "a < z" "T * bsz c < 2 ^ 62"
    and len: "a * bsz c \<le> length img" "length img \<le> T * bsz c" and fit: "unat offset + length buf < 2 ^ 62"
  obtains (full) c' where "rewrite_group K c offset buf tot es gw = Some (Inl OBMAFS3_ERR_NOSPC, c')"
  | (stored) es' c' dat where "rewrite_group K c offset buf tot es gw = Some (Inr es', c')" "overflow_holds b c' lv own fl rs" "sb c' = sb c"
      "root_node_lba (refcount_hdr c') = 0" "rw_state K c' B es' (take (a * bsz c) img @ dat @ drop (z * bsz c) img)" "length es' \<le> length es + 2"
      "length dat = (z - a) * bsz c" "\<And>j. j < length dat \<Longrightarrow> dat ! j = written (unat offset) buf img (a * bsz c + j)"
proof -
  note E = slot_env [OF oh]
  let ?b = "bsz c"
  have T62: "T < 2 ^ 62" using T(6) E(4) by (rule factor_less)
  obtain gs ge where G: "grp_bounds tot gw = (gs, ge)" "unat gs = a" "unat ge = z" "unat (ge - gs) = z - a"
    using grp_bounds_nat [OF T(1-5) T62] .
  have s: "packed 0 es" "file_image K c es = Some img" "\<And>d. d \<in> set es \<Longrightarrow> ext_safe c B d \<and> grouped d" using st by (auto simp: rw_state_def)
  have "counts es * ?b \<le> T * ?b" using length_file_image [OF s(2) E(1)] len(2) by simp
  then have cT: "counts es \<le> T" using E(4) by simp
  have wh: "\<forall>e \<in> set es. whole a z e"
  proof
    show "whole a z e" if "e \<in> set es" for e using packed_inside [OF s(1) that] cT s(3) [OF that] by (intro whole_group [OF _ _ T(3,4)]) auto
  qed
  have z16: "z \<le> a + 16" "z \<le> T" using T(3,4) by auto
  have cnt: "unat ((ge - gs) * block_size (sb c)) = (z - a) * ?b"
  proof -
    have "(z - a) * ?b \<le> 16 * 65536" using z16 E(5) by (intro mult_mono) auto
    then show ?thesis using G(4) by (simp add: unat_word_ariths)
  qed
  define zs where "zs = (replicate ((z - a) * ?b) 0 :: bytes)"
  obtain old where old: "fill_group K c gs ge es zs = Some (Inr old)" "length old = (z - a) * ?b"
    "\<And>j. j < (z - a) * ?b \<Longrightarrow> old ! j = (if a * ?b + j < length img then img ! (a * ?b + j) else 0)"
  proof -
    have aw: "\<forall>e \<in> set es. area_in c (phys_start e) (unat (phys_count e)) \<and> whole a z e \<and> grouped e" using s(3) wh by (simp add: ext_safe_def)
    have "length zs = (z - a) * ?b" by (simp add: zs_def)
    from fill_group_spec [OF s(1,2) E(1,5) K(1) T(5) z16(1) G(2,3) this aw] show thesis using that by (auto simp: zs_def)
  qed
  define dat where "dat = overlay c offset buf gs old"
  have ab: "a * ?b + (z - a) * ?b = z * ?b" "z * ?b \<le> T * ?b" using T(5) z16(2) by (simp_all flip: distrib_right)
  have "z * ?b < 2 ^ 62" using ab(2) T(6) by (rule le_less_trans)
  then have small: "unat gs * ?b + length old < 2 ^ 63" "unat offset + length buf < 2 ^ 63" using ab(1) fit by (simp_all add: old(2) G(2))
  note ov = overlay_spec [OF small, folded dat_def, unfolded G(2) old(2)]
  have dat: "dat ! j = written (unat offset) buf img (a * ?b + j)" if "j < length dat" for j
    using ov that old(3) [of j] by (simp add: written_def)
  have ld: "length dat = unat (ge - gs) * ?b" "0 < ge - gs" using ov(1) G(4) T(5) by (simp_all only: word_less_nat_alt unat_0 zero_less_diff)
  obtain bm xs ys where C: "cut_group c gs ge es = Some (xs @ ys, c\<lparr>bitmap := bm\<rparr>)" "bm_ok (c\<lparr>bitmap := bm\<rparr>)"
    "file_image K c xs = Some (take (a * ?b) img)" "file_image K c ys = Some (drop (z * ?b) img)" "packed 0 xs" "packed z ys"
    "apart (xs @ ys)" "\<And>d. d \<in> set (xs @ ys) \<Longrightarrow> ext_safe (c\<lparr>bitmap := bm\<rparr>) B d \<and> grouped d" "length (xs @ ys) \<le> length es + 1"
    "\<And>l. l \<in> B \<Longrightarrow> used c (unat l) \<Longrightarrow> used (c\<lparr>bitmap := bm\<rparr>) (unat l)"
    by (rule cut_state [OF st E(1,2) ref T(5) G(2,3) wh]) (rule that; assumption)
  define c1 where "c1 = c\<lparr>bitmap := bm\<rparr>"
  have uB: "used c1 (unat l)" if "l \<in> B" for l using C(10) [OF that] E(7) [of l] that unfolding B c1_def by blast
  have oh1: "overflow_holds b c1 lv own fl rs"
    using oh C(2) uB unfolding slot_holds_def c1_def B by (intro holds_released) (auto simp: overflow_slot_def slot_blocks_def)
  have c1: "sb c1 = sb c" "dev_ok c1" "bm_ok c1" "root_node_lba (refcount_hdr c1) = 0" "flag_set K c1"
    using E(1) C(2) ref K(2) by (simp_all add: c1_def flag_set_def)
  have al: "unat (ge - gs) = 16 \<Longrightarrow> 16 dvd unat gs" using G(2) T(3) by simp
  have rg: "rewrite_group K c offset buf tot es gw = (case rewrite_store K c1 dat (ge - gs) of (Inl e, c2) \<Rightarrow> Some (Inl e, c2)
      | (Inr (start, n), c2) \<Rightarrow> Some (Inr (insert_extent \<lparr>logical_start = gs, logical_count = ge - gs, phys_start = start, phys_count = n\<rparr> (xs @ ys)), c2))"
    unfolding rewrite_group_def G(1) prod.case Let_def cnt zs_def [symmetric] old(1) option.case sum.case C(1) dat_def [symmetric] c1_def by (rule refl)
  have "bsz c1 \<le> 65536" "length dat = unat (ge - gs) * bsz c1" using E(5) ld c1 by simp_all
  then show thesis
  proof (cases rule: rewrite_store_spec [OF c1(2,3) _ K(1) c1(5) _ ld(2), where gs = gs and data = dat, case_names b l al full stored])
    case full
    then show ?thesis using that(1) rg by simp
  next
    case (stored d c2)
    have d: "unat (logical_start d) = a" "unat (logical_count d) = z - a" "0 < logical_count d" by (subst stored(5), simp add: G ld)+
    have c2: "sb c2 = sb c" "refcount_hdr c2 = refcount_hdr c1" using maxes_frame(1) [OF stored(2), of overflow_cfg] outside_fields [OF stored(2)] c1(1) by simp_all
    have oh2: "overflow_holds b c2 lv own fl rs" by (rule outside_holds [OF oh1 stored(2-4)])
    have un: "undisturbed B c1 c2" by (rule outside_undisturbed [OF stored(2)]) simp
    have keep: "ext_data K c2 e = ext_data K c e \<and> ext_safe c2 B e" if "e \<in> set (xs @ ys)" for e
    proof -
      have se: "ext_safe c1 B e" using C(8) [OF that] by (simp add: c1_def)
      then have "ext_blocks e \<inter> unat ` B = {}" by (auto simp: ext_safe_def)
      then show ?thesis using ext_keep [OF se un c1(2) stored(3)] by (simp add: c1_def)
    qed
    have cx: "counts xs = a"
    proof -
      show ?thesis using length_file_image [OF C(3) E(1)] len(1) E(4) by auto
    qed
    have "packed 0 (xs @ d # ys)" unfolding packed_append cx using C(5,6) d T(5) by simp
    moreover have "file_image K c2 (xs @ d # ys) = Some (take (a * ?b) img @ dat @ drop (z * ?b) img)"
    proof -
      have "file_image K c2 xs = Some (take (a * ?b) img)" "file_image K c2 ys = Some (drop (z * ?b) img)"
        using C(3,4) file_image_cong [of xs K c2 c] file_image_cong [of ys K c2 c] keep by simp_all
      then show ?thesis using stored(6) by (simp add: file_image_append)
    qed
    moreover have dis: "ext_blocks e \<inter> ext_blocks d = {}" if "e \<in> set (xs @ ys)" for e
      using C(8) [OF that] stored(9) by (auto simp: ext_safe_def c1_def)
    then have "apart (xs @ d # ys)" by (rule apart_insert [OF C(7)])
    moreover have "ext_safe c2 B d"
    proof -
      have "p \<notin> unat ` B" if "p \<in> ext_blocks d" for p using stored(9) [OF that] uB by auto
      then show ?thesis using stored(8,9) by (simp add: ext_safe_def)
    qed
    then have "\<forall>e \<in> set (xs @ d # ys). ext_safe c2 B e \<and> grouped e" using keep C(8) stored(7) by auto
    ultimately have rw: "rw_state K c2 B (xs @ d # ys) (take (a * ?b) img @ dat @ drop (z * ?b) img)" by (simp add: rw_state_def)
    have "insert_extent d (xs @ ys) = xs @ d # ys"
    proof (rule insert_extent_between)
      show "logical_start e < logical_start d" if "e \<in> set xs" for e using packed_inside [OF C(5) that] cx d(1) by (simp add: word_less_nat_alt)
      show "logical_start d \<le> logical_start e" if "e \<in> set ys" for e using packed_inside [OF C(6) that] T(5) d(1) by (simp add: word_le_nat_alt)
    qed
    then have "rewrite_group K c offset buf tot es gw = Some (Inr (xs @ d # ys), c2)" using rg stored(1) by (simp flip: stored(5))
    then show ?thesis by (rule that(2) [OF _ oh2 c2(1) _ rw _ _ dat]) (use c2(2) c1(4) C(9) ov(1) in simp_all)
  qed (use al in simp_all)
qed

section \<open>All groups of a write\<close>

text \<open>The write has been done up to block \<open>m\<close>.\<close>

definition written_to :: "nat \<Rightarrow> bytes \<Rightarrow> bytes \<Rightarrow> nat \<Rightarrow> bytes \<Rightarrow> bool" where
  "written_to off buf img0 m img \<longleftrightarrow> length img = max (length img0) m \<and>
     (\<forall>k < length img. img ! k = (if k < m then written off buf img0 k else img0 ! k))"

lemma written_to_step:
  assumes w: "written_to off buf img0 a img" and z: "a \<le> z" "a \<le> length img" and d: "length dat = z - a" "\<And>j. j < length dat \<Longrightarrow> dat ! j = written off buf img (a + j)"
  shows "written_to off buf img0 z (take a img @ dat @ drop z img)"
proof -
  let ?i = "take a img @ dat @ drop z img"
  have l: "length img = max (length img0) a" and n: "\<And>k. k < length img \<Longrightarrow> img ! k = (if k < a then written off buf img0 k else img0 ! k)"
    using w by (auto simp: written_to_def)
  have len: "length ?i = max (length img0) z" using l z d(1) by auto
  have "?i ! k = (if k < z then written off buf img0 k else img0 ! k)" if k: "k < length ?i" for k
  proof -
    consider "k < a" | "a \<le> k" "k < z" | "z \<le> k" by linarith
    then show ?thesis
    proof cases
      case 1
      then show ?thesis using n [of k] z by (simp add: nth_append)
    next
      case 2
      have "written off buf img k = written off buf img0 k" using 2(1) n [of k] l by (auto simp: written_def)
      moreover have "k - a < z - a" using 2 by linarith
      ultimately show ?thesis using 2 z d(1) d(2) [of "k - a"] by (simp add: nth_append)
    next
      case 3
      then have "k < length img" using k len l by auto
      moreover have "\<not> k - a < z - a" using 3 by linarith
      ultimately show ?thesis using 3 z d(1) n [of k] by (simp add: nth_append)
    qed
  qed
  then show ?thesis using len by (simp add: written_to_def)
qed

lemma rewrite_groups_spec:
  assumes "overflow_holds b c lv own fl rs" "root_node_lba (refcount_hdr c) = 0" "codec_ok K" "flag_set K c"
    and "B = insert 0 (ovf_blocks c own fl)" "rw_state K c B es img"
    and "unat tot = T" "T * bsz c < 2 ^ 62" "g \<le> h" "g < h \<longrightarrow> 16 * (h - 1) < T" "length img0 \<le> T * bsz c" "unat offset + length buf < 2 ^ 62"
    and "written_to (unat offset) buf img0 (min (16 * g) T * bsz c) img"
  obtains (full) c' where "rewrite_groups K c offset buf tot es (map of_nat [g..<h]) = Some (Inl OBMAFS3_ERR_NOSPC, c')"
  | (stored) es' c' img' where "rewrite_groups K c offset buf tot es (map of_nat [g..<h]) = Some (Inr es', c')" "overflow_holds b c' lv own fl rs" "sb c' = sb c"
      "rw_state K c' B es' img'" "length es' \<le> length es + 2 * (h - g)" "written_to (unat offset) buf img0 (min (16 * h) T * bsz c) img'"
  using assms
proof (induction "h - g" arbitrary: c g es img thesis)
  case 0
  then show ?case by simp
next
  case (Suc m)
  note E = slot_env [OF Suc.prems(3)]
  let ?a = "16 * g" and ?z = "min (16 * (g + 1)) T" and ?b = "bsz c"
  have g: "g < h" "16 * (h - 1) < T" using Suc.hyps(2) Suc.prems(12) by auto
  have aT: "?a < T" "?a < ?z" using g by auto
  have "T < 2 ^ 62" by (rule factor_less [OF Suc.prems(10) E(4)])
  then have ug: "unat (of_nat g :: u64) = g" unfolding unat_of_nat using aT by simp
  have w: "written_to (unat offset) buf img0 (?a * ?b) img" using Suc.prems(15) aT by (simp add: min_absorb1)
  then have li: "length img = max (length img0) (?a * ?b)" by (simp add: written_to_def)
  have "?a * ?b \<le> T * ?b" using aT by (intro mult_le_mono1) simp
  then have ln: "?a * ?b \<le> length img" "length img \<le> T * ?b" using li Suc.prems(13) by auto
  have eq: "map of_nat [g..<h] = (of_nat g :: u64) # map of_nat [Suc g..<h]" by (simp add: upt_conv_Cons [OF g(1)])
  show ?case
  proof (cases rule: rewrite_group_spec [OF Suc.prems(3-8) Suc.prems(9) ug refl refl aT(2) Suc.prems(10) ln Suc.prems(14), case_names full stored])
    case (full c')
    then show ?thesis using Suc.prems(1) unfolding eq by simp
  next
    case (stored es1 c1 dat)
    have "?z * ?b - ?a * ?b = (?z - ?a) * ?b" by (simp add: diff_mult_distrib)
    then have w1: "written_to (unat offset) buf img0 (?z * ?b) (take (?a * ?b) img @ dat @ drop (?z * ?b) img)"
      using aT(2) stored(7,8) by (intro written_to_step [OF w _ ln(1)]) (simp_all add: mult_le_mono1)
    have gs: "rewrite_groups K c offset buf tot es (map of_nat [g..<h]) = rewrite_groups K c1 offset buf tot es1 (map of_nat [Suc g..<h])"
      unfolding eq using stored(1) by simp
    have s1: "m = h - Suc g" "ovf_blocks c1 own fl = ovf_blocks c own fl" "flag_set K c1" using Suc.hyps(2) stored(3) Suc.prems(6)
      by (simp_all add: slot_blocks_def flag_set_def)
    show ?thesis
    proof (rule Suc.hyps(1) [OF s1(1) _ _ stored(2,4) Suc.prems(5) s1(3) _ stored(5) Suc.prems(9) _ _ _ _ Suc.prems(14)])
      show "B = insert 0 (ovf_blocks c1 own fl)" using s1(2) Suc.prems(7) by simp
      show "T * bsz c1 < 2 ^ 62" "length img0 \<le> T * bsz c1" using stored(3) Suc.prems(10,13) by simp_all
      show "Suc g \<le> h" "Suc g < h \<longrightarrow> 16 * (h - 1) < T" using g by auto
      show "written_to (unat offset) buf img0 (min (16 * Suc g) T * bsz c1) (take (?a * ?b) img @ dat @ drop (?z * ?b) img)"
        using w1 stored(3) by simp
      show thesis if "rewrite_groups K c1 offset buf tot es1 (map of_nat [Suc g..<h]) = Some (Inl OBMAFS3_ERR_NOSPC, c')" for c'
        by (rule Suc.prems(1)) (use that gs in simp)
      show thesis if "rewrite_groups K c1 offset buf tot es1 (map of_nat [Suc g..<h]) = Some (Inr es', c')" "overflow_holds b c' lv own fl rs" "sb c' = sb c1"
        "rw_state K c' B es' img'" "length es' \<le> length es1 + 2 * (h - Suc g)" "written_to (unat offset) buf img0 (min (16 * h) T * bsz c1) img'" for es' c' img'
        by (rule Suc.prems(2) [OF _ that(2) _ that(4)]) (use that gs stored(3,6) g in simp_all)
    qed
  qed
qed

section \<open>Writing the extents back\<close>

lemma area_in_join:
  assumes "area_in c l m" "area_in c (l + of_nat m) n" "m < 2 ^ 64"
  shows "area_in c l (m + n)"
proof (cases "n = 0")
  case False
  have "unat l + m \<le> unat (max_lba c)" using assms(1) by (simp add: area_in_def)
  moreover have "unat (max_lba c) < 2 ^ 64" using unat_u64 by blast
  ultimately have "unat (l + of_nat m) = unat l + m" by (intro unat_add_of_nat) simp
  then show ?thesis using assms(2) by (simp add: area_in_def)
qed (use assms in simp)

lemma coalesce_keeps:
  assumes "packed n (p # ds)" "file_image K c (p # ds) = Some img" "dev_ok c" "\<forall>d \<in> set (p # ds). ext_safe c B d"
  shows "file_image K c (coalesce p ds) = Some img \<and> (\<forall>d \<in> set (coalesce p ds). ext_safe c B d \<and> (plain d \<or> d \<in> set (p # ds)))"
  using assms
proof (induction p ds arbitrary: n img rule: coalesce.induct)
  case (2 p d ds)
  show ?case
  proof (cases "plain p \<and> plain d \<and> phys_start p + phys_count p = phys_start d \<and> logical_start p + logical_count p = logical_start d")
    case True
    let ?e = "p\<lparr>logical_count := logical_count p + logical_count d, phys_count := phys_count p + phys_count d\<rparr>"
    let ?m = "unat (logical_count p)" and ?k = "unat (logical_count d)"
    have co: "coalesce p (d # ds) = coalesce ?e ds" using True by simp
    have pc: "unat (phys_count p) = ?m" "unat (phys_count d) = ?k" "phys_count p = logical_count p" "phys_count d = logical_count d" using True by (simp_all add: plain_def)
    have lt: "n + ?m + ?k < 2 ^ 64" "unat (logical_start p) = n" "0 < ?m" using 2(3) packed_less [of "n + ?m + ?k" ds] by (auto simp: word_gt_0 unat_gt_0)
    have sum: "unat (logical_count p + logical_count d) = ?m + ?k" using lt by (subst unat_add_less) simp_all
    obtain x y img' where x: "ext_data K c p = Some x" "ext_data K c d = Some y" "file_image K c ds = Some img'" "img = x @ y @ img'"
      using 2(4) by (auto split: option.splits)
    have ar: "area_in c (phys_start p) ?m" "area_in c (phys_start d) ?k" using 2(6) pc by (simp_all add: ext_safe_def)
    have pd: "phys_start p + of_nat ?m = phys_start d" using True by (simp add: plain_def)
    have ae: "area_in c (phys_start p) (?m + ?k)" using area_in_join [OF ar(1)] ar(2) pd lt by simp
    have "x = data_area c (phys_start p) ?m" "y = data_area c (phys_start d) ?k" using x(1,2) True by (auto simp: ext_data_def Let_def split: if_splits)
    then have "x @ y = data_area c (phys_start p) (?m + ?k)" using data_area_append [OF 2(5) ae] pd by simp
    then have ed: "ext_data K c ?e = Some (x @ y)" using True ae sum by (simp add: ext_data_def Let_def plain_def)
    have "logical_count p + logical_count d \<noteq> 0" using sum lt(3) by (metis add_gr_0 less_irrefl unat_0)
    then have pk: "packed n (?e # ds)" using 2(3) lt sum by (simp add: word_gt_0 add.assoc)
    have eb: "ext_blocks ?e = ext_blocks p \<union> ext_blocks d"
    proof -
      have "unat (phys_start d) = unat (phys_start p) + ?m"
        unfolding pd [symmetric] using ae lt unat_u64 [of "max_lba c"] by (intro unat_add_of_nat) (simp add: area_in_def)
      then show ?thesis using pc sum by (auto simp: ext_blocks_def)
    qed
    have "unat (phys_count ?e) = ?m + ?k" using sum pc by simp
    then have "ext_safe c B ?e" using 2(6) ae eb unfolding ext_safe_def by auto
    then have sf: "\<forall>d \<in> set (?e # ds). ext_safe c B d" using 2(6) by simp
    have im: "file_image K c (?e # ds) = Some img" using ed x by simp
    have pe: "plain ?e" using True by (simp add: plain_def)
    have "file_image K c (coalesce ?e ds) = Some img \<and> (\<forall>d \<in> set (coalesce ?e ds). ext_safe c B d \<and> (plain d \<or> d \<in> set (?e # ds)))"
      by (rule 2(1) [OF True pk im 2(5) sf])
    then show ?thesis unfolding co using pe by auto
  next
    case False
    then have co: "coalesce p (d # ds) = p # coalesce d ds" unfolding coalesce.simps by (rule if_not_P)
    obtain x img' where x: "ext_data K c p = Some x" "file_image K c (d # ds) = Some img'" "img = x @ img'" using 2(4) by (auto split: option.splits)
    have "packed (n + unat (logical_count p)) (d # ds)" "\<forall>e \<in> set (d # ds). ext_safe c B e" using 2(3,6) by simp_all
    from 2(2) [OF False this(1) x(2) 2(5) this(2)] show ?thesis unfolding co using x 2(6) by auto
  qed
qed simp

lemma merged_keeps:
  assumes "packed 0 ds" "file_image K c ds = Some img" "dev_ok c" "\<forall>d \<in> set ds. ext_safe c B d"
  shows "file_image K c (merged ds) = Some img" "\<And>d. d \<in> set (merged ds) \<Longrightarrow> ext_safe c B d \<and> (plain d \<or> d \<in> set ds)"
proof -
  have "file_image K c (merged ds) = Some img \<and> (\<forall>d \<in> set (merged ds). ext_safe c B d \<and> (plain d \<or> d \<in> set ds))"
  proof (cases ds)
    case (Cons p es)
    show ?thesis using coalesce_keeps [OF assms(1,2) [unfolded Cons] assms(3) assms(4) [unfolded Cons]] unfolding merged_def Cons list.case .
  qed (use assms(2) in \<open>simp add: merged_def\<close>)
  then show "file_image K c (merged ds) = Some img" "\<And>d. d \<in> set (merged ds) \<Longrightarrow> ext_safe c B d \<and> (plain d \<or> d \<in> set ds)" by blast+
qed

lemma apart_clones:
  assumes "apart ds" "\<And>d. d \<in> set ds \<Longrightarrow> \<exists>x. ext_data K c d = Some x" "\<And>d. d \<in> set es \<Longrightarrow> plain d \<or> d \<in> set ds"
  shows "clones_agree es"
proof -
  have "d = e" if de: "d \<in> set ds" "e \<in> set ds" "\<not> plain d" "\<not> plain e" "phys_start d = phys_start e" for d e
  proof (rule ccontr)
    assume "d \<noteq> e"
    then have "ext_blocks d \<inter> ext_blocks e = {}" using assms(1) de(1,2) unfolding apart_def by (induction ds) auto
    moreover have "0 < unat (phys_count d)" "0 < unat (phys_count e)" using compressed_count assms(2) de by metis+
    ultimately show False using de(5) by (auto simp: ext_blocks_def)
  qed
  then show ?thesis using assms(3) unfolding clones_agree_def by metis
qed

text \<open>The list written back is the file as reads see it.\<close>

lemma write_back:
  assumes oh: "overflow_holds b c lv own fl rs" "lv \<le> 1" and i: "inode_id i \<noteq> 0"
    and st: "rw_state K c (insert 0 (ovf_blocks c own fl)) es img" and room: "length rs + length es \<le> unat (leaf_max overflow_cfg c)"
  obtains (full) i' c' where "write_extent_list c i es = Some (OBMAFS3_ERR_NOSPC, i', c')"
  | (stored) i' c' own' fl' rs' inl' where "write_extent_list c i es = Some (OBMAFS3_OK, i', c')" "overflow_holds False c' lv own' fl' rs'"
      "file_size i' = file_size i" "inode_id i' = inode_id i" "file_state K c' (ovf_blocks c' own' fl') i' rs' inl' img"
proof -
  note E = slot_env [OF oh(1)]
  let ?B = "ovf_blocks c own fl"
  have s: "packed 0 es" "file_image K c es = Some img" "apart es" "\<forall>d \<in> set es. ext_safe c (insert 0 ?B) d" using st by (auto simp: rw_state_def)
  then have sf: "\<forall>d \<in> set es. ext_safe c ?B d" by (auto simp: ext_safe_def)
  note M = merged_keeps [OF s(1,2) E(1) sf] merged_facts(1) [OF s(1)]
  have cl: "clones_agree (merged es)"
    by (rule apart_clones [OF s(3) file_image_defined [OF s(2)]]) (use M(2) in blast)+
  show thesis
  proof (cases rule: write_extent_list_spec [OF oh i s(1) room, case_names full stored])
    case (full i' c')
    then show ?thesis using that(1) by blast
  next
    case (stored c' own' fl' rs')
    let ?i = "i\<lparr>extents := map run_of (take 8 (merged es)) @ replicate (8 - length (merged es)) zero_run\<rparr>"
    let ?inl = "take 8 (merged es)"
    have all: "?inl @ extents_of (inode_id i) rs' = merged es" using stored(4) by simp
    have "8 - length ?inl = 8 - length (merged es)" by simp
    then have "file_state K c ?B ?i rs' ?inl img"
      unfolding file_state_def using all M cl stored(4) by simp
    moreover have "fresh_from ?B c (ovf_blocks c' own' fl')" using stored(3) by (auto simp: ovf_moved_def fresh_from_def slot_blocks_def)
    ultimately have "file_state K c' (ovf_blocks c' own' fl') ?i rs' ?inl img"
      using file_state_keep [OF _ moved_undisturbed [OF stored(3)] E(1) slot_env(1) [OF stored(2)]] by blast
    then show ?thesis using that(2) [OF stored(1,2)] by simp
  qed
qed

section \<open>Properties\<close>

text \<open>The numbers the code computes for a write of \<open>len\<close> bytes that does not start behind the last group.\<close>

lemma rewrite_numbers:
  assumes b: "0 < bsz c" "bsz c \<le> 65536" and fs: "unat fs < 2 ^ 60" and off: "unat offset \<le> unat fs" "unat offset div (16 * bsz c) * (16 * bsz c) < unat fs"
    and len: "0 < len" "unat offset + len < 2 ^ 60"
  defines "g \<equiv> unat offset div (16 * bsz c)" and "h \<equiv> (unat offset + len - 1) div (16 * bsz c) + 1"
    and "fs' \<equiv> (if fs < offset + of_nat len then offset + of_nat len else fs)"
  shows "unat (offset + of_nat len) = unat offset + len" "unat fs' = max (unat fs) (unat offset + len)"
    and "unat (blocks_of c fs) * bsz c \<le> unat (blocks_of c fs') * bsz c" "unat (blocks_of c fs') * bsz c < 2 ^ 61" "unat fs \<le> unat (blocks_of c fs) * bsz c"
    and "unat fs' \<le> unat (blocks_of c fs') * bsz c"
    and "unat (offset div block_size (sb c) div OBMAFS3_COMPRESS_GROUP_BLOCKS) = g"
    and "Suc (unat (last_block c offset (of_nat len) div OBMAFS3_COMPRESS_GROUP_BLOCKS)) = h"
    and "\<not> (fs \<le> offset \<and> (blocks_of c fs = 0 \<or> (blocks_of c fs + OBMAFS3_COMPRESS_GROUP_BLOCKS - 1) div OBMAFS3_COMPRESS_GROUP_BLOCKS \<le> offset div block_size (sb c) div OBMAFS3_COMPRESS_GROUP_BLOCKS))"
    and "g < h" "16 * (h - 1) < unat (blocks_of c fs')" "unat offset + len \<le> min (16 * h) (unat (blocks_of c fs')) * bsz c" "h - g \<le> len div (16 * bsz c) + 2"
    and "16 * g * bsz c \<le> unat offset" "16 * g < unat (blocks_of c fs)"
proof -
  let ?bs = "bsz c" and ?o = "unat offset"
  have ul: "unat (of_nat len :: u64) = len" unfolding unat_of_nat using len by simp
  show uo: "unat (offset + of_nat len) = ?o + len" using len ul by (subst unat_add_less) simp_all
  show uf: "unat fs' = max (unat fs) (?o + len)" using uo by (auto simp: fs'_def word_less_nat_alt)
  have up: "unat (blocks_of c w) = (unat w + ?bs - 1) div ?bs" if "unat w < 2 ^ 62" for w
    using unat_blocks_up [of "unat w" "block_size (sb c)"] that b by (simp add: blocks_of_def)
  have f1: "unat (blocks_of c fs) = (unat fs + ?bs - 1) div ?bs" using up [of fs] fs by simp
  have f2: "unat (blocks_of c fs') = (unat fs' + ?bs - 1) div ?bs" using up [of fs'] fs uf len(2) by simp
  show "unat (blocks_of c fs) * ?bs \<le> unat (blocks_of c fs') * ?bs" unfolding f1 f2 using uf by (intro mult_le_mono1 div_le_mono) simp
  show l1: "unat fs \<le> unat (blocks_of c fs) * ?bs" unfolding f1 by (rule blocks_up(1) [OF b(1)])
  show l2: "unat fs' \<le> unat (blocks_of c fs') * ?bs" unfolding f2 by (rule blocks_up(1) [OF b(1)])
  have "unat (blocks_of c fs') * ?bs < unat fs' + ?bs" unfolding f2 by (rule blocks_up(2) [OF b(1)])
  moreover have "unat fs' < 2 ^ 60" using uf fs len(2) by simp
  ultimately show "unat (blocks_of c fs') * ?bs < 2 ^ 61" using b(2) by simp
  show fg: "unat (offset div block_size (sb c) div OBMAFS3_COMPRESS_GROUP_BLOCKS) = g"
    by (simp add: g_def unat_div group_word div_mult2_eq [symmetric] mult.commute)
  have "0 < offset + of_nat len" using uo len(1) by (simp add: word_less_nat_alt)
  then have "unat (last_block c offset (of_nat len)) = (?o + len - 1) div ?bs" using uo by (simp add: last_block_def unat_div unat_minus_one)
  then show "Suc (unat (last_block c offset (of_nat len) div OBMAFS3_COMPRESS_GROUP_BLOCKS)) = h"
    by (simp add: h_def unat_div group_word div_mult2_eq [symmetric] mult.commute)
  show gh: "g < h" using len(1) by (simp add: g_def h_def less_Suc_eq_le div_le_mono)
  show go: "16 * g * ?bs \<le> ?o" using div_times_less_eq_dividend [of ?o "16 * ?bs"] by (simp add: g_def ac_simps)
  have "16 * g * ?bs < unat fs" using off(2) by (simp add: g_def ac_simps)
  then have "16 * g * ?bs < unat (blocks_of c fs) * ?bs" using l1 by linarith
  then show gN: "16 * g < unat (blocks_of c fs)" by simp
  have "(h - 1) * (16 * ?bs) \<le> ?o + len - 1" unfolding h_def by simp
  moreover have oN: "?o + len \<le> unat (blocks_of c fs') * ?bs" using l2 uf by simp
  moreover have "(h - 1) * (16 * ?bs) = 16 * (h - 1) * ?bs" by simp
  ultimately have "16 * (h - 1) * ?bs < unat (blocks_of c fs') * ?bs" using len(1) by linarith
  then show "16 * (h - 1) < unat (blocks_of c fs')" by simp
  have "?o + len - 1 < h * (16 * ?bs)" unfolding h_def using b(1) dividend_less_div_times [of "16 * ?bs" "?o + len - 1"] by simp
  moreover have "h * (16 * ?bs) = 16 * h * ?bs" by simp
  ultimately have "?o + len \<le> 16 * h * ?bs" by linarith
  then show "?o + len \<le> min (16 * h) (unat (blocks_of c fs')) * ?bs" using oN by (simp add: min_def)
  show "h - g \<le> len div (16 * ?bs) + 2"
  proof -
    have "?o + len - 1 < (g + 1 + (len div (16 * ?bs) + 1)) * (16 * ?bs)"
      using dividend_less_div_times [of "16 * ?bs" ?o] dividend_less_div_times [of "16 * ?bs" len] b(1) by (simp add: g_def algebra_simps)
    then have "(?o + len - 1) div (16 * ?bs) < g + 1 + (len div (16 * ?bs) + 1)" using b(1) by (simp add: div_less_iff_less_mult)
    then show ?thesis by (simp add: h_def)
  qed
  have N: "unat (blocks_of c fs) < 2 ^ 61" unfolding f1 using fs b(2) by (intro le_less_trans [OF div_le_dividend]) simp
  have "unat (blocks_of c fs + OBMAFS3_COMPRESS_GROUP_BLOCKS - 1) = unat (blocks_of c fs) + 15"
    using N by (simp add: OBMAFS3_COMPRESS_GROUP_BLOCKS_def unat_word_ariths)
  then have "unat ((blocks_of c fs + OBMAFS3_COMPRESS_GROUP_BLOCKS - 1) div OBMAFS3_COMPRESS_GROUP_BLOCKS) = (unat (blocks_of c fs) + 15) div 16"
    by (simp add: unat_div group_word)
  moreover have "g < (unat (blocks_of c fs) + 15) div 16" using gN by (simp add: less_eq_div_iff_mult_less_eq Suc_le_eq [symmetric])
  moreover have "blocks_of c fs \<noteq> 0" using gN by auto
  ultimately show "\<not> (fs \<le> offset \<and> (blocks_of c fs = 0 \<or> (blocks_of c fs + OBMAFS3_COMPRESS_GROUP_BLOCKS - 1) div OBMAFS3_COMPRESS_GROUP_BLOCKS \<le> offset div block_size (sb c) div OBMAFS3_COMPRESS_GROUP_BLOCKS))"
    using fg by (simp add: word_le_nat_alt)
qed

lemma written_contents:
  assumes w: "written_to off buf img m img'" and o: "off \<le> fs" "fs \<le> length img" "off + length buf \<le> m" and old: "old = take fs img"
  shows "take (max fs (off + length buf)) img' = take off old @ buf @ drop (off + length buf) old"
proof (rule nth_equalityI)
  let ?n = "max fs (off + length buf)" and ?new = "take off old @ buf @ drop (off + length buf) old"
  have l: "length img' = max (length img) m" and n: "\<And>k. k < length img' \<Longrightarrow> img' ! k = (if k < m then written off buf img k else img ! k)"
    using w by (auto simp: written_to_def)
  have li: "?n \<le> length img'" using l o by auto
  have lo: "length old = fs" using o(2) old by simp
  show len: "length (take ?n img') = length ?new" using li lo o(1) by (auto simp: max_def)
  fix k assume "k < length (take ?n img')"
  then have k: "k < ?n" "k < length img'" using li by auto
  consider "k < off" | "off \<le> k" "k < off + length buf" | "off + length buf \<le> k" "k < fs" using k(1) by linarith
  then show "take ?n img' ! k = ?new ! k"
  proof cases
    case 1
    then show ?thesis using n [OF k(2)] k(1) o old by (auto simp: written_def nth_append)
  next
    case 2
    then show ?thesis using n [OF k(2)] k(1) o lo by (auto simp: written_def nth_append)
  next
    case 3
    then have "img' ! k = img ! k" using n [OF k(2)] o(2) by (auto simp: written_def)
    moreover have "\<not> k < off" "\<not> k - off < length buf" "k = off + length buf + (k - off - length buf)" using 3 by linarith+
    ultimately show ?thesis using 3 k(1) lo o(1) old by (simp add: nth_append)
  qed
qed


text \<open>A file of two blocks in a volume without shared blocks.\<close>

definition short_file :: inode_record where
  "short_file = demo_file\<lparr>inode_id := 9, file_size := 1500,
     extents := run_of \<lparr>logical_start = 0, logical_count = 2, phys_start = 3, phys_count = 2\<rparr> # replicate 7 zero_run\<rparr>"

lemma short_file_state:
  "file_state K ovf_one (insert 0 (ovf_blocks ovf_one {2} [])) short_file [overflow_enc demo_extent]
     [\<lparr>logical_start = 0, logical_count = 2, phys_start = 3, phys_count = 2\<rparr>] (data_area ovf_one 3 2)"
  "file_extents short_file [overflow_enc demo_extent] = [\<lparr>logical_start = 0, logical_count = 2, phys_start = 3, phys_count = 2\<rparr>]"
  "length (data_area ovf_one 3 2) = 2048" "unat (blocks_of ovf_one (file_size short_file)) = 2" "root_node_lba (refcount_hdr ovf_one) = 0"
  "inode_id short_file = 9" "file_size short_file = 1500"
proof -
  let ?d = "\<lparr>logical_start = 0, logical_count = 2, phys_start = 3, phys_count = 2\<rparr> :: extent_descriptor"
  have a: "area_in ovf_one 3 2" by (simp add: area_in_def ovf_one_def ovf_ctx_def reserve_ctx_def blank_ctx_def)
  have u: "used ovf_one 3" "used ovf_one 4" by (simp_all add: used_def allocated_def ovf_one_def ovf_ctx_def reserve_ctx_def blank_ctx_def)
  have "ext_blocks ?d = {3, 4}" by (auto simp: ext_blocks_def)
  then have "ext_safe ovf_one (insert 0 (ovf_blocks ovf_one {2} [])) ?d"
    using a u by (simp add: ext_safe_def slot_blocks_def overflow_slot_def ovf_one_def ovf_ctx_def)
  moreover have "extents_of 9 [overflow_enc demo_extent] = []" by (simp add: extents_of_def overflow_dec_enc demo_extent_def)
  ultimately show st: "file_state K ovf_one (insert 0 (ovf_blocks ovf_one {2} [])) short_file [overflow_enc demo_extent] [?d] (data_area ovf_one 3 2)"
    using a by (simp add: file_state_def short_file_def ext_data_def plain_def clones_agree_def)
  show "file_extents short_file [overflow_enc demo_extent] = [?d]"
    using file_state_extents [OF st] by (simp add: short_file_def extents_of_def overflow_dec_enc demo_extent_def)
  show "length (data_area ovf_one 3 2) = 2048" using length_data_area [OF slot_env(1) [OF ovf_one_holds] a] empty_file_state(4) by simp
  show "unat (blocks_of ovf_one (file_size short_file)) = 2" "root_node_lba (refcount_hdr ovf_one) = 0"
    by (simp_all add: blocks_of_def short_file_def ovf_one_def ovf_ctx_def reserve_ctx_def blank_ctx_def wrote_def) (simp add: zero_hdr_def)
qed (simp_all add: short_file_def)


end
