(* ===== verification/FileTruncate.thy ===== *)
theory FileTruncate
  imports FileRewrite
begin

text \<open>
  Cutting a file to a number of blocks, src/src/lib/block.c obmafs3\_truncate\_file\_blocks.
\<close>

section \<open>The code\<close>

text \<open>
  The walk over the extents with the logical position, the index and the number of extents to
  keep; it yields the changed list and that number. \<open>read_extent_blocks\<close> fills the buffer that
  malloc gives, or fails.
\<close>

fun truncate_extents :: "codec \<Rightarrow> ctx \<Rightarrow> u64 \<Rightarrow> u64 \<Rightarrow> nat \<Rightarrow> nat \<Rightarrow> extent_descriptor list \<Rightarrow>
    ((rc + extent_descriptor list \<times> nat) \<times> ctx) option" where
  "truncate_extents K c new_count pos i keep_count [] = Some (Inr ([], keep_count), c)"
| "truncate_extents K c new_count pos i keep_count (d # ds) =
     (let cons = (\<lambda>d'. map_option (map_prod (map_sum id (\<lambda>(l, k). (d' # l, k))) id));
          ext_end = pos + logical_count d
      in if ext_end \<le> new_count then cons d (truncate_extents K c new_count ext_end (Suc i) (Suc i) ds)
      else if new_count \<le> pos then
        (case free_extent_phys c d of
           None \<Rightarrow> None
         | Some c1 \<Rightarrow> cons d (truncate_extents K c1 new_count pos (Suc i) keep_count ds))
      else
        let keep_logical = new_count - pos in
        if plain d then
          (case free_run c (phys_start d + keep_logical) (unat (phys_count d) - unat keep_logical) of
             None \<Rightarrow> None
           | Some c1 \<Rightarrow> cons (d\<lparr>logical_count := keep_logical, phys_count := keep_logical\<rparr>)
                         (truncate_extents K c1 new_count new_count (Suc i) (Suc i) ds))
        else if \<not> heap_ok c then Some (Inl OBMAFS3_ERR_NOMEM, c)
        else
          (case read_extent_blocks K c d pos keep_logical of
             None \<Rightarrow> None
           | Some (Inl e) \<Rightarrow> Some (Inl e, c)
           | Some (Inr temp) \<Rightarrow>
               (case free_extent_phys c d of
                  None \<Rightarrow> None
                | Some c1 \<Rightarrow>
                    (case store_blocks c1 keep_logical temp id of
                       (Inl e, c2) \<Rightarrow> Some (Inl e, c2)
                     | (Inr new_start, c2) \<Rightarrow>
                         cons (d\<lparr>phys_start := new_start, phys_count := keep_logical, logical_count := keep_logical\<rparr>)
                           (truncate_extents K c2 new_count new_count (Suc i) (Suc i) ds)))))"

definition obmafs3_truncate_file_blocks :: "codec \<Rightarrow> ctx \<Rightarrow> inode_record \<Rightarrow> u64 \<Rightarrow> (rc \<times> inode_record \<times> ctx) option" where
  "obmafs3_truncate_file_blocks K c i new_count =
     (case collect_all_extents c i of
        None \<Rightarrow> None
      | Some (Inl e) \<Rightarrow> Some (e, i, c)
      | Some (Inr ds) \<Rightarrow>
          if sum_list (map logical_count ds) \<le> new_count then Some (OBMAFS3_OK, i, c)
          else
            (case truncate_extents K c new_count 0 0 0 ds of
               None \<Rightarrow> None
             | Some (Inl e, c1) \<Rightarrow> Some (e, i, c1)
             | Some (Inr (ds1, keep_count), c1) \<Rightarrow> write_extent_list c1 i (take keep_count ds1)))"

section \<open>Keeping and freeing whole extents\<close>

definition behind :: "extent_descriptor list \<Rightarrow> ((rc + extent_descriptor list \<times> nat) \<times> ctx) option \<Rightarrow> ((rc + extent_descriptor list \<times> nat) \<times> ctx) option" where
  "behind xs = map_option (map_prod (map_sum id (\<lambda>(l, k). (xs @ l, k))) id)"

lemma behind_simps [simp]: "behind xs (Some (Inl e, c)) = Some (Inl e, c)" "behind xs (Some (Inr (l, k), c)) = Some (Inr (xs @ l, k), c)" "behind xs None = None"
  by (simp_all add: behind_def)

lemma behind_cases: "r = None \<or> (\<exists>e c. r = Some (Inl e, c)) \<or> (\<exists>l k c. r = Some (Inr (l, k), c))"
  by (cases r) (auto, metis old.sum.exhaust surj_pair)

lemma behind_behind: "behind xs (behind ys r) = behind (xs @ ys) r" "behind [] r = r"
  using behind_cases [of r] by auto

lemma behind_cons: "map_option (map_prod (map_sum id (\<lambda>(l, k). (d # l, k))) id) = behind [d]"
  by (simp add: behind_def)

lemma truncate_keep:
  assumes "packed n (xs @ zs)" "unat pos = n" "n + counts xs \<le> unat nb"
  shows "\<exists>pos'. unat pos' = n + counts xs \<and> truncate_extents K c nb pos i k (xs @ zs) =
    behind xs (truncate_extents K c nb pos' (i + length xs) (if xs = [] then k else i + length xs) zs)"
  using assms
proof (induction xs arbitrary: n pos i k)
  case Nil
  then show ?case by (auto simp: behind_behind(2) intro!: exI [of _ pos])
next
  case (Cons d xs)
  have u: "unat (pos + logical_count d) = n + unat (logical_count d)"
    using Cons.prems packed_less [of "n + unat (logical_count d)" "xs @ zs"] by (subst unat_add_less) simp_all
  have le: "pos + logical_count d \<le> nb" using u Cons.prems(3) by (simp add: word_le_nat_alt)
  have p: "packed (n + unat (logical_count d)) (xs @ zs)" "n + unat (logical_count d) + counts xs \<le> unat nb" using Cons.prems by simp_all
  from Cons.IH [OF p(1) u p(2), of "Suc i" "Suc i"] obtain pos' where pos': "unat pos' = n + unat (logical_count d) + counts xs"
    "truncate_extents K c nb (pos + logical_count d) (Suc i) (Suc i) (xs @ zs) =
      behind xs (truncate_extents K c nb pos' (Suc i + length xs) (if xs = [] then Suc i else Suc i + length xs) zs)" by blast
  have "truncate_extents K c nb pos i k ((d # xs) @ zs) = behind [d] (truncate_extents K c nb (pos + logical_count d) (Suc i) (Suc i) (xs @ zs))"
    using le by (simp add: Let_def behind_cons)
  also have "\<dots> = behind (d # xs) (truncate_extents K c nb pos' (i + length (d # xs)) (i + length (d # xs)) zs)"
    unfolding pos'(2) behind_behind(1) by (cases "xs = []") simp_all
  finally show ?case using pos'(1) by (intro exI [of _ pos']) simp
qed

lemma truncate_free:
  assumes "root_node_lba (refcount_hdr c) = 0" "bm_ok c" "dev_ok c" "\<forall>d \<in> set ys. area_in c (phys_start d) (unat (phys_count d))"
    and "packed n ys" "unat nb \<le> n" "unat pos = unat nb"
  shows "\<exists>bm. truncate_extents K c nb pos i k ys = Some (Inr (ys, k), c\<lparr>bitmap := bm\<rparr>) \<and> bm_ok (c\<lparr>bitmap := bm\<rparr>) \<and>
    (\<forall>p. used (c\<lparr>bitmap := bm\<rparr>) p \<longleftrightarrow> used c p \<and> p \<notin> all_blocks ys)"
  using assms
proof (induction ys arbitrary: c n i)
  case Nil
  have "c\<lparr>bitmap := bitmap c\<rparr> = c" by simp
  then show ?case using Nil.prems(2) by (intro exI [of _ "bitmap c"]) simp
next
  case (Cons d ys)
  have n: "0 < unat (logical_count d)" "n + unat (logical_count d) < 2 ^ 64"
    using Cons.prems(5) packed_less [of "n + unat (logical_count d)" ys] by (simp_all add: word_gt_0 unat_gt_0)
  have u: "unat (pos + logical_count d) = unat nb + unat (logical_count d)" using n Cons.prems(6,7) by (subst unat_add_less) simp_all
  have c: "\<not> pos + logical_count d \<le> nb" "nb \<le> pos" using u n(1) Cons.prems(7) by (simp_all add: word_le_nat_alt)
  have a: "area_in c (phys_start d) (unat (phys_count d))" using Cons.prems(4) by simp
  obtain b1 where b1: "free_extent_phys c d = Some (c\<lparr>bitmap := b1\<rparr>)" "bm_ok (c\<lparr>bitmap := b1\<rparr>)"
    "\<And>p. used (c\<lparr>bitmap := b1\<rparr>) p \<longleftrightarrow> used c p \<and> p \<notin> ext_blocks d"
    using free_run_unshared [OF Cons.prems(1,2), of "phys_start d" "unat (phys_count d)"] area_bound [OF Cons.prems(3) a]
    by (auto simp: free_extent_phys_def ext_blocks_def)
  let ?c = "c\<lparr>bitmap := b1\<rparr>"
  have r: "root_node_lba (refcount_hdr ?c) = 0" "dev_ok ?c" "\<forall>d \<in> set ys. area_in ?c (phys_start d) (unat (phys_count d))"
    "packed (n + unat (logical_count d)) ys" "unat nb \<le> n + unat (logical_count d)"
    using Cons.prems by simp_all
  from Cons.IH [OF r(1) b1(2) r(2-5) Cons.prems(7)] obtain bm where bm: "truncate_extents K ?c nb pos (Suc i) k ys = Some (Inr (ys, k), ?c\<lparr>bitmap := bm\<rparr>)"
    "bm_ok (?c\<lparr>bitmap := bm\<rparr>)" "\<And>p. used (?c\<lparr>bitmap := bm\<rparr>) p \<longleftrightarrow> used ?c p \<and> p \<notin> all_blocks ys" by blast
  have "?c\<lparr>bitmap := bm\<rparr> = c\<lparr>bitmap := bm\<rparr>" by simp
  then show ?case using bm b1 c by (intro exI [of _ bm]) (auto simp: Let_def)
qed

lemma split_at:
  assumes "packed n es" "n \<le> m" "m < n + counts es"
  obtains xs d ys where "es = xs @ d # ys" "n + counts xs \<le> m" "m < n + counts xs + unat (logical_count d)"
proof -
  have "\<exists>xs d ys. es = xs @ d # ys \<and> n + counts xs \<le> m \<and> m < n + counts xs + unat (logical_count d)"
    using assms
  proof (induction es arbitrary: n)
    case (Cons e es)
    show ?case
    proof (cases "m < n + unat (logical_count e)")
      case True
      then show ?thesis using Cons.prems by (intro exI [of _ "[]"]) simp
    next
      case False
      then obtain xs d ys where "es = xs @ d # ys" "n + unat (logical_count e) + counts xs \<le> m" "m < n + unat (logical_count e) + counts xs + unat (logical_count d)"
        using Cons.IH [of "n + unat (logical_count e)"] Cons.prems by auto
      then show ?thesis by (intro exI [of _ "e # xs"]) auto
    qed
  qed simp
  then show thesis using that by blast
qed

text \<open>The first blocks of a packed extent.\<close>

lemma read_packed_prefix:
  assumes "ext_at K c n d x" "\<not> plain d" "grouped d" "codec_ok K" "bsz c \<le> 65536" "unat pos = n" "unat m < unat (logical_count d)"
  shows "read_extent_blocks K c d pos m = Some (Inr (take (unat m * bsz c) x))"
proof -
  have e: "ext_data K c d = Some x" "unat (logical_start d) = n" "dev_ok c" using assms(1) by (auto simp: ext_at_def)
  have m16: "unat (logical_count d) = group_blocks" using assms(2,3) by (simp add: grouped_def group_blocks_def OBMAFS3_COMPRESS_GROUP_BLOCKS_def)
  obtain h out where h: "read_compressed K c (phys_start d) (phys_count d) (group_blocks * bsz c) = Some (Inr (h, out))" "group_blocks * bsz c \<le> length out"
    "x = take (group_blocks * bsz c) out"
    using e(1) assms(2) m16 by (auto simp: ext_data_def Let_def split: if_splits option.splits sum.splits prod.splits)
  have o: "length out \<le> unat (original_size h)"
    using h(1) decompress_length [OF assms(4)] by (fastforce simp: read_compressed_def Let_def split: if_splits sum.splits)
  have off: "pos - logical_start d = 0" proof -
    have "pos = logical_start d" using e(2) assms(6) by (simp add: word_unat_eq_iff)
    then show ?thesis by simp
  qed
  have ne: "m \<noteq> logical_count d" using assms(7) by auto
  have "unat m * bsz c \<le> 16 * 65536" using assms(5,7) m16 by (intro mult_mono) (simp_all add: group_blocks_def OBMAFS3_COMPRESS_GROUP_BLOCKS_def)
  then have cb: "unat (m * block_size (sb c)) = unat m * bsz c" by (simp add: unat_word_ariths)
  have le: "unat m * bsz c \<le> group_blocks * bsz c" using assms(7) m16 by (intro mult_le_mono1) simp
  then have le2: "unat m * bsz c \<le> unat (original_size h)" "unat m * bsz c \<le> length out" using h(2) o by linarith+
  have "take (unat m * bsz c) out = take (unat m * bsz c) x" using h(3) le by (simp add: min_absorb1)
  then show ?thesis using assms(2) ne h(1) le2 by (simp add: read_extent_blocks_def Let_def off cb)
qed

section \<open>The state behind the walk\<close>

text \<open>Blocks \<open>F\<close> are given back that neither the extents nor the overflow tree need.\<close>

lemma released_holds:
  assumes oh: "overflow_holds b c lv own fl rs" and bm: "bm_ok (c\<lparr>bitmap := bm\<rparr>)" "\<And>p. used (c\<lparr>bitmap := bm\<rparr>) p \<longleftrightarrow> used c p \<and> p \<notin> F"
    and F: "F \<inter> unat ` insert 0 (ovf_blocks c own fl) = {}"
  shows "overflow_holds b (c\<lparr>bitmap := bm\<rparr>) lv own fl rs"
proof -
  have "used (c\<lparr>bitmap := bm\<rparr>) (unat l)" if "l \<in> insert 0 (ovf_blocks c own fl)" for l
    using bm(2) slot_env(7) [OF oh that] F that by blast
  then show ?thesis using oh bm(1) unfolding slot_holds_def by (intro holds_released) (auto simp: overflow_slot_def slot_blocks_def)
qed

lemma released_state:
  assumes "rw_state K c B xs img" "\<And>p. used (c\<lparr>bitmap := bm\<rparr>) p \<longleftrightarrow> used c p \<and> p \<notin> F" "F \<inter> all_blocks xs = {}"
  shows "rw_state K (c\<lparr>bitmap := bm\<rparr>) B xs img"
proof -
  have "ext_safe (c\<lparr>bitmap := bm\<rparr>) B d" if "ext_safe c B d" "d \<in> set xs" for d using that assms(2,3) by (auto simp: ext_safe_def)
  then show ?thesis using assms(1) by (simp add: rw_state_def)
qed

lemma rw_state_snoc:
  assumes "rw_state K c B xs img" "ext_data K c d = Some y" "unat (logical_start d) = counts xs" "0 < logical_count d"
    and "counts xs + unat (logical_count d) < 2 ^ 64" "ext_safe c B d" "grouped d" "all_blocks xs \<inter> ext_blocks d = {}"
  shows "rw_state K c B (xs @ [d]) (img @ y)"
proof -
  have "packed 0 (xs @ [d])" using assms(1,3-5) unfolding packed_snoc by (simp add: rw_state_def)
  moreover have "apart (xs @ [d])" using assms(1,8) by (simp add: rw_state_def apart_append) (simp add: apart_def)
  ultimately show ?thesis using assms(1,2,6,7) by (auto simp: rw_state_def file_image_append)
qed

lemma rw_state_parts:
  assumes st: "rw_state K c B (xs @ d # ys) img" and dv: "dev_ok c"
  obtains ix x where "rw_state K c B xs ix" "length ix = counts xs * bsz c" "ext_at K c (counts xs) d x" "length x = unat (logical_count d) * bsz c"
    "take (length ix + length x) img = ix @ x" "ext_safe c B d" "grouped d" "packed (counts xs) (d # ys)" "packed (counts xs + unat (logical_count d)) ys"
    "all_blocks xs \<inter> ext_blocks d = {}" "all_blocks xs \<inter> all_blocks ys = {}" "ext_blocks d \<inter> all_blocks ys = {}" "\<forall>e \<in> set ys. ext_safe c B e"
proof -
  have s: "packed 0 (xs @ d # ys)" "file_image K c (xs @ d # ys) = Some img" "apart (xs @ d # ys)" "\<forall>e \<in> set (xs @ d # ys). ext_safe c B e \<and> grouped e"
    using st by (auto simp: rw_state_def)
  obtain ix x iy where im: "file_image K c xs = Some ix" "ext_data K c d = Some x" "img = ix @ x @ iy"
    using s(2) by (auto simp: file_image_append split: option.splits)
  have p: "packed 0 xs" "packed (counts xs) (d # ys)" using s(1) by (simp_all add: packed_append)
  have a: "apart xs" "all_blocks xs \<inter> ext_blocks d = {}" "all_blocks xs \<inter> all_blocks ys = {}" "ext_blocks d \<inter> all_blocks ys = {}"
    using s(3) unfolding apart_append by (auto simp: apart_def)
  show thesis
  proof (rule that [of ix x])
    show "rw_state K c B xs ix" using p(1) im(1) a(1) s(4) by (simp add: rw_state_def)
    show "length ix = counts xs * bsz c" by (rule length_file_image [OF im(1) dv])
    show "length x = unat (logical_count d) * bsz c" by (rule length_ext_data [OF im(2) dv])
    show "take (length ix + length x) img = ix @ x" by (simp add: im(3))
    show "ext_at K c (counts xs) d x" using p(2) packed_less [of "counts xs + unat (logical_count d)" ys] im(2) dv s(4)
      by (auto simp: ext_at_def ext_safe_def word_gt_0 unat_gt_0)
  qed (use p a s(4) in auto)
qed

lemma rest_freed:
  assumes oh: "overflow_holds b c lv own fl rs" and ref: "root_node_lba (refcount_hdr c) = 0" and B: "B = insert 0 (ovf_blocks c own fl)"
    and rw: "rw_state K c B zs img" and ys: "packed n ys" "\<forall>e \<in> set ys. ext_safe c B e" "all_blocks zs \<inter> all_blocks ys = {}"
    and nb: "unat nb \<le> n" "unat pos = unat nb"
  shows "\<exists>c'. truncate_extents K c nb pos i k ys = Some (Inr (ys, k), c') \<and> overflow_holds b c' lv own fl rs \<and> sb c' = sb c \<and> rw_state K c' B zs img"
proof -
  note E = slot_env [OF oh]
  have "\<forall>d \<in> set ys. area_in c (phys_start d) (unat (phys_count d))" using ys(2) by (simp add: ext_safe_def)
  then obtain bm where bm: "truncate_extents K c nb pos i k ys = Some (Inr (ys, k), c\<lparr>bitmap := bm\<rparr>)"
    "bm_ok (c\<lparr>bitmap := bm\<rparr>)" "\<And>p. used (c\<lparr>bitmap := bm\<rparr>) p \<longleftrightarrow> used c p \<and> p \<notin> all_blocks ys"
    using truncate_free [OF ref E(2,1) _ ys(1) nb, of K i k] by (elim meta_impE; simp; metis)
  have F: "all_blocks ys \<inter> unat ` insert 0 (ovf_blocks c own fl) = {}" using ys(2) by (auto simp: ext_safe_def B)
  have "all_blocks ys \<inter> all_blocks zs = {}" using ys(3) by blast
  then have "rw_state K (c\<lparr>bitmap := bm\<rparr>) B zs img" by (rule released_state [OF rw bm(3)])
  moreover have "overflow_holds b (c\<lparr>bitmap := bm\<rparr>) lv own fl rs" by (rule released_holds [OF oh bm(2,3) F])
  moreover have "sb (c\<lparr>bitmap := bm\<rparr>) = sb c" by simp
  ultimately show ?thesis using bm(1) by blast
qed

lemma rest_freed_keep:
  assumes oh: "overflow_holds b c1 lv own fl rs" and ref: "root_node_lba (refcount_hdr c1) = 0" and B: "B = insert 0 (ovf_blocks c1 own fl)"
    and rw: "rw_state K c1 B zs img" and ys: "packed n ys" "\<forall>e \<in> set ys. ext_safe c1 B e" "all_blocks zs \<inter> all_blocks ys = {}"
    and nb: "unat nb \<le> n" "unat pos = unat nb"
    and start: "truncate_extents K c nb 0 0 0 es = behind zs (truncate_extents K c1 nb pos i (length zs) ys)" and len: "length zs \<le> length es"
  obtains l k c' where "truncate_extents K c nb 0 0 0 es = Some (Inr (l, k), c')" "overflow_holds b c' lv own fl rs" "sb c' = sb c1"
    "rw_state K c' B (take k l) img" "length (take k l) \<le> length es"
proof -
  obtain c' where "truncate_extents K c1 nb pos i (length zs) ys = Some (Inr (ys, length zs), c')" "overflow_holds b c' lv own fl rs" "sb c' = sb c1" "rw_state K c' B zs img"
    using rest_freed [OF oh ref B rw ys nb] by blast
  then show thesis using that [of "zs @ ys" "length zs" c'] start len by simp
qed

section \<open>The extent at the cut\<close>

lemma safe_after_free:
  assumes "ext_safe c B e" "\<And>p. used (c\<lparr>bitmap := bm\<rparr>) p \<longleftrightarrow> used c p \<and> p \<notin> F" "ext_blocks e \<inter> F = {}"
  shows "ext_safe (c\<lparr>bitmap := bm\<rparr>) B e"
  using assms by (auto simp: ext_safe_def)

lemma cut_plain:
  assumes oh: "overflow_holds b c lv own fl rs" and ref: "root_node_lba (refcount_hdr c) = 0" and B: "B = insert 0 (ovf_blocks c own fl)"
    and rw: "rw_state K c B xs ix" and at: "ext_at K c (counts xs) d x" and sf: "ext_safe c B d" "\<forall>e \<in> set ys. ext_safe c B e"
    and dis: "all_blocks xs \<inter> ext_blocks d = {}" "ext_blocks d \<inter> all_blocks ys = {}"
    and p: "plain d" and m: "0 < unat m" "unat m < unat (logical_count d)"
  obtains bm where "free_run c (phys_start d + m) (unat (phys_count d) - unat m) = Some (c\<lparr>bitmap := bm\<rparr>)" "overflow_holds b (c\<lparr>bitmap := bm\<rparr>) lv own fl rs"
    "rw_state K (c\<lparr>bitmap := bm\<rparr>) B (xs @ [d\<lparr>logical_count := m, phys_count := m\<rparr>]) (ix @ take (unat m * bsz c) x)"
    "\<forall>e \<in> set ys. ext_safe (c\<lparr>bitmap := bm\<rparr>) B e" "ext_blocks (d\<lparr>logical_count := m, phys_count := m\<rparr>) \<subseteq> ext_blocks d"
proof -
  note E = slot_env [OF oh]
  let ?d = "d\<lparr>logical_count := m, phys_count := m\<rparr>"
  have pc: "phys_count d = logical_count d" using p by (simp add: plain_def)
  have d: "sub_extent d 0 (unat m) = ?d" by (cases d) (simp add: sub_extent_def)
  have "0 + unat m \<le> unat (logical_count d)" using m(2) by simp
  note C = cut_sub [OF at p this, unfolded d]
  have a: "area_in c (phys_start d) (unat (phys_count d))" using at by (simp add: ext_at_def)
  have bd: "unat (phys_start d) + unat (phys_count d) \<le> 2 ^ 63" by (rule area_bound [OF E(1) a])
  have u: "unat (phys_start d + m) = unat (phys_start d) + unat m" using bd m(2) pc by (subst unat_add_less) simp_all
  have "unat (phys_start d + m) + (unat (phys_count d) - unat m) \<le> 2 ^ 63" using u bd m(2) pc by simp
  from free_run_unshared [OF ref E(2) this] obtain bm where bm: "free_run c (phys_start d + m) (unat (phys_count d) - unat m) = Some (c\<lparr>bitmap := bm\<rparr>)" "bm_ok (c\<lparr>bitmap := bm\<rparr>)"
    and us: "\<And>p. used (c\<lparr>bitmap := bm\<rparr>) p \<longleftrightarrow> used c p \<and> p \<notin> {unat (phys_start d + m) ..< unat (phys_start d + m) + (unat (phys_count d) - unat m)}" by metis
  define F where "F = {unat (phys_start d + m) ..< unat (phys_start d + m) + (unat (phys_count d) - unat m)}"
  have us: "used (c\<lparr>bitmap := bm\<rparr>) p \<longleftrightarrow> used c p \<and> p \<notin> F" for p using us by (simp add: F_def)
  have Fd: "F \<subseteq> ext_blocks d" using m(2) pc u by (auto simp: F_def ext_blocks_def)
  have dF: "ext_blocks ?d \<inter> F = {}" "ext_blocks ?d \<subseteq> ext_blocks d" using m(2) pc u by (auto simp: F_def ext_blocks_def)
  have dB: "ext_blocks d \<inter> unat ` B = {}" using sf(1) by (auto simp: ext_safe_def)
  have "F \<inter> unat ` insert 0 (ovf_blocks c own fl) = {}" using dB Fd unfolding B by blast
  then have oh1: "overflow_holds b (c\<lparr>bitmap := bm\<rparr>) lv own fl rs" by (rule released_holds [OF oh bm(2) us])
  have "F \<inter> all_blocks xs = {}" using Fd dis(1) by blast
  then have rw1: "rw_state K (c\<lparr>bitmap := bm\<rparr>) B xs ix" by (rule released_state [OF rw us])
  have sd: "ext_safe c B ?d" using C(5) dF(2) sf(1) unfolding ext_safe_def by auto
  have "ext_safe (c\<lparr>bitmap := bm\<rparr>) B ?d" by (rule safe_after_free [OF sd us dF(1)])
  moreover have "ext_data K (c\<lparr>bitmap := bm\<rparr>) ?d = Some (take (unat m * bsz c) x)" using C(4) by simp
  moreover have "unat (logical_start ?d) = counts xs" "0 < logical_count ?d" "counts xs + unat (logical_count ?d) < 2 ^ 64"
    using at m by (auto simp: ext_at_def word_gt_0 unat_gt_0)
  moreover have "grouped ?d" "all_blocks xs \<inter> ext_blocks ?d = {}" using C(1) dF(2) dis(1) by (auto simp: grouped_def)
  ultimately have rw2: "rw_state K (c\<lparr>bitmap := bm\<rparr>) B (xs @ [?d]) (ix @ take (unat m * bsz c) x)" by (intro rw_state_snoc [OF rw1])
  have "ext_safe (c\<lparr>bitmap := bm\<rparr>) B e" if "e \<in> set ys" for e
    using that sf(2) dis(2) Fd by (intro safe_after_free [OF _ us]) blast+
  then show thesis using that [OF bm(1) oh1 rw2 _ dF(2)] by blast
qed

lemma cut_repacked:
  assumes oh: "overflow_holds b c lv own fl rs" and ref: "root_node_lba (refcount_hdr c) = 0" and B: "B = insert 0 (ovf_blocks c own fl)"
    and rw: "rw_state K c B xs ix" and at: "ext_at K c (counts xs) d x" "length x = unat (logical_count d) * bsz c"
    and sf: "ext_safe c B d" "\<forall>e \<in> set ys. ext_safe c B e"
    and dis: "all_blocks xs \<inter> ext_blocks d = {}" "ext_blocks d \<inter> all_blocks ys = {}"
    and m: "0 < unat m" "unat m < unat (logical_count d)"
  obtains (full) c1 where "free_extent_phys c d = Some c1" "store_blocks c1 m (take (unat m * bsz c) x) id = (Inl OBMAFS3_ERR_NOSPC, c1)"
  | (stored) c1 l c2 where "free_extent_phys c d = Some c1" "store_blocks c1 m (take (unat m * bsz c) x) id = (Inr l, c2)"
      "overflow_holds b c2 lv own fl rs" "sb c2 = sb c" "root_node_lba (refcount_hdr c2) = 0"
      "rw_state K c2 B (xs @ [d\<lparr>phys_start := l, phys_count := m, logical_count := m\<rparr>]) (ix @ take (unat m * bsz c) x)" "\<forall>e \<in> set ys. ext_safe c2 B e"
      "ext_blocks (d\<lparr>phys_start := l, phys_count := m, logical_count := m\<rparr>) \<inter> all_blocks ys = {}"
proof -
  note E = slot_env [OF oh]
  let ?x = "take (unat m * bsz c) x"
  have a: "area_in c (phys_start d) (unat (phys_count d))" using at(1) by (simp add: ext_at_def)
  have fr: "\<exists>bm. free_extent_phys c d = Some (c\<lparr>bitmap := bm\<rparr>) \<and> bm_ok (c\<lparr>bitmap := bm\<rparr>) \<and> (\<forall>p. used (c\<lparr>bitmap := bm\<rparr>) p \<longleftrightarrow> used c p \<and> p \<notin> ext_blocks d)"
    unfolding free_extent_phys_def ext_blocks_def by (rule free_run_unshared [OF ref E(2) area_bound [OF E(1) a]])
  then obtain bm where bm: "free_extent_phys c d = Some (c\<lparr>bitmap := bm\<rparr>)" "bm_ok (c\<lparr>bitmap := bm\<rparr>)"
    and us: "\<And>p. used (c\<lparr>bitmap := bm\<rparr>) p \<longleftrightarrow> used c p \<and> p \<notin> ext_blocks d" by metis
  have dB: "ext_blocks d \<inter> unat ` B = {}" using sf(1) by (auto simp: ext_safe_def)
  define c1 where "c1 = c\<lparr>bitmap := bm\<rparr>"
  have oh1: "overflow_holds b c1 lv own fl rs" unfolding c1_def by (rule released_holds [OF oh bm(2) us dB [unfolded B]])
  have rw1: "rw_state K c1 B xs ix" unfolding c1_def by (rule released_state [OF rw us]) (use dis(1) in blast)
  have ys1: "\<forall>e \<in> set ys. ext_safe c1 B e" unfolding c1_def using sf(2) dis(2) by (blast intro: safe_after_free [OF _ us])
  have c1: "sb c1 = sb c" "refcount_hdr c1 = refcount_hdr c" by (simp_all add: c1_def)
  note E1 = slot_env [OF oh1]
  have m0: "0 < m" using m(1) by (simp add: word_gt_0 unat_gt_0)
  have "unat m * bsz c \<le> unat (logical_count d) * bsz c" using m(2) by simp
  then have lx: "length ?x = unat m * bsz c1" using at(2) c1(1) by simp
  show thesis
  proof (cases rule: store_blocks_spec [OF E1(1,2) m0 lx, of id, case_names id full stored])
    case full
    then show ?thesis using that(1) bm(1) by (simp add: c1_def)
  next
    case (stored l c2)
    let ?d = "d\<lparr>phys_start := l, phys_count := m, logical_count := m\<rparr>"
    have oh2: "overflow_holds b c2 lv own fl rs" by (rule outside_holds [OF oh1 stored(2-4)])
    have un: "undisturbed B c1 c2" by (rule outside_undisturbed [OF stored(2)]) simp
    have c2: "sb c2 = sb c" "refcount_hdr c2 = refcount_hdr c" using maxes_frame [OF stored(2), of overflow_cfg] outside_fields [OF stored(2)] c1 by simp_all
    have keep: "ext_data K c2 e = ext_data K c1 e \<and> ext_safe c2 B e" if "ext_safe c1 B e" for e
    proof -
      have "ext_blocks e \<inter> unat ` B = {}" using that by (auto simp: ext_safe_def)
      then show ?thesis using ext_keep [OF that un E1(1) stored(3)] by simp
    qed
    have s: "packed 0 xs" "file_image K c1 xs = Some ix" "apart xs" "\<forall>e \<in> set xs. ext_safe c1 B e \<and> grouped e" using rw1 by (auto simp: rw_state_def)
    have "file_image K c2 xs = file_image K c1 xs" by (rule file_image_cong) (use s(4) keep in blast)
    then have rw2: "rw_state K c2 B xs ix" using s keep by (simp add: rw_state_def)
    have eb: "ext_blocks ?d = {unat l ..< unat l + unat m}" by (simp add: ext_blocks_def)
    have new: "\<not> used c1 p" "used c2 p" if "p \<in> ext_blocks ?d" for p using stored(7) [of p] that eb by simp_all
    have off: "ext_blocks e \<inter> ext_blocks ?d = {}" if "ext_safe c1 B e" for e using that new(1) by (auto simp: ext_safe_def)
    have "p \<notin> unat ` B" if "p \<in> ext_blocks ?d" for p
    proof
      assume "p \<in> unat ` B"
      then obtain k where k: "k \<in> B" "p = unat k" by blast
      then have "used c1 p" using E1(7) [of k] B by (simp add: slot_blocks_def c1_def)
      then show False using new(1) [OF that] by simp
    qed
    then have sd: "ext_safe c2 B ?d" using stored(5) new(2) by (simp add: ext_safe_def)
    have pl: "plain ?d" by (simp add: plain_def)
    have "ext_data K c2 ?d = Some ?x" using pl stored(5,6) by (simp add: ext_data_def Let_def)
    then have rw3: "rw_state K c2 B (xs @ [?d]) (ix @ ?x)"
      by (rule rw_state_snoc [OF rw2 _ _ _ _ sd]) (use at m m0 s(4) off pl in \<open>auto simp: ext_at_def grouped_def\<close>)
    have ysd: "ext_blocks ?d \<inter> all_blocks ys = {}" using ys1 off by blast
    show ?thesis
      by (rule that(2) [OF bm(1) _ oh2 c2(1) _ rw3 _ ysd]) (use stored(1) c1_def c2(2) ref ys1 keep in auto)
  qed simp
qed

section \<open>The whole walk\<close>

lemma truncate_state:
  assumes oh: "overflow_holds b c lv own fl rs" and ref: "root_node_lba (refcount_hdr c) = 0" and K: "codec_ok K"
    and B: "B = insert 0 (ovf_blocks c own fl)" and st: "rw_state K c B es img" and nb: "unat nb < counts es"
  obtains (full) c' where "truncate_extents K c nb 0 0 0 es = Some (Inl OBMAFS3_ERR_NOSPC, c')"
  | (kept) l k c' where "truncate_extents K c nb 0 0 0 es = Some (Inr (l, k), c')" "overflow_holds b c' lv own fl rs" "sb c' = sb c"
      "rw_state K c' B (take k l) (take (unat nb * bsz c) img)" "length (take k l) \<le> length es"
proof -
  note E = slot_env [OF oh]
  have pk: "packed 0 es" using st by (simp add: rw_state_def)
  obtain xs d ys where sp: "es = xs @ d # ys" "counts xs \<le> unat nb" "unat nb < counts xs + unat (logical_count d)"
    by (rule split_at [OF pk, of "unat nb"]) (use nb in simp_all)
  obtain ix x where P: "rw_state K c B xs ix" "length ix = counts xs * bsz c" "ext_at K c (counts xs) d x" "length x = unat (logical_count d) * bsz c"
    "take (length ix + length x) img = ix @ x" "ext_safe c B d" "grouped d" "packed (counts xs) (d # ys)" "packed (counts xs + unat (logical_count d)) ys"
    "all_blocks xs \<inter> ext_blocks d = {}" "all_blocks xs \<inter> all_blocks ys = {}" "ext_blocks d \<inter> all_blocks ys = {}" "\<forall>e \<in> set ys. ext_safe c B e"
    by (rule rw_state_parts [OF st [unfolded sp(1)] E(1)])
  define m where "m = unat nb - counts xs"
  have "unat nb * bsz c = length ix + m * bsz c" unfolding P(2) m_def using sp(2) by (simp flip: distrib_right)
  moreover have mx: "m * bsz c \<le> length x" unfolding P(4) using sp(2,3) by (intro mult_le_mono1) (simp add: m_def)
  ultimately have im: "take (unat nb * bsz c) img = ix @ take (m * bsz c) x"
    using arg_cong [OF P(5), of "take (unat nb * bsz c)"] by (simp add: min_absorb1)
  have z0: "unat (0 :: u64) = 0" "0 + counts xs \<le> unat nb" using sp(2) by simp_all
  obtain pos where pos: "unat pos = counts xs" "truncate_extents K c nb 0 0 0 es = behind xs (truncate_extents K c nb pos (length xs) (length xs) (d # ys))"
  proof -
    have k: "(if xs = [] then 0 else length xs) = length xs" by simp
    show thesis using truncate_keep [OF pk [unfolded sp(1)] z0, of K c 0 0] unfolding add_0 k sp(1) [symmetric]
      by (elim exE conjE) (rule that)
  qed
  have upd: "unat (pos + logical_count d) = counts xs + unat (logical_count d)" using pos(1) packed_less [OF P(9)] by (subst unat_add_less) simp_all
  have gt: "\<not> pos + logical_count d \<le> nb" using upd sp(3) by (simp add: word_le_nat_alt)
  show thesis
  proof (cases "m = 0")
    case True
    then have "unat nb = counts xs" using sp(2) by (simp add: m_def)
    then have u: "unat nb \<le> counts xs" "unat pos = unat nb" using pos(1) by simp_all
    have sf: "\<forall>e \<in> set (d # ys). ext_safe c B e" "all_blocks xs \<inter> all_blocks (d # ys) = {}" using P(6,10,11,13) by auto
    have rw: "rw_state K c B xs (take (unat nb * bsz c) img)" "length xs \<le> length es" using P(1) im True sp(1) by simp_all
    show ?thesis by (rule rest_freed_keep [OF oh ref B rw(1) P(8) sf u pos(2) rw(2)]) (rule that(2); assumption)
  next
    case False
    have um: "unat (nb - pos) = m" unfolding m_def by (rule word_part(2) [OF pos(1) refl sp(2)])
    have m: "0 < unat (nb - pos)" "unat (nb - pos) < unat (logical_count d)" using um False sp(2,3) by (simp_all add: m_def)
    have np: "\<not> nb \<le> pos" using um False pos(1) by (simp add: word_le_nat_alt m_def)
    have u: "unat nb \<le> counts xs + unat (logical_count d)" using sp(3) by simp
    note cut = truncate_extents.simps(2) [of K c nb pos "length xs" "length xs" d ys, unfolded Let_def if_not_P [OF gt] if_not_P [OF np] behind_cons]
    show ?thesis
    proof (cases "plain d")
      case True
      obtain bm where C: "free_run c (phys_start d + (nb - pos)) (unat (phys_count d) - unat (nb - pos)) = Some (c\<lparr>bitmap := bm\<rparr>)" "overflow_holds b (c\<lparr>bitmap := bm\<rparr>) lv own fl rs"
        "rw_state K (c\<lparr>bitmap := bm\<rparr>) B (xs @ [d\<lparr>logical_count := nb - pos, phys_count := nb - pos\<rparr>]) (ix @ take (unat (nb - pos) * bsz c) x)"
        "\<forall>e \<in> set ys. ext_safe (c\<lparr>bitmap := bm\<rparr>) B e" "ext_blocks (d\<lparr>logical_count := nb - pos, phys_count := nb - pos\<rparr>) \<subseteq> ext_blocks d"
        by (rule cut_plain [OF oh ref B P(1,3,6,13,10,12) True m])
      let ?zs = "xs @ [d\<lparr>logical_count := nb - pos, phys_count := nb - pos\<rparr>]"
      have st: "truncate_extents K c nb 0 0 0 es = behind ?zs (truncate_extents K (c\<lparr>bitmap := bm\<rparr>) nb nb (Suc (length xs)) (length ?zs) ys)"
        unfolding pos(2) cut if_P [OF True] C(1) option.case behind_behind(1) by simp
      have dz: "all_blocks ?zs \<inter> all_blocks ys = {}" using C(5) P(11,12) by auto
      have rw: "rw_state K (c\<lparr>bitmap := bm\<rparr>) B ?zs (take (unat nb * bsz c) img)" using C(3) um im by simp
      have r: "root_node_lba (refcount_hdr (c\<lparr>bitmap := bm\<rparr>)) = 0" "B = insert 0 (ovf_blocks (c\<lparr>bitmap := bm\<rparr>) own fl)" "length ?zs \<le> length es"
        using ref B sp(1) by (simp_all add: slot_blocks_def overflow_slot_def)
      show ?thesis by (rule rest_freed_keep [OF C(2) r(1,2) rw P(9) C(4) dz u refl st r(3)]) (rule that(2); (assumption | simp))
    next
      case np: False
      have b16: "bsz c \<le> 65536" by (rule E(5))
      have rd: "read_extent_blocks K c d pos (nb - pos) = Some (Inr (take (unat (nb - pos) * bsz c) x))"
        by (rule read_packed_prefix [OF P(3) np P(7) K b16 pos(1) m(2)])
      show ?thesis
      proof (cases rule: cut_repacked [OF oh ref B P(1,3,4,6,13,10,12) m, case_names full stored])
        case (full c1)
        have "truncate_extents K c nb 0 0 0 es = Some (Inl OBMAFS3_ERR_NOSPC, c1)"
          unfolding pos(2) cut if_not_P [OF np] rd full option.case sum.case prod.case using E(3) by simp
        then show ?thesis by (rule that(1))
      next
        case (stored c1 l c2)
        let ?zs = "xs @ [d\<lparr>phys_start := l, phys_count := nb - pos, logical_count := nb - pos\<rparr>]"
        have st: "truncate_extents K c nb 0 0 0 es = behind ?zs (truncate_extents K c2 nb nb (Suc (length xs)) (length ?zs) ys)"
          unfolding pos(2) cut if_not_P [OF np] rd stored(1,2) option.case sum.case prod.case behind_behind(1) using E(3) by (simp add: behind_behind)
        have dz: "all_blocks ?zs \<inter> all_blocks ys = {}" using stored(8) P(11) by auto
        have rw: "rw_state K c2 B ?zs (take (unat nb * bsz c) img)" using stored(6) um im by simp
        have r: "B = insert 0 (ovf_blocks c2 own fl)" "length ?zs \<le> length es" using stored(4) B sp(1) by (simp_all add: slot_blocks_def)
        show ?thesis by (rule rest_freed_keep [OF stored(3,5) r(1) rw P(9) stored(7) dz u refl st r(2)]) (rule that(2); (assumption | simp add: stored(4)))
      qed
    qed
  qed
qed

lemma sum_counts: "packed n ds \<Longrightarrow> unat (sum_list (map logical_count ds)) = counts ds \<and> n + counts ds < 2 ^ 64"
proof (induction ds arbitrary: n)
  case (Cons d ds)
  from Cons.IH [of "n + unat (logical_count d)"] Cons.prems
  have IH: "unat (sum_list (map logical_count ds)) = counts ds" "n + unat (logical_count d) + counts ds < 2 ^ 64" by simp_all
  then have "unat (logical_count d + sum_list (map logical_count ds)) = unat (logical_count d) + counts ds" by (subst unat_add_less) simp_all
  then show ?case using IH by simp
qed simp



end
