(* ===== verification/EccCd.thy ===== *)
theory EccCd
  imports Prelude "HOL-Library.Signed_Division"
begin

text \<open>
  Error detection and correction codes of CD sectors, src/src/lib/ecc\_cd.c. A sector is a list
  of 2352 bytes. The callers never pass a null sector; a context may be null.
\<close>

section \<open>Tables\<close>

record CdEccContext =
  inited_edc :: bool
  ecc_b_table :: bytes
  ecc_f_table :: bytes
  edc_table :: "u32 list"

definition edc_shift :: "u32 \<Rightarrow> u32" where
  "edc_shift edc = drop_bit 1 edc XOR (if 0 < edc AND 1 then 0xD8018001 else 0)"

definition ecc_double :: "u32 \<Rightarrow> u32" where
  "ecc_double i = push_bit 1 i XOR (if i AND 0x80 = 0x80 then 0x11D else 0)"

definition init_entry :: "u32 \<Rightarrow> CdEccContext \<Rightarrow> CdEccContext" where
  "init_entry i T =
     (let j = ecc_double i in
      T\<lparr>ecc_f_table := (ecc_f_table T)[unat i := ucast j],
        ecc_b_table := (ecc_b_table T)[unat (i XOR j) := ucast i],
        edc_table := (edc_table T)[unat i := (edc_shift ^^ 8) i]\<rparr>)"

text \<open>\<open>fresh\<close> is the memory that malloc returns, with tables of 256 entries.\<close>

definition ecc_cd_init :: "bool \<Rightarrow> CdEccContext \<Rightarrow> CdEccContext option" where
  "ecc_cd_init heap fresh = (if \<not> heap then None else Some ((fold init_entry (map of_nat [0..<256]) fresh)\<lparr>inited_edc := True\<rparr>))"

section \<open>Error detection code\<close>

fun edc_loop :: "CdEccContext \<Rightarrow> u32 \<Rightarrow> bytes \<Rightarrow> nat \<Rightarrow> nat \<Rightarrow> u32" where
  "edc_loop T edc src 0 pos = edc"
| "edc_loop T edc src (Suc n) pos =
     edc_loop T (drop_bit 8 edc XOR edc_table T ! unat ((edc XOR ucast (src ! pos)) AND 0xFF)) src n (Suc pos)"

definition edc_cd_compute :: "CdEccContext option \<Rightarrow> u32 \<Rightarrow> bytes \<Rightarrow> nat \<Rightarrow> nat \<Rightarrow> u32" where
  "edc_cd_compute ctx edc src n pos =
     (case ctx of None \<Rightarrow> 0 | Some T \<Rightarrow> if \<not> inited_edc T then 0 else edc_loop T edc src n pos)"

section \<open>Error correction code\<close>

text \<open>
  Every caller passes the sector as data and as the place of the code; the address is the
  sector too (None) or an array of its own.
\<close>

definition ecc_source :: "bytes option \<Rightarrow> nat \<Rightarrow> nat \<Rightarrow> bytes \<Rightarrow> u32 \<Rightarrow> u8" where
  "ecc_source address address_offset data_offset sec idx =
     (if idx < 4 then (case address of None \<Rightarrow> sec | Some a \<Rightarrow> a) ! (unat idx + address_offset)
      else sec ! (unat idx + data_offset - 4))"

fun ecc_minor :: "CdEccContext \<Rightarrow> (u32 \<Rightarrow> u8) \<Rightarrow> u32 \<Rightarrow> u32 \<Rightarrow> nat \<Rightarrow> u32 \<Rightarrow> u8 \<Rightarrow> u8 \<Rightarrow> u8 \<times> u8" where
  "ecc_minor T rd sz minor_inc 0 idx ecc_a ecc_b = (ecc_a, ecc_b)"
| "ecc_minor T rd sz minor_inc (Suc n) idx ecc_a ecc_b =
     (let temp = rd idx;
          idx1 = idx + minor_inc;
          idx2 = (if sz \<le> idx1 then idx1 - sz else idx1)
      in ecc_minor T rd sz minor_inc n idx2 (ecc_f_table T ! unat (ecc_a XOR temp)) (ecc_b XOR temp))"

definition ecc_parity :: "CdEccContext \<Rightarrow> (u32 \<Rightarrow> u8) \<Rightarrow> u32 \<Rightarrow> u32 \<Rightarrow> u32 \<Rightarrow> u32 \<Rightarrow> u32 \<Rightarrow> u8 \<times> u8" where
  "ecc_parity T rd major_count minor_count major_mult minor_inc major =
     (case ecc_minor T rd (major_count * minor_count) minor_inc (unat minor_count)
             (drop_bit 1 major * major_mult + (major AND 1)) 0 0 of
        (ecc_a, ecc_b) \<Rightarrow>
          let a = ecc_b_table T ! unat (ecc_f_table T ! unat ecc_a XOR ecc_b) in (a, a XOR ecc_b))"

definition ecc_cd_check :: "CdEccContext option \<Rightarrow> bytes option \<Rightarrow> bytes \<Rightarrow> u32 \<Rightarrow> u32 \<Rightarrow> u32 \<Rightarrow> u32 \<Rightarrow> nat \<Rightarrow> nat \<Rightarrow> nat \<Rightarrow> bool" where
  "ecc_cd_check ctx address sec major_count minor_count major_mult minor_inc address_offset data_offset ecc_offset =
     (case ctx of
        None \<Rightarrow> False
      | Some T \<Rightarrow> inited_edc T \<and>
          list_all (\<lambda>major. ecc_parity T (ecc_source address address_offset data_offset sec) major_count minor_count major_mult minor_inc (of_nat major)
              = (sec ! (major + ecc_offset), sec ! (major + unat major_count + ecc_offset))) [0..<unat major_count])"

definition ecc_write_major :: "CdEccContext \<Rightarrow> bytes option \<Rightarrow> u32 \<Rightarrow> u32 \<Rightarrow> u32 \<Rightarrow> u32 \<Rightarrow> nat \<Rightarrow> nat \<Rightarrow> nat \<Rightarrow> nat \<Rightarrow> bytes \<Rightarrow> bytes" where
  "ecc_write_major T address major_count minor_count major_mult minor_inc address_offset data_offset ecc_offset major sec =
     (case ecc_parity T (ecc_source address address_offset data_offset sec) major_count minor_count major_mult minor_inc (of_nat major) of
        (a, ab) \<Rightarrow> sec[major + ecc_offset := a, major + unat major_count + ecc_offset := ab])"

definition ecc_cd_write :: "CdEccContext option \<Rightarrow> bytes option \<Rightarrow> u32 \<Rightarrow> u32 \<Rightarrow> u32 \<Rightarrow> u32 \<Rightarrow> nat \<Rightarrow> nat \<Rightarrow> nat \<Rightarrow> bytes \<Rightarrow> bytes" where
  "ecc_cd_write ctx address major_count minor_count major_mult minor_inc address_offset data_offset ecc_offset sec =
     (case ctx of
        None \<Rightarrow> sec
      | Some T \<Rightarrow> if \<not> inited_edc T then sec
          else fold (ecc_write_major T address major_count minor_count major_mult minor_inc address_offset data_offset ecc_offset)
                 [0..<unat major_count] sec)"

definition ecc_cd_write_sector :: "CdEccContext option \<Rightarrow> bytes option \<Rightarrow> nat \<Rightarrow> nat \<Rightarrow> nat \<Rightarrow> bytes \<Rightarrow> bytes" where
  "ecc_cd_write_sector ctx address address_offset data_offset ecc_offset sec =
     ecc_cd_write ctx address 52 43 86 88 address_offset data_offset (ecc_offset + 0xAC)
       (ecc_cd_write ctx address 86 24 2 86 address_offset data_offset ecc_offset sec)"

section \<open>Sectors\<close>

definition kCdSectorModeAudio :: u8 where "kCdSectorModeAudio = 0"
definition kCdSectorMode1 :: u8 where "kCdSectorMode1 = 1"
definition kCdSectorMode2 :: u8 where "kCdSectorMode2 = 2"
definition kCdSectorMode2Form1 :: u8 where "kCdSectorMode2Form1 = 3"
definition kCdSectorMode2Form2 :: u8 where "kCdSectorMode2Form2 = 4"

definition ecc_cd_is_suffix_correct :: "CdEccContext option \<Rightarrow> bytes \<Rightarrow> bool" where
  "ecc_cd_is_suffix_correct ctx sec =
     (case ctx of
        None \<Rightarrow> False
      | Some T \<Rightarrow>
          if \<not> inited_edc T then False
          else if fld 0x814 8 sec \<noteq> replicate 8 0 then False
          else if \<not> ecc_cd_check ctx None sec 86 24 2 86 0xC 0x10 0x81C then False
          else if \<not> ecc_cd_check ctx None sec 52 43 86 88 0xC 0x10 (0x81C + 0xAC) then False
          else edc_cd_compute ctx 0 sec 0x810 0 = le_dec (fld 0x810 4 sec))"

definition ecc_cd_is_suffix_correct_mode2 :: "CdEccContext option \<Rightarrow> bytes \<Rightarrow> bool" where
  "ecc_cd_is_suffix_correct_mode2 ctx sec =
     (case ctx of
        None \<Rightarrow> False
      | Some T \<Rightarrow>
          if \<not> inited_edc T then False
          else
            let zeroaddress = replicate 4 0;
                form2 = sec ! 0x12 AND 0x20 \<noteq> 0
            in if \<not> ecc_cd_check ctx (Some zeroaddress) sec 86 24 2 86 0 0x10 0x81C then False
               else if \<not> ecc_cd_check ctx (Some zeroaddress) sec 52 43 86 88 0 0x10 (0x81C + 0xAC) then False
               else edc_cd_compute ctx 0 sec (if form2 then 0x91C else 0x808) 0x10 = le_dec (fld (if form2 then 0x92C else 0x818) 4 sec))"

definition ecc_cd_reconstruct :: "CdEccContext option \<Rightarrow> u8 \<Rightarrow> bytes \<Rightarrow> bytes" where
  "ecc_cd_reconstruct ctx type sec =
     (case ctx of
        None \<Rightarrow> sec
      | Some T \<Rightarrow>
          if \<not> inited_edc T then sec
          else if type = kCdSectorMode1 then
            ecc_cd_write_sector ctx None 0xC 0x10 0x81C
              (put 0x814 (replicate 8 0) (put 0x810 (le_enc 4 (edc_cd_compute ctx 0 sec 0x810 0)) sec))
          else if type = kCdSectorMode2Form1 then
            ecc_cd_write_sector ctx (Some (replicate 4 0)) 0 0x10 0x81C
              (put 0x818 (le_enc 4 (edc_cd_compute ctx 0 sec 0x808 0x10)) sec)
          else if type = kCdSectorMode2Form2 then put 0x92C (le_enc 4 (edc_cd_compute ctx 0 sec 0x91C 0x10)) sec
          else sec)"

text \<open>
  The position is an int64; a position within 150 of its largest value, where the addition
  overflows, is never used.
\<close>

definition cd_lba_to_msf :: "int \<Rightarrow> u8 \<times> u8 \<times> u8" where
  "cd_lba_to_msf pos =
     (word_of_int ((pos + 150) sdiv 75 sdiv 60), word_of_int (((pos + 150) sdiv 75) smod 60), word_of_int ((pos + 150) smod 75))"

definition ecc_cd_reconstruct_prefix :: "u8 \<Rightarrow> int \<Rightarrow> bytes \<Rightarrow> bytes" where
  "ecc_cd_reconstruct_prefix type lba sec =
     (let sec1 = put 0 [0x00, 0xFF, 0xFF, 0xFF, 0xFF, 0xFF, 0xFF, 0xFF, 0xFF, 0xFF, 0xFF, 0x00] sec
      in case cd_lba_to_msf lba of (minute, second, frame) \<Rightarrow>
        let sec2 = sec1[0xC := push_bit 4 (minute div 10) + minute mod 10, 0xD := push_bit 4 (second div 10) + second mod 10,
                        0xE := push_bit 4 (frame div 10) + frame mod 10]
        in if type = kCdSectorMode1 then sec2[0xF := 0x01]
           else if type = kCdSectorMode2Form1 \<or> type = kCdSectorMode2Form2 \<or> type = kCdSectorMode2 then
             sec2[0xF := 0x02, 0x10 := sec2 ! 0x14, 0x11 := sec2 ! 0x15, 0x12 := sec2 ! 0x16, 0x13 := sec2 ! 0x17]
           else sec2)"

section \<open>The tables are determined\<close>

lemma fold_update_cover:
  assumes "length xs = length ys" "\<And>p. p < length xs \<Longrightarrow> xs ! p = ys ! p \<or> p \<in> f ` set is"
  shows "fold (\<lambda>i t. t[f i := v i]) is xs = fold (\<lambda>i t. t[f i := v i]) is ys"
  using assms
proof (induction "is" arbitrary: xs ys)
  case (Cons i "is")
  show ?case unfolding fold.simps comp_apply
  proof (rule Cons.IH)
    show "xs[f i := v i] ! p = ys[f i := v i] ! p \<or> p \<in> f ` set is" if "p < length (xs[f i := v i])" for p
      using Cons.prems(2) [of p] Cons.prems(1) that by (cases "p = f i") auto
  qed (use Cons.prems(1) in simp)
qed (auto intro: nth_equalityI)

lemma fold_update_upt: "length t = n \<Longrightarrow> fold (\<lambda>i t. t[i := v i]) [0..<n] t = map v [0..<n]"
proof -
  have "m \<le> length t \<Longrightarrow> fold (\<lambda>i t. t[i := v i]) [0..<m] t = map v [0..<m] @ drop m t" for m
  proof (induction m)
    case (Suc m)
    then have "drop m t = t ! m # drop (Suc m) t" by (simp add: Cons_nth_drop_Suc)
    then show ?case using Suc by (simp add: list_update_append)
  qed simp
  from this [of n] show "length t = n \<Longrightarrow> ?thesis" by simp
qed

definition b_index :: "nat \<Rightarrow> nat" where
  "b_index n = unat (of_nat n XOR ecc_double (of_nat n))"

lemma init_tables:
  fixes ks
  assumes "set ks \<subseteq> {0..<256}"
  shows "fold init_entry (map of_nat ks) T =
    T\<lparr>ecc_f_table := fold (\<lambda>i t. t[i := ucast (ecc_double (of_nat i))]) ks (ecc_f_table T),
      ecc_b_table := fold (\<lambda>i t. t[b_index i := of_nat i]) ks (ecc_b_table T),
      edc_table := fold (\<lambda>i t. t[i := (edc_shift ^^ 8) (of_nat i)]) ks (edc_table T)\<rparr>"
  using assms
proof (induction ks arbitrary: T)
  case (Cons k ks)
  have "unat (of_nat k :: u32) = k" "(ucast (of_nat k :: u32) :: u8) = of_nat k"
    using Cons.prems by (simp_all add: unsigned_of_nat take_bit_nat_eq_self)
  then show ?case using Cons by (simp add: init_entry_def Let_def b_index_def)
qed simp

text \<open>The index of the backward table runs through all entries, since it is linear with kernel 0.\<close>

lemma and_bit: "n < 32 \<Longrightarrow> (i :: u32) AND push_bit n 1 = push_bit n 1 \<longleftrightarrow> bit i n"
proof -
  assume n: "n < 32"
  have "bit (i AND push_bit n 1) m \<longleftrightarrow> bit i n \<and> m = n" for m
    unfolding bit_and_iff bit_push_bit_iff bit_1_iff using n by auto
  moreover have "bit (push_bit n (1 :: u32)) m \<longleftrightarrow> m = n" for m unfolding bit_push_bit_iff bit_1_iff using n by auto
  ultimately show ?thesis by (metis (no_types) bit_eqI)
qed

lemma bit_ecc_double: "bit (ecc_double i) n \<longleftrightarrow> (1 \<le> n \<and> n < 32 \<and> bit i (n - 1)) \<noteq> (bit i 7 \<and> bit (0x11D :: u32) n)"
proof -
  have "i AND 0x80 = 0x80 \<longleftrightarrow> bit i 7" using and_bit [of 7 i] by simp
  moreover have "bit (push_bit 1 i) n \<longleftrightarrow> 1 \<le> n \<and> n < 32 \<and> bit i (n - 1)" unfolding bit_push_bit_iff by auto
  ultimately show ?thesis unfolding ecc_double_def bit_xor_iff by (cases "bit i 7") simp_all
qed

lemma ecc_double_xor: "ecc_double (i XOR j) = ecc_double i XOR ecc_double j"
  by (rule bit_eqI) (auto simp: bit_ecc_double bit_xor_iff)

lemma small_bits: "unat (k :: u32) < 256 \<longleftrightarrow> (\<forall>n \<ge> 8. \<not> bit k n)"
proof
  assume k: "unat k < 256"
  show "\<forall>n \<ge> 8. \<not> bit k n"
  proof (intro allI impI)
    fix n :: nat assume "8 \<le> n"
    then have "(2 :: nat) ^ 8 \<le> 2 ^ n" by (rule power_increasing) simp
    then show "\<not> bit k n" using unat_less_not_bit [of k n] k by simp
  qed
next
  assume "\<forall>n \<ge> 8. \<not> bit k n"
  then have "take_bit 8 k = k" by (intro bit_eqI) (metis bit_take_bit_iff not_le)
  then have "unat k = take_bit 8 (unat k)" by (metis unsigned_take_bit_eq)
  then show "unat k < 256" using take_bit_nat_less_exp [of 8 "unat k"] by simp
qed

lemma small_xor: "unat (i :: u32) < 256 \<Longrightarrow> unat j < 256 \<Longrightarrow> unat (i XOR j) < 256"
  unfolding small_bits by (simp add: bit_xor_iff)

lemma ecc_double_kernel:
  assumes "unat k < 256" "k XOR ecc_double k = 0"
  shows "k = 0"
proof -
  have b: "bit k n \<longleftrightarrow> bit (ecc_double k) n" for n using arg_cong [OF assms(2), of "\<lambda>w. bit w n"] by (simp add: bit_xor_iff)
  have "\<not> bit k 0 \<and> \<not> bit k 1 \<and> \<not> bit k 2 \<and> \<not> bit k 3 \<and> \<not> bit k 4 \<and> \<not> bit k 5 \<and> \<not> bit k 6 \<and> \<not> bit k 7"
    using b [of 0] b [of 1] b [of 2] b [of 3] b [of 4] b [of 5] b [of 6] b [of 7] unfolding bit_ecc_double by simp
  moreover have "\<not> bit k n" if "8 \<le> n" for n using assms(1) that unfolding small_bits by blast
  ultimately have "\<not> bit k n" for n
    by (cases "8 \<le> n") (auto simp: not_le less_Suc_eq numeral_eq_Suc)
  then show "k = 0" by (simp add: bit_eq_iff)
qed

lemma ecc_double_small: "unat i < 256 \<Longrightarrow> unat (ecc_double i) < 256"
  unfolding small_bits
proof (intro allI impI)
  fix n :: nat assume i: "\<forall>n \<ge> 8. \<not> bit i n" and n: "8 \<le> n"
  show "\<not> bit (ecc_double i) n"
  proof (cases "n = 8")
    case True
    then show ?thesis using i by (simp add: bit_ecc_double)
  next
    case False
    then have n9: "9 \<le> n" using n by simp
    then have "(2 :: nat) ^ 9 \<le> 2 ^ n" by (rule power_increasing) simp
    moreover have "8 \<le> n - 1" using n9 by simp
    ultimately show ?thesis using i unat_less_not_bit [of "0x11D :: u32" n] by (simp add: bit_ecc_double)
  qed
qed

lemma b_index_cover: "b_index ` {0..<256} = {0..<256}"
proof (rule endo_inj_surj)
  have u: "unat (of_nat n :: u32) = n" if "n < 256" for n using that by (simp add: unsigned_of_nat take_bit_nat_eq_self)
  show "b_index ` {0..<256} \<subseteq> {0..<256}" using u by (auto simp: b_index_def intro!: small_xor ecc_double_small)
  show "inj_on b_index {0..<256}"
  proof (rule inj_onI)
    fix m n assume mn: "m \<in> {0..<256}" "n \<in> {0..<256}" "b_index m = b_index n"
    let ?m = "of_nat m :: u32" and ?n = "of_nat n :: u32"
    have "?m XOR ecc_double ?m = ?n XOR ecc_double ?n" using mn(3) unfolding b_index_def by (simp only: unsigned_word_eqI)
    then have "(?m XOR ecc_double ?m) XOR (?n XOR ecc_double ?n) = 0" by simp
    then have "(?m XOR ?n) XOR ecc_double (?m XOR ?n) = 0" unfolding ecc_double_xor by (simp only: ac_simps)
    then have "?m XOR ?n = 0" by (rule ecc_double_kernel [rotated]) (use u mn in \<open>auto intro!: small_xor\<close>)
    moreover have "?m = (?m XOR ?n) XOR ?n" by (simp only: xor.assoc xor_self_eq xor.right_neutral)
    ultimately have "?m = ?n" by simp
    then show "m = n" using u mn by (metis atLeastLessThan_iff)
  qed
qed simp

text \<open>The context does not depend on what the memory held.\<close>

definition ecc_tables :: CdEccContext where
  "ecc_tables = \<lparr>inited_edc = True, ecc_b_table = fold (\<lambda>i t. t[b_index i := of_nat i]) [0..<256] (replicate 256 0),
     ecc_f_table = map (\<lambda>i. ucast (ecc_double (of_nat i))) [0..<256], edc_table = map (\<lambda>i. (edc_shift ^^ 8) (of_nat i)) [0..<256]\<rparr>"

lemma ecc_cd_init_eq:
  assumes "length (ecc_b_table fresh) = 256" "length (ecc_f_table fresh) = 256" "length (edc_table fresh) = 256"
  shows "ecc_cd_init True fresh = Some ecc_tables"
proof -
  have "fold (\<lambda>i t. t[b_index i := of_nat i]) [0..<256] (ecc_b_table fresh) = fold (\<lambda>i t. t[b_index i := of_nat i]) [0..<256] (replicate 256 0)"
    by (rule fold_update_cover) (use assms(1) b_index_cover in auto)
  then show ?thesis
    using assms(2,3) unfolding ecc_cd_init_def
    by (subst init_tables) (simp_all add: fold_update_upt ecc_tables_def)
qed

section \<open>The table-driven EDC is the bitwise CRC\<close>

text \<open>The reflected CRC-32 with polynomial 0x8001801B, one bit at a time.\<close>

definition edc_reference :: "u32 \<Rightarrow> bytes \<Rightarrow> u32" where
  "edc_reference edc bs = fold (\<lambda>b e. (edc_shift ^^ 8) (e XOR ucast b)) bs edc"

lemma bit_edc_shift: "bit (edc_shift x) n \<longleftrightarrow> bit x (Suc n) \<noteq> (bit x 0 \<and> bit (0xD8018001 :: u32) n)"
proof -
  have "0 < x AND 1 \<longleftrightarrow> bit x 0" by (simp add: bit_0 and_one_eq odd_iff_mod_2_eq_one word_greater_zero_iff)
  then show ?thesis unfolding edc_shift_def bit_xor_iff bit_drop_bit_eq by (cases "bit x 0") simp_all
qed

lemma edc_shift_xor: "edc_shift (x XOR y) = edc_shift x XOR edc_shift y"
  by (rule bit_eqI) (auto simp: bit_edc_shift bit_xor_iff)

lemma edc_shifts_xor: "(edc_shift ^^ n) (x XOR y) = (edc_shift ^^ n) x XOR (edc_shift ^^ n) y"
  by (induction n) (simp_all add: edc_shift_xor)

lemma edc_shifts_clean: "(\<forall>k < n. \<not> bit x k) \<Longrightarrow> (edc_shift ^^ n) x = drop_bit n x"
proof (induction n)
  case (Suc n)
  then have "(edc_shift ^^ n) x = drop_bit n x" by simp
  moreover have "edc_shift (drop_bit n x) = drop_bit (Suc n) x"
    using Suc.prems by (intro bit_eqI) (simp add: bit_edc_shift bit_drop_bit_eq)
  ultimately show ?case by simp
qed simp

lemma low_byte_bit: "bit (x AND 0xFF :: u32) k \<longleftrightarrow> k < 8 \<and> bit x k"
proof -
  have "x AND 0xFF = take_bit 8 x" by (simp add: take_bit_eq_mask mask_eq_exp_minus_1)
  then show ?thesis by (simp add: bit_take_bit_iff)
qed

lemma edc_step: "(edc_shift ^^ 8) x = drop_bit 8 x XOR (edc_shift ^^ 8) (x AND 0xFF)"
proof -
  let ?h = "x XOR (x AND 0xFF)"
  have "(edc_shift ^^ 8) ?h = drop_bit 8 ?h" by (rule edc_shifts_clean) (simp add: bit_xor_iff low_byte_bit)
  also have "\<dots> = drop_bit 8 x" by (rule bit_eqI) (simp add: bit_drop_bit_eq bit_xor_iff low_byte_bit)
  finally have "(edc_shift ^^ 8) (?h XOR (x AND 0xFF)) = drop_bit 8 x XOR (edc_shift ^^ 8) (x AND 0xFF)" by (simp only: edc_shifts_xor)
  then show ?thesis by (simp add: xor.assoc)
qed

lemma table_step: "drop_bit 8 e XOR edc_table ecc_tables ! unat ((e XOR ucast b) AND 0xFF) = (edc_shift ^^ 8) (e XOR ucast (b :: u8))"
proof -
  let ?x = "e XOR ucast b"
  have "unat (?x AND 0xFF) < 256" unfolding small_bits by (simp add: low_byte_bit)
  then have "edc_table ecc_tables ! unat (?x AND 0xFF) = (edc_shift ^^ 8) (?x AND 0xFF)" by (simp add: ecc_tables_def)
  moreover have "drop_bit 8 ?x = drop_bit 8 e" by (rule bit_eqI) (auto simp: bit_drop_bit_eq bit_xor_iff bit_ucast_iff dest: bit_imp_le_length)
  ultimately show ?thesis by (simp only: edc_step [of ?x])
qed

lemma edc_loop_reference: "n + pos \<le> length src \<Longrightarrow> edc_loop ecc_tables e src n pos = edc_reference e (fld pos n src)"
proof (induction n arbitrary: e pos)
  case (Suc n)
  have "fld pos (Suc n) src = src ! pos # fld (Suc pos) n src"
    using Suc.prems by (simp add: fld_def Cons_nth_drop_Suc [symmetric])
  then show ?case using Suc by (simp add: table_step edc_reference_def)
qed (simp add: edc_reference_def fld_def)

lemma edc_compute_reference: "n + pos \<le> length src \<Longrightarrow> edc_cd_compute (Some ecc_tables) e src n pos = edc_reference e (fld pos n src)"
  by (simp add: edc_cd_compute_def edc_loop_reference) (simp add: ecc_tables_def)

section \<open>The code of a correct sector is what the writer computes\<close>

lemma idx_step:
  assumes "unat idx < unat sz" "unat inc \<le> unat sz" "unat (sz :: u32) < 2 ^ 31"
  shows "unat (if sz \<le> idx + inc then idx + inc - sz else idx + inc) < unat sz"
proof -
  have s: "unat (idx + inc) = unat idx + unat inc" using assms by (subst unat_plus_if') simp
  show ?thesis using assms s by (auto simp: word_le_nat_alt not_le unat_sub)
qed

lemma ecc_minor_cong:
  assumes "\<forall>i. unat i < unat sz \<longrightarrow> rd i = rd' i" "unat minor_inc \<le> unat sz" "unat sz < 2 ^ 31" "unat idx < unat sz"
  shows "ecc_minor T rd sz minor_inc n idx a b = ecc_minor T rd' sz minor_inc n idx a b"
  using assms(4)
proof (induction n arbitrary: idx a b)
  case (Suc n)
  have "rd idx = rd' idx" using assms(1) Suc.prems by blast
  then show ?case using Suc.IH [OF idx_step [OF Suc.prems assms(2,3)]] by (simp add: Let_def)
qed simp

lemma unat_add_le: "unat (a + b) \<le> unat a + unat (b :: 'a::len word)"
  by (simp add: unat_word_ariths)

lemma unat_mult_le: "unat (a * b) \<le> unat a * unat (b :: 'a::len word)"
  by (simp add: unat_word_ariths)

text \<open>The layouts of the P and Q codes: how many words, how long, and where the first one starts.\<close>

definition ecc_layout :: "u32 \<Rightarrow> u32 \<Rightarrow> u32 \<Rightarrow> u32 \<Rightarrow> bool" where
  "ecc_layout majors minors mult inc \<longleftrightarrow>
     unat (majors * minors) = unat majors * unat minors \<and> unat (majors * minors) < 2 ^ 31 \<and> unat inc \<le> unat (majors * minors) \<and>
     (unat majors - 1) div 2 * unat mult + 1 < unat (majors * minors)"

lemma layouts: "ecc_layout 86 24 2 86" "ecc_layout 52 43 86 88"
  by (simp_all add: ecc_layout_def)

lemma unat_and_1: "unat ((w :: u32) AND 1) \<le> 1"
  by (simp add: and_one_eq unat_mod)

lemma first_index:
  assumes "ecc_layout majors minors mult inc" "m < unat majors"
  shows "unat (drop_bit 1 (of_nat m) * mult + (of_nat m AND 1 :: u32)) < unat (majors * minors)"
proof -
  let ?m = "of_nat m :: u32"
  have "unat (drop_bit 1 ?m) = unat ?m div 2" by (subst unat_drop_bit_eq) (simp add: drop_bit_eq_div)
  moreover have "unat ?m \<le> m" by (simp add: unsigned_of_nat take_bit_nat_eq_self_iff take_bit_nat_less_eq_self)
  ultimately have "unat (drop_bit 1 ?m) \<le> (unat majors - 1) div 2" using assms(2) by (simp add: div_le_mono)
  then have "unat (drop_bit 1 ?m * mult) \<le> (unat majors - 1) div 2 * unat mult"
    by (meson unat_mult_le mult_le_mono1 order_trans)
  then show ?thesis using unat_add_le [of "drop_bit 1 ?m * mult" "?m AND 1"] unat_and_1 [of ?m] assms(1)
    unfolding ecc_layout_def by linarith
qed

lemma ecc_parity_cong:
  assumes "ecc_layout majors minors mult inc" "\<forall>i. unat i < unat (majors * minors) \<longrightarrow> rd i = rd' i" "m < unat majors"
  shows "ecc_parity T rd majors minors mult inc (of_nat m) = ecc_parity T rd' majors minors mult inc (of_nat m)"
proof -
  have "ecc_minor T rd (majors * minors) inc (unat minors) (drop_bit 1 (of_nat m) * mult + (of_nat m AND 1)) 0 0 =
      ecc_minor T rd' (majors * minors) inc (unat minors) (drop_bit 1 (of_nat m) * mult + (of_nat m AND 1)) 0 0"
    by (rule ecc_minor_cong) (use assms first_index [OF assms(1,3)] in \<open>simp_all add: ecc_layout_def\<close>)
  then show ?thesis unfolding ecc_parity_def by simp
qed

text \<open>The sources of a code lie before the code.\<close>

definition ecc_before :: "bytes option \<Rightarrow> nat \<Rightarrow> nat \<Rightarrow> nat \<Rightarrow> nat \<Rightarrow> bool" where
  "ecc_before address aoff doff n off \<longleftrightarrow> 4 \<le> doff + n \<and> doff + n \<le> off + 4 \<and> (address = None \<longrightarrow> aoff + 4 \<le> off)"

lemma ecc_source_cong:
  assumes "ecc_before address aoff doff n off" "take off s = take off r" "off \<le> length s" "off \<le> length r" "unat i < n"
  shows "ecc_source address aoff doff s i = ecc_source address aoff doff r i"
proof -
  have eq: "s ! p = r ! p" if "p < off" for p using arg_cong [OF assms(2), of "\<lambda>l. l ! p"] that assms(3,4) by simp
  show ?thesis
  proof (cases "i < 4")
    case True
    then have "unat i < 4" by (simp add: word_less_nat_alt)
    then show ?thesis using eq [of "unat i + aoff"] assms(1) True unfolding ecc_source_def ecc_before_def by (cases address) auto
  next
    case False
    then have "4 \<le> unat i" by (simp add: word_le_nat_alt not_less)
    then have "unat i + doff - 4 < off" using assms(1,5) unfolding ecc_before_def by linarith
    then show ?thesis using eq [of "unat i + doff - 4"] False unfolding ecc_source_def by simp
  qed
qed

lemma ecc_write_restores:
  assumes lay: "ecc_layout majors minors mult inc" "ecc_before address aoff doff (unat (majors * minors)) off"
    and r: "ecc_cd_check (Some T) address r majors minors mult inc aoff doff off" "off + 2 * unat majors \<le> length r"
    and s: "length s = length r" "take off s = take off r"
  shows "let w = ecc_cd_write (Some T) address majors minors mult inc aoff doff off s
    in length w = length r \<and> take (off + 2 * unat majors) w = take (off + 2 * unat majors) r"
proof -
  let ?N = "unat majors"
  let ?P = "\<lambda>x m. ecc_parity T (ecc_source address aoff doff x) majors minors mult inc (of_nat m)"
  have T: "inited_edc T" and chk: "m < ?N \<Longrightarrow> ?P r m = (r ! (m + off), r ! (m + ?N + off))" for m
    using r(1) by (simp_all add: ecc_cd_check_def list_all_iff)
  let ?W = "\<lambda>n. fold (ecc_write_major T address majors minors mult inc aoff doff off) [0..<n] s"
  have W: "n \<le> ?N \<Longrightarrow> length (?W n) = length r \<and> take off (?W n) = take off r \<and>
      (\<forall>m < n. ?W n ! (m + off) = r ! (m + off) \<and> ?W n ! (m + ?N + off) = r ! (m + ?N + off))" for n
  proof (induction n)
    case (Suc n)
    then have n: "n < ?N" and IH: "length (?W n) = length r" "take off (?W n) = take off r"
      "\<forall>m < n. ?W n ! (m + off) = r ! (m + off) \<and> ?W n ! (m + ?N + off) = r ! (m + ?N + off)" by simp_all
    have "?P (?W n) n = ?P r n"
      by (rule ecc_parity_cong [OF lay(1) _ n]) (use ecc_source_cong [OF lay(2) IH(2)] IH(1) r(2) in auto)
    then have "?W (Suc n) = (?W n)[n + off := r ! (n + off), n + ?N + off := r ! (n + ?N + off)]"
      using chk [OF n] by (simp add: ecc_write_major_def)
    then show ?case using IH n r(2) by (auto simp: nth_list_update less_Suc_eq)
  qed (use s in simp)
  have w: "ecc_cd_write (Some T) address majors minors mult inc aoff doff off s = ?W ?N" using T by (simp add: ecc_cd_write_def)
  have "?W ?N ! p = r ! p" if "p < off + 2 * ?N" for p
  proof -
    consider "p < off" | m where "m < ?N" "p = m + off" | m where "m < ?N" "p = m + ?N + off"
    proof (cases "p < off")
      case False
      then show ?thesis using \<open>p < off + 2 * ?N\<close> that(2) [of "p - off"] that(3) [of "p - off - ?N"] by (cases "p - off < ?N") auto
    qed (use that in blast)
    then show ?thesis
    proof cases
      case 1
      have "take off (?W ?N) ! p = take off r ! p" using W [of ?N] by simp
      then show ?thesis using 1 by simp
    qed (use W [of ?N] in auto)
  qed
  then show ?thesis using W [of ?N] r(2) unfolding w Let_def by (auto intro: nth_equalityI)
qed

lemma ecc_write_sector_restores:
  assumes "ecc_cd_check (Some T) address r 86 24 2 86 aoff 0x10 0x81C" "ecc_cd_check (Some T) address r 52 43 86 88 aoff 0x10 (0x81C + 0xAC)"
    and "length r = 2352" "length s = 2352" "take 0x81C s = take 0x81C r" "aoff \<le> 0xC"
  shows "ecc_cd_write_sector (Some T) address aoff 0x10 0x81C s = r"
proof -
  let ?w = "ecc_cd_write (Some T) address 86 24 2 86 aoff 0x10 0x81C s"
  have p: "length ?w = length r \<and> take 2248 ?w = take 2248 r"
    using ecc_write_restores [OF layouts(1) _ assms(1)] assms(3-6) by (simp add: ecc_before_def Let_def)
  have "take 2352 (ecc_cd_write (Some T) address 52 43 86 88 aoff 0x10 2248 ?w) = take 2352 r \<and>
      length (ecc_cd_write (Some T) address 52 43 86 88 aoff 0x10 2248 ?w) = length r"
    using ecc_write_restores [OF layouts(2) _ assms(2), of ?w] assms(3,6) p by (simp add: ecc_before_def Let_def)
  then have "ecc_cd_write (Some T) address 52 43 86 88 aoff 0x10 2248 ?w = r" using assms(3) take_all [of r 2352] by (metis le_refl take_all)
  then show ?thesis by (simp add: ecc_cd_write_sector_def)
qed

lemma take_put_more:
  assumes "take off s = take off r" "fld off (length xs) r = xs" "length s = length r" "off + length xs \<le> length r"
  shows "take (off + length xs) (put off xs s) = take (off + length xs) r" "length (put off xs s) = length r"
proof -
  have "take (off + length xs) (put off xs s) = take off s @ xs" using assms(3,4) by (simp add: put_def min_absorb1)
  also have "\<dots> = take (off + length xs) r" using assms(1,2) by (simp add: take_add fld_def)
  finally show "take (off + length xs) (put off xs s) = take (off + length xs) r" .
  show "length (put off xs s) = length r" using assms(3,4) by simp
qed

lemma edc_loop_cong: "(\<forall>p. pos \<le> p \<longrightarrow> p < pos + n \<longrightarrow> s ! p = r ! p) \<Longrightarrow> edc_loop T e s n pos = edc_loop T e r n pos"
  by (induction n arbitrary: e pos) simp_all

lemma edc_compute_cong: "take (pos + n) s = take (pos + n) r \<Longrightarrow> pos + n \<le> length s \<Longrightarrow> pos + n \<le> length r \<Longrightarrow>
  edc_cd_compute ctx e s n pos = edc_cd_compute ctx e r n pos"
proof -
  assume a: "take (pos + n) s = take (pos + n) r" "pos + n \<le> length s" "pos + n \<le> length r"
  have "s ! p = r ! p" if "p < pos + n" for p using arg_cong [OF a(1), of "\<lambda>l. l ! p"] that a(2,3) by simp
  then have "edc_loop T e s n pos = edc_loop T e r n pos" for T by (simp add: edc_loop_cong)
  then show ?thesis unfolding edc_cd_compute_def by (cases ctx) simp_all
qed

lemma stored_edc:
  fixes e :: u32
  assumes "e = le_dec (fld off 4 r)" "off + 4 \<le> length r"
  shows "fld off 4 r = le_enc 4 e"
proof -
  have "length (fld off 4 r) = 4" using assms(2) by simp
  then show ?thesis using le_enc_dec [of "fld off 4 r", where 'a = 32] assms(1) by simp
qed

lemma edc_field:
  fixes r :: bytes
  assumes "edc_cd_compute ctx 0 r n pos = le_dec (fld off 4 r)" "take off s = take off r" "pos + n \<le> off" "length s = length r" "off + 4 \<le> length r"
  shows "take (off + 4) (put off (le_enc 4 (edc_cd_compute ctx 0 s n pos)) s) = take (off + 4) r"
    "length (put off (le_enc 4 (edc_cd_compute ctx 0 s n pos)) s) = length r"
proof -
  have "take (min (pos + n) off) s = take (min (pos + n) off) r" by (metis assms(2) take_take)
  then have "edc_cd_compute ctx 0 s n pos = edc_cd_compute ctx 0 r n pos"
    using assms(3-5) by (intro edc_compute_cong) (simp_all add: min_def)
  then have f: "fld off 4 r = le_enc 4 (edc_cd_compute ctx 0 s n pos)" using stored_edc assms(1,5) by simp
  show "take (off + 4) (put off (le_enc 4 (edc_cd_compute ctx 0 s n pos)) s) = take (off + 4) r"
    "length (put off (le_enc 4 (edc_cd_compute ctx 0 s n pos)) s) = length r"
    using take_put_more [of off s r "le_enc 4 (edc_cd_compute ctx 0 s n pos)"] assms(2,4,5) f by simp_all
qed

text \<open>Where the data of a sector ends and the generated suffix starts.\<close>

definition suffix_start :: "u8 \<Rightarrow> nat" where
  "suffix_start mode = (if mode = kCdSectorMode1 then 0x810 else if mode = kCdSectorMode2Form1 then 0x818 else 0x92C)"

lemma mode1_restored:
  assumes "ecc_cd_is_suffix_correct ctx r" "length r = 2352" "length s = 2352" "take 0x810 s = take 0x810 r"
  shows "ecc_cd_reconstruct ctx kCdSectorMode1 s = r"
proof -
  from assms(1) obtain T where T: "ctx = Some T" "inited_edc T" "fld 0x814 8 r = replicate 8 0"
    "ecc_cd_check (Some T) None r 86 24 2 86 0xC 0x10 0x81C" "ecc_cd_check (Some T) None r 52 43 86 88 0xC 0x10 (0x81C + 0xAC)"
    "edc_cd_compute (Some T) 0 r 0x810 0 = le_dec (fld 0x810 4 r)"
    by (auto simp: ecc_cd_is_suffix_correct_def split: option.splits if_splits)
  let ?e = "put 0x810 (le_enc 4 (edc_cd_compute ctx 0 s 0x810 0)) s"
  have e: "take 0x814 ?e = take 0x814 r" "length ?e = length r"
    using edc_field [OF T(6), of s] assms(2-4) T(1) by simp_all
  have "take 0x81C (put 0x814 (replicate 8 0) ?e) = take 0x81C r" "length (put 0x814 (replicate 8 0) ?e) = length r"
    using take_put_more [of "0x814" ?e r "replicate 8 0"] e T(3) assms(2) by simp_all
  then show ?thesis using ecc_write_sector_restores [OF T(4,5) assms(2)] T(1,2) assms(2)
    unfolding ecc_cd_reconstruct_def by simp
qed

lemma form1_restored:
  assumes "ecc_cd_is_suffix_correct_mode2 ctx r" "r ! 0x12 AND 0x20 = 0" "length r = 2352" "length s = 2352" "take 0x818 s = take 0x818 r"
  shows "ecc_cd_reconstruct ctx kCdSectorMode2Form1 s = r"
proof -
  from assms(1,2) obtain T where T: "ctx = Some T" "inited_edc T"
    "ecc_cd_check (Some T) (Some (replicate 4 0)) r 86 24 2 86 0 0x10 0x81C" "ecc_cd_check (Some T) (Some (replicate 4 0)) r 52 43 86 88 0 0x10 (0x81C + 0xAC)"
    "edc_cd_compute (Some T) 0 r 0x808 0x10 = le_dec (fld 0x818 4 r)"
    by (auto simp: ecc_cd_is_suffix_correct_mode2_def Let_def split: option.splits if_splits)
  let ?e = "put 0x818 (le_enc 4 (edc_cd_compute ctx 0 s 0x808 0x10)) s"
  have e: "take 0x81C ?e = take 0x81C r" "length ?e = length r"
    using edc_field [OF T(5), of s] assms(3-5) T(1) by simp_all
  show ?thesis using ecc_write_sector_restores [OF T(3,4) assms(3) _ e(1)] e(2) T(1,2) assms(3)
    unfolding ecc_cd_reconstruct_def by (simp add: kCdSectorMode1_def kCdSectorMode2Form1_def)
qed

lemma form2_restored:
  assumes "ecc_cd_is_suffix_correct_mode2 ctx r" "r ! 0x12 AND 0x20 \<noteq> 0" "length r = 2352" "length s = 2352" "take 0x92C s = take 0x92C r"
  shows "ecc_cd_reconstruct ctx kCdSectorMode2Form2 s = r"
proof -
  from assms(1,2) obtain T where T: "ctx = Some T" "inited_edc T" "edc_cd_compute (Some T) 0 r 0x91C 0x10 = le_dec (fld 0x92C 4 r)"
    by (auto simp: ecc_cd_is_suffix_correct_mode2_def Let_def split: option.splits if_splits)
  let ?e = "put 0x92C (le_enc 4 (edc_cd_compute ctx 0 s 0x91C 0x10)) s"
  have "take 2352 ?e = take 2352 r" "length ?e = length r"
    using edc_field [OF T(3), of s] assms(3-5) T(1) by simp_all
  then show ?thesis using T(1,2) assms(3)
    unfolding ecc_cd_reconstruct_def by (simp add: kCdSectorMode1_def kCdSectorMode2Form1_def kCdSectorMode2Form2_def)
qed

section \<open>Every burst of up to four bytes changes the EDC\<close>

lemma edc_shift_inj: "edc_shift x = edc_shift y \<Longrightarrow> x = y"
proof (rule bit_eqI)
  fix n assume eq: "edc_shift x = edc_shift y"
  have b: "(bit x (Suc k) \<noteq> (bit x 0 \<and> bit (0xD8018001 :: u32) k)) = (bit y (Suc k) \<noteq> (bit y 0 \<and> bit (0xD8018001 :: u32) k))" for k
    using arg_cong [OF eq, of "\<lambda>w. bit w k"] unfolding bit_edc_shift .
  have "\<not> bit w (Suc 31)" for w :: u32 by (auto dest: bit_imp_le_length)
  then have "bit x 0 = bit y 0" using b [of 31] by simp
  then show "bit x n = bit y n" using b [of "n - 1"] by (cases n) auto
qed

lemma edc_shifts_inj: "(edc_shift ^^ n) x = (edc_shift ^^ n) y \<Longrightarrow> x = y"
  by (induction n) (simp_all add: edc_shift_inj)

lemma edc_reference_append: "edc_reference e (xs @ ys) = edc_reference (edc_reference e xs) ys"
  by (simp add: edc_reference_def)

lemma edc_reference_state_inj: "edc_reference e bs = edc_reference e' bs \<Longrightarrow> e = e'"
proof (induction bs arbitrary: e e')
  case (Cons b bs)
  then have "(edc_shift ^^ 8) (e XOR ucast b) = (edc_shift ^^ 8) (e' XOR ucast b)" by (simp add: edc_reference_def)
  then have eq: "e XOR ucast b = e' XOR ucast b" by (rule edc_shifts_inj)
  have "x = (x XOR ucast b) XOR ucast b" for x :: u32 by (simp only: xor.assoc xor_self_eq xor.right_neutral)
  then show "e = e'" using eq by metis
qed (simp add: edc_reference_def)

lemma bit_le_dec_high: "length bs \<le> 4 \<Longrightarrow> 8 * length bs \<le> k \<Longrightarrow> \<not> bit (le_dec bs :: u32) k"
proof -
  assume a: "length bs \<le> 4" "8 * length bs \<le> k"
  then have "length bs \<le> k div 8" by (simp add: less_eq_div_iff_mult_less_eq mult.commute)
  then show ?thesis using bit_le_dec [of bs, where 'a = 32] a(1) by simp
qed

lemma edc_reference_word:
  assumes "length bs \<le> 4"
  shows "edc_reference e bs = (edc_shift ^^ (8 * length bs)) (e XOR le_dec bs)"
  using assms
proof (induction bs arbitrary: e)
  case (Cons b bs)
  have split: "le_dec (b # bs) = ucast b XOR push_bit 8 (le_dec bs :: u32)"
    by (rule bit_eqI) (auto simp: bit_or_iff bit_xor_iff bit_push_bit_iff bit_ucast_iff dest: bit_imp_le_length)
  have "(edc_shift ^^ 8) (push_bit 8 (le_dec bs)) = drop_bit 8 (push_bit 8 (le_dec bs))" by (rule edc_shifts_clean) (simp add: bit_push_bit_iff)
  also have "\<dots> = le_dec bs"
  proof (rule bit_eqI)
    fix k
    show "bit (drop_bit 8 (push_bit 8 (le_dec bs :: u32))) k = bit (le_dec bs :: u32) k"
      using bit_le_dec_high [of bs k] Cons.prems by (cases "k < 24") (auto simp: bit_drop_bit_eq bit_push_bit_iff)
  qed
  finally have eight: "(edc_shift ^^ 8) (e XOR ucast b XOR push_bit 8 (le_dec bs)) = (edc_shift ^^ 8) (e XOR ucast b) XOR le_dec bs"
    by (simp only: edc_shifts_xor xor.assoc)
  have "edc_reference e (b # bs) = edc_reference ((edc_shift ^^ 8) (e XOR ucast b)) bs" by (simp add: edc_reference_def)
  also have "\<dots> = (edc_shift ^^ (8 * length bs)) ((edc_shift ^^ 8) (e XOR ucast b) XOR le_dec bs)" using Cons by simp
  also have "\<dots> = (edc_shift ^^ (8 * length bs)) ((edc_shift ^^ 8) (e XOR le_dec (b # bs)))" by (simp only: eight split xor.assoc)
  also have "\<dots> = (edc_shift ^^ (8 * length (b # bs))) (e XOR le_dec (b # bs))"
    by (simp only: length_Cons mult_Suc_right add.commute [of 8] funpow_add comp_apply)
  finally show ?case .
qed (simp add: edc_reference_def)

lemma edc_reference_burst:
  assumes "length bs = length bs'" "length bs \<le> 4" "edc_reference e (xs @ bs @ ys) = edc_reference e (xs @ bs' @ ys)"
  shows "bs = bs'"
proof -
  have "edc_reference (edc_reference e xs) bs = edc_reference (edc_reference e xs) bs'"
    using assms(3) by (simp only: edc_reference_append) (rule edc_reference_state_inj)
  then have eq: "edc_reference e xs XOR le_dec bs = edc_reference e xs XOR le_dec bs'"
    using edc_shifts_inj [of "8 * length bs"] assms(1,2) edc_reference_word [of bs] edc_reference_word [of bs'] by simp
  have "edc_reference e xs XOR (edc_reference e xs XOR le_dec bs) = edc_reference e xs XOR (edc_reference e xs XOR le_dec bs')"
    by (simp only: eq)
  then have "le_dec bs = (le_dec bs' :: u32)" by (simp only: xor.assoc [symmetric] xor_self_eq xor.left_neutral)
  then have "le_enc (length bs) (le_dec bs :: u32) = le_enc (length bs') (le_dec bs' :: u32)" using assms(1) by simp
  moreover have "le_enc (length b) (le_dec b :: u32) = b" if "length b \<le> 4" for b using le_enc_dec [of b, where 'a = 32] that by simp
  ultimately show "bs = bs'" using assms(1,2) by metis
qed

lemma fld_split:
  assumes "a \<le> p" "p + m \<le> a + n" "a + n \<le> length r"
  shows "fld a n r = fld a (p - a) r @ fld p m r @ fld (p + m) (a + n - (p + m)) r"
proof -
  have "fld a n r = take ((p - a) + (m + (a + n - (p + m)))) (drop a r)" using assms by (simp add: fld_def)
  also have "\<dots> = fld a (p - a) r @ fld p m r @ fld (p + m) (a + n - (p + m)) r"
    using assms(1) by (simp only: take_add drop_drop fld_def) (simp add: add.commute)
  finally show ?thesis .
qed

lemma burst_changes_edc:
  assumes "a \<le> p" "p + length bs \<le> a + n" "a + n \<le> length r" "length bs \<le> 4"
    and "edc_reference 0 (fld a n (put p bs r)) = edc_reference 0 (fld a n r)"
  shows "put p bs r = r"
proof -
  let ?m = "length bs"
  have l: "length (put p bs r) = length r" using assms(2,3) by simp
  have "fld a (p - a) (put p bs r) = fld a (p - a) r" "fld p ?m (put p bs r) = bs"
    "fld (p + ?m) (a + n - (p + ?m)) (put p bs r) = fld (p + ?m) (a + n - (p + ?m)) r"
    using assms(1-3) by (simp_all add: fld_put_same fld_put_other)
  then have "fld a n (put p bs r) = fld a (p - a) r @ bs @ fld (p + ?m) (a + n - (p + ?m)) r"
    using fld_split [OF assms(1,2), of "put p bs r"] l assms(3) by simp
  then have "bs = fld p ?m r"
    using assms(2-5) fld_split [OF assms(1-3)] edc_reference_burst [of bs "fld p ?m r" 0 "fld a (p - a) r" "fld (p + ?m) (a + n - (p + ?m)) r"] by simp
  then show ?thesis by (simp add: put_def fld_def) (metis append.assoc append_take_drop_id take_add)
qed

section \<open>The sector of zeros is correct\<close>

lemma fold_update_inj:
  assumes "inj_on f (set is)" "i \<in> set is" "f i < length t"
  shows "fold (\<lambda>i t. t[f i := v i]) is t ! f i = v i"
  using assms
proof (induction "is" arbitrary: t)
  case (Cons k "is")
  show ?case
  proof (cases "i \<in> set is")
    case True
    then show ?thesis using Cons by simp
  next
    case False
    then have "i = k" using Cons.prems by simp
    moreover have "f k \<notin> f ` set is" using Cons.prems(1) False \<open>i = k\<close> by (auto dest: inj_onD)
    moreover have "p \<notin> f ` set js \<Longrightarrow> fold (\<lambda>i t. t[f i := v i]) js u ! p = u ! p" for p js u by (induction js arbitrary: u) auto
    ultimately show ?thesis using Cons.prems(3) by simp
  qed
qed simp

lemma b_index_inj: "inj_on b_index {0..<256}"
  using b_index_cover by (intro eq_card_imp_inj_on) simp_all

lemma b_table_inverse: "i < 256 \<Longrightarrow> ecc_b_table ecc_tables ! b_index i = of_nat i"
  unfolding ecc_tables_def CdEccContext.select_convs
  by (rule fold_update_inj) (use b_index_inj b_index_cover in auto)

lemma zero_tables: "ecc_f_table ecc_tables ! 0 = 0" "ecc_b_table ecc_tables ! 0 = 0"
  using b_table_inverse [of 0] by (simp_all add: b_index_def ecc_tables_def ecc_double_def)

lemma ecc_parity_zero: "(\<forall>i. unat i < unat (majors * minors) \<longrightarrow> rd i = 0) \<Longrightarrow> ecc_layout majors minors mult inc \<Longrightarrow> m < unat majors \<Longrightarrow>
  ecc_parity ecc_tables rd majors minors mult inc (of_nat m) = (0, 0)"
proof -
  assume a: "\<forall>i. unat i < unat (majors * minors) \<longrightarrow> rd i = 0" "ecc_layout majors minors mult inc" "m < unat majors"
  have "ecc_minor ecc_tables (\<lambda>_. 0) sz mi n idx 0 0 = (0, 0)" for sz mi n idx
    by (induction n arbitrary: idx) (simp_all add: Let_def zero_tables)
  then have "ecc_parity ecc_tables (\<lambda>_. 0) majors minors mult inc (of_nat m) = (0, 0)" by (simp add: ecc_parity_def zero_tables)
  then show ?thesis using ecc_parity_cong [OF a(2) _ a(3), of rd "\<lambda>_. 0"] a(1) by simp
qed

lemma edc_reference_zeros: "edc_reference 0 (replicate n 0) = 0"
proof (induction n)
  case (Suc n)
  have "(edc_shift ^^ 8) 0 = 0" by (simp add: edc_shift_def eval_nat_numeral)
  then show ?case using Suc by (simp add: edc_reference_def)
qed (simp add: edc_reference_def)

definition zero_sector :: bytes where "zero_sector = replicate 2352 0"

lemma zero_sector_checks:
  assumes "ecc_layout majors minors mult inc" "ecc_before None aoff doff (unat (majors * minors)) off" "off + 2 * unat majors \<le> 2352"
  shows "ecc_cd_check (Some ecc_tables) None zero_sector majors minors mult inc aoff doff off"
proof -
  have "ecc_parity ecc_tables (ecc_source None aoff doff zero_sector) majors minors mult inc (of_nat m) = (0, 0)" if "m < unat majors" for m
  proof (rule ecc_parity_zero [OF _ assms(1) that], intro allI impI)
    fix i :: u32 assume i: "unat i < unat (majors * minors)"
    have "unat i < 4 \<longrightarrow> unat i + aoff < 2352" using assms(2,3) unfolding ecc_before_def by auto
    moreover have "unat i + doff - 4 < 2352" using i assms(2,3) unfolding ecc_before_def by auto
    ultimately show "ecc_source None aoff doff zero_sector i = 0" unfolding ecc_source_def zero_sector_def by (auto simp: word_less_nat_alt)
  qed
  then show ?thesis using assms(3) by (simp add: ecc_cd_check_def list_all_iff) (simp add: zero_sector_def ecc_tables_def)
qed

lemma zero_sector_correct: "ecc_cd_is_suffix_correct (Some ecc_tables) zero_sector"
proof -
  have "inited_edc ecc_tables" by (simp add: ecc_tables_def)
  moreover have "edc_cd_compute (Some ecc_tables) 0 zero_sector 2064 0 = 0"
    by (subst edc_compute_reference) (simp_all add: zero_sector_def fld_def edc_reference_zeros)
  ultimately show ?thesis
    using zero_sector_checks [OF layouts(1), of 12 16 2076] zero_sector_checks [OF layouts(2), of 12 16 2248]
    by (simp add: ecc_cd_is_suffix_correct_def ecc_before_def) (simp add: zero_sector_def fld_def)
qed

definition fresh_tables :: CdEccContext where
  "fresh_tables = \<lparr>inited_edc = False, ecc_b_table = replicate 256 0xAA, ecc_f_table = replicate 256 0xAA, edc_table = replicate 256 0xAAAAAAAA\<rparr>"

lemma fresh_init: "ecc_cd_init True fresh_tables = Some ecc_tables"
  by (rule ecc_cd_init_eq) (simp_all add: fresh_tables_def)

section \<open>Properties\<close>

text \<open>
  C37: the error detection code computed with the table, one byte at a time, is the reflected
  CRC-32 with polynomial 0x8001801B of the bytes, computed one bit at a time, for every start
  value, and whatever malloc left in the memory of the tables.
\<close>

theorem edc_table_is_crc:
  assumes "length (ecc_b_table fresh) = 256" "length (ecc_f_table fresh) = 256" "length (edc_table fresh) = 256"
    and "pos + n \<le> length src"
  shows "edc_cd_compute (ecc_cd_init True fresh) edc src n pos = edc_reference edc (fld pos n src)"
  using edc_compute_reference [of n pos src edc] assms(4) ecc_cd_init_eq [OF assms(1-3)] by (simp add: add.commute)

theorem edc_table_is_crc_witness:
  "edc_cd_compute (ecc_cd_init True fresh_tables) 0 [7, 1, 7] 1 1 = 0x90910101"
proof -
  have "(edc_shift ^^ 8) x = edc_shift (edc_shift (edc_shift (edc_shift (edc_shift (edc_shift (edc_shift (edc_shift x)))))))" for x
    by (simp add: eval_nat_numeral)
  then have "edc_reference 0 [1] = 0x90910101" by (simp add: edc_reference_def) (simp add: edc_shift_def)
  then show ?thesis by (subst edc_table_is_crc) (simp_all add: fresh_tables_def fld_def)
qed

text \<open>
  C38: the suffix checks detect every burst: when a Mode 1 or Mode 2 sector passes its check and
  up to four consecutive bytes covered by the error detection code change (in Mode 2, bytes
  after the one that holds the form), the check fails afterwards.
\<close>

theorem burst_detected:
  assumes "length (ecc_b_table fresh) = 256" "length (ecc_f_table fresh) = 256" "length (edc_table fresh) = 256"
    and "length sec = 2352" "length bs \<le> 4" "put p bs sec \<noteq> sec"
  shows "(p + length bs \<le> 0x810 \<and> ecc_cd_is_suffix_correct (ecc_cd_init True fresh) sec \<longrightarrow>
      \<not> ecc_cd_is_suffix_correct (ecc_cd_init True fresh) (put p bs sec)) \<and>
    (0x13 \<le> p \<and> p + length bs \<le> (if sec ! 0x12 AND 0x20 \<noteq> 0 then 0x92C else 0x818) \<and>
      ecc_cd_is_suffix_correct_mode2 (ecc_cd_init True fresh) sec \<longrightarrow>
      \<not> ecc_cd_is_suffix_correct_mode2 (ecc_cd_init True fresh) (put p bs sec))"
proof -
  have ctx: "ecc_cd_init True fresh = Some ecc_tables" using ecc_cd_init_eq [OF assms(1-3)] .
  let ?r = "put p bs sec"
  have detect: False if "a \<le> p" "p + length bs \<le> a + n" "a + n \<le> off" "off + 4 \<le> 2352"
    "edc_cd_compute (Some ecc_tables) 0 sec n a = le_dec (fld off 4 sec)" "edc_cd_compute (Some ecc_tables) 0 ?r n a = le_dec (fld off 4 ?r)" for a n off
  proof -
    have "fld off 4 ?r = fld off 4 sec" using that(1-4) assms(4) by (intro fld_put_other) simp_all
    then have "edc_reference 0 (fld a n ?r) = edc_reference 0 (fld a n sec)"
      using that edc_compute_reference [of n a sec 0] edc_compute_reference [of n a ?r 0] assms(4) by simp
    then show False using burst_changes_edc [of a p bs n sec] that(1-4) assms(4-6) by simp
  qed
  have "\<not> ecc_cd_is_suffix_correct (Some ecc_tables) ?r" if "p + length bs \<le> 0x810" "ecc_cd_is_suffix_correct (Some ecc_tables) sec"
    using detect [of 0 2064 2064] that by (auto simp: ecc_cd_is_suffix_correct_def split: if_splits)
  moreover have "\<not> ecc_cd_is_suffix_correct_mode2 (Some ecc_tables) ?r"
    if "0x13 \<le> p" "p + length bs \<le> (if sec ! 0x12 AND 0x20 \<noteq> 0 then 0x92C else 0x818)" "ecc_cd_is_suffix_correct_mode2 (Some ecc_tables) sec"
  proof -
    have "?r ! 0x12 = sec ! 0x12" using that(1,2) assms(4) by (subst nth_put) (auto split: if_splits)
    then show ?thesis using detect [of 16 2056 2072] detect [of 16 2332 2348] that
      by (auto simp: ecc_cd_is_suffix_correct_mode2_def Let_def split: if_splits)
  qed
  ultimately show ?thesis unfolding ctx by blast
qed

theorem burst_detected_witness:
  "ecc_cd_is_suffix_correct (ecc_cd_init True fresh_tables) zero_sector \<and>
   \<not> ecc_cd_is_suffix_correct (ecc_cd_init True fresh_tables) (put 100 [0, 1, 0, 1] zero_sector)"
proof -
  have "fld 100 4 (put 100 [0, 1, 0, 1] zero_sector) \<noteq> fld 100 4 zero_sector"
    by (subst fld_put_same) (simp_all add: zero_sector_def fld_def eval_nat_numeral)
  then have "put 100 [0, 1, 0, 1] zero_sector \<noteq> zero_sector" by metis
  moreover have "length zero_sector = 2352" by (simp add: zero_sector_def)
  ultimately show ?thesis using burst_detected [of fresh_tables zero_sector "[0, 1, 0, 1]" 100] zero_sector_correct fresh_init
    by (simp add: fresh_tables_def)
qed

end
