(* ===== verification/CdSector.thy ===== *)
theory CdSector
  imports EccCd CdBtree
begin

text \<open>
  How a raw Compact Disc sector is taken apart when it is written, src/src/mount/fuse\_ioctl.c,
  and put together again when it is read, src/src/lib/dedup\_read.c: a prefix and a suffix that
  can be computed are not stored, others go to their trees, and only the data portion is left
  for the deduplicating store. Locks are left out. The entry points are modelled up to the call that
  stores the data portion and from the point where it has been read.
\<close>

section \<open>Sector map entries\<close>

datatype errno = EIO | ENOMEM | EINVAL

record cd_sector_map_entry =
  sector :: int
  sector_size :: u16
  hash :: u64
  generated_prefix :: u8
  prefix_hash :: u64
  generated_suffix :: u8
  suffix_hash :: u64
  subchannel_hash :: u64
  subheader :: bytes
  sector_mode :: u8
  dedup_sector_lba :: u64
  dedup_sector_offset :: u64
  dedup_subchannel_lba :: u64
  dedup_subchannel_offset :: u64

definition CD_RAW_SECTOR_SIZE :: nat where "CD_RAW_SECTOR_SIZE = 2352"
definition CD_RAW_PLUS_SUB :: nat where "CD_RAW_PLUS_SUB = 2448"
definition CD_PREFIX_SIZE :: nat where "CD_PREFIX_SIZE = 16"
definition CD_SUFFIX_SIZE :: nat where "CD_SUFFIX_SIZE = 288"
definition CD_DATA_SIZE :: nat where "CD_DATA_SIZE = 2048"

section \<open>Writing\<close>

definition cd_new_entry :: "nat \<Rightarrow> u8 \<Rightarrow> int \<Rightarrow> errno + cd_sector_map_entry" where
  "cd_new_entry bufsz mode lba =
     (if bufsz \<noteq> CD_RAW_SECTOR_SIZE \<and> bufsz \<noteq> CD_RAW_PLUS_SUB then Inl EINVAL
      else if kCdSectorMode2Form2 < mode then Inl EINVAL
      else if lba < 0 then Inl EINVAL
      else Inr \<lparr>sector = lba, sector_size = 0, hash = 0, generated_prefix = 0, prefix_hash = 0, generated_suffix = 0, suffix_hash = 0,
        subchannel_hash = 0, subheader = replicate 8 0, sector_mode = mode, dedup_sector_lba = 0, dedup_sector_offset = 0,
        dedup_subchannel_lba = 0, dedup_subchannel_offset = 0\<rparr>)"

definition cd_prefix_is_generatable :: "bytes \<Rightarrow> int \<Rightarrow> u8 \<Rightarrow> bool" where
  "cd_prefix_is_generatable sec lba mode =
     (case cd_lba_to_msf lba of (minute, second, frame) \<Rightarrow>
        let expected = [0x00] @ replicate 10 0xFF @ [0x00, push_bit 4 (minute div 10) + minute mod 10,
              push_bit 4 (second div 10) + second mod 10, push_bit 4 (frame div 10) + frame mod 10]
        in if mode = kCdSectorMode1 then fld 0 CD_PREFIX_SIZE sec = expected @ [0x01]
           else if mode = kCdSectorMode2 \<or> mode = kCdSectorMode2Form1 \<or> mode = kCdSectorMode2Form2 then
             fld 0 CD_PREFIX_SIZE sec = expected @ [0x02]
           else False)"

definition cd_store_prefix :: "ctx \<Rightarrow> bytes \<Rightarrow> ((errno + u64) \<times> ctx) option" where
  "cd_store_prefix c raw =
     (let pfx_hash = obmafs3_checksum_xxh64 (xxh64 c) (fld 0 CD_PREFIX_SIZE raw) in
      case obmafs3_cd_prefix_get c pfx_hash of
        None \<Rightarrow> None
      | Some (Inr existing) \<Rightarrow> Some (Inr pfx_hash, c)
      | Some (Inl rc) \<Rightarrow>
          if rc = OBMAFS3_ERR_NOTFOUND then
            (case obmafs3_cd_prefix_put c pfx_hash (fld 0 CD_PREFIX_DATA_SIZE raw) of
               (rc1, c1) \<Rightarrow> Some (if rc1 = OBMAFS3_OK then Inr pfx_hash else Inl EIO, c1))
          else Some (Inl EIO, c))"

definition cd_suffix_is_generatable :: "CdEccContext \<Rightarrow> u8 \<Rightarrow> bytes \<Rightarrow> bool" where
  "cd_suffix_is_generatable T mode raw =
     (if mode = kCdSectorMode1 then ecc_cd_is_suffix_correct (Some T) raw
      else if mode = kCdSectorMode2Form1 \<or> mode = kCdSectorMode2Form2 then ecc_cd_is_suffix_correct_mode2 (Some T) raw
      else mode = kCdSectorMode2)"

definition cd_store_suffix :: "ctx \<Rightarrow> bytes \<Rightarrow> ((errno + u64) \<times> ctx) option" where
  "cd_store_suffix c raw =
     (let suffix = fld (CD_RAW_SECTOR_SIZE - CD_SUFFIX_SIZE) CD_SUFFIX_SIZE raw;
          sfx_hash = obmafs3_checksum_xxh64 (xxh64 c) suffix in
      case obmafs3_cd_suffix_get c sfx_hash of
        None \<Rightarrow> None
      | Some (Inr existing) \<Rightarrow> Some (Inr sfx_hash, c)
      | Some (Inl rc) \<Rightarrow>
          if rc = OBMAFS3_ERR_NOTFOUND then
            (case obmafs3_cd_suffix_put c sfx_hash suffix of
               (rc1, c1) \<Rightarrow> Some (if rc1 = OBMAFS3_OK then Inr sfx_hash else Inl EIO, c1))
          else Some (Inl EIO, c))"

definition cd_data_portion :: "u8 \<Rightarrow> (nat \<times> nat) option" where
  "cd_data_portion mode =
     (if mode = kCdSectorMode1 then Some (CD_PREFIX_SIZE, CD_DATA_SIZE)
      else if mode = kCdSectorMode2 then Some (CD_PREFIX_SIZE, 2336)
      else if mode = kCdSectorMode2Form1 then Some (CD_PREFIX_SIZE + 8, CD_DATA_SIZE)
      else if mode = kCdSectorMode2Form2 then Some (CD_PREFIX_SIZE + 8, 2328)
      else None)"

text \<open>
  Data modes: the entry and the data portion that goes to the store, the error correction
  context that the file keeps, and the trees. None stands for a lookup that never returns.
\<close>

definition cd_prepare_data_sector :: "CdEccContext option \<Rightarrow> bool \<Rightarrow> CdEccContext \<Rightarrow> ctx \<Rightarrow> cd_sector_map_entry \<Rightarrow> bytes \<Rightarrow>
    ((errno + cd_sector_map_entry \<times> bytes) \<times> CdEccContext option \<times> ctx) option" where
  "cd_prepare_data_sector ecc_ctx heap fresh c sme raw =
     (case (if ecc_ctx = None then ecc_cd_init heap fresh else ecc_ctx) of
        None \<Rightarrow> Some (Inl ENOMEM, None, c)
      | Some T \<Rightarrow>
          let mode = sector_mode sme;
              pfx_gen = cd_prefix_is_generatable raw (sector sme) mode;
              sme1 = sme\<lparr>generated_prefix := if pfx_gen then 1 else 0\<rparr> in
          case (if pfx_gen then Some (Inr (prefix_hash sme1), c) else cd_store_prefix c raw) of
            None \<Rightarrow> None
          | Some (Inl e, c1) \<Rightarrow> Some (Inl e, Some T, c1)
          | Some (Inr pfx_hash, c1) \<Rightarrow>
              let sfx_gen = cd_suffix_is_generatable T mode raw;
                  sme2 = sme1\<lparr>prefix_hash := pfx_hash, generated_suffix := if sfx_gen then 1 else 0\<rparr> in
              case (if sfx_gen then Some (Inr (suffix_hash sme2), c1) else cd_store_suffix c1 raw) of
                None \<Rightarrow> None
              | Some (Inl e, c2) \<Rightarrow> Some (Inl e, Some T, c2)
              | Some (Inr sfx_hash, c2) \<Rightarrow>
                  let sme3 = sme2\<lparr>suffix_hash := sfx_hash\<rparr>;
                      sme4 = (if mode = kCdSectorMode2 \<or> mode = kCdSectorMode2Form1 \<or> mode = kCdSectorMode2Form2
                              then sme3\<lparr>subheader := fld CD_PREFIX_SIZE 8 raw\<rparr> else sme3) in
                  case cd_data_portion mode of
                    None \<Rightarrow> Some (Inl EINVAL, Some T, c2)
                  | Some (off, data_size) \<Rightarrow>
                      let data = fld off data_size raw in
                      Some (Inr (sme4\<lparr>sector_size := of_nat data_size, hash := obmafs3_checksum_xxh64 (xxh64 c2) data\<rparr>, data), Some T, c2))"

section \<open>Reading\<close>

definition cd_data_size :: "u8 \<Rightarrow> rc + nat" where
  "cd_data_size mode =
     (if mode = kCdSectorModeAudio then Inr CD_RAW_SECTOR_SIZE
      else if mode = kCdSectorMode1 then Inr CD_DATA_SIZE
      else if mode = kCdSectorMode2 then Inr 2336
      else if mode = kCdSectorMode2Form1 then Inr CD_DATA_SIZE
      else if mode = kCdSectorMode2Form2 then Inr 2328
      else Inl OBMAFS3_ERR_INVAL)"

definition cd_rebuild_sector :: "CdEccContext option \<Rightarrow> bool \<Rightarrow> CdEccContext \<Rightarrow> ctx \<Rightarrow> cd_sector_map_entry \<Rightarrow> nat \<Rightarrow> bytes \<Rightarrow> int \<Rightarrow>
    ((rc + bytes) \<times> CdEccContext option) option" where
  "cd_rebuild_sector ecc_ctx heap fresh c sme data_size src_data sector_num =
     (let sector_buf = replicate CD_RAW_SECTOR_SIZE 0; mode = sector_mode sme in
      if mode = kCdSectorModeAudio then Some (Inr (put 0 (take CD_RAW_SECTOR_SIZE src_data) sector_buf), ecc_ctx)
      else
        let has_subheader = (mode = kCdSectorMode2Form1 \<or> mode = kCdSectorMode2Form2) in
        case (if generated_prefix sme \<noteq> 0 then Some (Inr (ecc_cd_reconstruct_prefix mode sector_num sector_buf))
              else case obmafs3_cd_prefix_get c (prefix_hash sme) of
                None \<Rightarrow> None
              | Some (Inl rc) \<Rightarrow> Some (Inl rc)
              | Some (Inr pfx) \<Rightarrow> Some (Inr (put 0 (take CD_PREFIX_SIZE pfx) sector_buf))) of
          None \<Rightarrow> None
        | Some (Inl rc) \<Rightarrow> Some (Inl rc, ecc_ctx)
        | Some (Inr buf1) \<Rightarrow>
            let buf2 = (if has_subheader
                        then put (CD_PREFIX_SIZE + 4) (fld 4 4 (subheader sme)) (put CD_PREFIX_SIZE (fld 0 4 (subheader sme)) buf1) else buf1);
                buf3 = put (if has_subheader then CD_PREFIX_SIZE + 8 else CD_PREFIX_SIZE) (take data_size src_data) buf2 in
            if mode = kCdSectorMode2 then Some (Inr buf3, ecc_ctx)
            else if generated_suffix sme \<noteq> 0 then
              (case (if ecc_ctx = None then ecc_cd_init heap fresh else ecc_ctx) of
                 None \<Rightarrow> Some (Inl OBMAFS3_ERR_NOMEM, None)
               | Some T \<Rightarrow> Some (Inr (ecc_cd_reconstruct (Some T) mode buf3), Some T))
            else
              (case obmafs3_cd_suffix_get c (suffix_hash sme) of
                 None \<Rightarrow> None
               | Some (Inl rc) \<Rightarrow> Some (Inl rc, ecc_ctx)
               | Some (Inr sfx) \<Rightarrow> Some (Inr (put (CD_RAW_SECTOR_SIZE - CD_SUFFIX_SIZE) (take CD_SUFFIX_SIZE sfx) buf3), ecc_ctx)))"

section \<open>A generated prefix\<close>

lemma prefix_rebuilt:
  assumes "cd_prefix_is_generatable raw lba mode" "length s = 2352" "length raw = 2352"
  shows "take 16 (ecc_cd_reconstruct_prefix mode lba s) = take 16 raw" "length (ecc_cd_reconstruct_prefix mode lba s) = 2352"
proof -
  obtain m x f where msf: "cd_lba_to_msf lba = (m, x, f)" using prod_cases3 by blast
  let ?bcd = "\<lambda>v :: u8. push_bit 4 (v div 10) + v mod 10"
  let ?sync = "[0, 0xFF, 0xFF, 0xFF, 0xFF, 0xFF, 0xFF, 0xFF, 0xFF, 0xFF, 0xFF, 0] :: bytes"
  let ?last = "if mode = kCdSectorMode1 then 1 else 2 :: u8"
  have "replicate 10 (0xFF :: u8) = [0xFF, 0xFF, 0xFF, 0xFF, 0xFF, 0xFF, 0xFF, 0xFF, 0xFF, 0xFF]" by (simp add: eval_nat_numeral)
  then have raw: "take 16 raw = ?sync @ [?bcd m, ?bcd x, ?bcd f, ?last]" "mode = kCdSectorMode1 \<or> mode = kCdSectorMode2 \<or> mode = kCdSectorMode2Form1 \<or> mode = kCdSectorMode2Form2"
    using assms(1) by (auto simp: cd_prefix_is_generatable_def msf fld_def CD_PREFIX_SIZE_def split: if_splits)
  have d: "drop 12 s = s ! 12 # s ! 13 # s ! 14 # s ! 15 # drop 16 s"
    using assms(2) Cons_nth_drop_Suc [of 12 s] Cons_nth_drop_Suc [of 13 s] Cons_nth_drop_Suc [of 14 s] Cons_nth_drop_Suc [of 15 s] by simp
  let ?t = "?sync @ [?bcd m, ?bcd x, ?bcd f]"
  let ?s2 = "?t @ s ! 15 # drop 16 s"
  have s2: "(put 0 ?sync s)[12 := ?bcd m, 13 := ?bcd x, 14 := ?bcd f] = ?s2"
  proof -
    have "0 + length ?sync = 12" by simp
    then have "put 0 ?sync s = ?sync @ drop 12 s" unfolding put_def by (simp only: take_0 append_Nil)
    then show ?thesis unfolding d by simp
  qed
  have s3: "?s2[15 := v] = (?t @ [v]) @ drop 16 s" for v by simp
  have "take 16 (((?t @ [v]) @ drop 16 s)[16 := a, 17 := b, 18 := c, 19 := d]) = ?t @ [v]" for v a b c d by simp
  then show "take 16 (ecc_cd_reconstruct_prefix mode lba s) = take 16 raw"
    using raw(2) unfolding ecc_cd_reconstruct_prefix_def msf raw(1) Let_def prod.case s2 s3
    by (auto simp: kCdSectorMode1_def kCdSectorMode2_def kCdSectorMode2Form1_def kCdSectorMode2Form2_def)
  have "length ?s2 = 2352" using assms(2) by simp
  then show "length (ecc_cd_reconstruct_prefix mode lba s) = 2352"
    unfolding ecc_cd_reconstruct_prefix_def msf Let_def prod.case s2 by (simp only: length_list_update split: if_split) simp
qed

section \<open>Putting the parts together\<close>

definition cd_mode :: "u8 \<Rightarrow> bool" where
  "cd_mode mode \<longleftrightarrow> mode = kCdSectorMode1 \<or> mode = kCdSectorMode2 \<or> mode = kCdSectorMode2Form1 \<or> mode = kCdSectorMode2Form2"

text \<open>The form recorded in the sector is the form it is stored with.\<close>

definition form_agrees :: "u8 \<Rightarrow> bytes \<Rightarrow> bool" where
  "form_agrees mode raw \<longleftrightarrow> (mode = kCdSectorMode2Form1 \<longrightarrow> raw ! 0x12 AND 0x20 = 0) \<and> (mode = kCdSectorMode2Form2 \<longrightarrow> raw ! 0x12 AND 0x20 \<noteq> 0)"

lemmas cd_mode_defs = kCdSectorModeAudio_def kCdSectorMode1_def kCdSectorMode2_def kCdSectorMode2Form1_def kCdSectorMode2Form2_def
lemmas cd_sizes = CD_RAW_SECTOR_SIZE_def CD_RAW_PLUS_SUB_def CD_PREFIX_SIZE_def CD_SUFFIX_SIZE_def CD_DATA_SIZE_def CD_PREFIX_DATA_SIZE_def CD_SUFFIX_DATA_SIZE_def

lemma cd_modes_distinct:
  "kCdSectorMode1 \<noteq> kCdSectorMode2" "kCdSectorMode1 \<noteq> kCdSectorMode2Form1" "kCdSectorMode1 \<noteq> kCdSectorMode2Form2"
  "kCdSectorMode2 \<noteq> kCdSectorMode2Form1" "kCdSectorMode2 \<noteq> kCdSectorMode2Form2" "kCdSectorMode2Form1 \<noteq> kCdSectorMode2Form2"
  by (simp_all add: cd_mode_defs)

lemma cd_mode_not_audio: "cd_mode mode \<Longrightarrow> mode \<noteq> kCdSectorModeAudio"
  by (auto simp: cd_mode_def cd_mode_defs)

lemma cd_portion_cases:
  assumes "cd_mode mode" "cd_data_portion mode = Some (off, n)"
  obtains (mode1) "mode = kCdSectorMode1" "off = 16" "n = 2048" | (mode2) "mode = kCdSectorMode2" "off = 16" "n = 2336"
    | (form1) "mode = kCdSectorMode2Form1" "off = 24" "n = 2048" | (form2) "mode = kCdSectorMode2Form2" "off = 24" "n = 2328"
  using assms by (auto simp: cd_mode_def cd_data_portion_def cd_sizes split: if_splits)

lemma cd_portion_ends:
  assumes "cd_mode mode" "cd_data_portion mode = Some (off, n)"
  shows "off = (if mode = kCdSectorMode2Form1 \<or> mode = kCdSectorMode2Form2 then 24 else 16) \<and> off + n \<le> 2352 \<and> 2064 \<le> off + n \<and>
    (mode = kCdSectorMode2 \<longrightarrow> off + n = 2352)"
  using assms
proof (cases rule: cd_portion_cases)
  case mode1
  then show ?thesis by (simp add: cd_modes_distinct)
next
  case mode2
  then show ?thesis by (simp add: cd_modes_distinct)
next
  case form1
  then show ?thesis by (simp add: cd_modes_distinct [symmetric])
next
  case form2
  then show ?thesis by (simp add: cd_modes_distinct [symmetric])
qed

text \<open>Copying the next bytes of the sector behind what is there already.\<close>

lemma put_next:
  assumes "take off s = take off r" "length s = length r" "off + n \<le> length r"
  shows "take (off + n) (put off (fld off n r) s) = take (off + n) r" "length (put off (fld off n r) s) = length r"
  using take_put_more [of off s r "fld off n r"] assms by simp_all

lemma put_tail:
  assumes "take m s = take m r" "length s = length r" "off \<le> m" "off + n = length r"
  shows "put off (fld off n r) s = r"
proof -
  have "take off s = take off r" using assms(1,3) by (metis min_absorb1 take_take)
  then have "take (off + n) (put off (fld off n r) s) = take (off + n) r \<and> length (put off (fld off n r) s) = length r"
    using put_next [of off s r n] assms(2,4) by simp
  then show ?thesis using assms(4) by (metis le_refl take_all)
qed

lemma suffix_rebuilt:
  assumes "cd_suffix_is_generatable T mode r" "cd_mode mode" "mode \<noteq> kCdSectorMode2" "form_agrees mode r" "length r = 2352"
    and "cd_data_portion mode = Some (off, n)" "take (off + n) s = take (off + n) r" "length s = 2352"
  shows "ecc_cd_reconstruct (Some T) mode s = r"
proof -
  consider "mode = kCdSectorMode1" "off + n = 0x810" | "mode = kCdSectorMode2Form1" "off + n = 0x818" | "mode = kCdSectorMode2Form2" "off + n = 2352"
    using assms(2,6) by (cases rule: cd_portion_cases) (use assms(3) in simp_all)
  then show ?thesis
  proof cases
    case 1
    then show ?thesis using mode1_restored [of "Some T" r s] assms by (simp add: cd_suffix_is_generatable_def cd_mode_defs)
  next
    case 2
    then show ?thesis using form1_restored [of "Some T" r s] assms by (simp add: cd_suffix_is_generatable_def form_agrees_def cd_mode_defs)
  next
    case 3
    then have "s = r" using assms(5,7,8) by simp
    then show ?thesis using form2_restored [of "Some T" r s] 3 assms by (simp add: cd_suffix_is_generatable_def form_agrees_def cd_mode_defs)
  qed
qed

text \<open>The context is there, or memory for it is.\<close>

definition ecc_ready :: "CdEccContext option \<Rightarrow> bool \<Rightarrow> CdEccContext \<Rightarrow> bool" where
  "ecc_ready ecc_ctx heap fresh \<longleftrightarrow> ecc_ctx = Some ecc_tables \<or>
     ecc_ctx = None \<and> heap \<and> length (ecc_b_table fresh) = 256 \<and> length (ecc_f_table fresh) = 256 \<and> length (edc_table fresh) = 256"

lemma ecc_ready_tables: "ecc_ready ecc_ctx heap fresh \<Longrightarrow> (if ecc_ctx = None then ecc_cd_init heap fresh else ecc_ctx) = Some ecc_tables"
  by (auto simp: ecc_ready_def ecc_cd_init_eq)

lemma sector_rebuilt:
  assumes mode: "cd_mode mode" "mode = sector_mode sme" "form_agrees mode raw" and len: "length raw = 2352"
    and ecc: "ecc_ready ecc_ctx heap fresh"
    and pfx: "if generated_prefix sme \<noteq> 0 then cd_prefix_is_generatable raw lba mode else obmafs3_cd_prefix_get c (prefix_hash sme) = Some (Inr (take 16 raw))"
    and sfx: "mode \<noteq> kCdSectorMode2 \<Longrightarrow> if generated_suffix sme \<noteq> 0 then cd_suffix_is_generatable ecc_tables mode raw
        else obmafs3_cd_suffix_get c (suffix_hash sme) = Some (Inr (fld 2064 288 raw))"
    and sub: "mode \<noteq> kCdSectorMode1 \<Longrightarrow> subheader sme = fld 16 8 raw" and portion: "cd_data_portion mode = Some (off, n)"
  shows "\<exists>e. cd_rebuild_sector ecc_ctx heap fresh c sme n (fld off n raw) lba = Some (Inr raw, e)"
proof -
  let ?z = "replicate CD_RAW_SECTOR_SIZE 0 :: bytes"
  let ?hs = "mode = kCdSectorMode2Form1 \<or> mode = kCdSectorMode2Form2"
  define b1 where "b1 = (if generated_prefix sme \<noteq> 0 then ecc_cd_reconstruct_prefix mode lba ?z else put 0 (take 16 raw) ?z)"
  have z: "length ?z = 2352" by (simp add: CD_RAW_SECTOR_SIZE_def)
  have f16: "take 16 raw = fld 0 16 raw" by (simp add: fld_def)
  have "take 16 (put 0 (take 16 raw) ?z) = take 16 raw \<and> length (put 0 (take 16 raw) ?z) = length raw"
    using put_next [of 0 ?z raw 16] z len by (simp only: take_0 add_0 f16)
  then have b1: "take 16 b1 = take 16 raw" "length b1 = length raw"
    using pfx prefix_rebuilt [OF _ z len, of lba mode] len unfolding b1_def by (cases "generated_prefix sme = 0"; simp only: if_True if_False not_True_eq_False not_False_eq_True)+
  define b2 where "b2 = (if ?hs then put 20 (fld 4 4 (subheader sme)) (put 16 (fld 0 4 (subheader sme)) b1) else b1)"
  have off: "off = (if ?hs then 24 else 16)" "off + n \<le> 2352" "mode = kCdSectorMode2 \<Longrightarrow> off + n = 2352" "2064 \<le> off + n"
    using cd_portion_ends [OF mode(1) portion] by blast+
  have b2: "take off b2 = take off raw \<and> length b2 = length raw"
  proof (cases ?hs)
    case True
    then have "mode \<noteq> kCdSectorMode1" using cd_modes_distinct(2,3) by metis
    then have s: "subheader sme = fld 16 8 raw" by (rule sub)
    have h: "fld 0 4 (fld 16 8 raw) = fld 16 4 raw" "fld 4 4 (fld 16 8 raw) = fld 20 4 raw" by (simp_all add: fld_def drop_take)
    define c1 where "c1 = put 16 (fld 16 4 raw) b1"
    have c1: "take 20 c1 = take 20 raw" "length c1 = length raw" using put_next [OF b1, of 4] len unfolding c1_def by simp_all
    have "take 24 (put 20 (fld 20 4 raw) c1) = take 24 raw \<and> length (put 20 (fld 20 4 raw) c1) = length raw"
      using put_next [OF c1, of 4] len by simp
    moreover have "b2 = put 20 (fld 20 4 raw) c1" unfolding b2_def c1_def if_P [OF True] s h ..
    moreover have "off = 24" using off(1) True by simp
    ultimately show ?thesis by simp
  qed (use b1 off(1) in \<open>simp add: b2_def\<close>)
  define b3 where "b3 = put off (fld off n raw) b2"
  have b3: "take (off + n) b3 = take (off + n) raw" "length b3 = length raw"
    using put_next [of off b2 raw n] b2 off(2) len by (simp_all add: b3_def)
  have src: "take n (fld off n raw) = fld off n raw" by (simp add: fld_def)
  have pre: "(if generated_prefix sme \<noteq> 0 then Some (Inr (ecc_cd_reconstruct_prefix mode lba ?z))
     else case obmafs3_cd_prefix_get c (prefix_hash sme) of None \<Rightarrow> None | Some (Inl rc) \<Rightarrow> Some (Inl rc)
       | Some (Inr pfx) \<Rightarrow> Some (Inr (put 0 (take CD_PREFIX_SIZE pfx) ?z))) = Some (Inr b1 :: rc + bytes)"
    using pfx by (simp add: b1_def cd_sizes)
  have audio: "mode \<noteq> kCdSectorModeAudio" using mode(1) by (rule cd_mode_not_audio)
  have offs: "(if ?hs then CD_PREFIX_SIZE + 8 else CD_PREFIX_SIZE) = off" using off(1) by (simp add: CD_PREFIX_SIZE_def)
  have sz: "CD_PREFIX_SIZE + 4 = 20" "CD_PREFIX_SIZE = 16" "CD_RAW_SECTOR_SIZE - CD_SUFFIX_SIZE = 2064" "CD_SUFFIX_SIZE = 288" by (simp_all add: cd_sizes)
  have "cd_rebuild_sector ecc_ctx heap fresh c sme n (fld off n raw) lba =
     (if mode = kCdSectorMode2 then Some (Inr b3, ecc_ctx)
      else if generated_suffix sme \<noteq> 0 then Some (Inr (ecc_cd_reconstruct (Some ecc_tables) mode b3), Some ecc_tables)
      else case obmafs3_cd_suffix_get c (suffix_hash sme) of None \<Rightarrow> None | Some (Inl rc) \<Rightarrow> Some (Inl rc, ecc_ctx)
        | Some (Inr sfx) \<Rightarrow> Some (Inr (put 2064 (take 288 sfx) b3), ecc_ctx))"
    unfolding cd_rebuild_sector_def Let_def mode(2) [symmetric] pre if_not_P [OF audio] ecc_ready_tables [OF ecc] option.case sum.case offs src
    unfolding sz(1,3) unfolding sz(2,4) b2_def [symmetric] b3_def [symmetric] ..
  moreover have "b3 = raw" if "mode = kCdSectorMode2" using b3 off(3) [OF that] len by simp
  moreover have "ecc_cd_reconstruct (Some ecc_tables) mode b3 = raw" if "mode \<noteq> kCdSectorMode2" "generated_suffix sme \<noteq> 0"
    using suffix_rebuilt [OF _ mode(1) that(1) mode(3) len portion b3(1)] sfx that b3(2) len by simp
  moreover have "put 2064 (fld 2064 288 raw) b3 = raw" using put_tail [OF b3 off(4)] len by simp
  ultimately show ?thesis using sfx by (cases "mode = kCdSectorMode2"; cases "generated_suffix sme = 0") (simp_all add: fld_def)
qed

section \<open>Storing a part in its tree\<close>

definition cd_store :: "cd_kind \<Rightarrow> ctx \<Rightarrow> bytes \<Rightarrow> ((errno + u64) \<times> ctx) option" where
  "cd_store i c d =
     (let h = obmafs3_checksum_xxh64 (xxh64 c) d in
      case cd_get i c h of
        None \<Rightarrow> None
      | Some (Inr existing) \<Rightarrow> Some (Inr h, c)
      | Some (Inl rc) \<Rightarrow>
          if rc = OBMAFS3_ERR_NOTFOUND then
            (case cd_put i c h d of (rc1, c1) \<Rightarrow> Some (if rc1 = OBMAFS3_OK then Inr h else Inl EIO, c1))
          else Some (Inl EIO, c))"

lemma cd_store_parts: "cd_store_prefix c raw = cd_store Prefix c (fld 0 16 raw)" "cd_store_suffix c raw = cd_store Suffix c (fld 2064 288 raw)"
proof -
  have sz: "CD_PREFIX_SIZE = 16" "CD_PREFIX_DATA_SIZE = 16" "CD_RAW_SECTOR_SIZE - CD_SUFFIX_SIZE = 2064" "CD_SUFFIX_SIZE = 288" by (simp_all add: cd_sizes)
  show "cd_store_prefix c raw = cd_store Prefix c (fld 0 16 raw)" "cd_store_suffix c raw = cd_store Suffix c (fld 2064 288 raw)"
    unfolding cd_store_prefix_def cd_store_suffix_def cd_store_def cd_get_def cd_put_def cd_kind.case Let_def sz(3) unfolding sz by (rule refl)+
qed

text \<open>What is found under the hash of the data is the data.\<close>

definition no_collision :: "cd_kind \<Rightarrow> ctx \<Rightarrow> bytes \<Rightarrow> bool" where
  "no_collision i c d \<longleftrightarrow> cd_get i c (xxh64 c d) = Some (Inl OBMAFS3_ERR_NOTFOUND) \<or> cd_get i c (xxh64 c d) = Some (Inr d)"

lemma touches_xxh64: "touches (cd_slot i) T c c' \<Longrightarrow> xxh64 c' = xxh64 c"
proof -
  assume "touches (cd_slot i) T c c'"
  then obtain c1 where c1: "outside T c c1" "c' = hset (cd_slot i) (hget (cd_slot i) c') c1" by (auto simp: touches_def)
  have e: "c1 = c\<lparr>dev := dev c1, bitmap := bitmap c1, next_free_lba := next_free_lba c1\<rparr>"
    using c1(1) unfolding outside_def alloc_frame_def by blast
  have "xxh64 c1 = xxh64 c" by (subst e) simp
  moreover have "xxh64 c' = xxh64 c1" using cd.set_volume [of c1 i "hget (cd_slot i) c'"] c1(2) by (simp add: same_volume_def)
  ultimately show ?thesis by simp
qed

lemma touches_refl: "touches (cd_slot i) T c c"
  unfolding touches_def using cd.set_get [of i c] outside_refl by metis

lemma cd_store_outcome:
  assumes h: "cd_holds i b c lv own fl rs" "lv \<le> 8" "b \<or> lv \<le> 1" "hlba (cd_slot i) (sb c) \<noteq> 0" "length d = cd_size i" and nc: "no_collision i c d"
  obtains (full) c' where "cd_store i c d = Some (Inl EIO, c')" "length fl < lv + 2"
  | (kept) c' lv' own' fl' rs' where "cd_store i c d = Some (Inr (xxh64 c d), c')" "cd_get i c' (xxh64 c d) = Some (Inr d)"
      "touches (cd_slot i) (slot_blocks (cd_slot i) c own fl) c c'" "cd_holds i b c' lv' own' fl' rs'" "sb c' = sb c"
      "fresh_from (slot_blocks (cd_slot i) c own fl) c (own' \<union> set fl')"
proof (cases "cd_get i c (xxh64 c d) = Some (Inr d)")
  case True
  then show ?thesis
    by (intro kept [of c lv own fl rs])
      (simp_all add: cd_store_def obmafs3_checksum_xxh64_def Let_def touches_refl h(1), simp add: fresh_from_def slot_blocks_def)
next
  case False
  then have nf: "cd_get i c (xxh64 c d) = Some (Inl OBMAFS3_ERR_NOTFOUND)" using nc by (simp add: no_collision_def)
  have "length (snd (xxh64 c d, d)) = cd_size i" using h(5) by simp
  from cd.put_outcome [OF h(1) [unfolded cd_holds_def] h(2,3) this] show ?thesis
  proof cases
    case (1 c')
    then show ?thesis using that(1) nf h(4) by (simp add: cd_store_def obmafs3_checksum_xxh64_def Let_def cd_put_eq)
  next
    case (2 c' lv' own' fl')
    then show ?thesis using nf h(4) cd.get_holds [OF 2(3), of "xxh64 c d"]
      by (intro that(2) [of c' lv' own' fl']) (auto simp: cd_store_def obmafs3_checksum_xxh64_def Let_def cd_put_eq cd_get_eq cd_holds_def)
  qed
qed

text \<open>What one tree does leaves the other one alone.\<close>

lemma cd_beside:
  assumes "i \<noteq> j" "touches (cd_slot i) T c c'" "dev_ok c'" "bm_ok c'" "sb c' = sb c"
    and "cd_holds j b c lv own fl rs" "T \<inter> (own \<union> set fl) = {}"
  shows "cd_holds j b c' lv own fl rs" "cd_get j c' k = cd_get j c k"
proof -
  have ap: "hget (cd_slot j) (hset (cd_slot i) h x) = hget (cd_slot j) x" for h x
    using assms(1) by (cases i; cases j) (simp_all add: cd_slot_def cd_prefix_slot_def cd_suffix_slot_def cd_subchannel_slot_def)
  note B = cd.holds_beside_store [OF assms(6) [unfolded cd_holds_def] assms(2,7,3,4) ap cd.set_volume]
  show "cd_holds j b c' lv own fl rs" "cd_get j c' k = cd_get j c k" using B by (simp_all add: cd_holds_def cd_get_eq assms(5))
qed

lemma cd_store_if:
  assumes "cd_holds i b c lv own fl rs" "lv \<le> 8" "b \<or> lv \<le> 1" "hlba (cd_slot i) (sb c) \<noteq> 0" "length d = cd_size i" "no_collision i c d"
  obtains (full) c' where "(if gen then Some (Inr old, c) else cd_store i c d) = Some (Inl EIO, c')" "\<not> gen" "length fl < lv + 2"
  | (kept) c' k lv' own' fl' rs' where "(if gen then Some (Inr old, c) else cd_store i c d) = Some (Inr k, c')"
      "if gen then k = old else cd_get i c' k = Some (Inr d)"
      "touches (cd_slot i) (slot_blocks (cd_slot i) c own fl) c c'" "cd_holds i b c' lv' own' fl' rs'" "sb c' = sb c"
      "fresh_from (slot_blocks (cd_slot i) c own fl) c (own' \<union> set fl')"
proof (cases gen)
  case True
  then show ?thesis by (intro kept [of old c lv own fl rs]) (simp_all add: touches_refl assms(1), simp add: fresh_from_def slot_blocks_def)
next
  case False
  from assms show ?thesis
    by (rule cd_store_outcome) (use False in \<open>auto intro: full kept\<close>)
qed

text \<open>Both stores, one after the other.\<close>

lemma cd_store_both:
  assumes p: "cd_holds Prefix b c lv own fl rs" "lv \<le> 8" "b \<or> lv \<le> 1" "hlba (cd_slot Prefix) (sb c) \<noteq> 0" "length d = cd_size Prefix" "no_collision Prefix c d"
    and s: "cd_holds Suffix b' c lv' own' fl' rs'" "lv' \<le> 8" "b' \<or> lv' \<le> 1" "hlba (cd_slot Suffix) (sb c) \<noteq> 0" "length d' = cd_size Suffix" "no_collision Suffix c d'"
    and apart: "slot_blocks (cd_slot Prefix) c own fl \<inter> slot_blocks (cd_slot Suffix) c own' fl' = {}"
  obtains (full_prefix) c1 where "(if gen then Some (Inr old, c) else cd_store Prefix c d) = Some (Inl EIO, c1)" "length fl < lv + 2"
  | (full_suffix) k c1 c2 where "(if gen then Some (Inr old, c) else cd_store Prefix c d) = Some (Inr k, c1)"
      "(if gen' then Some (Inr old', c1) else cd_store Suffix c1 d') = Some (Inl EIO, c2)" "\<not> gen'" "length fl' < lv' + 2"
  | (both) k c1 k' c2 where "(if gen then Some (Inr old, c) else cd_store Prefix c d) = Some (Inr k, c1)"
      "(if gen' then Some (Inr old', c1) else cd_store Suffix c1 d') = Some (Inr k', c2)"
      "\<not> gen \<longrightarrow> cd_get Prefix c2 k = Some (Inr d)" "\<not> gen' \<longrightarrow> cd_get Suffix c2 k' = Some (Inr d')"
  using p
proof (cases rule: cd_store_if [where gen = gen and old = old])
  case (full c1)
  then show ?thesis using full_prefix by blast
next
  case (kept c1 k lv1 own1 fl1 rs1)
  let ?P = "slot_blocks (cd_slot Prefix) c own fl" and ?S = "slot_blocks (cd_slot Suffix) c own' fl'"
  have env1: "dev_ok c1" "bm_ok c1" using cd.holds_env [OF kept(4) [unfolded cd_holds_def]] by simp_all
  have "?P \<inter> (own' \<union> set fl') = {}" using apart by (auto simp: slot_blocks_def)
  note S1 = cd_beside [OF _ kept(3) env1 kept(5) s(1) this, simplified]
  have S: "slot_blocks (cd_slot Suffix) c1 own' fl' = ?S" by (simp add: slot_blocks_def kept(5))
  have nc: "no_collision Suffix c1 d'" using s(6) S1(2) touches_xxh64 [OF kept(3)] by (simp add: no_collision_def)
  have "used c (unat x)" if "x \<in> ?S" for x using slot_env(7) [OF s(1) [unfolded cd_holds_def], of x] that by simp
  then have dis: "?S \<inter> (own1 \<union> set fl1) = {}" using kept(6) apart unfolding fresh_from_def by blast
  from S1(1) s(2,3) _ s(5) nc show ?thesis
  proof (rule cd_store_if [where gen = gen' and old = old'])
    show "hlba (cd_slot Suffix) (sb c1) \<noteq> 0" using s(4) kept(5) by simp
  next
    fix c2 assume "(if gen' then Some (Inr old', c1) else cd_store Suffix c1 d') = Some (Inl EIO, c2)" "\<not> gen'" "length fl' < lv' + 2"
    then show ?thesis using full_suffix kept(1) by blast
  next
    fix c2 k' lv2 own2 fl2 rs2
    assume t: "(if gen' then Some (Inr old', c1) else cd_store Suffix c1 d') = Some (Inr k', c2)"
      "if gen' then k' = old' else cd_get Suffix c2 k' = Some (Inr d')"
      "touches (cd_slot Suffix) (slot_blocks (cd_slot Suffix) c1 own' fl') c1 c2" "cd_holds Suffix b' c2 lv2 own2 fl2 rs2" "sb c2 = sb c1"
    have env2: "dev_ok c2" "bm_ok c2" using cd.holds_env [OF t(4) [unfolded cd_holds_def]] by simp_all
    have "cd_get Prefix c2 k = cd_get Prefix c1 k" using cd_beside(2) [OF _ t(3) env2 t(5) kept(4)] dis unfolding S by simp
    then show ?thesis using both [OF kept(1) t(1)] kept(2) t(2) by simp
  qed
qed

section \<open>Properties\<close>

lemma entry_modes: "mode \<le> kCdSectorMode2Form2 \<Longrightarrow> mode \<noteq> kCdSectorModeAudio \<Longrightarrow> cd_mode mode"
proof -
  assume a: "mode \<le> kCdSectorMode2Form2" "mode \<noteq> kCdSectorModeAudio"
  have "unat mode \<le> 4" "unat mode \<noteq> 0" using a by (simp_all add: cd_mode_defs word_le_nat_alt unat_eq_0)
  then have "unat mode = 1 \<or> unat mode = 2 \<or> unat mode = 3 \<or> unat mode = 4" by linarith
  then have "unat mode = unat (1 :: u8) \<or> unat mode = unat (2 :: u8) \<or> unat mode = unat (3 :: u8) \<or> unat mode = unat (4 :: u8)" by simp
  then show ?thesis unfolding cd_mode_def cd_mode_defs word_unat_eq_iff by blast
qed

lemma entry_fields:
  assumes "cd_new_entry bufsz mode lba = Inr sme"
  shows "sector_mode sme = mode" "sector sme = lba" "mode \<le> kCdSectorMode2Form2"
  using assms by (auto simp: cd_new_entry_def not_less split: if_splits)

lemma portion_size: "cd_mode mode \<Longrightarrow> \<exists>off n. cd_data_portion mode = Some (off, n) \<and> cd_data_size mode = Inr n"
  unfolding cd_mode_def cd_data_portion_def cd_data_size_def by (auto simp: cd_mode_defs)

lemma mode2_suffix: "cd_suffix_is_generatable T kCdSectorMode2 raw"
  by (simp add: cd_suffix_is_generatable_def cd_mode_defs)

text \<open>
  C39: a data sector of a Compact Disc survives being taken apart and put together: when the
  prefix tree and the suffix tree do not share blocks, no other prefix or suffix is stored under
  the same hash, and the form recorded in the sector is the mode it is stored with, then a raw
  sector is either refused with EIO because the reserve of a tree that it needs is too short, or
  split into an entry and a data portion of the size that the reader expects, from which the
  reader, whatever error correction context it has, rebuilds all 2352 bytes.
\<close>

theorem cd_sector_survives:
  assumes "cd_new_entry (length raw) mode lba = Inr sme" "length raw = 2352" "mode \<noteq> kCdSectorModeAudio" "form_agrees mode raw"
    and "ecc_ready ecc heap fresh" "ecc_ready ecc' heap' fresh'"
    and p: "cd_holds Prefix b c lv own fl rs" "lv \<le> 8" "b \<or> lv \<le> 1" "cd_prefix_lba (sb c) \<noteq> 0"
    and s: "cd_holds Suffix b' c lv' own' fl' rs'" "lv' \<le> 8" "b' \<or> lv' \<le> 1" "cd_suffix_lba (sb c) \<noteq> 0"
    and "slot_blocks (cd_slot Prefix) c own fl \<inter> slot_blocks (cd_slot Suffix) c own' fl' = {}"
    and "no_collision Prefix c (fld 0 16 raw)" "no_collision Suffix c (fld 2064 288 raw)"
  shows "(\<exists>e c'. cd_prepare_data_sector ecc heap fresh c sme raw = Some (Inl EIO, e, c') \<and>
      (length fl < lv + 2 \<or> mode \<noteq> kCdSectorMode2 \<and> length fl' < lv' + 2)) \<or>
    (\<exists>sme' data e e' c'. cd_prepare_data_sector ecc heap fresh c sme raw = Some (Inr (sme', data), e, c') \<and>
      cd_data_size mode = Inr (length data) \<and>
      cd_rebuild_sector ecc' heap' fresh' c' sme' (length data) data lba = Some (Inr raw, e'))"
proof -
  note E = entry_fields [OF assms(1)]
  have mode: "cd_mode mode" by (rule entry_modes [OF E(3) assms(3)])
  obtain off n where o: "cd_data_portion mode = Some (off, n)" "cd_data_size mode = Inr n" using portion_size [OF mode] by blast
  let ?d = "fld off n raw"
  have "off + n \<le> 2352" using cd_portion_ends [OF mode o(1)] by blast
  then have n: "length ?d = n" using assms(2) by simp
  let ?pg = "cd_prefix_is_generatable raw lba mode" and ?sg = "cd_suffix_is_generatable ecc_tables mode raw"
  define sme1 where "sme1 = sme\<lparr>generated_prefix := if ?pg then 1 else 0\<rparr>"
  have p': "hlba (cd_slot Prefix) (sb c) \<noteq> 0" "length (fld 0 16 raw) = cd_size Prefix"
    and s': "hlba (cd_slot Suffix) (sb c) \<noteq> 0" "length (fld 2064 288 raw) = cd_size Suffix"
    using p(4) s(4) assms(2) by (simp_all add: cd_slot_def cd_prefix_slot_def cd_suffix_slot_def cd_size_def cd_sizes)
  have old: "suffix_hash (sme1\<lparr>prefix_hash := k, generated_suffix := v\<rparr>) = suffix_hash sme1" for k v by simp
  note prep = cd_prepare_data_sector_def ecc_ready_tables [OF assms(5)] option.case Let_def E(1,2) cd_store_parts sme1_def [symmetric] old
  from p(1-3) p' assms(16) s(1-3) s' assms(17,15) show ?thesis
  proof (cases rule: cd_store_both [where gen = ?pg and old = "prefix_hash sme1" and gen' = ?sg and old' = "suffix_hash sme1"])
    case (full_prefix c1)
    then show ?thesis unfolding prep full_prefix(1) by simp
  next
    case (full_suffix k c1 c2)
    have "mode \<noteq> kCdSectorMode2" using full_suffix(3) mode2_suffix by metis
    then show ?thesis using full_suffix(4) unfolding prep full_suffix(1) sum.case prod.case full_suffix(2) by simp
  next
    case (both k c1 k' c2)
    let ?s3 = "sme1\<lparr>prefix_hash := k, generated_suffix := if ?sg then 1 else 0, suffix_hash := k'\<rparr>"
    let ?s4 = "if mode = kCdSectorMode2 \<or> mode = kCdSectorMode2Form1 \<or> mode = kCdSectorMode2Form2 then ?s3\<lparr>subheader := fld CD_PREFIX_SIZE 8 raw\<rparr> else ?s3"
    let ?s5 = "?s4\<lparr>sector_size := of_nat n, hash := obmafs3_checksum_xxh64 (xxh64 c2) ?d\<rparr>"
    have r: "cd_prepare_data_sector ecc heap fresh c sme raw = Some (Inr (?s5, ?d), Some ecc_tables, c2)"
      unfolding prep both(1) sum.case prod.case both(2) o(1) option.case by simp
    have f: "sector_mode ?s5 = mode" "generated_prefix ?s5 = (if ?pg then 1 else 0)" "generated_suffix ?s5 = (if ?sg then 1 else 0)"
      "prefix_hash ?s5 = k" "suffix_hash ?s5 = k'"
      using E(1) by (simp_all add: sme1_def)
    have sub: "subheader ?s5 = fld 16 8 raw" if "mode \<noteq> kCdSectorMode1"
    proof -
      have "mode = kCdSectorMode2 \<or> mode = kCdSectorMode2Form1 \<or> mode = kCdSectorMode2Form2" using mode that by (auto simp: cd_mode_def)
      then have "?s4 = ?s3\<lparr>subheader := fld CD_PREFIX_SIZE 8 raw\<rparr>" by (rule if_P)
      then show ?thesis by (simp add: CD_PREFIX_SIZE_def)
    qed
    have "\<exists>e'. cd_rebuild_sector ecc' heap' fresh' c2 ?s5 n ?d lba = Some (Inr raw, e')"
    proof (rule sector_rebuilt [OF mode f(1) [symmetric] assms(4,2,6) _ _ sub o(1)])
      show "if generated_prefix ?s5 \<noteq> 0 then ?pg else obmafs3_cd_prefix_get c2 (prefix_hash ?s5) = Some (Inr (take 16 raw))"
        using both(3) unfolding f by (simp add: cd_get_def fld_def)
      show "if generated_suffix ?s5 \<noteq> 0 then ?sg else obmafs3_cd_suffix_get c2 (suffix_hash ?s5) = Some (Inr (fld 2064 288 raw))"
        using both(4) unfolding f by (simp add: cd_get_def)
    qed
    then show ?thesis using r o(2) n by auto
  qed
qed

lemma cd_ctx_no_collision: "no_collision Prefix cd_ctx d" "no_collision Suffix cd_ctx d"
proof -
  have "cd_get Suffix cd_ctx k = Some (Inl OBMAFS3_ERR_NOTFOUND)" for k
    using cd_ctx_facts(5) by (simp add: cd_get_eq slot_get_def slot_lookup_def tree_lookup_def zero_hdr_def)
  then show "no_collision Prefix cd_ctx d" "no_collision Suffix cd_ctx d" using cd_ctx_empty by (simp_all add: no_collision_def)
qed

text \<open>A sector without sync pattern: its prefix has to be stored.\<close>

theorem cd_sector_survives_witness:
  "\<exists>sme sme' data e e' c'. cd_new_entry 2352 kCdSectorMode2 5 = Inr sme \<and>
     cd_prepare_data_sector None True fresh_tables cd_ctx sme (replicate 2352 7) = Some (Inr (sme', data), e, c') \<and>
     cd_rebuild_sector None True fresh_tables c' sme' (length data) data 5 = Some (Inr (replicate 2352 7), e')"
proof -
  let ?raw = "replicate 2352 7 :: bytes"
  obtain sme where sme: "cd_new_entry (length ?raw) kCdSectorMode2 5 = Inr sme"
    unfolding cd_new_entry_def length_replicate by (simp add: CD_RAW_SECTOR_SIZE_def cd_mode_defs)
  have l: "length ?raw = 2352" by (rule length_replicate)
  have m: "kCdSectorMode2 \<noteq> kCdSectorModeAudio" "form_agrees kCdSectorMode2 ?raw" by (simp_all add: form_agrees_def cd_mode_defs)
  have r: "ecc_ready None True fresh_tables" by (simp add: ecc_ready_def fresh_tables_def)
  have lba: "cd_prefix_lba (sb cd_ctx) \<noteq> 0" "cd_suffix_lba (sb cd_ctx) \<noteq> 0" by (simp_all add: cd_ctx_def)
  have "slot_blocks (cd_slot Prefix) cd_ctx {} [2, 3] \<inter> slot_blocks (cd_slot Suffix) cd_ctx {} [] = {}" by (simp add: slot_blocks_def cd_ctx_facts)
  from cd_sector_survives [OF sme l m r r cd_ctx_holds [of True] _ _ lba(1) cd_ctx_holds_suffix [of True] _ _ lba(2) this cd_ctx_no_collision]
  show ?thesis using sme unfolding l by fastforce
qed

end
