(* ===== verification/CompressPool.thy ===== *)
theory CompressPool
  imports FileWrite
begin

text \<open>
  The thread pool that compresses the groups of a write, src/src/lib/block.c, as a step relation
  over the program counters of its threads. Thread 0 is the one that submits a batch; the
  others are the workers. A step is an access to one of the atomic counters, the work on one
  job, or a section under the mutex of the pool: a wait on a condition variable is a section
  that ends asleep. Spurious wake-ups, which only make a thread look again, are left out.
\<close>

section \<open>Jobs and threads\<close>

text \<open>A job without an output buffer is skipped.\<close>

record compress_input =
  group_data :: bytes
  grp_count :: u64
  comp_buf_size :: "nat option"

definition compress_worker_job :: "codec \<Rightarrow> ctx \<Rightarrow> compress_input \<Rightarrow> bytes option" where
  "compress_worker_job K c job =
     (case comp_buf_size job of
        None \<Rightarrow> None
      | Some sz \<Rightarrow> if group_data job = [] then None else compress_job K c (sz - bh_size) (group_data job) (grp_count job))"

datatype pc =
    Waiting | AsyncJob nat | Gone
  | Claim nat | Running nat nat | Adding nat | Signalling
  | FillJobs "compress_input list" | FillNext | FillDone | Publish | Checking | Asleep | Returned

text \<open>
  The pool and its embedded batch; \<open>results\<close> has the outcome of every job that has been run, and
  \<open>runs\<close> counts how often it was. \<open>processed\<close>, the argument of the counters of a running
  worker, is the number of jobs it has claimed.
\<close>

record compress_pool =
  jobs :: "compress_input list"
  results :: "bytes option option list"
  batch_total :: nat
  next_job :: nat
  jobs_done :: nat
  batch_active :: bool
  generation :: u32
  shutdown :: bool
  async_queue :: "nat list"
  my_gen :: "nat \<Rightarrow> u32"
  pcs :: "nat \<Rightarrow> pc"
  runs :: "nat \<Rightarrow> nat"

definition go :: "nat \<Rightarrow> pc \<Rightarrow> compress_pool \<Rightarrow> compress_pool" where
  "go t p s = s\<lparr>pcs := (pcs s)(t := p)\<rparr>"

text \<open>Where a thread goes on behind its part in the batch.\<close>

definition after_batch :: "nat \<Rightarrow> pc" where
  "after_batch t = (if t = 0 then Checking else Waiting)"

section \<open>Steps\<close>

text \<open>The submitter fills the batch, \<open>contexts\<close> tells which threads got their compression contexts.\<close>

definition fill_jobs :: "compress_input list \<Rightarrow> compress_pool \<Rightarrow> compress_pool" where
  "fill_jobs js s = s\<lparr>jobs := js, batch_total := length js, results := replicate (length js) None, runs := (\<lambda>_. 0)\<rparr>"

definition publish :: "(nat \<Rightarrow> bool) \<Rightarrow> compress_pool \<Rightarrow> compress_pool" where
  "publish contexts s = go 0 (if contexts 0 then Claim 0 else Checking) (s\<lparr>batch_active := True, generation := generation s + 1\<rparr>)"

definition wake :: "(nat \<Rightarrow> bool) \<Rightarrow> nat \<Rightarrow> compress_pool \<Rightarrow> compress_pool" where
  "wake contexts t s =
     go t (if batch_active s \<and> contexts t then Claim 0 else Waiting) (s\<lparr>my_gen := (my_gen s)(t := generation s)\<rparr>)"

definition claim :: "nat \<Rightarrow> nat \<Rightarrow> compress_pool \<Rightarrow> compress_pool" where
  "claim t processed s =
     go t (if next_job s < batch_total s then Running (next_job s) (Suc processed)
           else if 0 < processed then Adding processed else after_batch t)
       (s\<lparr>next_job := Suc (next_job s)\<rparr>)"

definition run_job :: "codec \<Rightarrow> ctx \<Rightarrow> nat \<Rightarrow> nat \<Rightarrow> nat \<Rightarrow> compress_pool \<Rightarrow> compress_pool" where
  "run_job K c t i processed s =
     go t (Claim processed)
       (s\<lparr>results := (results s)[i := Some (compress_worker_job K c (jobs s ! i))], runs := (runs s)(i := Suc (runs s i))\<rparr>)"

definition add_done :: "nat \<Rightarrow> nat \<Rightarrow> compress_pool \<Rightarrow> compress_pool" where
  "add_done t processed s =
     go t (if batch_total s \<le> jobs_done s + processed then Signalling else after_batch t) (s\<lparr>jobs_done := jobs_done s + processed\<rparr>)"

definition signal :: "nat \<Rightarrow> compress_pool \<Rightarrow> compress_pool" where
  "signal t s = go t (after_batch t) (if pcs s 0 = Asleep then go 0 Checking s else s)"

definition check_done :: "compress_pool \<Rightarrow> compress_pool" where
  "check_done s = (if jobs_done s < batch_total s then go 0 Asleep s else go 0 Returned (s\<lparr>batch_active := False\<rparr>))"

inductive pool_step :: "codec \<Rightarrow> ctx \<Rightarrow> (nat \<Rightarrow> bool) \<Rightarrow> compress_pool \<Rightarrow> compress_pool \<Rightarrow> bool"
  for K c contexts where
  fill: "pcs s 0 = FillJobs js \<Longrightarrow> pool_step K c contexts s (go 0 FillNext (fill_jobs js s))"
| fill_next: "pcs s 0 = FillNext \<Longrightarrow> pool_step K c contexts s (go 0 FillDone (s\<lparr>next_job := 0\<rparr>))"
| fill_done: "pcs s 0 = FillDone \<Longrightarrow> pool_step K c contexts s (go 0 Publish (s\<lparr>jobs_done := 0\<rparr>))"
| publish: "pcs s 0 = Publish \<Longrightarrow> pool_step K c contexts s (publish contexts s)"
| leave: "t \<noteq> 0 \<Longrightarrow> pcs s t = Waiting \<Longrightarrow> shutdown s \<Longrightarrow> pool_step K c contexts s (go t Gone s)"
| take_async: "t \<noteq> 0 \<Longrightarrow> pcs s t = Waiting \<Longrightarrow> \<not> shutdown s \<Longrightarrow> async_queue s = j # q \<Longrightarrow>
    pool_step K c contexts s (go t (AsyncJob j) (s\<lparr>async_queue := q\<rparr>))"
| finish_async: "pcs s t = AsyncJob j \<Longrightarrow> pool_step K c contexts s (go t Waiting s)"
| wake: "t \<noteq> 0 \<Longrightarrow> pcs s t = Waiting \<Longrightarrow> \<not> shutdown s \<Longrightarrow> async_queue s = [] \<Longrightarrow> my_gen s t \<noteq> generation s \<Longrightarrow>
    pool_step K c contexts s (wake contexts t s)"
| claim: "pcs s t = Claim processed \<Longrightarrow> pool_step K c contexts s (claim t processed s)"
| run: "pcs s t = Running i processed \<Longrightarrow> pool_step K c contexts s (run_job K c t i processed s)"
| add: "pcs s t = Adding processed \<Longrightarrow> pool_step K c contexts s (add_done t processed s)"
| signal: "pcs s t = Signalling \<Longrightarrow> pool_step K c contexts s (signal t s)"
| check: "pcs s 0 = Checking \<Longrightarrow> pool_step K c contexts s (check_done s)"

inductive pool_run :: "codec \<Rightarrow> ctx \<Rightarrow> (nat \<Rightarrow> bool) \<Rightarrow> compress_pool \<Rightarrow> compress_pool \<Rightarrow> bool"
  for K c contexts s0 where
  start: "pool_run K c contexts s0 s0"
| more: "pool_run K c contexts s0 s \<Longrightarrow> pool_step K c contexts s s' \<Longrightarrow> pool_run K c contexts s0 s'"

text \<open>
  A batch is submitted to a pool at rest: no batch is active, and every worker waits, is busy
  with an asynchronous job or does not exist.
\<close>

definition at_rest :: "nat set \<Rightarrow> compress_input list \<Rightarrow> compress_pool \<Rightarrow> bool" where
  "at_rest W js s \<longleftrightarrow> finite W \<and> 0 \<notin> W \<and> pcs s 0 = FillJobs js \<and> \<not> batch_active s \<and>
     (\<forall>t. t \<noteq> 0 \<longrightarrow> t \<notin> W \<longrightarrow> pcs s t = Gone) \<and> (\<forall>t \<in> W. pcs s t = Waiting \<or> pcs s t = Gone \<or> (\<exists>j. pcs s t = AsyncJob j))"

section \<open>Sums over the threads\<close>

text \<open>The jobs a thread has claimed but not reported, whether it is running a certain one, and its distance from the end.\<close>

fun unreported :: "pc \<Rightarrow> nat" where
  "unreported (Claim n) = n"
| "unreported (Running i n) = n"
| "unreported (Adding n) = n"
| "unreported p = 0"

fun running :: "nat \<Rightarrow> pc \<Rightarrow> nat" where
  "running i (Running k n) = (if k = i then 1 else 0)"
| "running i p = 0"

lemma sum_go:
  fixes f :: "pc \<Rightarrow> nat"
  assumes "finite U" "t \<in> U"
  shows "(\<Sum>u \<in> U. f ((g(t := p)) u)) + f (g t) = (\<Sum>u \<in> U. f (g u)) + f p"
proof -
  have "(\<Sum>u \<in> U - {t}. f ((g(t := p)) u)) = (\<Sum>u \<in> U - {t}. f (g u))" by (rule sum.cong) auto
  then show ?thesis using sum.remove [OF assms, of "\<lambda>u. f ((g(t := p)) u)"] sum.remove [OF assms, of "\<lambda>u. f (g u)"] by simp
qed

abbreviation usum :: "nat set \<Rightarrow> (pc \<Rightarrow> nat) \<Rightarrow> (nat \<Rightarrow> pc) \<Rightarrow> nat" where
  "usum W f g \<equiv> (\<Sum>u \<in> insert 0 W. f (g u))"

lemma usum_go: "finite W \<Longrightarrow> t \<in> insert 0 W \<Longrightarrow> usum W f (g(t := p)) + f (g t) = usum W f g + f p"
  by (rule sum_go) simp_all

lemma usum_same: "finite W \<Longrightarrow> t \<in> insert 0 W \<Longrightarrow> f (g t) = f p \<Longrightarrow> usum W f (g(t := p)) = usum W f g"
  using usum_go [of W t f g p] by simp

lemma usum_member: "finite W \<Longrightarrow> t \<in> insert 0 W \<Longrightarrow> f (g t) \<le> usum W f g"
  by (rule member_le_sum) simp_all

lemma go_fields [simp]:
  "jobs (go t p s) = jobs s" "results (go t p s) = results s" "batch_total (go t p s) = batch_total s" "next_job (go t p s) = next_job s"
  "jobs_done (go t p s) = jobs_done s" "batch_active (go t p s) = batch_active s" "generation (go t p s) = generation s"
  "shutdown (go t p s) = shutdown s" "async_queue (go t p s) = async_queue s" "my_gen (go t p s) = my_gen s"
  "pcs (go t p s) = (pcs s)(t := p)" "runs (go t p s) = runs s"
  by (simp_all add: go_def)

section \<open>The invariant\<close>

fun resting :: "pc \<Rightarrow> bool" where
  "resting Waiting = True"
| "resting Gone = True"
| "resting (AsyncJob j) = True"
| "resting p = False"

text \<open>In the batch, as a worker or as the submitter.\<close>

fun in_batch :: "pc \<Rightarrow> bool" where
  "in_batch (Claim n) = True"
| "in_batch (Running i n) = True"
| "in_batch (Adding n) = True"
| "in_batch Signalling = True"
| "in_batch p = False"

fun claimed_all :: "pc \<Rightarrow> bool" where
  "claimed_all (Adding n) = True"
| "claimed_all Signalling = True"
| "claimed_all Checking = True"
| "claimed_all Asleep = True"
| "claimed_all Returned = True"
| "claimed_all p = False"

definition threads_inv :: "nat set \<Rightarrow> (nat \<Rightarrow> pc) \<Rightarrow> bool" where
  "threads_inv W g \<longleftrightarrow> finite W \<and> 0 \<notin> W \<and> (\<forall>t. t \<noteq> 0 \<longrightarrow> t \<notin> W \<longrightarrow> g t = Gone) \<and>
     (\<forall>t \<in> W. resting (g t) \<or> in_batch (g t)) \<and> \<not> resting (g 0)"

definition loaded :: "compress_input list \<Rightarrow> compress_pool \<Rightarrow> bool" where
  "loaded js s \<longleftrightarrow> jobs s = js \<and> batch_total s = length js \<and> results s = replicate (length js) None \<and> runs s = (\<lambda>_. 0)"

definition fill_inv :: "nat set \<Rightarrow> compress_input list \<Rightarrow> compress_pool \<Rightarrow> bool" where
  "fill_inv W js s \<longleftrightarrow> (\<forall>t \<in> W. resting (pcs s t)) \<and> \<not> batch_active s \<and>
     (pcs s 0 = FillJobs js \<or> pcs s 0 = FillNext \<and> loaded js s \<or> pcs s 0 = FillDone \<and> loaded js s \<and> next_job s = 0 \<or>
      pcs s 0 = Publish \<and> loaded js s \<and> next_job s = 0 \<and> jobs_done s = 0)"

text \<open>
  Every claimed job is either run or has exactly one thread running it, and the jobs reported and
  those not yet reported add up to the claimed ones.
\<close>

definition batch_inv :: "codec \<Rightarrow> ctx \<Rightarrow> nat set \<Rightarrow> compress_input list \<Rightarrow> compress_pool \<Rightarrow> bool" where
  "batch_inv K c W js s \<longleftrightarrow> jobs s = js \<and> batch_total s = length js \<and> length (results s) = length js \<and>
     (\<forall>i. runs s i + usum W (running i) (pcs s) = (if i < next_job s \<and> i < length js then 1 else 0)) \<and>
     (\<forall>i < length js. results s ! i = (if runs s i = 0 then None else Some (compress_worker_job K c (js ! i)))) \<and>
     jobs_done s + usum W unreported (pcs s) = min (next_job s) (length js) \<and>
     (\<forall>t i n. pcs s t = Running i n \<longrightarrow> 0 < n)"

text \<open>The submitter leaves only when all is done, and never sleeps when nobody is left to wake it.\<close>

definition sub_inv :: "nat set \<Rightarrow> compress_pool \<Rightarrow> bool" where
  "sub_inv W s \<longleftrightarrow> (in_batch (pcs s 0) \<or> claimed_all (pcs s 0)) \<and> (claimed_all (pcs s 0) \<longrightarrow> batch_total s \<le> next_job s) \<and>
     (pcs s 0 = Asleep \<longrightarrow> jobs_done s < batch_total s \<or> (\<exists>t \<in> W. pcs s t = Signalling)) \<and>
     (pcs s 0 = Returned \<longrightarrow> batch_total s \<le> jobs_done s)"

definition pool_inv :: "codec \<Rightarrow> ctx \<Rightarrow> nat set \<Rightarrow> compress_input list \<Rightarrow> compress_pool \<Rightarrow> bool" where
  "pool_inv K c W js s \<longleftrightarrow> threads_inv W (pcs s) \<and> (fill_inv W js s \<or> batch_inv K c W js s \<and> sub_inv W s)"

lemma at_rest_inv: "at_rest W js s \<Longrightarrow> pool_inv K c W js s"
  by (auto simp: at_rest_def pool_inv_def threads_inv_def fill_inv_def)

text \<open>Moves that touch neither the claims nor the results.\<close>

definition plain_pc :: "pc \<Rightarrow> bool" where
  "plain_pc p \<longleftrightarrow> unreported p = 0 \<and> (\<forall>i. running i p = 0)"

lemma plain_pcs [simp]: "plain_pc Waiting" "plain_pc Gone" "plain_pc (AsyncJob j)" "plain_pc (Claim 0)" "plain_pc Signalling" "plain_pc Checking"
  "plain_pc Asleep" "plain_pc Returned" "plain_pc (after_batch t)"
  by (simp_all add: plain_pc_def after_batch_def)

lemma resting_plain: "resting p \<Longrightarrow> plain_pc p"
  by (cases p) simp_all

lemma batch_inv_plain:
  assumes "batch_inv K c W js s" "finite W" "t \<in> insert 0 W" "plain_pc (pcs s t)" "plain_pc p"
    and "jobs s' = jobs s" "results s' = results s" "batch_total s' = batch_total s" "next_job s' = next_job s" "jobs_done s' = jobs_done s"
    "runs s' = runs s" "pcs s' = (pcs s)(t := p)"
  shows "batch_inv K c W js s'"
proof -
  have "usum W unreported (pcs s') = usum W unreported (pcs s)" "usum W (running i) (pcs s') = usum W (running i) (pcs s)" for i
    using usum_same [OF assms(2,3), of _ "pcs s" p] assms(4,5) unfolding assms(12) plain_pc_def by auto
  moreover have "\<forall>t i n. pcs s' t = Running i n \<longrightarrow> 0 < n"
    using assms(1,5) unfolding assms(12) batch_inv_def plain_pc_def by (auto split: if_splits)
  ultimately show ?thesis using assms(1) unfolding batch_inv_def assms(6-11) by simp
qed

lemma sub_inv_worker:
  assumes "sub_inv W s" "t \<noteq> 0" "pcs s t \<noteq> Signalling" "batch_total s' = batch_total s" "next_job s \<le> next_job s'" "jobs_done s' = jobs_done s"
    and "pcs s' = (pcs s)(t := p)"
  shows "sub_inv W s'"
  using assms unfolding sub_inv_def by auto

lemma threads_inv_go:
  assumes "threads_inv W g" "t \<in> insert 0 W" "if t = 0 then \<not> resting p else resting p \<or> in_batch p"
  shows "threads_inv W (g(t := p))"
  using assms by (auto simp: threads_inv_def split: if_splits)

lemma threads_member: "threads_inv W g \<Longrightarrow> g t \<noteq> Gone \<Longrightarrow> t \<in> insert 0 W"
  by (auto simp: threads_inv_def)

lemma plain_usum: "finite W \<Longrightarrow> \<forall>t \<in> insert 0 W. plain_pc (g t) \<Longrightarrow> usum W unreported g = 0 \<and> usum W (running i) g = 0"
  by (auto simp: plain_pc_def)

lemma batch_inv_claim:
  assumes I: "batch_inv K c W js s" and W: "finite W" "t \<in> insert 0 W" "pcs s t = Claim n"
  shows "batch_inv K c W js (claim t n s)"
proof -
  let ?s = "claim t n s"
  have f: "jobs ?s = jobs s" "batch_total ?s = batch_total s" "results ?s = results s" "runs ?s = runs s" "next_job ?s = Suc (next_job s)" "jobs_done ?s = jobs_done s"
    by (simp_all add: claim_def)
  have tot: "batch_total s = length js" using I by (simp add: batch_inv_def)
  have r: "runs s i + usum W (running i) (pcs s) = (if i < next_job s \<and> i < length js then 1 else 0)" for i using I by (simp add: batch_inv_def)
  have d: "jobs_done s + usum W unreported (pcs s) = min (next_job s) (length js)" using I by (simp add: batch_inv_def)
  have "(\<forall>i. runs s i + usum W (running i) (pcs ?s) = (if i < Suc (next_job s) \<and> i < length js then 1 else 0)) \<and>
      jobs_done s + usum W unreported (pcs ?s) = min (Suc (next_job s)) (length js) \<and> (\<forall>u i m. pcs ?s u = Running i m \<longrightarrow> 0 < m)"
  proof (cases "next_job s < batch_total s")
    case True
    let ?p = "Running (next_job s) (Suc n)"
    have p: "pcs ?s = (pcs s)(t := ?p)" using True by (simp add: claim_def)
    have u: "usum W unreported (pcs ?s) = Suc (usum W unreported (pcs s))"
      using usum_go [OF W(1,2), of unreported "pcs s" ?p] W(3) unfolding p by simp
    have v: "usum W (running i) (pcs ?s) = usum W (running i) (pcs s) + (if next_job s = i then 1 else 0)" for i
      using usum_go [OF W(1,2), of "running i" "pcs s" ?p] W(3) unfolding p by simp
    have "runs s i + usum W (running i) (pcs ?s) = (if i < Suc (next_job s) \<and> i < length js then 1 else 0)" for i
      using r [of i] True tot unfolding v by (cases i "next_job s" rule: linorder_cases) simp_all
    moreover have "\<forall>u i m. pcs ?s u = Running i m \<longrightarrow> 0 < m" using I unfolding p batch_inv_def by auto
    ultimately show ?thesis using d u True tot by simp
  next
    case False
    let ?p = "if 0 < n then Adding n else after_batch t"
    have p: "pcs ?s = (pcs s)(t := ?p)" using False by (simp add: claim_def)
    have "unreported ?p = n" "running i ?p = 0" for i by (simp_all add: after_batch_def)
    then have u: "usum W unreported (pcs ?s) = usum W unreported (pcs s)" and v: "usum W (running i) (pcs ?s) = usum W (running i) (pcs s)" for i
      using usum_same [OF W(1,2), of unreported "pcs s" ?p] usum_same [OF W(1,2), of "running i" "pcs s" ?p] W(3) unfolding p by simp_all
    have "runs s i + usum W (running i) (pcs ?s) = (if i < Suc (next_job s) \<and> i < length js then 1 else 0)" for i
      using r [of i] False tot unfolding v by (auto simp: less_Suc_eq split: if_splits)
    moreover have "\<forall>u i m. pcs ?s u = Running i m \<longrightarrow> 0 < m" using I unfolding p batch_inv_def after_batch_def by auto
    ultimately show ?thesis using d u False tot by simp
  qed
  then show ?thesis using I unfolding batch_inv_def f by blast
qed

lemma batch_inv_run:
  assumes "batch_inv K c W js s" "finite W" "t \<in> insert 0 W" "pcs s t = Running k n"
  shows "batch_inv K c W js (run_job K c t k n s)"
proof -
  let ?s = "run_job K c t k n s"
  have p: "pcs ?s = (pcs s)(t := Claim n)" by (simp add: run_job_def)
  have "1 \<le> usum W (running k) (pcs s)" using usum_member [OF assms(2,3), of "running k" "pcs s"] assms(4) by simp
  moreover have I: "runs s k + usum W (running k) (pcs s) = (if k < next_job s \<and> k < length js then 1 else 0)" using assms(1) by (simp add: batch_inv_def)
  ultimately have k: "k < length js" "runs s k = 0" by (auto split: if_splits)
  have u: "usum W unreported (pcs ?s) = usum W unreported (pcs s)"
    using usum_go [OF assms(2,3), of unreported "pcs s" "Claim n"] assms(4) unfolding p by simp
  have v: "usum W (running i) (pcs ?s) + (if k = i then 1 else 0) = usum W (running i) (pcs s)" for i
    using usum_go [OF assms(2,3), of "running i" "pcs s" "Claim n"] assms(4) unfolding p by simp
  have w: "runs ?s i = runs s i + (if k = i then 1 else 0)" for i by (simp add: run_job_def)
  have r: "runs ?s i + usum W (running i) (pcs ?s) = runs s i + usum W (running i) (pcs s)" for i
    unfolding w v [of i, symmetric] by simp
  have q: "\<forall>u i m. pcs ?s u = Running i m \<longrightarrow> 0 < m" using assms(1) unfolding p batch_inv_def by auto
  have res: "\<forall>i < length js. results ?s ! i = (if runs ?s i = 0 then None else Some (compress_worker_job K c (js ! i)))"
    using assms(1) k by (auto simp: run_job_def batch_inv_def nth_list_update)
  have f: "jobs ?s = jobs s" "batch_total ?s = batch_total s" "length (results ?s) = length (results s)" "next_job ?s = next_job s" "jobs_done ?s = jobs_done s"
    by (simp_all add: run_job_def)
  show ?thesis using assms(1) q res unfolding batch_inv_def f r u by blast
qed

lemma batch_inv_add:
  assumes "batch_inv K c W js s" "finite W" "t \<in> insert 0 W" "pcs s t = Adding n"
  shows "batch_inv K c W js (add_done t n s)"
proof -
  let ?s = "add_done t n s" and ?p = "if batch_total s \<le> jobs_done s + n then Signalling else after_batch t"
  have p: "pcs ?s = (pcs s)(t := ?p)" by (simp add: add_done_def)
  have pp: "unreported ?p = 0" "running i ?p = 0" for i by (simp_all add: after_batch_def)
  have "usum W unreported (pcs ?s) + n = usum W unreported (pcs s)"
    using usum_go [OF assms(2,3), of unreported "pcs s" ?p] assms(4) pp(1) unfolding p by (simp only: unreported.simps add_0_right)
  moreover have "usum W (running i) (pcs ?s) = usum W (running i) (pcs s)" for i
    unfolding p by (rule usum_same [OF assms(2,3)]) (simp add: assms(4) pp(2) del: if_split)
  moreover have "\<forall>u i m. pcs ?s u = Running i m \<longrightarrow> 0 < m" using assms(1) unfolding p batch_inv_def after_batch_def by auto
  moreover have "jobs_done ?s = jobs_done s + n" "jobs ?s = jobs s" "batch_total ?s = batch_total s" "results ?s = results s" "runs ?s = runs s" "next_job ?s = next_job s"
    by (simp_all add: add_done_def)
  ultimately show ?thesis using assms(1) unfolding batch_inv_def by simp
qed

lemma fill_inv_worker:
  assumes "fill_inv W js s" "t \<noteq> 0" "resting p" "jobs s' = jobs s" "results s' = results s" "batch_total s' = batch_total s"
    "next_job s' = next_job s" "jobs_done s' = jobs_done s" "runs s' = runs s" "batch_active s' = batch_active s" "pcs s' = (pcs s)(t := p)"
  shows "fill_inv W js s'"
  using assms(1-3) unfolding fill_inv_def loaded_def assms(4-11) by auto

lemma not_both: "fill_inv W js s \<Longrightarrow> \<not> in_batch (pcs s 0) \<and> \<not> claimed_all (pcs s 0)"
  by (auto simp: fill_inv_def)

lemma resting_not_in_batch: "resting p \<Longrightarrow> \<not> in_batch p"
  by (cases p) simp_all

lemma fill_workers:
  assumes "fill_inv W js s" "threads_inv W (pcs s)"
  shows "\<not> in_batch (pcs s t)"
proof -
  consider "t = 0" | "t \<in> W" | "t \<noteq> 0" "t \<notin> W" by blast
  then show ?thesis
  proof cases
    case 1
    then show ?thesis using not_both [OF assms(1)] by simp
  next
    case 2
    then show ?thesis using assms(1) resting_not_in_batch by (simp add: fill_inv_def)
  next
    case 3
    then have "pcs s t = Gone" using assms(2) by (simp add: threads_inv_def)
    then show ?thesis by simp
  qed
qed

text \<open>A worker that comes or goes, in any phase.\<close>

lemma pool_inv_worker:
  assumes I: "pool_inv K c W js s" and t: "t \<noteq> 0" "resting (pcs s t)" "pcs s t \<noteq> Gone" and p: "resting p \<or> p = Claim 0 \<and> batch_active s"
    and same: "jobs s' = jobs s" "results s' = results s" "batch_total s' = batch_total s" "next_job s' = next_job s" "jobs_done s' = jobs_done s"
      "runs s' = runs s" "batch_active s' = batch_active s" "pcs s' = (pcs s)(t := p)"
  shows "pool_inv K c W js s'"
proof -
  have T: "threads_inv W (pcs s)" using I by (simp add: pool_inv_def)
  then have m: "t \<in> insert 0 W" "finite W" using threads_member [OF T t(3)] by (simp_all add: threads_inv_def)
  have "threads_inv W (pcs s')" unfolding same(8) by (rule threads_inv_go [OF T m(1)]) (use t(1) p in auto)
  moreover have "fill_inv W js s'" if "fill_inv W js s"
    by (rule fill_inv_worker [OF that t(1) _ same(1-7,8)]) (use p that in \<open>auto simp: fill_inv_def\<close>)
  moreover have "batch_inv K c W js s'" if "batch_inv K c W js s"
    by (rule batch_inv_plain [OF that m(2,1) resting_plain [OF t(2)] _ same(1-6,8)]) (use p resting_plain in auto)
  moreover have "sub_inv W s'" if "sub_inv W s"
    by (rule sub_inv_worker [OF that t(1) _ same(3) _ same(5,8)]) (use t(2) same(4) in auto)
  ultimately show ?thesis using I unfolding pool_inv_def by blast
qed

lemma publish_inv:
  assumes I: "pool_inv K c W js s" and ok: "contexts 0" and p: "pcs s 0 = Publish"
  shows "pool_inv K c W js (publish contexts s)"
proof -
  let ?s = "publish contexts s"
  have T: "threads_inv W (pcs s)" and F: "fill_inv W js s" using I p by (auto simp: pool_inv_def sub_inv_def)
  have pc: "pcs ?s = (pcs s)(0 := Claim 0)" using ok by (simp add: publish_def)
  have W: "finite W" "0 \<notin> W" using T by (simp_all add: threads_inv_def)
  have "\<forall>t \<in> insert 0 W. plain_pc (pcs ?s t)" using F W(2) resting_plain unfolding pc fill_inv_def by auto
  note U = plain_usum [OF W(1) this]
  have f: "jobs ?s = js" "batch_total ?s = length js" "results ?s = replicate (length js) None" "runs ?s = (\<lambda>_. 0)" "next_job ?s = 0" "jobs_done ?s = 0"
    using F p by (auto simp: fill_inv_def loaded_def publish_def)
  have "\<forall>t i n. pcs ?s t = Running i n \<longrightarrow> 0 < n" using fill_workers [OF F T] unfolding pc by (auto split: if_splits) (metis in_batch.simps(2))
  then have "batch_inv K c W js ?s" unfolding batch_inv_def f using U by simp
  moreover have "sub_inv W ?s" by (simp add: sub_inv_def pc)
  moreover have "threads_inv W (pcs ?s)" unfolding pc by (rule threads_inv_go [OF T]) simp_all
  ultimately show ?thesis by (simp add: pool_inv_def)
qed

lemma batch_phase: "pool_inv K c W js s \<Longrightarrow> in_batch (pcs s t) \<or> t = 0 \<and> claimed_all (pcs s t) \<Longrightarrow>
  batch_inv K c W js s \<and> sub_inv W s \<and> threads_inv W (pcs s) \<and> finite W \<and> t \<in> insert 0 W"
  using fill_workers not_both threads_member [of W "pcs s" t] unfolding pool_inv_def threads_inv_def by (metis in_batch.simps(7) insertCI)

lemma claim_inv:
  assumes I: "pool_inv K c W js s" and p: "pcs s t = Claim n"
  shows "pool_inv K c W js (claim t n s)"
proof -
  let ?s = "claim t n s"
  have B: "batch_inv K c W js s" "sub_inv W s" "threads_inv W (pcs s)" "finite W" "t \<in> insert 0 W" using batch_phase [OF I, of t] p by simp_all
  let ?p = "if next_job s < batch_total s then Running (next_job s) (Suc n) else if 0 < n then Adding n else after_batch t"
  have pc: "pcs ?s = (pcs s)(t := ?p)" by (simp add: claim_def)
  have "threads_inv W (pcs ?s)" unfolding pc by (rule threads_inv_go [OF B(3,5)]) (simp add: after_batch_def)
  moreover have "sub_inv W ?s"
  proof (cases "t = 0")
    case True
    then show ?thesis using p by (auto simp: sub_inv_def claim_def after_batch_def)
  next
    case False
    show ?thesis by (rule sub_inv_worker [OF B(2) False _ _ _ _ pc]) (simp_all add: p claim_def)
  qed
  ultimately show ?thesis using batch_inv_claim [OF B(1,4,5) p] by (simp add: pool_inv_def)
qed

lemma run_inv:
  assumes I: "pool_inv K c W js s" and p: "pcs s t = Running i n"
  shows "pool_inv K c W js (run_job K c t i n s)"
proof -
  let ?s = "run_job K c t i n s"
  have B: "batch_inv K c W js s" "sub_inv W s" "threads_inv W (pcs s)" "finite W" "t \<in> insert 0 W" using batch_phase [OF I, of t] p by simp_all
  have pc: "pcs ?s = (pcs s)(t := Claim n)" by (simp add: run_job_def)
  have "threads_inv W (pcs ?s)" unfolding pc by (rule threads_inv_go [OF B(3,5)]) simp
  moreover have "sub_inv W ?s"
  proof (cases "t = 0")
    case False
    show ?thesis by (rule sub_inv_worker [OF B(2) False _ _ _ _ pc]) (simp_all add: p run_job_def)
  qed (simp add: sub_inv_def run_job_def)
  ultimately show ?thesis using batch_inv_run [OF B(1,4,5) p] by (simp add: pool_inv_def)
qed

lemma add_inv:
  assumes I: "pool_inv K c W js s" and p: "pcs s t = Adding n"
  shows "pool_inv K c W js (add_done t n s)"
proof -
  let ?s = "add_done t n s"
  have B: "batch_inv K c W js s" "sub_inv W s" "threads_inv W (pcs s)" "finite W" "t \<in> insert 0 W" using batch_phase [OF I, of t] p by simp_all
  let ?p = "if batch_total s \<le> jobs_done s + n then Signalling else after_batch t"
  have pc: "pcs ?s = (pcs s)(t := ?p)" by (simp add: add_done_def)
  have f: "batch_total ?s = batch_total s" "next_job ?s = next_job s" "jobs_done ?s = jobs_done s + n" by (simp_all add: add_done_def)
  have "threads_inv W (pcs ?s)" unfolding pc by (rule threads_inv_go [OF B(3,5)]) (simp add: after_batch_def)
  moreover have "sub_inv W ?s"
  proof (cases "t = 0")
    case True
    then show ?thesis using B(2) p unfolding sub_inv_def f pc by (simp add: after_batch_def)
  next
    case False
    have w: "\<exists>u \<in> W. pcs ?s u = Signalling" if "\<not> jobs_done s + n < batch_total s"
      by (rule bexI [of _ t]) (use B(5) False that in \<open>simp_all add: pc\<close>)
    have "pcs ?s 0 = pcs s 0" using False by (simp add: pc)
    then show ?thesis using B(2) w unfolding sub_inv_def f by fastforce
  qed
  ultimately show ?thesis using batch_inv_add [OF B(1,4,5) p] by (simp add: pool_inv_def)
qed

lemma signal_inv:
  assumes I: "pool_inv K c W js s" and p: "pcs s t = Signalling"
  shows "pool_inv K c W js (signal t s)"
proof -
  have B: "batch_inv K c W js s" "sub_inv W s" "threads_inv W (pcs s)" "finite W" "t \<in> insert 0 W" using batch_phase [OF I, of t] p by simp_all
  let ?s1 = "if pcs s 0 = Asleep then go 0 Checking s else s"
  have pt: "pcs ?s1 t = Signalling" using p by auto
  have T1: "threads_inv W (pcs ?s1)" using B(3) threads_inv_go [OF B(3), of 0 Checking] by simp
  have B1: "batch_inv K c W js ?s1"
  proof (cases "pcs s 0 = Asleep")
    case True
    have "batch_inv K c W js (go 0 Checking s)" by (rule batch_inv_plain [OF B(1,4), of 0 Checking]) (simp_all add: True)
    then show ?thesis using True by simp
  qed (use B(1) in simp)
  have na: "pcs ?s1 0 \<noteq> Asleep" by simp
  have S1: "sub_inv W ?s1" using B(2) unfolding sub_inv_def by auto
  have "batch_inv K c W js (signal t s)" unfolding signal_def
    by (rule batch_inv_plain [OF B1 B(4,5), of "after_batch t"]) (simp_all only: pt plain_pcs go_fields)
  moreover have "threads_inv W (pcs (signal t s))" unfolding signal_def go_fields
    by (rule threads_inv_go [OF T1 B(5)]) (simp add: after_batch_def)
  moreover have "sub_inv W (signal t s)"
    using S1 na pt unfolding signal_def sub_inv_def go_fields after_batch_def by (cases "t = 0") auto
  ultimately show ?thesis by (simp add: pool_inv_def)
qed

lemma check_inv:
  assumes I: "pool_inv K c W js s" and p: "pcs s 0 = Checking"
  shows "pool_inv K c W js (check_done s)"
proof -
  have B: "batch_inv K c W js s" "sub_inv W s" "threads_inv W (pcs s)" "finite W" using batch_phase [OF I, of 0] p by simp_all
  let ?p = "if jobs_done s < batch_total s then Asleep else Returned"
  have pc: "pcs (check_done s) = (pcs s)(0 := ?p)" by (simp add: check_done_def)
  have f: "jobs (check_done s) = jobs s" "results (check_done s) = results s" "batch_total (check_done s) = batch_total s"
    "next_job (check_done s) = next_job s" "jobs_done (check_done s) = jobs_done s" "runs (check_done s) = runs s"
    by (simp_all add: check_done_def)
  have "batch_inv K c W js (check_done s)" by (rule batch_inv_plain [OF B(1,4) _ _ _ f pc]) (simp_all add: p)
  moreover have "threads_inv W (pcs (check_done s))" unfolding pc by (rule threads_inv_go [OF B(3)]) simp_all
  moreover have "sub_inv W (check_done s)" using B(2) p unfolding sub_inv_def f pc by auto
  ultimately show ?thesis by (simp add: pool_inv_def)
qed

lemma fill_inv_steps:
  assumes I: "pool_inv K c W js s"
  shows "pcs s 0 = FillJobs js' \<Longrightarrow> pool_inv K c W js (go 0 FillNext (fill_jobs js' s))"
    "pcs s 0 = FillNext \<Longrightarrow> pool_inv K c W js (go 0 FillDone (s\<lparr>next_job := 0\<rparr>))"
    "pcs s 0 = FillDone \<Longrightarrow> pool_inv K c W js (go 0 Publish (s\<lparr>jobs_done := 0\<rparr>))"
proof -
  have T: "threads_inv W (pcs s)" using I by (simp add: pool_inv_def)
  then have W: "0 \<notin> W" by (simp add: threads_inv_def)
  have go: "threads_inv W ((pcs s)(0 := p))" if "\<not> resting p" for p by (rule threads_inv_go [OF T]) (use that in simp_all)
  have F: "fill_inv W js s" if "\<not> in_batch (pcs s 0)" "\<not> claimed_all (pcs s 0)" using I that by (auto simp: pool_inv_def sub_inv_def)
  have ws: "t \<in> W \<Longrightarrow> t \<noteq> 0" for t using W by metis
  show "pcs s 0 = FillJobs js' \<Longrightarrow> pool_inv K c W js (go 0 FillNext (fill_jobs js' s))"
    using F go [of FillNext] ws by (auto simp: pool_inv_def fill_inv_def loaded_def fill_jobs_def)
  show "pcs s 0 = FillNext \<Longrightarrow> pool_inv K c W js (go 0 FillDone (s\<lparr>next_job := 0\<rparr>))"
    using F go [of FillDone] ws by (auto simp: pool_inv_def fill_inv_def loaded_def)
  show "pcs s 0 = FillDone \<Longrightarrow> pool_inv K c W js (go 0 Publish (s\<lparr>jobs_done := 0\<rparr>))"
    using F go [of Publish] ws by (auto simp: pool_inv_def fill_inv_def loaded_def)
qed

lemma pool_step_inv: "pool_step K c contexts s s' \<Longrightarrow> pool_inv K c W js s \<Longrightarrow> contexts 0 \<Longrightarrow> pool_inv K c W js s'"
proof (induction rule: pool_step.induct)
  case (finish_async s t j)
  have r: "resting (pcs s t)" "pcs s t \<noteq> Gone" using finish_async(1) by simp_all
  have "\<not> resting (pcs s 0)" using finish_async(2) by (simp add: pool_inv_def threads_inv_def)
  then have "t \<noteq> 0" using r(1) by (cases "t = 0") (simp_all only: simp_thms)
  then show ?case by (rule pool_inv_worker [OF finish_async(2) _ r, of Waiting]) simp_all
next
  case (leave t s)
  show ?case by (rule pool_inv_worker [of K c W js s t Gone]) (use leave in simp_all)
next
  case (take_async t s j q)
  show ?case by (rule pool_inv_worker [of K c W js s t "AsyncJob j"]) (use take_async in simp_all)
next
  case (wake t s)
  show ?case
    by (rule pool_inv_worker [of K c W js s t "if batch_active s \<and> contexts t then Claim 0 else Waiting"]) (use wake in \<open>simp_all add: wake_def\<close>)
qed (simp_all add: fill_inv_steps publish_inv claim_inv run_inv add_inv signal_inv check_inv)

section \<open>Every execution comes to an end\<close>

fun rank :: "pc \<Rightarrow> nat" where
  "rank Waiting = 1"
| "rank (AsyncJob j) = 2"
| "rank (Claim n) = 5"
| "rank (Running i n) = 6"
| "rank (Adding n) = 4"
| "rank Signalling = 3"
| "rank Checking = 1"
| "rank p = 0"

fun fill_rank :: "pc \<Rightarrow> nat" where
  "fill_rank (FillJobs js) = 4"
| "fill_rank FillNext = 3"
| "fill_rank FillDone = 2"
| "fill_rank Publish = 1"
| "fill_rank p = 0"

text \<open>Workers that have not seen the generation wake once; every queued job and every unclaimed job is taken once.\<close>

definition unseen :: "nat set \<Rightarrow> compress_pool \<Rightarrow> nat" where
  "unseen W s = card {t \<in> W. my_gen s t \<noteq> generation s}"

definition pool_work :: "nat set \<Rightarrow> compress_input list \<Rightarrow> compress_pool \<Rightarrow> nat" where
  "pool_work W js s = usum W rank (pcs s) + 8 * unseen W s + 10 * length (async_queue s) +
     (if fill_rank (pcs s 0) = 0 then 10 * (batch_total s - next_job s) else fill_rank (pcs s 0) + 8 * card W + 10 * length js + 5)"

lemma unseen_le: "finite W \<Longrightarrow> unseen W s \<le> card W"
  unfolding unseen_def by (rule card_mono) auto

lemma pool_work_go:
  assumes "finite W" "t \<in> insert 0 W" "pcs s' = (pcs s)(t := p)" "generation s' = generation s" "my_gen s' = my_gen s"
    and "fill_rank (pcs s 0) = 0" "fill_rank p = 0" "batch_total s' = batch_total s"
    and "rank p + 10 * length (async_queue s') + 10 * (batch_total s - next_job s') < rank (pcs s t) + 10 * length (async_queue s) + 10 * (batch_total s - next_job s)"
  shows "pool_work W js s' < pool_work W js s"
proof -
  have "usum W rank (pcs s') + rank (pcs s t) = usum W rank (pcs s) + rank p" unfolding assms(3) by (rule usum_go [OF assms(1,2)])
  moreover have "unseen W s' = unseen W s" by (simp add: unseen_def assms(4,5))
  moreover have "fill_rank (pcs s' 0) = 0" using assms(3,6,7) by simp
  ultimately show ?thesis using assms(6,8,9) by (simp add: pool_work_def)
qed

lemma pool_work_worker:
  assumes "finite W" "t \<in> W" "t \<noteq> 0" "pcs s' = (pcs s)(t := p)" "batch_total s' = batch_total s" "next_job s' = next_job s"
    and "rank p + 8 * unseen W s' + 10 * length (async_queue s') < rank (pcs s t) + 8 * unseen W s + 10 * length (async_queue s)"
  shows "pool_work W js s' < pool_work W js s"
proof -
  have "usum W rank (pcs s') + rank (pcs s t) = usum W rank (pcs s) + rank p" unfolding assms(4) by (rule usum_go) (use assms(1,2) in simp_all)
  moreover have "pcs s' 0 = pcs s 0" using assms(3,4) by simp
  ultimately show ?thesis using assms(5-7) by (simp add: pool_work_def)
qed

lemma pool_work_fill:
  assumes "finite W" "pcs s' = (pcs s)(0 := p)" "generation s' = generation s" "my_gen s' = my_gen s" "async_queue s' = async_queue s"
    and "rank p = 0" "0 < fill_rank p" "fill_rank p < fill_rank (pcs s 0)"
  shows "pool_work W js s' < pool_work W js s"
proof -
  have "usum W rank (pcs s') + rank (pcs s 0) = usum W rank (pcs s) + rank p" unfolding assms(2) by (rule usum_go [OF assms(1)]) simp
  moreover have "unseen W s' = unseen W s" by (simp add: unseen_def assms(3,4))
  ultimately show ?thesis using assms(2,5-8) by (simp add: pool_work_def)
qed

lemma publish_work:
  assumes F: "fill_inv W js s" and W: "finite W" and p: "pcs s 0 = Publish"
  shows "pool_work W js (publish contexts s) < pool_work W js s"
proof -
  let ?s = "publish contexts s" and ?p = "if contexts 0 then Claim 0 else Checking"
  have pc: "pcs ?s = (pcs s)(0 := ?p)" by (simp add: publish_def)
  have "usum W rank (pcs ?s) + rank (pcs s 0) = usum W rank (pcs s) + rank ?p" unfolding pc by (rule usum_go [OF W]) simp
  moreover have "rank ?p \<le> 5" "fill_rank (pcs ?s 0) = 0" by (simp_all add: pc)
  moreover have "batch_total ?s = length js" "async_queue ?s = async_queue s" using F p by (auto simp: publish_def fill_inv_def loaded_def)
  ultimately show ?thesis using unseen_le [OF W, of ?s] p by (simp add: pool_work_def)
qed

lemma wake_unseen:
  assumes "finite W" "t \<in> W" "my_gen s t \<noteq> generation s" "my_gen s' = (my_gen s)(t := generation s)" "generation s' = generation s"
  shows "Suc (unseen W s') = unseen W s"
proof -
  have "{u \<in> W. my_gen s u \<noteq> generation s} = insert t {u \<in> W. my_gen s' u \<noteq> generation s'}" using assms(2-5) by auto
  moreover have "t \<notin> {u \<in> W. my_gen s' u \<noteq> generation s'}" using assms(4,5) by simp
  ultimately show ?thesis using assms(1) unfolding unseen_def by simp
qed

lemma signal_work:
  assumes W: "finite W" "t \<in> insert 0 W" and p: "pcs s t = Signalling" "fill_rank (pcs s 0) = 0"
  shows "pool_work W js (signal t s) < pool_work W js s"
proof -
  let ?s1 = "if pcs s 0 = Asleep then go 0 Checking s else s"
  have t: "pcs ?s1 t = Signalling" "fill_rank (pcs ?s1 0) = 0" using p by auto
  have "usum W rank (pcs ?s1) \<le> usum W rank (pcs s) + 1" using usum_go [OF W(1), of 0 rank "pcs s" Checking] by simp
  moreover have "usum W rank (pcs (signal t s)) + rank (pcs ?s1 t) = usum W rank (pcs ?s1) + rank (after_batch t)"
    unfolding signal_def go_fields by (rule usum_go [OF W])
  moreover have "rank (after_batch t) = 1" "fill_rank (pcs (signal t s) 0) = 0" using t(2) by (simp_all add: after_batch_def signal_def)
  moreover have "unseen W (signal t s) = unseen W s" "async_queue (signal t s) = async_queue s" "batch_total (signal t s) = batch_total s" "next_job (signal t s) = next_job s"
    by (simp_all add: unseen_def signal_def)
  ultimately show ?thesis using p(2) unfolding pool_work_def t(1) by simp
qed

lemma batch_phase_rank: "pool_inv K c W js s \<Longrightarrow> in_batch (pcs s t) \<or> t = 0 \<and> claimed_all (pcs s t) \<Longrightarrow> fill_rank (pcs s 0) = 0"
proof -
  assume "pool_inv K c W js s" "in_batch (pcs s t) \<or> t = 0 \<and> claimed_all (pcs s t)"
  then have "in_batch (pcs s 0) \<or> claimed_all (pcs s 0)" using batch_phase [of K c W js s t] by (simp add: sub_inv_def)
  then show ?thesis by (cases "pcs s 0") simp_all
qed

lemma pool_step_work: "pool_step K c contexts s s' \<Longrightarrow> pool_inv K c W js s \<Longrightarrow> pool_work W js s' < pool_work W js s"
proof (induction rule: pool_step.induct)
  case (fill s js')
  then show ?case by (intro pool_work_fill [of _ _ _ FillNext]) (simp_all add: pool_inv_def threads_inv_def fill_jobs_def)
next
  case (fill_next s)
  then show ?case by (intro pool_work_fill [of _ _ _ FillDone]) (simp_all add: pool_inv_def threads_inv_def)
next
  case (fill_done s)
  then show ?case by (intro pool_work_fill [of _ _ _ Publish]) (simp_all add: pool_inv_def threads_inv_def)
next
  case (publish s)
  then show ?case by (intro publish_work) (auto simp: pool_inv_def threads_inv_def sub_inv_def)
next
  case (leave t s)
  then show ?case using threads_member [of W "pcs s" t] by (intro pool_work_worker [of _ t _ _ Gone]) (simp_all add: pool_inv_def threads_inv_def unseen_def)
next
  case (take_async t s j q)
  then show ?case using threads_member [of W "pcs s" t] by (intro pool_work_worker [of _ t _ _ "AsyncJob j"]) (simp_all add: pool_inv_def threads_inv_def unseen_def)
next
  case (finish_async s t j)
  have "\<not> resting (pcs s 0)" using finish_async(2) by (simp add: pool_inv_def threads_inv_def)
  then have "t \<noteq> 0" using finish_async(1) by (cases "t = 0") simp_all
  then show ?case using finish_async threads_member [of W "pcs s" t]
    by (intro pool_work_worker [of _ t _ _ Waiting]) (simp_all add: pool_inv_def threads_inv_def unseen_def)
next
  case (wake t s)
  have W: "finite W" "t \<in> W" using wake threads_member [of W "pcs s" t] by (simp_all add: pool_inv_def threads_inv_def)
  define q where "q = (if batch_active s \<and> contexts t then Claim 0 else Waiting)"
  have q: "rank q \<le> 5" "pcs (wake contexts t s) = (pcs s)(t := q)" by (simp_all add: q_def wake_def)
  have "Suc (unseen W (wake contexts t s)) = unseen W s" by (rule wake_unseen [OF W]) (use wake in \<open>simp_all add: wake_def\<close>)
  then have "rank q + 8 * unseen W (wake contexts t s) < rank (pcs s t) + 8 * unseen W s" using q(1) wake(2) by simp
  then show ?case using W wake(1) q(2) by (intro pool_work_worker [of W t "wake contexts t s" s q]) (simp_all add: wake_def)
next
  case (claim s t n)
  note B = batch_phase [OF claim(2), of t] batch_phase_rank [OF claim(2), of t]
  let ?p = "if next_job s < batch_total s then Running (next_job s) (Suc n) else if 0 < n then Adding n else after_batch t"
  have d: "next_job s < batch_total s \<Longrightarrow> batch_total s - next_job s = Suc (batch_total s - Suc (next_job s))" by simp
  show ?case by (rule pool_work_go [of W t _ _ ?p]) (use B claim(1) in \<open>simp_all add: claim_def after_batch_def d\<close>)
next
  case (run s t i n)
  note B = batch_phase [OF run(2), of t] batch_phase_rank [OF run(2), of t]
  show ?case by (rule pool_work_go [of W t _ _ "Claim n"]) (use B run(1) in \<open>simp_all add: run_job_def\<close>)
next
  case (add s t n)
  note B = batch_phase [OF add(2), of t] batch_phase_rank [OF add(2), of t]
  let ?p = "if batch_total s \<le> jobs_done s + n then Signalling else after_batch t"
  show ?case by (rule pool_work_go [of W t _ _ ?p]) (use B add(1) in \<open>simp_all add: add_done_def after_batch_def\<close>)
next
  case (signal s t)
  note B = batch_phase [OF signal(2), of t] batch_phase_rank [OF signal(2), of t]
  show ?case by (rule signal_work) (use B signal(1) in simp_all)
next
  case (check s)
  note B = batch_phase [OF check(2), of 0] batch_phase_rank [OF check(2), of 0]
  let ?p = "if jobs_done s < batch_total s then Asleep else Returned"
  show ?case by (rule pool_work_go [of W 0 _ _ ?p]) (use B check(1) in \<open>simp_all add: check_done_def\<close>)
qed

section \<open>Properties\<close>

lemma pool_progress:
  assumes I: "pool_inv K c W js s" and nr: "pcs s 0 \<noteq> Returned"
  shows "\<exists>s'. pool_step K c contexts s s'"
proof -
  have moves: "\<exists>s'. pool_step K c contexts s s'" if "in_batch (pcs s t)" for t
    using that by (cases "pcs s t") (auto intro: pool_step.intros)
  have "\<not> resting (pcs s 0)" using I by (simp add: pool_inv_def threads_inv_def)
  then consider "in_batch (pcs s 0)" | "pcs s 0 = Checking" | "fill_rank (pcs s 0) \<noteq> 0" | "pcs s 0 = Asleep" using nr by (cases "pcs s 0") auto
  then show ?thesis
  proof cases
    case 1
    then show ?thesis by (rule moves)
  next
    case 2
    then show ?thesis by (blast intro: pool_step.check)
  next
    case 3
    then show ?thesis by (cases "pcs s 0") (auto intro: pool_step.intros)
  next
    case 4
    then have B: "batch_inv K c W js s" "sub_inv W s" "finite W" using batch_phase [OF I, of 0] by simp_all
    have "\<exists>t. in_batch (pcs s t)"
    proof (cases "jobs_done s < batch_total s")
      case True
      have "batch_total s \<le> next_job s" "batch_total s = length js" "jobs_done s + usum W unreported (pcs s) = min (next_job s) (length js)"
        using B(1,2) 4 by (simp_all add: sub_inv_def batch_inv_def)
      then have "usum W unreported (pcs s) \<noteq> 0" using True by simp
      then obtain t where "unreported (pcs s t) \<noteq> 0" by (meson sum.neutral)
      then show ?thesis by (cases "pcs s t") (auto intro: exI [of _ t])
    next
      case False
      then obtain t where "pcs s t = Signalling" using B(2) 4 by (auto simp: sub_inv_def)
      then show ?thesis by (auto intro: exI [of _ t])
    qed
    then show ?thesis using moves by blast
  qed
qed

lemma pool_returned:
  assumes I: "pool_inv K c W js s" and r: "pcs s 0 = Returned"
  shows "results s = map (\<lambda>j. Some (compress_worker_job K c j)) js \<and> runs s = (\<lambda>i. if i < length js then 1 else 0)"
proof -
  have B: "batch_inv K c W js s" "sub_inv W s" "finite W" using batch_phase [OF I, of 0] r by simp_all
  have tot: "batch_total s = length js" "length js \<le> next_job s" "length js \<le> jobs_done s" using B(1,2) r by (simp_all add: sub_inv_def batch_inv_def)
  then have none: "usum W unreported (pcs s) = 0" using B(1) by (simp add: batch_inv_def)
  have "running i (pcs s t) = 0" if "t \<in> insert 0 W" for i t
  proof (cases "pcs s t")
    case (Running k n)
    then have "0 < unreported (pcs s t)" using B(1) by (auto simp: batch_inv_def)
    then show ?thesis using usum_member [OF B(3) that, of unreported "pcs s"] none by simp
  qed simp_all
  then have "usum W (running i) (pcs s) = 0" for i by simp
  moreover have "\<forall>i. runs s i + usum W (running i) (pcs s) = (if i < next_job s \<and> i < length js then 1 else 0)" using B(1) by (simp add: batch_inv_def)
  ultimately have runs: "runs s i = (if i < length js then 1 else 0)" for i using tot(2) by auto
  have "results s ! i = Some (compress_worker_job K c (js ! i))" if "i < length js" for i using B(1) runs [of i] that by (simp add: batch_inv_def)
  then have "results s = map (\<lambda>j. Some (compress_worker_job K c j)) js" using B(1) by (intro nth_equalityI) (simp_all add: batch_inv_def)
  then show ?thesis using runs by auto
qed

lemma pool_run_inv: "pool_run K c contexts s0 s \<Longrightarrow> pool_inv K c W js s0 \<Longrightarrow> contexts 0 \<Longrightarrow> pool_inv K c W js s"
  by (induction rule: pool_run.induct) (auto intro: pool_step_inv)

text \<open>
  C40: a batch submitted to a pool at rest, by a thread that got its compression contexts, is
  compressed and handed back under every interleaving of the threads, with any number of workers:
  when the submitter returns, every job has been run exactly once and its result is in its place;
  as long as it has not returned, some thread can step, so no wake-up is lost; and every step
  reduces the work that is left, so the return cannot be put off for ever.
\<close>

theorem batch_completes:
  assumes "at_rest W js s0" "contexts 0" "pool_run K c contexts s0 s"
  shows "(pcs s 0 = Returned \<longrightarrow>
      results s = map (\<lambda>j. Some (compress_worker_job K c j)) js \<and> runs s = (\<lambda>i. if i < length js then 1 else 0)) \<and>
    (pcs s 0 \<noteq> Returned \<longrightarrow> (\<exists>s'. pool_step K c contexts s s')) \<and>
    (\<forall>s'. pool_step K c contexts s s' \<longrightarrow> pool_work W js s' < pool_work W js s)"
proof -
  have I: "pool_inv K c W js s" by (rule pool_run_inv [OF assms(3) at_rest_inv [OF assms(1)] assms(2)])
  show ?thesis using pool_returned [OF I] pool_progress [OF I] pool_step_work [OF _ I] by blast
qed

lemma pool_returns:
  "pool_run K c contexts s0 s \<Longrightarrow> pool_inv K c W js s \<Longrightarrow> contexts 0 \<Longrightarrow> \<exists>s'. pool_run K c contexts s0 s' \<and> pool_inv K c W js s' \<and> pcs s' 0 = Returned"
proof (induction "pool_work W js s" arbitrary: s rule: less_induct)
  case less
  show ?case
  proof (cases "pcs s 0 = Returned")
    case False
    then obtain s' where s': "pool_step K c contexts s s'" using pool_progress [OF less(3)] by blast
    show ?thesis
      by (rule less(1) [OF pool_step_work [OF s' less(3)] pool_run.more [OF less(2) s'] pool_step_inv [OF s' less(3,4)] less(4)])
  qed (use less in blast)
qed

definition idle_pool :: "compress_input list \<Rightarrow> compress_pool" where
  "idle_pool js = \<lparr>jobs = [], results = [], batch_total = 0, next_job = 0, jobs_done = 0, batch_active = False, generation = 0, shutdown = False,
     async_queue = [], my_gen = (\<lambda>_. 0), pcs = (\<lambda>t. if t = 0 then FillJobs js else if t \<le> 2 then Waiting else Gone), runs = (\<lambda>_. 0)\<rparr>"

lemma idle_at_rest: "at_rest {1, 2} js (idle_pool js)"
  by (auto simp: at_rest_def idle_pool_def)

theorem batch_completes_witness:
  "\<forall>K c j k. \<exists>s. pool_run K c (\<lambda>_. True) (idle_pool [j, k]) s \<and> pcs s 0 = Returned \<and>
     results s = [Some (compress_worker_job K c j), Some (compress_worker_job K c k)]"
proof (intro allI)
  fix K c j k
  let ?s0 = "idle_pool [j, k]"
  obtain s where s: "pool_run K c (\<lambda>_. True) ?s0 s" "pcs s 0 = Returned"
    using pool_returns [where K = K and c = c and contexts = "\<lambda>_. True", OF pool_run.start at_rest_inv [OF idle_at_rest [of "[j, k]"]]] by auto
  then have "results s = [Some (compress_worker_job K c j), Some (compress_worker_job K c k)]"
    using batch_completes [OF idle_at_rest _ s(1)] by simp
  then show "\<exists>s. pool_run K c (\<lambda>_. True) ?s0 s \<and> pcs s 0 = Returned \<and> results s = [Some (compress_worker_job K c j), Some (compress_worker_job K c k)]"
    using s by blast
qed

section \<open>A pool that is not at rest\<close>

text \<open>The step a thread takes, as a function.\<close>

definition pool_move :: "codec \<Rightarrow> ctx \<Rightarrow> nat \<Rightarrow> compress_pool \<Rightarrow> compress_pool option" where
  "pool_move K c t s =
     (case pcs s t of
        Waiting \<Rightarrow> if t = 0 \<or> shutdown s \<or> async_queue s \<noteq> [] \<or> my_gen s t = generation s then None else Some (wake (\<lambda>_. True) t s)
      | Claim n \<Rightarrow> Some (claim t n s)
      | Running i n \<Rightarrow> Some (run_job K c t i n s)
      | Adding n \<Rightarrow> Some (add_done t n s)
      | Signalling \<Rightarrow> Some (signal t s)
      | p \<Rightarrow> if t \<noteq> 0 then None else
          (case p of
             FillJobs js \<Rightarrow> Some (go 0 FillNext (fill_jobs js s))
           | FillNext \<Rightarrow> Some (go 0 FillDone (s\<lparr>next_job := 0\<rparr>))
           | FillDone \<Rightarrow> Some (go 0 Publish (s\<lparr>jobs_done := 0\<rparr>))
           | Publish \<Rightarrow> Some (publish (\<lambda>_. True) s)
           | Checking \<Rightarrow> Some (check_done s)
           | _ \<Rightarrow> None))"

lemma pool_move_step: "pool_move K c t s = Some s' \<Longrightarrow> pool_step K c (\<lambda>_. True) s s'"
  by (cases "pcs s t") (auto simp: pool_move_def intro: pool_step.intros split: if_splits)

fun pool_moves :: "codec \<Rightarrow> ctx \<Rightarrow> nat list \<Rightarrow> compress_pool \<Rightarrow> compress_pool option" where
  "pool_moves K c [] s = Some s"
| "pool_moves K c (t # ts) s = Option.bind (pool_move K c t s) (pool_moves K c ts)"

lemma pool_moves_run: "pool_run K c (\<lambda>_. True) s0 s \<Longrightarrow> pool_moves K c ts s = Some s' \<Longrightarrow> pool_run K c (\<lambda>_. True) s0 s'"
proof (induction ts arbitrary: s)
  case (Cons t ts)
  then obtain s1 where s1: "pool_move K c t s = Some s1" "pool_moves K c ts s1 = Some s'" by (auto simp: bind_eq_Some_conv)
  show ?case by (rule Cons.IH [OF pool_run.more [OF Cons.prems(1) pool_move_step [OF s1(1)]] s1(2)])
qed simp

text \<open>
  Between two batches a pool may not be at rest: a worker that woke for the first batch but had
  not claimed a job when the submitter returned claims one of the second batch while that is
  being filled in. The job is then run twice, its double report counts for another one, and the
  submitter returns while the first job has no result.
\<close>

definition first_schedule :: "nat list" where
  "first_schedule = [0, 0, 0, 0, 1, 0, 0, 0, 0, 0, 0]"

definition second_schedule :: "nat list" where
  "second_schedule = [0, 1, 0, 0, 0, 2, 2, 0, 0, 0, 0, 0, 0, 1, 1, 1, 0]"

lemmas pool_eval = pool_move_def go_def after_batch_def fill_jobs_def publish_def wake_def claim_def run_job_def add_done_def signal_def check_done_def
  idle_pool_def first_schedule_def second_schedule_def

lemma late_worker_cuts_batch:
  "\<exists>s1 s2. pool_run K c (\<lambda>_. True) (idle_pool [j]) s1 \<and> pcs s1 0 = Returned \<and>
     pool_run K c (\<lambda>_. True) (go 0 (FillJobs [j, j, j]) s1) s2 \<and> pcs s2 0 = Returned \<and> results s2 ! 0 = None \<and> runs s2 2 = 2"
proof -
  have "case pool_moves K c first_schedule (idle_pool [j]) of
      None \<Rightarrow> False
    | Some s1 \<Rightarrow> pcs s1 0 = Returned \<and>
        (case pool_moves K c second_schedule (go 0 (FillJobs [j, j, j]) s1) of
           None \<Rightarrow> False
         | Some s2 \<Rightarrow> pcs s2 0 = Returned \<and> results s2 ! 0 = None \<and> runs s2 2 = 2)"
    by (simp add: pool_eval)
  then show ?thesis using pool_moves_run [OF pool_run.start] by (fastforce split: option.splits)
qed

end
