(* ===== verification/Spec2Isabelle.thy ===== *)
theory Spec2Isabelle
  imports CdBtree Inode Refcount Catalog MediaTag FileTruncate CdSector CompressPool
begin

text \<open>
  OBMAFS3 is a filesystem for disc images. A volume is one image file of blocks: the
  superblock with a backup copy in the last block, the allocation bitmap, and one B+Tree per
  kind of metadata. The library under src/src/lib keeps the open volume in a
  struct obmafs3\_ctx and offers operations on each tree; the FUSE mount, the checker, the
  defragmenter, the query tool and the importers are clients of it.

  \<^bold>\<open>How the parts fit.\<close> Every component reads and writes whole blocks (io.c). The superblock
  says where the bitmap and the tree headers are. A tree takes nodes from its own free list,
  which grows by clumps taken from the bitmap (btree.c, bitmap.c). Inodes name runs of blocks,
  the reference counts say how many inodes share a block, the catalog gives inodes their
  names, media tags and CD side data hang off inodes and hashes.

  \<^bold>\<open>Theories and sources.\<close>
  \<^item> Prelude: machine integers, result codes (obmafs.h), byte buffers, little-endian fields,
    packed records.
  \<^item> Context: struct obmafs3\_ctx with the superblock and tree headers it caches, the image
    file, obmafs3\_block\_read and obmafs3\_block\_write with the places at which they fail. The
    locale block\_store states what a read gives after a write.
  \<^item> Checksum: checksum.c; the XXH64 hash is a field of the context.
  \<^item> Superblock: superblock.c and the superblock part of obmafs3\_open\_flags (io.c). C1 is the
    round trip of both copies, C2 the recovery from the backup.
  \<^item> Bitmap: bitmap.c. C3 states what set and clear change, C4 that the search over 64-bit
    words finds what a search bit by bit finds, C5 which runs it misses, C6 the round trip
    through the volume.
  \<^item> Btree: btree.c. C7 is the round trip of a tree header, C8 the contract of block
    allocation, C9 the free list of nodes. The locale block\_allocator states what a
    client of the allocator may rely on.
  \<^item> BPlusTree, BPlusNode, BPlusShape, BPlusWorld, BPlusInsert, BPlusOps, BPlusDelete: the
    B+Tree on disk. BPlusTree and BPlusDelete hold the code (cd\_btree.c; inode.c, refcount.c,
    catalog.c and media\_tag.c hold the same algorithm for their record types), the others the
    decoding of nodes, the abstract tree with its order invariant, and the proof that
    insertion and deletion act as on the sorted list of records.
  \<^item> TreeStore, RecordStore: several trees on one volume, and the locales tree\_store and
    record\_store between a tree and the component that keeps its records in it.
  \<^item> LeafChain: the leaves in chain order, which listings follow.
  \<^item> CdBtree: the CD trees of cd\_btree.c. C11 to C13.
  \<^item> Inode: inode.c. C14, C15.
  \<^item> Refcount: refcount.c. C16 to C19.
  \<^item> Catalog: catalog.c. C20 to C24.
  \<^item> MediaTag: media\_tag.c. C25 to C27.
  \<^item> Overflow: the overflow extent tree of block.c. C28 to C30.
  \<^item> Extents: the extent map of a file (find\_extent, collect\_all\_extents, write\_extent\_list of
    block.c). C31, C32; C32 is the refinement of the map from logical to physical blocks.
  \<^item> FileRead: obmafs3\_read\_file\_data and the compressed groups (block.c). C33.
  \<^item> FileWrite, FileAppend: obmafs3\_write\_file\_data and obmafs3\_free\_file\_blocks (block.c). C34 is
    the round trip of an append, C35 the misplaced append behind a gap.
  \<^item> FileCut, FileRewrite: the path of obmafs3\_write\_file\_data that rewrites groups in place.
    C36.
  \<^item> FileTruncate: obmafs3\_truncate\_file\_blocks (block.c). C10.
  \<^item> EccCd: ecc\_cd.c. C37 identifies the table-driven error detection code with the CRC it
    implements, C38 states which changes of a sector the checks find.
  \<^item> CdSector: how obmafs3\_cd\_write\_long (mount/fuse\_ioctl.c) takes a raw sector apart and the read
    path of CD images (dedup\_read.c) puts it together. C39 is the round trip through both, over
    the trees of CdBtree and the codes of EccCd.
  \<^item> CompressPool: the threads that compress the groups of a write (block.c), as a step relation.
    C40: every interleaving runs each job once and comes to the return of the submitter. A
    lemma shows what happens when a worker of the previous batch comes late.

  \<^bold>\<open>State and operations.\<close> A C function that takes the context becomes a function from a
  context to a result code, its outputs and the changed context. Return codes are the
  constructors of \<^typ>\<open>rc\<close>. The order of writes, and what has been written when a later step
  fails, is the code's.

  \<^bold>\<open>Specification of a tree.\<close> A tree holds a list of records sorted by key. A lookup finds
  the record with the key; an insertion inserts into or replaces in that list, or reports that
  no node could be allocated; a deletion removes from it. The lemmas of record\_store carry
  this to the encoded records, and each component interprets the locale on its own encoding
  and tree. Blocks outside the tree and its header keep their contents, so trees on one volume
  are independent.

  \<^bold>\<open>Bounds.\<close> The path of an insertion has BTREE\_MAX\_DEPTH = 8 levels, as in the code, and a
  tree of the invariant is at most that deep. A descent and a walk along leaves may loop on a
  damaged volume and are options; the theorems state that they return on a well-formed tree.
  Deletion never rebalances; its lemmas are for trees with at most one level of index nodes,
  since below two levels the code leaves index nodes without keys. Names of catalog records
  have at most 254 bytes: strncpy into the 256-byte field leaves its last byte to the caller.
  What malloc returns is a parameter (heap\_ok), and so are the bytes behind the bitmap buffer
  that the last 64-bit read may reach (heap\_past).

  \<^bold>\<open>Not modelled.\<close> Locks and threads outside the compression pool: operations run one after
  another. Reads behind a node buffer, which a damaged key count causes. Cloning of
  files (block.c), the deduplicated store (dedup\_*.c, apart from the reconstruction of CD
  sectors), image metadata (metadata.c, metadata\_numeric.c, user\_index.c), sector tags and
  junk maps, the cryptographic primitives and the readers of console discs are open. The mount, the tools and the importers are glue over the library and over
  code outside the repository (FUSE, image libraries, compressors).
\<close>

end
